(* ===== verification/Prelude.thy ===== *)
theory Prelude
  imports Main "HOL-Library.Word" "HOL-Library.Monad_Syntax" "HOL-Library.Multiset"
begin

text \<open>
  Shared vocabulary of the development: the machine integers of the 32-bit kernel, the
  treatment of run-time faults, and the strict weak orders that the comparison callbacks of
  the C library must be.

  A C function that can hit a failing \<^verbatim>\<open>ASSERT\<close>, dereference a null pointer,
  or loop forever is translated into a function with an \<open>option\<close> result: \<open>None\<close> is
  "does not return normally" (kernel panic or no return), \<open>Some\<close> carries the new state and the
  return value.  Error codes that the C code returns (a null pointer, \<open>-1\<close>, \<open>false\<close>) stay
  ordinary values.
\<close>

unbundle bit_operations_syntax

section \<open>Machine integers\<close>

type_synonym u8 = "8 word"
type_synonym u16 = "16 word"
type_synonym u32 = "32 word"
type_synonym u64 = "64 word"

lemma unat_of_nat_small: "n < 2 ^ 32 \<Longrightarrow> unat (of_nat n :: u32) = n"
  by (simp add: unat_of_nat take_bit_nat_eq_self)

lemma sint_small: "unat w < 2 ^ 31 \<Longrightarrow> sint w = int (unat w)" for w :: u32
proof -
  assume "unat w < 2 ^ 31"
  then have "int (unat w) < int (2 ^ 31)" by (simp only: of_nat_less_iff)
  moreover have "- (2 ^ 31) \<le> int (unat w)" by (rule order_trans [of _ 0]) (simp, rule of_nat_0_le_iff)
  ultimately have "signed_take_bit 31 (int (unat w)) = int (unat w)" by (intro signed_take_bit_int_eq_self) simp_all
  then show ?thesis by (simp add: sint_uint)
qed

text \<open>Pointers of the 80x86 kernel are 32 bits wide; the null pointer is 0.\<close>

type_synonym ptr = "32 word"

abbreviation NULL :: ptr where
  "NULL \<equiv> 0"

section \<open>Faults\<close>

text \<open>\<open>chk b\<close> is \<^verbatim>\<open>ASSERT (b)\<close>: it stops the function when \<open>b\<close> fails.\<close>

definition chk :: "bool \<Rightarrow> unit option" where
  "chk b = (if b then Some () else None)"

lemma chk_simps [simp]: "chk True = Some ()" "chk False = None"
  by (simp_all add: chk_def)

lemma chk_bind [simp]: "Option.bind (chk b) f = (if b then f () else None)"
  by (simp add: chk_def)

lemma chk_eq_Some [simp]: "chk b = Some u \<longleftrightarrow> b"
  by (simp add: chk_def)

text \<open>
  Where signed arithmetic is modelled over \<open>int\<close>, a result outside the range of its type is
  undefined behaviour and a fault.
\<close>

definition s32_ok :: "int \<Rightarrow> bool" where
  "s32_ok x \<longleftrightarrow> - (2 ^ 31) \<le> x \<and> x < 2 ^ 31"

definition s64_ok :: "int \<Rightarrow> bool" where
  "s64_ok x \<longleftrightarrow> - (2 ^ 63) \<le> x \<and> x < 2 ^ 63"

definition s32 :: "int \<Rightarrow> int option" where
  "s32 x = (if s32_ok x then Some x else None)"

definition s64 :: "int \<Rightarrow> int option" where
  "s64 x = (if s64_ok x then Some x else None)"

definition trunc32 :: "int \<Rightarrow> int" where
  "trunc32 x = (x + 2 ^ 31) mod 2 ^ 32 - 2 ^ 31"

lemma s32_Some [simp]: "s32 x = Some y \<longleftrightarrow> s32_ok x \<and> y = x"
  by (auto simp: s32_def)

lemma s64_Some [simp]: "s64 x = Some y \<longleftrightarrow> s64_ok x \<and> y = x"
  by (auto simp: s64_def)

lemma s32_in: "s32_ok x \<Longrightarrow> s32 x = Some x"
  by simp

lemma s64_in: "s64_ok x \<Longrightarrow> s64 x = Some x"
  by simp

lemma trunc32_id: "s32_ok x \<Longrightarrow> trunc32 x = x"
  by (auto simp: trunc32_def s32_ok_def)

lemma trunc32_ok: "s32_ok (trunc32 x)"
  by (auto simp: trunc32_def s32_ok_def)

lemma s32_s64: "s32_ok x \<Longrightarrow> s64_ok x"
  by (auto simp: s32_ok_def s64_ok_def)

section \<open>Bytes\<close>

text \<open>A 32-bit number is stored with its least significant byte first.\<close>

definition le_bytes :: "u32 \<Rightarrow> u8 list" where
  "le_bytes w = [ucast w, ucast (drop_bit 8 w), ucast (drop_bit 16 w), ucast (drop_bit 24 w)]"

definition le_word :: "u8 list \<Rightarrow> u32" where
  "le_word bs = foldr (\<lambda>b w. ucast b OR push_bit 8 w) (take 4 bs) 0"

lemma length_le_bytes [simp]: "length (le_bytes w) = 4"
  by (simp add: le_bytes_def)

lemma le_word_le_bytes [simp]: "le_word (le_bytes w @ bs) = w"
proof (rule bit_word_eqI)
  fix n assume "n < LENGTH(32)"
  then consider "n < 8" | "8 \<le> n" "n < 16" | "16 \<le> n" "n < 24" | "24 \<le> n" "n < 32" by force
  then show "bit (le_word (le_bytes w @ bs)) n = bit w n"
    by cases (auto simp: le_word_def le_bytes_def bit_simps)
qed

lemma le_word_only [simp]: "le_word (le_bytes w) = w"
  using le_word_le_bytes [of w "[]"] by simp

text \<open>Reading and replacing a part of a sequence.\<close>

definition slice :: "nat \<Rightarrow> nat \<Rightarrow> 'a list \<Rightarrow> 'a list" where
  "slice k n xs = take n (drop k xs)"

definition overwrite :: "nat \<Rightarrow> 'a list \<Rightarrow> 'a list \<Rightarrow> 'a list" where
  "overwrite k bs xs = take k xs @ bs @ drop (k + length bs) xs"

lemma length_slice [simp]: "k + n \<le> length xs \<Longrightarrow> length (slice k n xs) = n"
  by (simp add: slice_def)

lemma nth_slice [simp]: "k + n \<le> length xs \<Longrightarrow> i < n \<Longrightarrow> slice k n xs ! i = xs ! (k + i)"
  by (simp add: slice_def)

lemma length_overwrite [simp]: "k + length bs \<le> length xs \<Longrightarrow> length (overwrite k bs xs) = length xs"
  by (simp add: overwrite_def)

lemma nth_overwrite:
  "k + length bs \<le> length xs \<Longrightarrow> i < length xs \<Longrightarrow>
   overwrite k bs xs ! i = (if k \<le> i \<and> i < k + length bs then bs ! (i - k) else xs ! i)"
  by (auto simp: overwrite_def nth_append)

lemma overwrite_Nil [simp]: "overwrite k [] xs = xs"
  by (simp add: overwrite_def)

lemma slice_overwrite_same: "k + length bs \<le> length xs \<Longrightarrow> slice k (length bs) (overwrite k bs xs) = bs"
  by (simp add: slice_def overwrite_def)

lemma slice_overwrite_other:
  assumes "j + length bs \<le> length xs" "k + n \<le> length xs" "k + n \<le> j \<or> j + length bs \<le> k"
  shows "slice k n (overwrite j bs xs) = slice k n xs"
  by (rule nth_equalityI) (use assms in \<open>auto simp: nth_overwrite\<close>)

lemma slice_overwrite_in:
  assumes "p + length bs \<le> n" "k + n \<le> length xs"
  shows "slice k n (overwrite (k + p) bs xs) = overwrite p bs (slice k n xs)"
  by (rule nth_equalityI) (use assms in \<open>auto simp: nth_overwrite\<close>)

lemma overwrite_slice:
  assumes "p + length bs \<le> n" "k + n \<le> length xs"
  shows "overwrite k (overwrite p bs (slice k n xs)) xs = overwrite (k + p) bs xs"
  by (rule nth_equalityI) (use assms in \<open>auto simp: nth_overwrite\<close>)

lemma overwrite_append:
  assumes "k + length as + length bs \<le> length xs"
  shows "overwrite (k + length as) bs (overwrite k as xs) = overwrite k (as @ bs) xs"
  by (rule nth_equalityI) (use assms in \<open>auto simp: nth_overwrite nth_append\<close>)

lemma slice_slice: "p + m \<le> n \<Longrightarrow> slice p m (slice k n xs) = slice (k + p) m xs"
  by (simp add: slice_def drop_take ac_simps)

lemma slice_append: "slice k m xs @ slice (k + m) n xs = slice k (m + n) xs"
  by (simp add: slice_def take_add ac_simps)

section \<open>Strict weak orders\<close>

text \<open>
  \<^verbatim>\<open>list_less_func\<close>, \<^verbatim>\<open>hash_less_func\<close> and the priority comparisons of
  the scheduler must be strict weak orders for the library routines to make sense: this is the
  interface between the ordered containers and their clients.
\<close>

abbreviation nondec :: "('a \<Rightarrow> 'a \<Rightarrow> bool) \<Rightarrow> 'a list \<Rightarrow> bool" where
  "nondec lt \<equiv> sorted_wrt (\<lambda>x y. \<not> lt y x)"

locale strict_weak =
  fixes lt :: "'a \<Rightarrow> 'a \<Rightarrow> bool"
  assumes asym: "lt x y \<Longrightarrow> \<not> lt y x"
    and neg_trans: "lt x z \<Longrightarrow> lt x y \<or> lt y z"
begin

lemma irrefl: "\<not> lt x x"
  using asym by blast

lemma le_trans: "\<not> lt y x \<Longrightarrow> \<not> lt z y \<Longrightarrow> \<not> lt z x"
  using neg_trans by blast

lemma less_le_trans: "lt x y \<Longrightarrow> \<not> lt z y \<Longrightarrow> lt x z"
  using neg_trans by blast

lemma transp_le: "transp (\<lambda>x y. \<not> lt y x)"
  by (rule transpI) (use le_trans in blast)

lemma nondec_iff_successively:
  "nondec lt xs \<longleftrightarrow> successively (\<lambda>x y. \<not> lt y x) xs"
  by (simp add: successively_conv_sorted_wrt [OF transp_le])

end

end
