(* ===== verification/List_Heap.thy ===== *)
theory List_Heap
  imports Prelude
begin

text \<open>
  The doubly linked lists of \<^verbatim>\<open>lib/kernel/list.c\<close> on an explicit heap of links.

  A heap gives every address the \<^verbatim>\<open>prev\<close> and \<^verbatim>\<open>next\<close> member of the
  \<^verbatim>\<open>struct list_elem\<close> there.  A \<^verbatim>\<open>struct list\<close> at address \<open>l\<close> is its two
  header elements: the head at \<open>l\<close> and the tail 8 bytes above it.  Every operation is translated
  with its assertions and its pointer assignments in the order of the code.  \<open>lrep h l xs\<close>
  states that the list at \<open>l\<close> holds exactly the elements \<open>xs\<close>, front to back; the lemmas show
  that every operation implements its counterpart on \<open>xs\<close> and leaves every other
  link of the heap alone (\<open>agree\<close>).
\<close>

section \<open>The heap of links\<close>

record lheap =
  prev_of :: "ptr \<Rightarrow> ptr"
  next_of :: "ptr \<Rightarrow> ptr"

definition set_prev :: "lheap \<Rightarrow> ptr \<Rightarrow> ptr \<Rightarrow> lheap" where
  "set_prev h e p = h\<lparr>prev_of := (prev_of h)(e := p)\<rparr>"

definition set_next :: "lheap \<Rightarrow> ptr \<Rightarrow> ptr \<Rightarrow> lheap" where
  "set_next h e p = h\<lparr>next_of := (next_of h)(e := p)\<rparr>"

lemma link_simps [simp]:
  "prev_of (set_prev h e p) = (prev_of h)(e := p)"
  "next_of (set_prev h e p) = next_of h"
  "prev_of (set_next h e p) = prev_of h"
  "next_of (set_next h e p) = (next_of h)(e := p)"
  by (simp_all add: set_prev_def set_next_def)

text \<open>\<^verbatim>\<open>&list->head\<close> and \<^verbatim>\<open>&list->tail\<close>.\<close>

definition list_head_addr :: "ptr \<Rightarrow> ptr" where
  "list_head_addr l = l"

definition list_tail_addr :: "ptr \<Rightarrow> ptr" where
  "list_tail_addr l = l + 8"

lemma head_addr [simp]: "list_head_addr l = l"
  by (simp add: list_head_addr_def)

lemma tail_addr_neq [simp]: "list_tail_addr l \<noteq> l" "l \<noteq> list_tail_addr l"
  by (simp_all add: list_tail_addr_def)

section \<open>Operations\<close>

definition is_head :: "lheap \<Rightarrow> ptr \<Rightarrow> bool" where
  "is_head h e \<longleftrightarrow> e \<noteq> NULL \<and> prev_of h e = NULL \<and> next_of h e \<noteq> NULL"

definition is_interior :: "lheap \<Rightarrow> ptr \<Rightarrow> bool" where
  "is_interior h e \<longleftrightarrow> e \<noteq> NULL \<and> prev_of h e \<noteq> NULL \<and> next_of h e \<noteq> NULL"

definition is_tail :: "lheap \<Rightarrow> ptr \<Rightarrow> bool" where
  "is_tail h e \<longleftrightarrow> e \<noteq> NULL \<and> prev_of h e \<noteq> NULL \<and> next_of h e = NULL"

definition list_init :: "lheap \<Rightarrow> ptr \<Rightarrow> lheap option" where
  "list_init h l = do {
     chk (l \<noteq> NULL);
     let h = set_prev h (list_head_addr l) NULL;
     let h = set_next h (list_head_addr l) (list_tail_addr l);
     let h = set_prev h (list_tail_addr l) (list_head_addr l);
     Some (set_next h (list_tail_addr l) NULL) }"

definition list_begin :: "lheap \<Rightarrow> ptr \<Rightarrow> ptr option" where
  "list_begin h l = do { chk (l \<noteq> NULL); Some (next_of h (list_head_addr l)) }"

definition list_next :: "lheap \<Rightarrow> ptr \<Rightarrow> ptr option" where
  "list_next h e = do { chk (is_head h e \<or> is_interior h e); Some (next_of h e) }"

definition list_end :: "ptr \<Rightarrow> ptr option" where
  "list_end l = do { chk (l \<noteq> NULL); Some (list_tail_addr l) }"

definition list_rbegin :: "lheap \<Rightarrow> ptr \<Rightarrow> ptr option" where
  "list_rbegin h l = do { chk (l \<noteq> NULL); Some (prev_of h (list_tail_addr l)) }"

definition list_prev :: "lheap \<Rightarrow> ptr \<Rightarrow> ptr option" where
  "list_prev h e = do { chk (is_interior h e \<or> is_tail h e); Some (prev_of h e) }"

definition list_rend :: "ptr \<Rightarrow> ptr option" where
  "list_rend l = do { chk (l \<noteq> NULL); Some (list_head_addr l) }"

definition list_head :: "ptr \<Rightarrow> ptr option" where
  "list_head l = do { chk (l \<noteq> NULL); Some (list_head_addr l) }"

definition list_tail :: "ptr \<Rightarrow> ptr option" where
  "list_tail l = do { chk (l \<noteq> NULL); Some (list_tail_addr l) }"

definition list_insert :: "lheap \<Rightarrow> ptr \<Rightarrow> ptr \<Rightarrow> lheap option" where
  "list_insert h before elem = do {
     chk (is_interior h before \<or> is_tail h before);
     chk (elem \<noteq> NULL);
     let h = set_prev h elem (prev_of h before);
     let h = set_next h elem before;
     let h = set_next h (prev_of h before) elem;
     Some (set_prev h before elem) }"

definition list_splice :: "lheap \<Rightarrow> ptr \<Rightarrow> ptr \<Rightarrow> ptr \<Rightarrow> lheap option" where
  "list_splice h before first lst = do {
     chk (is_interior h before \<or> is_tail h before);
     if first = lst then Some h
     else do {
       lst \<leftarrow> list_prev h lst;
       chk (is_interior h first);
       chk (is_interior h lst);
       let h = set_next h (prev_of h first) (next_of h lst);
       let h = set_prev h (next_of h lst) (prev_of h first);
       let h = set_prev h first (prev_of h before);
       let h = set_next h lst before;
       let h = set_next h (prev_of h before) first;
       Some (set_prev h before lst) } }"

definition list_push_front :: "lheap \<Rightarrow> ptr \<Rightarrow> ptr \<Rightarrow> lheap option" where
  "list_push_front h l elem = do { b \<leftarrow> list_begin h l; list_insert h b elem }"

definition list_push_back :: "lheap \<Rightarrow> ptr \<Rightarrow> ptr \<Rightarrow> lheap option" where
  "list_push_back h l elem = do { e \<leftarrow> list_end l; list_insert h e elem }"

definition list_remove :: "lheap \<Rightarrow> ptr \<Rightarrow> (lheap \<times> ptr) option" where
  "list_remove h elem = do {
     chk (is_interior h elem);
     let h = set_next h (prev_of h elem) (next_of h elem);
     let h = set_prev h (next_of h elem) (prev_of h elem);
     Some (h, next_of h elem) }"

definition list_empty :: "lheap \<Rightarrow> ptr \<Rightarrow> bool option" where
  "list_empty h l = do { b \<leftarrow> list_begin h l; e \<leftarrow> list_end l; Some (b = e) }"

definition list_front :: "lheap \<Rightarrow> ptr \<Rightarrow> ptr option" where
  "list_front h l = do {
     e \<leftarrow> list_empty h l; chk (\<not> e); Some (next_of h (list_head_addr l)) }"

definition list_back :: "lheap \<Rightarrow> ptr \<Rightarrow> ptr option" where
  "list_back h l = do {
     e \<leftarrow> list_empty h l; chk (\<not> e); Some (prev_of h (list_tail_addr l)) }"

definition list_pop_front :: "lheap \<Rightarrow> ptr \<Rightarrow> (lheap \<times> ptr) option" where
  "list_pop_front h l = do {
     front \<leftarrow> list_front h l; (h, _) \<leftarrow> list_remove h front; Some (h, front) }"

definition list_pop_back :: "lheap \<Rightarrow> ptr \<Rightarrow> (lheap \<times> ptr) option" where
  "list_pop_back h l = do {
     back \<leftarrow> list_back h l; (h, _) \<leftarrow> list_remove h back; Some (h, back) }"

partial_function (option) list_size_loop :: "lheap \<Rightarrow> ptr \<Rightarrow> ptr \<Rightarrow> u32 \<Rightarrow> u32 option" where
  "list_size_loop h l e cnt =
     (if e = list_tail_addr l then Some cnt
      else do { e \<leftarrow> list_next h e; list_size_loop h l e (cnt + 1) })"

definition list_size :: "lheap \<Rightarrow> ptr \<Rightarrow> u32 option" where
  "list_size h l = do { e \<leftarrow> list_begin h l; list_size_loop h l e 0 }"

text \<open>\<^verbatim>\<open>swap (&e->prev, &e->next)\<close>.\<close>

definition swap_links :: "lheap \<Rightarrow> ptr \<Rightarrow> lheap" where
  "swap_links h e = set_next (set_prev h e (next_of h e)) e (prev_of h e)"

partial_function (option) list_reverse_loop :: "lheap \<Rightarrow> ptr \<Rightarrow> ptr \<Rightarrow> lheap option" where
  "list_reverse_loop h l e =
     (if e = list_tail_addr l then Some h
      else do {
        chk (e \<noteq> NULL);
        let h = swap_links h e;
        list_reverse_loop h l (prev_of h e) })"

definition list_reverse :: "lheap \<Rightarrow> ptr \<Rightarrow> lheap option" where
  "list_reverse h l = do {
     empty \<leftarrow> list_empty h l;
     if empty then Some h
     else do {
       e \<leftarrow> list_begin h l;
       h \<leftarrow> list_reverse_loop h l e;
       let hdp = list_head_addr l;
       let tlp = list_tail_addr l;
       let (a, b) = (next_of h hdp, prev_of h tlp);
       let h = set_prev (set_next h hdp b) tlp a;
       let x = next_of h hdp;
       let y = prev_of h tlp;
       let (v, w) = (prev_of h x, next_of h y);
       Some (set_next (set_prev h x w) y v) } }"

section \<open>What a list holds\<close>

fun chain :: "lheap \<Rightarrow> ptr list \<Rightarrow> bool" where
  "chain h (a # b # ns) \<longleftrightarrow> next_of h a = b \<and> prev_of h b = a \<and> chain h (b # ns)"
| "chain h _ \<longleftrightarrow> True"

definition nodes :: "ptr \<Rightarrow> ptr list \<Rightarrow> ptr list" where
  "nodes l xs = list_head_addr l # xs @ [list_tail_addr l]"

definition lrep :: "lheap \<Rightarrow> ptr \<Rightarrow> ptr list \<Rightarrow> bool" where
  "lrep h l xs \<longleftrightarrow>
     NULL \<notin> set (nodes l xs) \<and> distinct (nodes l xs)
     \<and> prev_of h l = NULL \<and> next_of h (list_tail_addr l) = NULL \<and> chain h (nodes l xs)"

text \<open>Two heaps agree on a set of addresses; the frame of every operation.\<close>

definition agree :: "ptr set \<Rightarrow> lheap \<Rightarrow> lheap \<Rightarrow> bool" where
  "agree A h h' \<longleftrightarrow> (\<forall>a \<in> A. prev_of h' a = prev_of h a \<and> next_of h' a = next_of h a)"

text \<open>The cursor that stands before the elements \<open>bs\<close> of the list at \<open>l\<close>.\<close>

fun cursor :: "ptr \<Rightarrow> ptr list \<Rightarrow> ptr" where
  "cursor l [] = list_tail_addr l"
| "cursor l (b # bs) = b"

lemma chain_Cons_iff: "chain h (a # ns) \<longleftrightarrow>
  (case ns of [] \<Rightarrow> True | b # _ \<Rightarrow> next_of h a = b \<and> prev_of h b = a \<and> chain h ns)"
  by (cases ns) auto

lemma chain_append:
  "chain h (as @ b # bs) \<longleftrightarrow> chain h (as @ [b]) \<and> chain h (b # bs)"
  by (induction as rule: induct_list012) auto

lemma chain_set_next: "a \<notin> set (butlast ns) \<Longrightarrow> chain (set_next h a b) ns = chain h ns"
  by (induction h ns rule: chain.induct) auto

lemma chain_set_prev: "a \<notin> set (tl ns) \<Longrightarrow> chain (set_prev h a b) ns = chain h ns"
  by (induction h ns rule: chain.induct) auto

lemma chain_set_prev_notin: "a \<notin> set ns \<Longrightarrow> chain (set_prev h a b) ns = chain h ns"
  by (rule chain_set_prev) (cases ns; simp)

lemma chain_set_prev_first: "a \<notin> set ns \<Longrightarrow> chain (set_prev h a b) (a # ns) = chain h (a # ns)"
  by (rule chain_set_prev) simp

lemma chain_set_next_last: "a \<notin> set ns \<Longrightarrow> chain (set_next h a b) (ns @ [a]) = chain h (ns @ [a])"
  by (rule chain_set_next) simp

lemma chain_set_next_notin: "a \<notin> set ns \<Longrightarrow> chain (set_next h a b) ns = chain h ns"
  by (rule chain_set_next) (auto dest: in_set_butlastD)

lemmas chain_frame = chain_set_prev_notin chain_set_prev_first chain_set_next_last chain_set_next_notin

lemma chain_prefix: "chain h (as @ bs) \<Longrightarrow> chain h as"
  by (induction as rule: induct_list012) auto

lemma chain_snoc:
  "chain h ns \<Longrightarrow> ns \<noteq> [] \<Longrightarrow> next_of h (last ns) = c \<Longrightarrow> prev_of h c = last ns \<Longrightarrow> chain h (ns @ [c])"
  by (induction h ns rule: chain.induct) auto

text \<open>Unlinking a segment \<open>ms\<close> of a chain, and linking one in.\<close>

definition unlink :: "lheap \<Rightarrow> ptr \<Rightarrow> ptr \<Rightarrow> lheap" where
  "unlink h first lst =
     (let h = set_next h (prev_of h first) (next_of h lst)
      in set_prev h (next_of h lst) (prev_of h first))"

definition relink :: "lheap \<Rightarrow> ptr \<Rightarrow> ptr \<Rightarrow> ptr \<Rightarrow> lheap" where
  "relink h before first lst =
     (let h = set_prev h first (prev_of h before);
          h = set_next h lst before;
          h = set_next h (prev_of h before) first
      in set_prev h before lst)"

lemma chain_unlink:
  assumes "chain h (us @ p # ms @ c # vs)" "distinct (us @ p # ms @ c # vs)"
  shows "chain (set_prev (set_next h p c) c p) (us @ p # c # vs)"
    and "chain (set_prev (set_next h p c) c p) ms"
proof -
  let ?h = "set_prev (set_next h p c) c p"
  have split: "chain h (us @ [p])" "chain h (p # ms @ [c])" "chain h (c # vs)"
    using assms(1) chain_append [of h us p "ms @ c # vs"] chain_append [of h "us @ p # ms" c vs]
      chain_append [of h "us" p "ms @ [c]"] by auto
  have "chain ?h (us @ [p])" "chain ?h (c # vs)"
    using split assms(2) by (auto simp: chain_frame)
  then show "chain ?h (us @ p # c # vs)"
    using chain_append [of ?h us p "c # vs"] assms(2) by auto
  have "chain h ms"
    using split(2) chain_prefix [of h ms "[c]"] by (cases ms) auto
  then show "chain ?h ms"
    using assms(2) by (auto simp: chain_frame)
qed

lemma chain_relink:
  assumes "chain h (us @ p # c # vs)" "chain h ms" "ms \<noteq> []" "distinct (us @ p # ms @ c # vs)"
  shows "chain (set_prev (set_next (set_next (set_prev h (hd ms) p) (last ms) c) p (hd ms)) c (last ms))
           (us @ p # ms @ c # vs)"
    (is "chain ?h _")
proof -
  have in_ms: "hd ms \<in> set ms" "last ms \<in> set ms"
    using assms(3) by auto
  then have ne: "hd ms \<noteq> p" "hd ms \<noteq> c" "last ms \<noteq> p" "last ms \<noteq> c" "p \<noteq> c"
    "hd ms \<notin> set us" "hd ms \<notin> set vs" "last ms \<notin> set us" "last ms \<notin> set vs"
    "p \<notin> set ms" "c \<notin> set ms"
    using assms(4) by auto
  have split: "chain h (us @ [p])" "chain h (c # vs)"
    using assms(1) chain_append [of h us p "c # vs"] by auto
  have 1: "chain ?h (us @ [p])" "chain ?h (c # vs)"
    using split assms(4) ne by (auto simp: chain_frame)
  have "hd ms \<notin> set (tl ms)" "last ms \<notin> set (butlast ms)"
    using assms(3,4) by (cases ms; auto) (cases ms rule: rev_cases; use assms(4) in auto)
  then have ms: "chain ?h ms"
    using assms(2) ne by (simp add: chain_frame chain_set_prev chain_set_next)
  have "chain ?h (ms @ [c])"
    using ms assms(3) ne by (intro chain_snoc) auto
  then have "chain ?h (ms @ c # vs)"
    using 1(2) chain_append [of ?h ms c vs] by blast
  then have "chain ?h (p # ms @ c # vs)"
    using assms(3) ne by (cases ms) auto
  then show ?thesis
    using 1(1) chain_append [of ?h us p "ms @ c # vs"] by simp
qed

lemma chain_links:
  assumes "chain h (us @ p # c # vs)"
  shows "next_of h p = c" "prev_of h c = p"
  using assms chain_append [of h us p "c # vs"] by auto

lemma nodes_simps [simp]:
  "set (nodes l xs) = {l, list_tail_addr l} \<union> set xs"
  "distinct (nodes l xs) \<longleftrightarrow> distinct xs \<and> l \<notin> set xs \<and> list_tail_addr l \<notin> set xs"
  "nodes l xs \<noteq> []"
  by (auto simp: nodes_def)

text \<open>The cursor before \<open>bs\<close> and the node before it split the nodes of the list in two.\<close>

lemma nodes_split:
  "nodes l (as @ bs) = butlast (l # as) @ last (l # as) # cursor l bs # tl (bs @ [list_tail_addr l])"
proof -
  have "nodes l (as @ bs) = (l # as) @ (bs @ [list_tail_addr l])"
    by (simp add: nodes_def)
  also have "l # as = butlast (l # as) @ [last (l # as)]"
    by simp
  also have "bs @ [list_tail_addr l] = cursor l bs # tl (bs @ [list_tail_addr l])"
    by (cases bs) auto
  finally show ?thesis by simp
qed

lemma lrep_D:
  assumes "lrep h l xs"
  shows "l \<noteq> NULL" "list_tail_addr l \<noteq> NULL" "NULL \<notin> set xs" "distinct xs"
    "l \<notin> set xs" "list_tail_addr l \<notin> set xs"
    "prev_of h l = NULL" "next_of h (list_tail_addr l) = NULL"
  using assms by (auto simp: lrep_def)

lemma lrep_links:
  assumes "lrep h l (as @ bs)"
  shows "next_of h (last (l # as)) = cursor l bs" "prev_of h (cursor l bs) = last (l # as)"
  using assms chain_links [of h "butlast (l # as)" "last (l # as)" "cursor l bs"]
  by (auto simp: lrep_def nodes_split)

lemma cursor_in [simp]: "cursor l bs \<in> {list_tail_addr l} \<union> set bs"
  by (cases bs) auto

lemma lrep_nz:
  assumes "lrep h l (as @ bs)"
  shows "cursor l bs \<noteq> NULL" "last (l # as) \<noteq> NULL"
proof -
  have "last (l # as) \<in> set (l # as)" by (rule last_in_set) simp
  then show "cursor l bs \<noteq> NULL" "last (l # as) \<noteq> NULL"
    using lrep_D [OF assms] cursor_in [of l bs] by (auto simp del: last.simps last_in_set)
qed

lemma lrep_kinds:
  assumes "lrep h l (as @ bs)"
  shows "is_interior h (cursor l bs) \<or> is_tail h (cursor l bs)"
    and "is_head h (last (l # as)) \<or> is_interior h (last (l # as))"
    and "bs \<noteq> [] \<Longrightarrow> is_interior h (cursor l bs)"
    and "bs = [] \<Longrightarrow> is_tail h (cursor l bs)"
    and "as \<noteq> [] \<Longrightarrow> is_interior h (last as)"
proof -
  note d = lrep_D [OF assms] and lk = lrep_links [OF assms]
  note nz = lrep_nz [OF assms]
  show "bs \<noteq> [] \<Longrightarrow> is_interior h (cursor l bs)"
  proof -
    assume "bs \<noteq> []"
    then obtain b bs' where b: "bs = b # bs'" by (cases bs) auto
    have "next_of h b = cursor l bs'"
      using lrep_links [of h l "as @ [b]" bs'] assms b by simp
    then show ?thesis using nz lk d b cursor_in [of l bs'] by (auto simp: is_interior_def)
  qed
  moreover show "bs = [] \<Longrightarrow> is_tail h (cursor l bs)"
    using nz lk d by (auto simp: is_tail_def)
  ultimately show "is_interior h (cursor l bs) \<or> is_tail h (cursor l bs)" by blast
  show "as \<noteq> [] \<Longrightarrow> is_interior h (last as)"
  proof -
    assume "as \<noteq> []"
    then obtain as' a where a: "as = as' @ [a]" by (cases as rule: rev_cases) auto
    have "prev_of h a = last (l # as')"
      using lrep_links [of h l as' "a # bs"] assms a by simp
    moreover have "last (l # as') \<noteq> NULL"
      using lrep_nz [of h l as' "a # bs"] assms a by simp
    ultimately show ?thesis using nz lk d a
      by (simp add: is_interior_def)
  qed
  then show "is_head h (last (l # as)) \<or> is_interior h (last (l # as))"
    using nz lk d by (cases as) (auto simp: is_head_def)
qed
section \<open>Operations implement their counterparts on lists\<close>

lemma agree_refl [simp]: "agree A h h"
  by (simp add: agree_def)

lemma agree_trans: "agree A h h' \<Longrightarrow> agree A h' h'' \<Longrightarrow> agree A h h''"
  by (simp add: agree_def)

lemma agree_mono: "agree A h h' \<Longrightarrow> B \<subseteq> A \<Longrightarrow> agree B h h'"
  by (auto simp: agree_def)

lemma agree_updates:
  "a \<notin> A \<Longrightarrow> agree A h (set_next h' a b) = agree A h h'"
  "a \<notin> A \<Longrightarrow> agree A h (set_prev h' a b) = agree A h h'"
  by (auto simp: agree_def)

lemma chain_agree: "agree (set ns) h h' \<Longrightarrow> chain h' ns = chain h ns"
  by (induction h ns rule: chain.induct) (auto simp: agree_def)

lemma lrep_agree:
  assumes "agree (set (nodes l xs)) h h'" "lrep h l xs"
  shows "lrep h' l xs"
  using assms chain_agree [OF assms(1)] by (auto simp: lrep_def agree_def)

lemma list_init_rep:
  assumes "l \<noteq> NULL" "list_tail_addr l \<noteq> NULL"
  shows "\<exists>h'. list_init h l = Some h' \<and> lrep h' l [] \<and> agree (- set (nodes l [])) h h'"
  using assms by (auto simp: list_init_def lrep_def nodes_def agree_def Let_def)

lemma list_begin_rep: "lrep h l xs \<Longrightarrow> list_begin h l = Some (cursor l xs)"
  using lrep_links [of h l "[]" xs] by (auto simp: list_begin_def dest: lrep_D)

lemma list_end_rep: "lrep h l xs \<Longrightarrow> list_end l = Some (list_tail_addr l)"
  by (auto simp: list_end_def dest: lrep_D)

lemma list_rbegin_rep: "lrep h l xs \<Longrightarrow> list_rbegin h l = Some (last (l # xs))"
  using lrep_links [of h l xs "[]"] by (auto simp: list_rbegin_def dest: lrep_D)

lemma list_next_rep: "lrep h l (as @ x # bs) \<Longrightarrow> list_next h x = Some (cursor l bs)"
  using lrep_kinds(3) [of h l as "x # bs"] lrep_links [of h l "as @ [x]" bs]
  by (auto simp: list_next_def)

lemma list_next_head: "lrep h l xs \<Longrightarrow> list_next h l = Some (cursor l xs)"
  using lrep_kinds(2) [of h l "[]" xs] lrep_links [of h l "[]" xs]
  by (auto simp: list_next_def)

lemma list_prev_rep: "lrep h l (as @ bs) \<Longrightarrow> list_prev h (cursor l bs) = Some (last (l # as))"
  using lrep_kinds(1) [of h l as bs] lrep_links [of h l as bs]
  by (auto simp: list_prev_def)

lemma list_empty_rep: "lrep h l xs \<Longrightarrow> list_empty h l = Some (xs = [])"
  by (cases xs) (auto simp: list_empty_def list_begin_rep list_end_rep dest: lrep_D)

text \<open>Insertion and removal of a segment at a cursor of the list.\<close>

lemma nodes_join:
  "butlast (l # as) @ last (l # as) # ms @ cursor l bs # tl (bs @ [list_tail_addr l])
   = nodes l (as @ ms @ bs)"
proof -
  have "bs @ [list_tail_addr l] = cursor l bs # tl (bs @ [list_tail_addr l])"
    by (cases bs) auto
  then have "ms @ cursor l bs # tl (bs @ [list_tail_addr l]) = ms @ bs @ [list_tail_addr l]"
    by simp
  then show ?thesis
    by (simp add: nodes_def del: butlast.simps last.simps flip: append_Cons)
qed

lemma nodes_parts:
  "last (l # as) \<in> set (nodes l (as @ bs))" "cursor l bs \<in> set (nodes l (as @ bs))"
  unfolding nodes_split [of l as bs] by simp_all

lemma nodes_join_set: "set (nodes l (as @ ms @ bs)) = set ms \<union> set (nodes l (as @ bs))"
  by auto

lemma relink_rep:
  assumes rep: "lrep h l (as @ bs)" and ms: "chain h ms" "ms \<noteq> []" "NULL \<notin> set ms" "distinct ms"
    and dj: "set ms \<inter> set (nodes l (as @ bs)) = {}"
    and h': "h' = relink h (cursor l bs) (hd ms) (last ms)"
  shows "lrep h' l (as @ ms @ bs)" "agree (- (set (nodes l (as @ ms @ bs)))) h h'"
proof -
  let ?p = "last (l # as)" and ?c = "cursor l bs"
  note d = lrep_D [OF rep] and lk = lrep_links [OF rep] and np = nodes_parts [where l = l and as = as and bs = bs]
  have inm: "hd ms \<in> set ms" "last ms \<in> set ms"
    using ms by auto
  then have ne: "hd ms \<noteq> ?c" "hd ms \<noteq> ?p" "last ms \<noteq> ?c" "last ms \<noteq> ?p" "hd ms \<noteq> l"
      "last ms \<noteq> list_tail_addr l"
    using dj np by (auto simp del: nodes_simps last.simps) auto
  have eq: "h' = set_prev (set_next (set_next (set_prev h (hd ms) ?p) (last ms) ?c) ?p (hd ms)) ?c (last ms)"
    using ne lk by (simp add: h' relink_def)
  have dist: "distinct (nodes l (as @ ms @ bs))"
    using d ms dj by auto
  have "chain h' (butlast (l # as) @ ?p # ms @ ?c # tl (bs @ [list_tail_addr l]))"
    unfolding eq
  proof (rule chain_relink)
    show "chain h (butlast (l # as) @ ?p # ?c # tl (bs @ [list_tail_addr l]))"
      using rep by (simp only: lrep_def nodes_split)
    show "distinct (butlast (l # as) @ ?p # ms @ ?c # tl (bs @ [list_tail_addr l]))"
      using dist by (simp only: nodes_join)
  qed (use ms in auto)
  then have chain: "chain h' (nodes l (as @ ms @ bs))"
    by (simp only: nodes_join)
  have ends: "?p \<noteq> list_tail_addr l" "?c \<noteq> l"
    using d cursor_in [of l bs] last_in_set [of "l # as"] by (auto simp del: last_in_set)
  show "lrep h' l (as @ ms @ bs)"
    unfolding lrep_def using chain dist ends ne d ms by (auto simp: eq)
  show "agree (- (set (nodes l (as @ ms @ bs)))) h h'"
    using np inm by (simp add: eq agree_updates nodes_join_set del: nodes_simps last.simps)
qed

lemma unlink_rep:
  assumes rep: "lrep h l (as @ ms @ bs)" and ms: "ms \<noteq> []"
    and h': "h' = unlink h (hd ms) (last ms)"
  shows "lrep h' l (as @ bs)" "chain h' ms" "agree (- (set (nodes l (as @ bs)))) h h'"
proof -
  let ?p = "last (l # as)" and ?c = "cursor l bs"
  note d = lrep_D [OF rep] and np = nodes_parts [where l = l and as = as and bs = bs]
  have "prev_of h (hd ms) = ?p"
    using lrep_links(2) [OF rep] ms by (cases ms) auto
  moreover have "next_of h (last ms) = ?c"
    using lrep_links(1) [of h l "as @ ms" bs] rep ms by auto
  moreover have pc: "?p \<noteq> list_tail_addr l" "?c \<noteq> l"
    using d cursor_in [of l bs] last_in_set [of "l # as"] by (auto simp del: last_in_set)
  moreover have "last ms \<noteq> ?p"
    using d ms last_in_set [of "l # as"] last_in_set [OF ms] by (auto simp del: last_in_set)
  ultimately have eq: "h' = set_prev (set_next h ?p ?c) ?c ?p"
    by (simp add: h' unlink_def)
  have "chain h (butlast (l # as) @ ?p # ms @ ?c # tl (bs @ [list_tail_addr l]))"
    "distinct (butlast (l # as) @ ?p # ms @ ?c # tl (bs @ [list_tail_addr l]))"
    using rep by (simp_all only: lrep_def nodes_join)
  from chain_unlink [OF this] have chain: "chain h' (nodes l (as @ bs))" and "chain h' ms"
    unfolding eq by (simp_all only: nodes_split)
  then show "chain h' ms" by simp
  show "lrep h' l (as @ bs)"
    unfolding lrep_def using chain pc d by (auto simp: eq)
  show "agree (- (set (nodes l (as @ bs)))) h h'"
    using np by (simp add: eq agree_updates del: nodes_simps last.simps)
qed

text \<open>The operations of the library in these terms.\<close>

lemma list_insert_relink:
  "list_insert h b e = (if (is_interior h b \<or> is_tail h b) \<and> e \<noteq> NULL
     then Some (relink h b e e) else None)"
  by (simp add: list_insert_def relink_def Let_def)

lemma list_insert_rep:
  assumes "lrep h l (as @ bs)" "e \<noteq> NULL" "e \<notin> set (nodes l (as @ bs))"
  shows "\<exists>h'. list_insert h (cursor l bs) e = Some h' \<and> lrep h' l (as @ e # bs)
     \<and> agree (- insert e (set (nodes l (as @ bs)))) h h'"
  using relink_rep [OF assms(1), of "[e]"] assms(2,3) lrep_kinds(1) [OF assms(1)]
  by (auto simp: list_insert_relink insert_commute)

lemma list_remove_rep:
  assumes "lrep h l (as @ x # bs)"
  shows "\<exists>h'. list_remove h x = Some (h', cursor l bs) \<and> lrep h' l (as @ bs)
     \<and> agree (- set (nodes l (as @ bs))) h h'"
proof -
  have "list_remove h x = Some (unlink h x x, next_of (unlink h x x) x)"
    using lrep_kinds(3) [of h l as "x # bs"] assms by (simp add: list_remove_def unlink_def Let_def)
  moreover have "next_of (unlink h x x) x = cursor l bs"
    using unlink_rep(3) [of h l as "[x]" bs "unlink h x x"] assms lrep_links(1) [of h l "as @ [x]" bs]
      lrep_D [OF assms] by (auto simp: agree_def)
  ultimately show ?thesis
    using unlink_rep [of h l as "[x]" bs "unlink h x x"] assms by auto
qed

lemma ends_notin:
  "distinct xs \<Longrightarrow> xs \<noteq> [] \<Longrightarrow> last xs \<notin> set (tl (rev xs))"
  "distinct xs \<Longrightarrow> xs \<noteq> [] \<Longrightarrow> hd xs \<notin> set (tl xs)"
  by (cases xs rule: rev_cases; simp) (cases xs; simp)

lemma list_push_front_rep:
  assumes "lrep h l xs" "e \<noteq> NULL" "e \<notin> set (nodes l xs)"
  shows "\<exists>h'. list_push_front h l e = Some h' \<and> lrep h' l (e # xs)
     \<and> agree (- insert e (set (nodes l xs))) h h'"
  using list_insert_rep [of h l "[]" xs e] assms by (simp add: list_push_front_def list_begin_rep)

lemma list_push_back_rep:
  assumes "lrep h l xs" "e \<noteq> NULL" "e \<notin> set (nodes l xs)"
  shows "\<exists>h'. list_push_back h l e = Some h' \<and> lrep h' l (xs @ [e])
     \<and> agree (- insert e (set (nodes l xs))) h h'"
  using list_insert_rep [of h l xs "[]" e] assms by (simp add: list_push_back_def list_end_rep)

lemma list_front_rep: "lrep h l (x # xs) \<Longrightarrow> list_front h l = Some x"
  using lrep_links [of h l "[]" "x # xs"] by (simp add: list_front_def list_empty_rep)

lemma list_front_empty: "lrep h l [] \<Longrightarrow> list_front h l = None"
  by (simp add: list_front_def list_empty_rep)

lemma list_back_rep: "lrep h l (xs @ [x]) \<Longrightarrow> list_back h l = Some x"
  using lrep_links [of h l "xs @ [x]" "[]"] by (simp add: list_back_def list_empty_rep)

lemma list_pop_front_rep:
  assumes "lrep h l (x # xs)"
  shows "\<exists>h'. list_pop_front h l = Some (h', x) \<and> lrep h' l xs \<and> agree (- set (nodes l xs)) h h'"
  using list_remove_rep [of h l "[]" x xs] assms by (auto simp: list_pop_front_def list_front_rep)

lemma list_pop_back_rep:
  assumes "lrep h l (xs @ [x])"
  shows "\<exists>h'. list_pop_back h l = Some (h', x) \<and> lrep h' l xs \<and> agree (- set (nodes l xs)) h h'"
  using list_remove_rep [of h l xs x "[]"] assms by (auto simp: list_pop_back_def list_back_rep)

lemma list_splice_relink:
  "list_splice h before first lst =
     (if \<not> (is_interior h before \<or> is_tail h before) then None
      else if first = lst then Some h
      else if \<not> (is_interior h lst \<or> is_tail h lst) then None
      else if is_interior h first \<and> is_interior h (prev_of h lst)
      then Some (relink (unlink h first (prev_of h lst)) before first (prev_of h lst)) else None)"
  by (simp add: list_splice_def list_prev_def relink_def unlink_def Let_def)

text \<open>
  Splicing within one list: the elements \<open>ms\<close> move in front of \<open>cs\<close>.  (This is the call that
  \<^verbatim>\<open>inplace_merge\<close> makes.)
\<close>

lemma list_splice_within_rep:
  assumes "lrep h l (as @ cs @ ms @ bs)" and cs: "cs \<noteq> []"
  shows "\<exists>h'. list_splice h (cursor l (cs @ ms @ bs)) (cursor l (ms @ bs)) (cursor l bs) = Some h'
     \<and> lrep h' l (as @ ms @ cs @ bs) \<and> agree (- set (nodes l (as @ cs @ ms @ bs))) h h'"
proof (cases "ms = []")
  case True
  then show ?thesis
    using assms(1) lrep_kinds(1) [of h l as "cs @ bs"] by (auto simp: list_splice_relink)
next
  case False
  have rep: "lrep h l ((as @ cs) @ ms @ bs)" and rep': "lrep h l ((as @ cs @ ms) @ bs)"
    using assms by simp_all
  have first: "cursor l (ms @ bs) = hd ms" and "hd ms \<in> set ms"
    using False by (cases ms; simp)+
  have lst: "prev_of h (cursor l bs) = last ms"
    using lrep_links(2) [OF rep'] False by simp
  have ne: "hd ms \<noteq> cursor l bs"
    using lrep_D [OF assms(1)] cursor_in [of l bs] \<open>hd ms \<in> set ms\<close> by auto
  have int: "is_interior h (hd ms)" "is_interior h (last ms)"
    using lrep_kinds(3) [of h l "as @ cs" "ms @ bs"] lrep_kinds(5) [OF rep'] False rep first by auto
  define h1 where "h1 = unlink h (hd ms) (last ms)"
  have 1: "lrep h1 l (as @ cs @ bs)" "chain h1 ms" "agree (- set (nodes l (as @ cs @ bs))) h h1"
    using unlink_rep [OF rep False] h1_def by auto
  have before: "cursor l (cs @ ms @ bs) = cursor l (cs @ bs)"
    using cs by (cases cs) auto
  define h2 where "h2 = relink h1 (cursor l (cs @ bs)) (hd ms) (last ms)"
  have "lrep h2 l (as @ ms @ cs @ bs)" "agree (- set (nodes l (as @ ms @ cs @ bs))) h1 h2"
    using relink_rep [OF 1(1) 1(2) False _ _ _ h2_def] lrep_D [OF assms(1)] by auto
  moreover have "list_splice h (cursor l (cs @ ms @ bs)) (cursor l (ms @ bs)) (cursor l bs) = Some h2"
    using lrep_kinds(1) [of h l as "cs @ ms @ bs"] lrep_kinds(1) [OF rep'] assms(1) first lst ne int before
    by (simp add: list_splice_relink h1_def h2_def)
  ultimately show ?thesis
    using 1(3) by (auto simp: agree_def)
qed

text \<open>Splicing between two lists.\<close>

lemma list_splice_across_rep:
  assumes r1: "lrep h l1 (as @ ms @ bs)" and r2: "lrep h l2 (cs @ ds)"
    and dj: "set (nodes l1 (as @ ms @ bs)) \<inter> set (nodes l2 (cs @ ds)) = {}"
  shows "\<exists>h'. list_splice h (cursor l2 ds) (cursor l1 (ms @ bs)) (cursor l1 bs) = Some h'
     \<and> lrep h' l1 (as @ bs) \<and> lrep h' l2 (cs @ ms @ ds)
     \<and> agree (- (set (nodes l1 (as @ ms @ bs)) \<union> set (nodes l2 (cs @ ds)))) h h'"
proof (cases "ms = []")
  case True
  then show ?thesis
    using assms lrep_kinds(1) [of h l2 cs ds] by (auto simp: list_splice_relink)
next
  case False
  have r1': "lrep h l1 ((as @ ms) @ bs)"
    using r1 by simp
  have first: "cursor l1 (ms @ bs) = hd ms" and "hd ms \<in> set ms"
    using False by (cases ms; simp)+
  have lst: "prev_of h (cursor l1 bs) = last ms"
    using lrep_links(2) [OF r1'] False by simp
  have ne: "hd ms \<noteq> cursor l1 bs"
    using lrep_D [OF r1] cursor_in [of l1 bs] \<open>hd ms \<in> set ms\<close> by auto
  have int: "is_interior h (hd ms)" "is_interior h (last ms)"
    using lrep_kinds(3) [OF r1] lrep_kinds(5) [OF r1'] False first by auto
  define h1 where "h1 = unlink h (hd ms) (last ms)"
  have 1: "lrep h1 l1 (as @ bs)" "chain h1 ms" "agree (- set (nodes l1 (as @ bs))) h h1"
    using unlink_rep [OF r1 False] h1_def by auto
  have 2: "lrep h1 l2 (cs @ ds)"
    by (rule lrep_agree [OF agree_mono [OF 1(3)] r2]) (use dj in auto)
  define h2 where "h2 = relink h1 (cursor l2 ds) (hd ms) (last ms)"
  have 3: "lrep h2 l2 (cs @ ms @ ds)" "agree (- set (nodes l2 (cs @ ms @ ds))) h1 h2"
    using relink_rep [OF 2 1(2) False _ _ _ h2_def] lrep_D [OF r1] dj by auto
  have "lrep h2 l1 (as @ bs)"
    by (rule lrep_agree [OF agree_mono [OF 3(2)] 1(1)]) (use dj lrep_D [OF r1] in auto)
  moreover have "list_splice h (cursor l2 ds) (cursor l1 (ms @ bs)) (cursor l1 bs) = Some h2"
    using lrep_kinds(1) [OF r2] lrep_kinds(1) [OF r1'] first lst ne int
    by (simp add: list_splice_relink h1_def h2_def)
  ultimately show ?thesis
    using 1(3) 3 by (auto simp: agree_def)
qed

text \<open>Loops over the elements.\<close>

lemma list_size_loop_rep:
  "lrep h l (as @ bs) \<Longrightarrow> list_size_loop h l (cursor l bs) cnt = Some (cnt + of_nat (length bs))"
proof (induction bs arbitrary: as cnt)
  case Nil
  then show ?case by (simp add: list_size_loop.simps)
next
  case (Cons b bs)
  moreover have "b \<noteq> list_tail_addr l"
    using lrep_D [OF Cons.prems] by auto
  ultimately show ?case
    using Cons.IH [of "as @ [b]"] by (simp add: list_size_loop.simps list_next_rep)
qed

lemma list_size_rep: "lrep h l xs \<Longrightarrow> list_size h l = Some (of_nat (length xs))"
  using list_size_loop_rep [of h l "[]" xs 0] by (simp add: list_size_def list_begin_rep)

text \<open>Reversal swaps the two links of every element, then repairs the ends.\<close>

fun path :: "lheap \<Rightarrow> ptr \<Rightarrow> ptr list \<Rightarrow> bool" where
  "path h l [] \<longleftrightarrow> True"
| "path h l (b # bs) \<longleftrightarrow> b \<noteq> NULL \<and> b \<noteq> list_tail_addr l \<and> next_of h b = cursor l bs \<and> path h l bs"

lemma lrep_path: "lrep h l (as @ bs) \<Longrightarrow> path h l bs"
proof (induction bs arbitrary: as)
  case (Cons b bs)
  have "path h l bs"
    using Cons.IH [of "as @ [b]"] Cons.prems by simp
  then show ?case
    using lrep_D [OF Cons.prems] lrep_links(1) [of h l "as @ [b]" bs] Cons.prems by auto
qed simp

lemma path_swap: "b \<notin> set bs \<Longrightarrow> path (swap_links h b) l bs = path h l bs"
  by (induction bs) (auto simp: swap_links_def)

lemma list_reverse_loop_path:
  "path h l bs \<Longrightarrow> distinct bs \<Longrightarrow>
   list_reverse_loop h l (cursor l bs) = Some (fold (\<lambda>e h. swap_links h e) bs h)"
proof (induction bs arbitrary: h)
  case Nil
  then show ?case by (simp add: list_reverse_loop.simps)
next
  case (Cons b bs)
  have "prev_of (swap_links h b) b = cursor l bs"
    using Cons.prems by (simp add: swap_links_def)
  then show ?case
    using Cons by (simp add: list_reverse_loop.simps [of h l b] path_swap Let_def)
qed

lemma fold_swap_links:
  "distinct bs \<Longrightarrow> prev_of (fold (\<lambda>e h. swap_links h e) bs h) a = (if a \<in> set bs then next_of h a else prev_of h a)"
  "distinct bs \<Longrightarrow> next_of (fold (\<lambda>e h. swap_links h e) bs h) a = (if a \<in> set bs then prev_of h a else next_of h a)"
  by (induction bs arbitrary: h) (auto simp: swap_links_def)

lemma chain_rev:
  "chain h xs \<Longrightarrow> \<forall>x \<in> set xs. prev_of h' x = next_of h x \<and> next_of h' x = prev_of h x \<Longrightarrow> chain h' (rev xs)"
proof (induction h xs rule: chain.induct)
  case (1 h a b ns)
  then have "chain h' (rev ns @ [b])" by simp
  then have "chain h' ((rev ns @ [b]) @ [a])"
    using 1 chain_snoc [of h' "rev ns @ [b]" a] by simp
  then show ?case by simp
qed simp_all

lemma list_reverse_rep:
  assumes rep: "lrep h l xs"
  shows "\<exists>h'. list_reverse h l = Some h' \<and> lrep h' l (rev xs) \<and> agree (- set (nodes l xs)) h h'"
proof (cases "xs = []")
  case True
  then show ?thesis using rep by (simp add: list_reverse_def list_empty_rep)
next
  case False
  let ?t = "list_tail_addr l"
  define h1 where "h1 = fold (\<lambda>e h. swap_links h e) xs h"
  define h2 where "h2 = set_prev (set_next h1 l (last xs)) ?t (hd xs)"
  define h3 where "h3 = set_next (set_prev h2 (last xs) l) (hd xs) ?t"
  note d = lrep_D [OF rep]
  have ends: "hd xs \<in> set xs" "last xs \<in> set xs" using False by auto
  have h1: "prev_of h1 a = (if a \<in> set xs then next_of h a else prev_of h a)"
      "next_of h1 a = (if a \<in> set xs then prev_of h a else next_of h a)" for a
    using d(4) by (simp_all add: h1_def fold_swap_links)
  have lks: "next_of h l = hd xs" "prev_of h (hd xs) = l" "prev_of h ?t = last xs" "next_of h (last xs) = ?t"
    using lrep_links [of h l "[]" xs] lrep_links [of h l xs "[]"] rep False by (cases xs; auto)+
  have "list_reverse h l = Some h3"
    using False lrep_path [of h l "[]" xs] rep d ends lks h1
    by (auto simp: list_reverse_def list_empty_rep list_begin_rep list_reverse_loop_path Let_def
        h3_def h2_def simp flip: h1_def)
  moreover have "chain h3 (l # rev xs @ [?t])"
  proof -
    have "chain h (l # xs @ [?t])"
      using rep by (simp add: lrep_def nodes_def)
    then have "chain h xs"
      using chain_prefix [of h xs "[?t]"] by (cases xs) auto
    then have "chain h1 (rev xs)"
      by (rule chain_rev) (simp add: h1)
    then have "chain h3 (rev xs)"
      using d ends by (simp add: h3_def h2_def chain_frame chain_set_prev chain_set_next
          ends_notin False)
    moreover have "next_of h3 (last (rev xs)) = ?t" "prev_of h3 ?t = last (rev xs)"
      "next_of h3 l = hd (rev xs)" "prev_of h3 (hd (rev xs)) = l"
      using d ends False by (auto simp: h3_def h2_def last_rev hd_rev)
    ultimately show ?thesis
      using chain_snoc [of h3 "rev xs" ?t] False by (cases "rev xs") auto
  qed
  ultimately have "lrep h3 l (rev xs)"
    using d ends lks h1 by (auto simp: lrep_def nodes_def h3_def h2_def)
  moreover have "agree (- set (nodes l xs)) h h3"
    using ends h1 by (auto simp: agree_def h3_def h2_def)
  ultimately show ?thesis using \<open>list_reverse h l = Some h3\<close> by blast
qed

end
