(* ===== verification/Ordered.thy ===== *)
theory Ordered
  imports Prelude
begin

text \<open>
  Ordered sequences under a comparison callback: what \<^verbatim>\<open>list_insert_ordered\<close>,
  \<^verbatim>\<open>list_sort\<close>, \<^verbatim>\<open>list_max\<close> and \<^verbatim>\<open>list_unique\<close> promise of the
  sequence of elements, independent of the links.  The heap-level routines are shown to implement
  these functions; the scheduler and the synchronisation primitives are built on them.
\<close>

section \<open>Insertion and sorting\<close>

text \<open>Before the first element that is greater than the new one.\<close>

definition insert_ordered :: "('a \<Rightarrow> 'a \<Rightarrow> bool) \<Rightarrow> 'a \<Rightarrow> 'a list \<Rightarrow> 'a list" where
  "insert_ordered lt e xs = takeWhile (\<lambda>x. \<not> lt e x) xs @ e # dropWhile (\<lambda>x. \<not> lt e x) xs"

lemma insert_ordered_simps [simp]:
  "insert_ordered lt e [] = [e]"
  "insert_ordered lt e (x # xs) = (if lt e x then e # x # xs else x # insert_ordered lt e xs)"
  by (simp_all add: insert_ordered_def)

lemma mset_insert_ordered [simp]: "mset (insert_ordered lt e xs) = add_mset e (mset xs)"
  by (induction xs) auto

lemma set_insert_ordered [simp]: "set (insert_ordered lt e xs) = insert e (set xs)"
  by (induction xs) auto

lemma distinct_insert_ordered [simp]:
  "distinct (insert_ordered lt e xs) \<longleftrightarrow> e \<notin> set xs \<and> distinct xs"
  by (induction xs) auto

lemma length_insert_ordered [simp]: "length (insert_ordered lt e xs) = Suc (length xs)"
  by (induction xs) auto

text \<open>The stable sort of a sequence: insertion of its elements one after the other.\<close>

definition sort_stable :: "('a \<Rightarrow> 'a \<Rightarrow> bool) \<Rightarrow> 'a list \<Rightarrow> 'a list" where
  "sort_stable lt xs = fold (insert_ordered lt) xs []"

lemma mset_fold_insert: "mset (fold (insert_ordered lt) xs ys) = mset xs + mset ys"
  by (induction xs arbitrary: ys) auto

lemma mset_sort_stable [simp]: "mset (sort_stable lt xs) = mset xs"
  by (simp add: sort_stable_def mset_fold_insert)

lemma set_sort_stable [simp]: "set (sort_stable lt xs) = set xs"
  by (metis mset_sort_stable set_mset_mset)

lemma distinct_sort_stable [simp]: "distinct (sort_stable lt xs) = distinct xs"
  by (metis mset_sort_stable mset_eq_imp_distinct_iff)

lemma length_sort_stable [simp]: "length (sort_stable lt xs) = length xs"
  by (metis mset_sort_stable size_mset)

lemma sort_stable_Nil_iff [simp]: "sort_stable lt xs = [] \<longleftrightarrow> xs = []"
  by (metis length_0_conv length_sort_stable)

text \<open>The elements that \<open>lt\<close> does not tell apart from \<open>k\<close>, in their order.\<close>

definition same_rank :: "('a \<Rightarrow> 'a \<Rightarrow> bool) \<Rightarrow> 'a \<Rightarrow> 'a list \<Rightarrow> 'a list" where
  "same_rank lt k xs = filter (\<lambda>x. \<not> lt x k \<and> \<not> lt k x) xs"

lemma same_rank_simps [simp]:
  "same_rank lt k [] = []"
  "same_rank lt k (x # xs) = (if \<not> lt x k \<and> \<not> lt k x then x # same_rank lt k xs else same_rank lt k xs)"
  "same_rank lt k (xs @ ys) = same_rank lt k xs @ same_rank lt k ys"
  by (simp_all add: same_rank_def)

section \<open>Extrema\<close>

fun fold_max :: "('a \<Rightarrow> 'a \<Rightarrow> bool) \<Rightarrow> 'a \<Rightarrow> 'a list \<Rightarrow> 'a" where
  "fold_max lt m [] = m"
| "fold_max lt m (e # es) = fold_max lt (if lt m e then e else m) es"

lemma fold_max_in: "fold_max lt m es \<in> insert m (set es)"
  by (induction lt m es rule: fold_max.induct) auto

section \<open>Removal of adjacent duplicates\<close>

text \<open>The elements kept and the elements removed after \<open>x\<close>.\<close>

fun unique_after :: "('a \<Rightarrow> 'a \<Rightarrow> bool) \<Rightarrow> 'a \<Rightarrow> 'a list \<Rightarrow> 'a list \<times> 'a list" where
  "unique_after lt x [] = ([], [])"
| "unique_after lt x (y # ys) =
     (if \<not> lt x y \<and> \<not> lt y x
      then let (ks, ds) = unique_after lt x ys in (ks, y # ds)
      else let (ks, ds) = unique_after lt y ys in (y # ks, ds))"

lemma mset_unique_after:
  "unique_after lt x ys = (ks, ds) \<Longrightarrow> mset ks + mset ds = mset ys"
  by (induction lt x ys arbitrary: ks ds rule: unique_after.induct) (auto split: if_splits prod.splits)

section \<open>Laws under a strict weak order\<close>

context strict_weak
begin

lemma nondec_less_hd: "nondec lt (x # xs) \<Longrightarrow> lt e x \<Longrightarrow> z \<in> set (x # xs) \<Longrightarrow> lt e z"
  using less_le_trans [of e x z] by auto

lemma nondec_insert_ordered: "nondec lt xs \<Longrightarrow> nondec lt (insert_ordered lt e xs)"
proof (induction xs)
  case (Cons x xs)
  show ?case
  proof (cases "lt e x")
    case True
    then have "\<not> lt z e" if "z \<in> set (x # xs)" for z
      using nondec_less_hd [OF Cons.prems True that] asym by simp
    then show ?thesis using True Cons.prems by auto
  qed (use Cons in auto)
qed simp

lemma nondec_sort_stable: "nondec lt (sort_stable lt xs)"
proof -
  have "nondec lt ys \<Longrightarrow> nondec lt (fold (insert_ordered lt) xs ys)" for ys
    by (induction xs arbitrary: ys) (auto intro: nondec_insert_ordered)
  then show ?thesis by (simp add: sort_stable_def)
qed

lemma same_rank_insert_ordered:
  "nondec lt xs \<Longrightarrow> same_rank lt k (insert_ordered lt e xs) = same_rank lt k (xs @ [e])"
proof (induction xs)
  case (Cons x xs)
  show ?case
  proof (cases "lt e x")
    case True
    have "\<not> (\<not> lt e k \<and> \<not> lt k e)" if "z \<in> set (x # xs)" "\<not> lt z k" "\<not> lt k z" for z
      using nondec_less_hd [OF Cons.prems True that(1)] neg_trans [of e z k] that by simp
    then have "same_rank lt k (x # xs) = [] \<or> \<not> (\<not> lt e k \<and> \<not> lt k e)"
      by (auto simp: same_rank_def filter_empty_conv)
    then show ?thesis using True by auto
  qed (use Cons in auto)
qed simp

lemma same_rank_sort_stable: "same_rank lt k (sort_stable lt xs) = same_rank lt k xs"
proof -
  have "nondec lt ys \<Longrightarrow> same_rank lt k (fold (insert_ordered lt) xs ys) = same_rank lt k (ys @ xs)" for ys
    by (induction xs arbitrary: ys) (simp_all add: same_rank_insert_ordered nondec_insert_ordered)
  then show ?thesis by (simp add: sort_stable_def)
qed

text \<open>A sorted sequence is determined by the order inside each rank: stability pins the sort down.\<close>

lemma nondec_same_rank_unique:
  "nondec lt xs \<Longrightarrow> nondec lt ys \<Longrightarrow> (\<And>k. same_rank lt k xs = same_rank lt k ys) \<Longrightarrow> xs = ys"
proof (induction xs arbitrary: ys)
  case Nil
  show ?case
  proof (cases ys)
    case (Cons y ys')
    then show ?thesis using Nil(3) [of y] irrefl by auto
  qed simp
next
  case (Cons x xs)
  have "same_rank lt x ys = x # same_rank lt x xs"
    using Cons.prems(3) [of x] by (simp add: irrefl)
  then have "x \<in> set (same_rank lt x ys)" by simp
  then have xin: "x \<in> set ys" by (auto simp: same_rank_def)
  then obtain y ys' where ys: "ys = y # ys'" by (cases ys) auto
  have "same_rank lt y (x # xs) = y # same_rank lt y ys'"
    using Cons.prems(3) [of y] by (simp add: irrefl ys)
  then have "y \<in> set (same_rank lt y (x # xs))" by simp
  then have "y \<in> set (x # xs)" by (auto simp: same_rank_def split: if_splits)
  then have "\<not> lt y x" "\<not> lt x y"
    using Cons.prems(1,2) xin ys irrefl by auto
  then have eq: "y = x"
    using Cons.prems(3) [of x] by (simp add: irrefl ys)
  have "same_rank lt k xs = same_rank lt k ys'" for k
    using Cons.prems(3) [of k] ys eq by (auto split: if_splits)
  then show ?case
    using Cons.IH [of ys'] Cons.prems(1,2) ys eq by auto
qed

lemma sort_stable_unique:
  "nondec lt ys \<Longrightarrow> (\<And>k. same_rank lt k ys = same_rank lt k xs) \<Longrightarrow> ys = sort_stable lt xs"
  by (rule nondec_same_rank_unique) (simp_all add: nondec_sort_stable same_rank_sort_stable)

lemma sort_stable_id: "nondec lt xs \<Longrightarrow> sort_stable lt xs = xs"
  using sort_stable_unique by metis

lemma fold_max_ge: "e \<in> insert m (set es) \<Longrightarrow> \<not> lt (fold_max lt m es) e"
proof (induction es arbitrary: m e)
  case (Cons a es)
  let ?m = "if lt m a then a else m"
  have m: "\<not> lt ?m m" and a: "\<not> lt ?m a"
    using asym irrefl by auto
  have r: "\<not> lt (fold_max lt ?m es) ?m"
    by (rule Cons.IH) simp
  have "\<not> lt (fold_max lt ?m es) m" "\<not> lt (fold_max lt ?m es) a"
    by (rule le_trans [OF m r], rule le_trans [OF a r])
  then show ?case
    using Cons.IH [of e ?m] Cons.prems by auto
qed (simp add: irrefl)

end

end
