(* ===== verification/List_Sort.thy ===== *)
theory List_Sort
  imports List_Heap Ordered
begin

text \<open>
  The ordered operations of \<^verbatim>\<open>lib/kernel/list.c\<close>: the natural merge sort on the
  links (\<^verbatim>\<open>list_sort\<close> with its helpers), ordered insertion, duplicate removal and
  extrema.  The comparison callback is a function \<open>lt\<close> of two element addresses (it must not read
  the links).  Loops are \<open>partial_function\<close>s, so that a sort that never ends is \<open>None\<close>; the
  theorems show that it does end when \<open>lt\<close> is a strict weak order.
\<close>

section \<open>Operations\<close>

partial_function (option) is_sorted_loop ::
  "lheap \<Rightarrow> (ptr \<Rightarrow> ptr \<Rightarrow> bool) \<Rightarrow> ptr \<Rightarrow> ptr \<Rightarrow> bool option" where
  "is_sorted_loop h lt a b = do {
     a \<leftarrow> list_next h a;
     if a = b then Some True
     else do {
       p \<leftarrow> list_prev h a;
       if lt a p then Some False else is_sorted_loop h lt a b } }"

definition is_sorted :: "lheap \<Rightarrow> (ptr \<Rightarrow> ptr \<Rightarrow> bool) \<Rightarrow> ptr \<Rightarrow> ptr \<Rightarrow> bool option" where
  "is_sorted h lt a b = (if a \<noteq> b then is_sorted_loop h lt a b else Some True)"

partial_function (option) end_of_run_loop ::
  "lheap \<Rightarrow> (ptr \<Rightarrow> ptr \<Rightarrow> bool) \<Rightarrow> ptr \<Rightarrow> ptr \<Rightarrow> ptr option" where
  "end_of_run_loop h lt a b = do {
     a \<leftarrow> list_next h a;
     if a = b then Some a
     else do {
       p \<leftarrow> list_prev h a;
       if \<not> lt a p then end_of_run_loop h lt a b else Some a } }"

definition find_end_of_run :: "lheap \<Rightarrow> (ptr \<Rightarrow> ptr \<Rightarrow> bool) \<Rightarrow> ptr \<Rightarrow> ptr \<Rightarrow> ptr option" where
  "find_end_of_run h lt a b = do {
     chk (a \<noteq> NULL); chk (b \<noteq> NULL); chk (a \<noteq> b);
     end_of_run_loop h lt a b }"

partial_function (option) inplace_merge_loop ::
  "lheap \<Rightarrow> (ptr \<Rightarrow> ptr \<Rightarrow> bool) \<Rightarrow> ptr \<Rightarrow> ptr \<Rightarrow> ptr \<Rightarrow> lheap option" where
  "inplace_merge_loop h lt a0 a1b0 b1 =
     (if a0 \<noteq> a1b0 \<and> a1b0 \<noteq> b1
      then if \<not> lt a1b0 a0
        then do { a0 \<leftarrow> list_next h a0; inplace_merge_loop h lt a0 a1b0 b1 }
        else do {
          a1b0 \<leftarrow> list_next h a1b0;
          p \<leftarrow> list_prev h a1b0;
          h \<leftarrow> list_splice h a0 p a1b0;
          inplace_merge_loop h lt a0 a1b0 b1 }
      else Some h)"

definition inplace_merge ::
  "lheap \<Rightarrow> (ptr \<Rightarrow> ptr \<Rightarrow> bool) \<Rightarrow> ptr \<Rightarrow> ptr \<Rightarrow> ptr \<Rightarrow> lheap option" where
  "inplace_merge h lt a0 a1b0 b1 = do {
     chk (a0 \<noteq> NULL); chk (a1b0 \<noteq> NULL); chk (b1 \<noteq> NULL);
     s \<leftarrow> is_sorted h lt a0 a1b0; chk s;
     s \<leftarrow> is_sorted h lt a1b0 b1; chk s;
     inplace_merge_loop h lt a0 a1b0 b1 }"

text \<open>One pass of the outer loop: the \<^verbatim>\<open>for\<close> over pairs of runs, with the run count.\<close>

partial_function (option) sort_pass ::
  "lheap \<Rightarrow> (ptr \<Rightarrow> ptr \<Rightarrow> bool) \<Rightarrow> ptr \<Rightarrow> ptr \<Rightarrow> u32 \<Rightarrow> (lheap \<times> u32) option" where
  "sort_pass h lt l a0 output_run_cnt = do {
     e \<leftarrow> list_end l;
     if a0 = e then Some (h, output_run_cnt)
     else do {
       let output_run_cnt = output_run_cnt + 1;
       a1b0 \<leftarrow> find_end_of_run h lt a0 e;
       if a1b0 = e then Some (h, output_run_cnt)
       else do {
         b1 \<leftarrow> find_end_of_run h lt a1b0 e;
         h \<leftarrow> inplace_merge h lt a0 a1b0 b1;
         sort_pass h lt l b1 output_run_cnt } } }"

partial_function (option) sort_passes ::
  "lheap \<Rightarrow> (ptr \<Rightarrow> ptr \<Rightarrow> bool) \<Rightarrow> ptr \<Rightarrow> lheap option" where
  "sort_passes h lt l = do {
     b \<leftarrow> list_begin h l;
     (h, output_run_cnt) \<leftarrow> sort_pass h lt l b 0;
     if output_run_cnt > 1 then sort_passes h lt l else Some h }"

definition list_sort :: "lheap \<Rightarrow> ptr \<Rightarrow> (ptr \<Rightarrow> ptr \<Rightarrow> bool) \<Rightarrow> lheap option" where
  "list_sort h l lt = do {
     chk (l \<noteq> NULL);
     h \<leftarrow> sort_passes h lt l;
     b \<leftarrow> list_begin h l; e \<leftarrow> list_end l;
     s \<leftarrow> is_sorted h lt b e; chk s;
     Some h }"

partial_function (option) insert_ordered_loop ::
  "lheap \<Rightarrow> ptr \<Rightarrow> (ptr \<Rightarrow> ptr \<Rightarrow> bool) \<Rightarrow> ptr \<Rightarrow> ptr \<Rightarrow> ptr option" where
  "insert_ordered_loop h l lt elem e = do {
     t \<leftarrow> list_end l;
     if e = t then Some e
     else if lt elem e then Some e
     else do { e \<leftarrow> list_next h e; insert_ordered_loop h l lt elem e } }"

definition list_insert_ordered :: "lheap \<Rightarrow> ptr \<Rightarrow> ptr \<Rightarrow> (ptr \<Rightarrow> ptr \<Rightarrow> bool) \<Rightarrow> lheap option" where
  "list_insert_ordered h l elem lt = do {
     chk (l \<noteq> NULL); chk (elem \<noteq> NULL);
     e \<leftarrow> list_begin h l;
     e \<leftarrow> insert_ordered_loop h l lt elem e;
     list_insert h e elem }"

partial_function (option) unique_loop ::
  "lheap \<Rightarrow> ptr \<Rightarrow> ptr \<Rightarrow> (ptr \<Rightarrow> ptr \<Rightarrow> bool) \<Rightarrow> ptr \<Rightarrow> lheap option" where
  "unique_loop h l duplicates lt elem = do {
     nxt \<leftarrow> list_next h elem;
     e \<leftarrow> list_end l;
     if nxt = e then Some h
     else if \<not> lt elem nxt \<and> \<not> lt nxt elem
     then do {
       (h, _) \<leftarrow> list_remove h nxt;
       h \<leftarrow> (if duplicates \<noteq> NULL then list_push_back h duplicates nxt else Some h);
       unique_loop h l duplicates lt elem }
     else unique_loop h l duplicates lt nxt }"

definition list_unique :: "lheap \<Rightarrow> ptr \<Rightarrow> ptr \<Rightarrow> (ptr \<Rightarrow> ptr \<Rightarrow> bool) \<Rightarrow> lheap option" where
  "list_unique h l duplicates lt = do {
     chk (l \<noteq> NULL);
     e \<leftarrow> list_empty h l;
     if e then Some h
     else do { elem \<leftarrow> list_begin h l; unique_loop h l duplicates lt elem } }"

partial_function (option) max_loop ::
  "lheap \<Rightarrow> ptr \<Rightarrow> (ptr \<Rightarrow> ptr \<Rightarrow> bool) \<Rightarrow> ptr \<Rightarrow> ptr \<Rightarrow> ptr option" where
  "max_loop h l lt mx e = do {
     t \<leftarrow> list_end l;
     if e = t then Some mx
     else do {
       let mx = (if lt mx e then e else mx);
       e \<leftarrow> list_next h e;
       max_loop h l lt mx e } }"

definition list_max :: "lheap \<Rightarrow> ptr \<Rightarrow> (ptr \<Rightarrow> ptr \<Rightarrow> bool) \<Rightarrow> ptr option" where
  "list_max h l lt = do {
     mx \<leftarrow> list_begin h l;
     e \<leftarrow> list_end l;
     if mx \<noteq> e then do { e \<leftarrow> list_next h mx; max_loop h l lt mx e } else Some mx }"

partial_function (option) min_loop ::
  "lheap \<Rightarrow> ptr \<Rightarrow> (ptr \<Rightarrow> ptr \<Rightarrow> bool) \<Rightarrow> ptr \<Rightarrow> ptr \<Rightarrow> ptr option" where
  "min_loop h l lt mn e = do {
     t \<leftarrow> list_end l;
     if e = t then Some mn
     else do {
       let mn = (if lt e mn then e else mn);
       e \<leftarrow> list_next h e;
       min_loop h l lt mn e } }"

definition list_min :: "lheap \<Rightarrow> ptr \<Rightarrow> (ptr \<Rightarrow> ptr \<Rightarrow> bool) \<Rightarrow> ptr option" where
  "list_min h l lt = do {
     mn \<leftarrow> list_begin h l;
     e \<leftarrow> list_end l;
     if mn \<noteq> e then do { e \<leftarrow> list_next h mn; min_loop h l lt mn e } else Some mn }"

section \<open>Runs and their merges, on sequences\<close>

fun run :: "('a \<Rightarrow> 'a \<Rightarrow> bool) \<Rightarrow> 'a \<Rightarrow> 'a list \<Rightarrow> 'a list \<times> 'a list" where
  "run lt x [] = ([x], [])"
| "run lt x (y # ys) =
     (if lt y x then ([x], y # ys) else let (r, rest) = run lt y ys in (x # r, rest))"

fun merge_runs :: "('a \<Rightarrow> 'a \<Rightarrow> bool) \<Rightarrow> 'a list \<Rightarrow> 'a list \<Rightarrow> 'a list" where
  "merge_runs lt [] ys = ys"
| "merge_runs lt xs [] = xs"
| "merge_runs lt (x # xs) (y # ys) =
     (if \<not> lt y x then x # merge_runs lt xs (y # ys) else y # merge_runs lt (x # xs) ys)"

lemma run_append: "run lt x ys = (r, rest) \<Longrightarrow> x # ys = r @ rest"
  by (induction lt x ys arbitrary: r rest rule: run.induct) (auto split: if_splits prod.splits)

lemma run_nonempty: "run lt x ys = (r, rest) \<Longrightarrow> \<exists>r'. r = x # r'"
  by (induction lt x ys arbitrary: r rest rule: run.induct) (auto split: if_splits prod.splits)

lemma run_shorter: "run lt x ys = (r, rest) \<Longrightarrow> length rest \<le> length ys"
  by (induction lt x ys arbitrary: r rest rule: run.induct) (fastforce split: if_splits prod.splits)+

lemma run_sorted: "run lt x ys = (r, rest) \<Longrightarrow> successively (\<lambda>x y. \<not> lt y x) r"
proof (induction lt x ys arbitrary: r rest rule: run.induct)
  case (2 lt x y ys)
  then show ?case
    by (auto simp: successively_Cons split: if_splits prod.splits dest: run_nonempty)
qed simp

text \<open>One pass: the merges of adjacent runs, and how many there are.\<close>

function pass :: "('a \<Rightarrow> 'a \<Rightarrow> bool) \<Rightarrow> 'a list \<Rightarrow> 'a list \<times> nat" where
  "pass lt [] = ([], 0)"
| "pass lt (x # xs) =
     (case run lt x xs of (r, []) \<Rightarrow> (r, 1)
      | (r, y # ys) \<Rightarrow>
          let (r', rest) = run lt y ys; (zs, n) = pass lt rest in (merge_runs lt r r' @ zs, Suc n))"
  by pat_completeness auto
termination
  by (relation "measure (\<lambda>(lt, xs). length xs)") (auto dest!: sym [of "(_, _)"] run_shorter)

text \<open>The number of maximal runs, which every pass about halves.\<close>

fun nruns :: "('a \<Rightarrow> 'a \<Rightarrow> bool) \<Rightarrow> 'a list \<Rightarrow> nat" where
  "nruns lt [] = 0"
| "nruns lt [x] = 1"
| "nruns lt (x # y # ys) = (if lt y x then Suc (nruns lt (y # ys)) else nruns lt (y # ys))"

lemma nruns_append: "nruns lt (xs @ ys) \<le> nruns lt xs + nruns lt ys"
proof (induction lt xs rule: nruns.induct)
  case (2 lt x)
  then show ?case by (cases ys) auto
qed auto

lemma nruns_pos: "nruns lt (x # xs) \<ge> 1"
  by (induction xs arbitrary: x) auto

lemma nruns_sorted: "successively (\<lambda>x y. \<not> lt y x) xs \<longleftrightarrow> nruns lt xs \<le> 1"
  using nruns_pos by (induction lt xs rule: nruns.induct) (auto simp: Suc_le_eq)

lemma nruns_run: "run lt x ys = (r, rest) \<Longrightarrow> nruns lt (x # ys) = Suc (nruns lt rest)"
  by (induction lt x ys arbitrary: r rest rule: run.induct) (auto split: if_splits prod.splits)

lemma pass_runs: "2 * snd (pass lt xs) \<le> Suc (nruns lt xs)"
proof (induction lt xs rule: pass.induct)
  case (2 lt x xs)
  obtain r z where r: "run lt x xs = (r, z)" by fastforce
  show ?case
  proof (cases z)
    case (Cons y ys)
    obtain r' rest where r': "run lt y ys = (r', rest)" by fastforce
    have "2 * snd (pass lt rest) \<le> Suc (nruns lt rest)"
      using 2 [OF r [symmetric] Cons r' [symmetric] refl] .
    then show ?thesis
      using r Cons r' nruns_run [OF r] nruns_run [OF r'] by (cases "pass lt rest") simp
  qed (use r nruns_run [OF r] in simp)
qed simp

lemma mset_merge_runs [simp]: "mset (merge_runs lt xs ys) = mset xs + mset ys"
  by (induction lt xs ys rule: merge_runs.induct) auto

lemma set_merge_runs [simp]: "set (merge_runs lt xs ys) = set xs \<union> set ys"
  by (metis mset_merge_runs set_mset_mset set_mset_union)

lemma merge_runs_Nil2 [simp]: "merge_runs lt xs [] = xs"
  by (cases xs) auto

section \<open>The loops implement these functions\<close>

lemma cursor_neq:
  assumes "lrep h l (as @ x # ys @ bs)"
  shows "x \<noteq> cursor l bs" "x \<noteq> list_tail_addr l"
  using lrep_D [OF assms] cursor_in [of l bs] by auto

lemma is_sorted_loop_rep:
  "lrep h l (as @ x # ys @ bs) \<Longrightarrow>
   is_sorted_loop h lt x (cursor l bs) = Some (successively (\<lambda>x y. \<not> lt y x) (x # ys))"
proof (induction ys arbitrary: as x)
  case Nil
  then show ?case by (simp add: is_sorted_loop.simps list_next_rep)
next
  case (Cons y ys)
  have rep: "lrep h l ((as @ [x]) @ y # ys @ bs)" using Cons.prems by simp
  have "list_next h x = Some y"
    using list_next_rep [of h l as x "y # ys @ bs"] Cons.prems by simp
  moreover have "list_prev h y = Some x"
    using list_prev_rep [OF rep] by simp
  ultimately show ?case
    using Cons.IH [OF rep] cursor_neq(1) [OF rep] by (simp add: is_sorted_loop.simps [of h lt x])
qed

lemma is_sorted_rep:
  assumes "lrep h l (as @ xs @ bs)"
  shows "is_sorted h lt (cursor l (xs @ bs)) (cursor l bs) = Some (successively (\<lambda>x y. \<not> lt y x) xs)"
proof (cases xs)
  case (Cons x ys)
  then show ?thesis
    using is_sorted_loop_rep [of h l as x ys bs] cursor_neq(1) [of h l as x ys bs] assms
    by (simp add: is_sorted_def)
qed (simp add: is_sorted_def)

lemma end_of_run_loop_rep:
  "lrep h l (as @ x # ys) \<Longrightarrow> run lt x ys = (r, rest) \<Longrightarrow>
   end_of_run_loop h lt x (list_tail_addr l) = Some (cursor l rest)"
proof (induction ys arbitrary: as x r)
  case Nil
  then show ?case
    using list_next_rep [OF Nil.prems(1)] by (auto simp: end_of_run_loop.simps)
next
  case (Cons y ys)
  have rep: "lrep h l ((as @ [x]) @ y # ys)" using Cons.prems by simp
  have "list_next h x = Some y"
    using list_next_rep [of h l as x "y # ys"] Cons.prems by simp
  moreover have "list_prev h y = Some x"
    using list_prev_rep [OF rep] by simp
  moreover have "y \<noteq> list_tail_addr l"
    using lrep_D [OF rep] by auto
  ultimately show ?case
    using Cons.IH [OF rep] Cons.prems(2)
    by (auto simp: end_of_run_loop.simps [of h lt x] split: if_splits prod.splits)
qed

lemma find_end_of_run_rep:
  assumes "lrep h l (as @ x # ys)" "run lt x ys = (r, rest)"
  shows "find_end_of_run h lt x (list_tail_addr l) = Some (cursor l rest)"
  using end_of_run_loop_rep [OF assms] lrep_D [OF assms(1)] by (auto simp: find_end_of_run_def)

lemma inplace_merge_loop_rep:
  "lrep h l (as @ xs @ ys @ bs) \<Longrightarrow>
   \<exists>h'. inplace_merge_loop h lt (cursor l (xs @ ys @ bs)) (cursor l (ys @ bs)) (cursor l bs) = Some h'
     \<and> lrep h' l (as @ merge_runs lt xs ys @ bs) \<and> agree (- set (nodes l (as @ xs @ ys @ bs))) h h'"
proof (induction lt xs ys arbitrary: h as rule: merge_runs.induct)
  case (3 lt x xs y ys)
  have rep1: "lrep h l (as @ x # (xs @ y # ys @ bs))"
    and rep2: "lrep h l ((as @ x # xs) @ y # ys @ bs)"
    and rep3: "lrep h l ((as @ x # xs @ [y]) @ ys @ bs)"
    using "3.prems" by simp_all
  have ne: "x \<noteq> y" "y \<noteq> cursor l bs"
    using cursor_neq(1) [OF rep2] lrep_D [OF rep1] by auto
  show ?case
  proof (cases "lt y x")
    case False
    have "list_next h x = Some (cursor l (xs @ y # ys @ bs))"
      by (rule list_next_rep [OF rep1])
    then show ?thesis
      using "3.IH"(1) [OF _, of h "as @ [x]"] "3.prems" ne False
      by (simp add: inplace_merge_loop.simps [of h lt x y])
  next
    case True
    have nxt: "list_next h y = Some (cursor l (ys @ bs))"
      by (rule list_next_rep [OF rep2])
    have prv: "list_prev h (cursor l (ys @ bs)) = Some y"
      using list_prev_rep [OF rep3] by simp
    obtain h1 where h1: "list_splice h x y (cursor l (ys @ bs)) = Some h1"
        "lrep h1 l ((as @ [y]) @ (x # xs) @ ys @ bs)" "agree (- set (nodes l (as @ (x # xs) @ (y # ys) @ bs))) h h1"
      using list_splice_within_rep [of h l as "x # xs" "[y]" "ys @ bs"] "3.prems" by auto
    obtain h2 where h2: "inplace_merge_loop h1 lt (cursor l ((x # xs) @ ys @ bs)) (cursor l (ys @ bs)) (cursor l bs) = Some h2"
        "lrep h2 l ((as @ [y]) @ merge_runs lt (x # xs) ys @ bs)"
        "agree (- set (nodes l ((as @ [y]) @ (x # xs) @ ys @ bs))) h1 h2"
      using "3.IH"(2) [OF _ h1(2)] True by blast
    have "agree (- set (nodes l (as @ (x # xs) @ (y # ys) @ bs))) h h2"
      by (rule agree_trans [OF h1(3) agree_mono [OF h2(3)]]) auto
    then show ?thesis
      using h1 h2 True ne nxt prv by (simp add: inplace_merge_loop.simps [of h lt x y])
  qed
qed (simp_all add: inplace_merge_loop.simps)

lemma inplace_merge_rep:
  assumes rep: "lrep h l (as @ xs @ ys @ bs)"
    and s: "successively (\<lambda>x y. \<not> lt y x) xs" "successively (\<lambda>x y. \<not> lt y x) ys"
  shows "\<exists>h'. inplace_merge h lt (cursor l (xs @ ys @ bs)) (cursor l (ys @ bs)) (cursor l bs) = Some h'
     \<and> lrep h' l (as @ merge_runs lt xs ys @ bs) \<and> agree (- set (nodes l (as @ xs @ ys @ bs))) h h'"
proof -
  have rep': "lrep h l ((as @ xs) @ ys @ bs)" "lrep h l ((as @ xs @ ys) @ bs)" using rep by simp_all
  have "cursor l (xs @ ys @ bs) \<noteq> NULL" "cursor l (ys @ bs) \<noteq> NULL" "cursor l bs \<noteq> NULL"
    using lrep_nz(1) [OF rep] lrep_nz(1) [OF rep'(1)] lrep_nz(1) [OF rep'(2)] by auto
  then show ?thesis
    using inplace_merge_loop_rep [OF rep, of lt] is_sorted_rep [OF rep, of lt] is_sorted_rep [OF rep'(1), of lt] s
    by (simp add: inplace_merge_def)
qed

lemma set_pass: "set (fst (pass lt xs)) = set xs"
proof (induction lt xs rule: pass.induct)
  case (2 lt x xs)
  obtain r z where r: "run lt x xs = (r, z)" by fastforce
  show ?case
  proof (cases z)
    case (Cons y ys)
    obtain r' rest where r': "run lt y ys = (r', rest)" by fastforce
    have "set (x # xs) = set r \<union> set (r' @ rest)"
      using run_append [OF r] run_append [OF r'] Cons by (metis set_append)
    then show ?thesis
      using 2 [OF r [symmetric] Cons r' [symmetric] refl] r r' Cons by (cases "pass lt rest") auto
  qed (use r run_append [OF r, symmetric] in simp)
qed simp

lemma sort_pass_rep:
  "lrep h l (as @ bs) \<Longrightarrow>
   \<exists>h'. sort_pass h lt l (cursor l bs) cnt = Some (h', cnt + of_nat (snd (pass lt bs)))
     \<and> lrep h' l (as @ fst (pass lt bs)) \<and> agree (- set (nodes l (as @ bs))) h h'"
proof (induction lt bs arbitrary: h as cnt rule: pass.induct)
  case (1 lt)
  then show ?case by (simp add: sort_pass.simps list_end_rep)
next
  case (2 lt x xs)
  obtain r z where r: "run lt x xs = (r, z)" by fastforce
  have e: "list_end l = Some (list_tail_addr l)" and x: "x \<noteq> list_tail_addr l"
    using list_end_rep [OF "2.prems"] lrep_D [OF "2.prems"] by auto
  note f1 = find_end_of_run_rep [OF "2.prems" r]
  show ?case
  proof (cases z)
    case Nil
    then show ?thesis
      using r f1 e x "2.prems" run_append [OF r, symmetric] by (simp add: sort_pass.simps [of h lt l x])
  next
    case (Cons y ys)
    obtain r' rest where r': "run lt y ys = (r', rest)" by fastforce
    have xs: "x # xs = r @ y # ys" "y # ys = r' @ rest"
      using run_append [OF r] run_append [OF r'] Cons by auto
    have rep1: "lrep h l ((as @ r) @ y # ys)" and rep2: "lrep h l (as @ r @ r' @ rest)"
      using "2.prems" xs by auto
    have y: "y \<noteq> list_tail_addr l" using lrep_D [OF rep1] by auto
    note f2 = find_end_of_run_rep [OF rep1 r']
    obtain h1 where h1: "inplace_merge h lt x y (cursor l rest) = Some h1"
        "lrep h1 l ((as @ merge_runs lt r r') @ rest)" "agree (- set (nodes l (as @ r @ r' @ rest))) h h1"
      using inplace_merge_rep [OF rep2 run_sorted [OF r] run_sorted [OF r']] xs(1)
      by (simp flip: xs(2)) (metis append_Cons append_assoc cursor.simps(2) xs(1))
    obtain zs n where p: "pass lt rest = (zs, n)" by fastforce
    obtain h2 where h2: "sort_pass h1 lt l (cursor l rest) (cnt + 1) = Some (h2, cnt + 1 + of_nat n)"
        "lrep h2 l ((as @ merge_runs lt r r') @ zs)" "agree (- set (nodes l ((as @ merge_runs lt r r') @ rest))) h1 h2"
      using "2.IH" [OF r [symmetric] Cons r' [symmetric] refl h1(2), of "cnt + 1"] p by auto
    have "agree (- set (nodes l (as @ x # xs))) h h2"
      by (rule agree_trans [OF agree_mono [OF h1(3)] agree_mono [OF h2(3)]]) (use xs in auto)
    then show ?thesis
      using h1(1) h2 p r r' Cons f1 f2 e x y by (auto simp: sort_pass.simps [of h lt l x] algebra_simps)
  qed
qed

section \<open>The pass keeps the order of equal elements and sorts\<close>

context strict_weak
begin

lemma same_rank_less_hd:
  assumes "nondec lt (x # xs)" "lt e x" "\<not> lt e k" "\<not> lt k e"
  shows "same_rank lt k (x # xs) = []"
proof -
  have "lt z k \<or> lt k z" if "z \<in> set (x # xs)" for z
    using nondec_less_hd [OF assms(1,2) that] neg_trans [of e z k] assms(3) by auto
  then show ?thesis by (auto simp: same_rank_def filter_empty_conv)
qed

end

lemma merge_runs_sorted:
  "strict_weak lt \<Longrightarrow> nondec lt xs \<Longrightarrow> nondec lt ys \<Longrightarrow> nondec lt (merge_runs lt xs ys)"
proof (induction lt xs ys rule: merge_runs.induct)
  case (3 lt x xs y ys)
  show ?case
  proof (cases "lt y x")
    case True
    then have "\<not> lt z y" if "z \<in> set (x # xs)" for z
      using strict_weak.nondec_less_hd [OF "3.prems"(1,2) True that] strict_weak.asym [OF "3.prems"(1)]
      by simp
    then show ?thesis using 3 True by auto
  next
    case False
    have "\<not> lt z x" if "z \<in> set (y # ys)" for z
      using strict_weak.le_trans [OF "3.prems"(1) False, of z] "3.prems"(3) False that by auto
    then show ?thesis using 3 False by auto
  qed
qed simp_all

lemma merge_runs_stable:
  "strict_weak lt \<Longrightarrow> nondec lt xs \<Longrightarrow> nondec lt ys \<Longrightarrow>
   same_rank lt k (merge_runs lt xs ys) = same_rank lt k xs @ same_rank lt k ys"
proof (induction lt xs ys rule: merge_runs.induct)
  case (3 lt x xs y ys)
  show ?case
    using 3 strict_weak.same_rank_less_hd [OF "3.prems"(1,2), of y k] by (cases "lt y x") auto
qed simp_all

lemma pass_spec:
  "strict_weak lt \<Longrightarrow> same_rank lt k (fst (pass lt xs)) = same_rank lt k xs
     \<and> nruns lt (fst (pass lt xs)) \<le> snd (pass lt xs)"
proof (induction lt xs rule: pass.induct)
  case (2 lt x xs)
  note succ = strict_weak.nondec_iff_successively [OF "2.prems"]
  obtain r z where r: "run lt x xs = (r, z)" by fastforce
  note rs = run_sorted [OF r]
  show ?case
  proof (cases z)
    case Nil
    then show ?thesis
      using r rs run_append [OF r, symmetric] nruns_sorted [of lt r] by (simp del: same_rank_simps(2))
  next
    case (Cons y ys)
    obtain r' rest where r': "run lt y ys = (r', rest)" by fastforce
    obtain zs n where p: "pass lt rest = (zs, n)" by fastforce
    have IH: "same_rank lt k zs = same_rank lt k rest" "nruns lt zs \<le> n"
      using "2.IH" [OF r [symmetric] Cons r' [symmetric] refl "2.prems"] p by auto
    note rs' = run_sorted [OF r']
    have nd: "nondec lt r" "nondec lt r'"
      using rs rs' by (simp_all only: succ)
    note m = merge_runs_sorted [OF "2.prems" nd] merge_runs_stable [OF "2.prems" nd, of k]
    have xs: "x # xs = r @ r' @ rest"
      using run_append [OF r] run_append [OF r'] Cons by simp
    have "nruns lt (merge_runs lt r r') \<le> 1"
      using m(1) succ nruns_sorted by blast
    then have "nruns lt (merge_runs lt r r' @ zs) \<le> Suc n"
      using nruns_append [of lt "merge_runs lt r r'" zs] IH(2) by simp
    moreover have "same_rank lt k (x # xs) = same_rank lt k r @ same_rank lt k r' @ same_rank lt k rest"
      unfolding xs by simp
    ultimately show ?thesis
      using r Cons r' p IH(1) m(2) by (simp del: same_rank_simps(2))
  qed
qed simp

lemma pass_fewer: "strict_weak lt \<Longrightarrow> 1 < snd (pass lt xs) \<Longrightarrow> nruns lt (fst (pass lt xs)) < nruns lt xs"
  using pass_spec [of lt undefined xs] pass_runs [of lt xs] by simp

section \<open>The sort as a whole\<close>

text \<open>A list has fewer elements than there are addresses, so the run count does not wrap.\<close>

lemma lrep_length: "lrep h l xs \<Longrightarrow> length xs < 2 ^ 32"
proof -
  assume "lrep h l xs"
  then have "distinct (nodes l xs)" by (simp add: lrep_def)
  then have "length (nodes l xs) \<le> card (UNIV :: ptr set)"
    using card_mono [of UNIV "set (nodes l xs)"] distinct_card by (metis finite_code top_greatest)
  then show ?thesis by (simp add: nodes_def card_word)
qed

lemma nruns_le: "nruns lt xs \<le> length xs"
  by (induction lt xs rule: nruns.induct) auto

lemma pass_count_le: "snd (pass lt xs) \<le> length xs"
  using pass_runs [of lt xs] nruns_le [of lt xs] by (cases xs) auto

lemma sort_passes_rep:
  assumes lt: "strict_weak lt"
  shows "lrep h l xs \<Longrightarrow>
   \<exists>h' ys. sort_passes h lt l = Some h' \<and> lrep h' l ys \<and> nruns lt ys \<le> 1
     \<and> (\<forall>k. same_rank lt k ys = same_rank lt k xs) \<and> agree (- set (nodes l xs)) h h'"
proof (induction "nruns lt xs" arbitrary: h xs rule: less_induct)
  case less
  obtain zs n where p: "pass lt xs = (zs, n)" by fastforce
  obtain h1 where h1: "sort_pass h lt l (cursor l xs) 0 = Some (h1, of_nat n)" "lrep h1 l zs"
      "agree (- set (nodes l xs)) h h1"
    using sort_pass_rep [of h l "[]" xs lt 0] less.prems p by auto
  have zs: "same_rank lt k zs = same_rank lt k xs" "nruns lt zs \<le> n" for k
    using pass_spec [OF lt, of k xs] p by auto
  have "n < 2 ^ 32"
    using pass_count_le [of lt xs] lrep_length [OF less.prems] p by simp
  then have n: "(of_nat n :: u32) > 1 \<longleftrightarrow> n > 1"
    by (simp add: word_less_nat_alt unat_of_nat)
  have b: "list_begin h l = Some (cursor l xs)"
    by (rule list_begin_rep [OF less.prems])
  show ?case
  proof (cases "n > 1")
    case False
    then show ?thesis
      using h1 zs n b by (auto simp: sort_passes.simps [of h lt l])
  next
    case True
    have "nruns lt zs < nruns lt xs"
      using pass_fewer [OF lt, of xs] p True by simp
    from less.hyps [OF this h1(2)] obtain h2 ys where h2: "sort_passes h1 lt l = Some h2" "lrep h2 l ys"
        "nruns lt ys \<le> 1" "\<forall>k. same_rank lt k ys = same_rank lt k zs" "agree (- set (nodes l zs)) h1 h2"
      by blast
    have "set zs = set xs"
      using set_pass [of lt xs] p by simp
    then have "agree (- set (nodes l xs)) h h2"
      using agree_trans [OF h1(3)] h2(5) by simp
    then show ?thesis
      using h1(1) h2 zs n b True by (auto simp: sort_passes.simps [of h lt l])
  qed
qed

lemma list_sort_rep:
  assumes lt: "strict_weak lt" and rep: "lrep h l xs"
  shows "\<exists>h'. list_sort h l lt = Some h' \<and> lrep h' l (sort_stable lt xs) \<and> agree (- set (nodes l xs)) h h'"
proof -
  obtain h' ys where h': "sort_passes h lt l = Some h'" "lrep h' l ys" "nruns lt ys \<le> 1"
     "\<forall>k. same_rank lt k ys = same_rank lt k xs" "agree (- set (nodes l xs)) h h'"
    using sort_passes_rep [OF lt rep] by blast
  have s: "successively (\<lambda>x y. \<not> lt y x) ys"
    using h'(3) nruns_sorted by blast
  then have "ys = sort_stable lt xs"
    using strict_weak.sort_stable_unique [OF lt] strict_weak.nondec_iff_successively [OF lt] h'(4) by blast
  moreover have "is_sorted h' lt (cursor l ys) (list_tail_addr l) = Some True"
    using is_sorted_rep [of h' l "[]" ys "[]" lt] h'(2) s by simp
  ultimately show ?thesis
    using h' lrep_D [OF rep] by (simp add: list_sort_def list_begin_rep list_end_rep)
qed

section \<open>Ordered insertion, duplicates, extrema\<close>

lemma insert_ordered_loop_rep:
  "lrep h l (as @ bs) \<Longrightarrow>
   insert_ordered_loop h l lt e (cursor l bs) = Some (cursor l (dropWhile (\<lambda>x. \<not> lt e x) bs))"
proof (induction bs arbitrary: as)
  case Nil
  then show ?case by (simp add: insert_ordered_loop.simps list_end_rep)
next
  case (Cons b bs)
  have rep: "lrep h l ((as @ [b]) @ bs)" using Cons.prems by simp
  show ?case
    using Cons.IH [OF rep] list_next_rep [OF Cons.prems] list_end_rep [OF Cons.prems] lrep_D [OF Cons.prems]
    by (auto simp: insert_ordered_loop.simps [of h l lt e b])
qed

lemma list_insert_ordered_rep:
  assumes rep: "lrep h l xs" and e: "e \<noteq> NULL" "e \<notin> set (nodes l xs)"
  shows "\<exists>h'. list_insert_ordered h l e lt = Some h' \<and> lrep h' l (insert_ordered lt e xs)
     \<and> agree (- insert e (set (nodes l xs))) h h'"
  using insert_ordered_loop_rep [of h l "[]" xs lt e] rep e lrep_D [OF rep]
    list_insert_rep [of h l "takeWhile (\<lambda>x. \<not> lt e x) xs" "dropWhile (\<lambda>x. \<not> lt e x) xs" e]
  by (simp add: list_insert_ordered_def list_begin_rep insert_ordered_def)

lemma max_loop_rep:
  "lrep h l (as @ bs) \<Longrightarrow> max_loop h l lt m (cursor l bs) = Some (fold_max lt m bs)"
proof (induction bs arbitrary: as m)
  case Nil
  then show ?case by (simp add: max_loop.simps list_end_rep)
next
  case (Cons b bs)
  have rep: "lrep h l ((as @ [b]) @ bs)" using Cons.prems by simp
  show ?case
    using Cons.IH [OF rep] list_next_rep [OF Cons.prems] list_end_rep [OF Cons.prems] lrep_D [OF Cons.prems]
    by (auto simp: max_loop.simps [of h l lt m b] Let_def)
qed

lemma min_loop_rep:
  "lrep h l (as @ bs) \<Longrightarrow> min_loop h l lt m (cursor l bs) = Some (fold_max (\<lambda>x y. lt y x) m bs)"
proof (induction bs arbitrary: as m)
  case Nil
  then show ?case by (simp add: min_loop.simps list_end_rep)
next
  case (Cons b bs)
  have rep: "lrep h l ((as @ [b]) @ bs)" using Cons.prems by simp
  show ?case
    using Cons.IH [OF rep] list_next_rep [OF Cons.prems] list_end_rep [OF Cons.prems] lrep_D [OF Cons.prems]
    by (auto simp: min_loop.simps [of h l lt m b] Let_def)
qed

lemma list_max_rep:
  "lrep h l xs \<Longrightarrow>
   list_max h l lt = Some (case xs of [] \<Rightarrow> list_tail_addr l | x # ys \<Rightarrow> fold_max lt x ys)"
  using max_loop_rep [of h l "[hd xs]" "tl xs" lt "hd xs"] list_next_rep [of h l "[]" "hd xs" "tl xs"]
  by (cases xs) (auto simp: list_max_def list_begin_rep list_end_rep dest: lrep_D)

lemma list_min_rep:
  "lrep h l xs \<Longrightarrow>
   list_min h l lt = Some (case xs of [] \<Rightarrow> list_tail_addr l | x # ys \<Rightarrow> fold_max (\<lambda>x y. lt y x) x ys)"
  using min_loop_rep [of h l "[hd xs]" "tl xs" lt "hd xs"] list_next_rep [of h l "[]" "hd xs" "tl xs"]
  by (cases xs) (auto simp: list_min_def list_begin_rep list_end_rep dest: lrep_D)

text \<open>Duplicates are unlinked one by one and, if asked for, appended to a second list.\<close>

lemma unique_loop_rep:
  "lrep h l (as @ x # bs) \<Longrightarrow> lrep h d ds \<Longrightarrow>
   set (nodes l (as @ x # bs)) \<inter> set (nodes d ds) = {} \<Longrightarrow>
   \<exists>h'. unique_loop h l d lt x = Some h'
     \<and> lrep h' l (as @ x # fst (unique_after lt x bs)) \<and> lrep h' d (ds @ snd (unique_after lt x bs))
     \<and> agree (- (set (nodes l (as @ x # bs)) \<union> set (nodes d ds))) h h'"
proof (induction bs arbitrary: h as x ds)
  case Nil
  then show ?case
    using list_next_rep [OF Nil.prems(1)] by (auto simp: unique_loop.simps [of h l d lt x] list_end_rep)
next
  case (Cons b bs)
  have nxt: "list_next h x = Some b"
    using list_next_rep [OF Cons.prems(1)] by simp
  have e: "list_end l = Some (list_tail_addr l)" "b \<noteq> list_tail_addr l" "d \<noteq> NULL"
    using list_end_rep [OF Cons.prems(1)] lrep_D [OF Cons.prems(1)] lrep_D [OF Cons.prems(2)] by auto
  have rep: "lrep h l ((as @ [x]) @ b # bs)" using Cons.prems by simp
  show ?case
  proof (cases "\<not> lt x b \<and> \<not> lt b x")
    case True
    obtain h1 where h1: "list_remove h b = Some (h1, cursor l bs)" "lrep h1 l (as @ x # bs)"
        "agree (- set (nodes l (as @ x # bs))) h h1"
      using list_remove_rep [OF rep] by auto
    have d1: "lrep h1 d ds"
      by (rule lrep_agree [OF agree_mono [OF h1(3)] Cons.prems(2)]) (use Cons.prems(3) in auto)
    obtain h2 where h2: "list_push_back h1 d b = Some h2" "lrep h2 d (ds @ [b])"
        "agree (- insert b (set (nodes d ds))) h1 h2"
      using list_push_back_rep [OF d1, of b] lrep_D [OF rep] Cons.prems(3) by auto
    have l2: "lrep h2 l (as @ x # bs)"
      by (rule lrep_agree [OF agree_mono [OF h2(3)] h1(2)]) (use Cons.prems(3) lrep_D [OF rep] in auto)
    obtain h3 where h3: "unique_loop h2 l d lt x = Some h3"
        "lrep h3 l (as @ x # fst (unique_after lt x bs))" "lrep h3 d ((ds @ [b]) @ snd (unique_after lt x bs))"
        "agree (- (set (nodes l (as @ x # bs)) \<union> set (nodes d (ds @ [b])))) h2 h3"
      using Cons.IH [OF l2 h2(2)] Cons.prems(3) lrep_D [OF rep] by auto
    have "agree (- (set (nodes l (as @ x # b # bs)) \<union> set (nodes d ds))) h h3"
      by (rule agree_trans [OF agree_mono [OF h1(3)] agree_trans [OF agree_mono [OF h2(3)] agree_mono [OF h3(4)]]]) auto
    then show ?thesis
      using h1(1) h2(1) h3 True nxt e
      by (auto simp: unique_loop.simps [of h l d lt x] split: prod.splits)
  next
    case False
    then show ?thesis
      using Cons.IH [of h "as @ [x]" b ds] Cons.prems nxt e
      by (auto simp: unique_loop.simps [of h l d lt x] split: prod.splits)
  qed
qed

lemma list_unique_rep:
  assumes "lrep h l xs" "lrep h d ds" "set (nodes l xs) \<inter> set (nodes d ds) = {}"
  shows "\<exists>h'. list_unique h l d lt = Some h'
     \<and> lrep h' l (case xs of [] \<Rightarrow> [] | x # ys \<Rightarrow> x # fst (unique_after lt x ys))
     \<and> lrep h' d (ds @ (case xs of [] \<Rightarrow> [] | x # ys \<Rightarrow> snd (unique_after lt x ys)))
     \<and> agree (- (set (nodes l xs) \<union> set (nodes d ds))) h h'"
  using unique_loop_rep [of h l "[]" "hd xs" "tl xs" d ds lt] assms lrep_D [OF assms(1)]
  by (cases xs) (auto simp: list_unique_def list_empty_rep list_begin_rep)

section \<open>Properties\<close>

text \<open>A small list at address 100 with three elements, and an empty one at 200, for the witnesses.\<close>

definition demo_heap :: lheap where
  "demo_heap = \<lparr>
     prev_of = (\<lambda>_. 0)(100 := 0, 30 := 100, 10 := 30, 20 := 10, 108 := 20, 208 := 200),
     next_of = (\<lambda>_. 0)(100 := 30, 30 := 10, 10 := 20, 20 := 108, 108 := 0, 200 := 208) \<rparr>"

lemma demo_heap_rep: "lrep demo_heap 100 [30, 10, 20]" "lrep demo_heap 200 []"
  by (simp_all add: demo_heap_def lrep_def nodes_def list_tail_addr_def)

lemma strict_weak_less: "strict_weak (\<lambda>x y :: 'a :: linorder. x < y)"
  by unfold_locales auto

text \<open>
  C1: \<^verbatim>\<open>list_sort\<close> returns for every comparison that is a strict weak order, its own
  assertions never fire, and the list then holds a sorted, stable permutation of its elements;
  no link outside the list is written.
\<close>

theorem list_sort_correct:
  assumes "strict_weak lt" and "lrep h l xs"
  shows "\<exists>h' ys. list_sort h l lt = Some h' \<and> lrep h' l ys
     \<and> mset ys = mset xs \<and> nondec lt ys \<and> (\<forall>k. same_rank lt k ys = same_rank lt k xs)
     \<and> agree (- set (nodes l xs)) h h'"
  using list_sort_rep [OF assms] strict_weak.nondec_sort_stable [OF assms(1)]
    strict_weak.same_rank_sort_stable [OF assms(1)] by (metis mset_sort_stable)

theorem list_sort_correct_witness:
  "\<exists>h' ys. list_sort demo_heap 100 (\<lambda>x y. x < y) = Some h' \<and> lrep h' 100 ys
     \<and> mset ys = {#30, 10, 20#} \<and> nondec (\<lambda>x y. x < y) ys"
  using list_sort_correct [OF strict_weak_less demo_heap_rep(1)] by fastforce

text \<open>
  \<^verbatim>\<open>list_insert_ordered\<close> puts a new element behind every element that is not
  greater and in front of the first greater one, which keeps a sorted list sorted, and touches no
  link outside the list and the new element.
\<close>

theorem list_insert_ordered_correct:
  assumes "strict_weak lt" and "lrep h l xs" and "nondec lt xs"
    and "e \<noteq> NULL" and "e \<notin> set (nodes l xs)"
  shows "\<exists>h' as bs. list_insert_ordered h l e lt = Some h' \<and> xs = as @ bs \<and> lrep h' l (as @ e # bs)
     \<and> nondec lt (as @ e # bs) \<and> (\<forall>a \<in> set as. \<not> lt e a) \<and> (\<forall>b \<in> set bs. lt e b)
     \<and> agree (- insert e (set (nodes l xs))) h h'"
proof -
  let ?as = "takeWhile (\<lambda>x. \<not> lt e x) xs" and ?bs = "dropWhile (\<lambda>x. \<not> lt e x) xs"
  have "nondec lt ?bs"
    using assms(3) by (metis sorted_wrt_append takeWhile_dropWhile_id)
  then have "lt e b" if "b \<in> set ?bs" for b
    using strict_weak.nondec_less_hd [OF assms(1), of "hd ?bs" "tl ?bs" e b] that hd_dropWhile
    by (metis empty_iff empty_set list.collapse)
  moreover have "\<not> lt e a" if "a \<in> set ?as" for a
    using that by (auto dest: set_takeWhileD)
  moreover have "nondec lt (?as @ e # ?bs)"
    using strict_weak.nondec_insert_ordered [OF assms(1,3)] by (simp add: insert_ordered_def)
  moreover obtain h' where "list_insert_ordered h l e lt = Some h'" "lrep h' l (?as @ e # ?bs)"
      "agree (- insert e (set (nodes l xs))) h h'"
    using list_insert_ordered_rep [OF assms(2,4,5), of lt] by (auto simp: insert_ordered_def)
  moreover have "xs = ?as @ ?bs" by simp
  ultimately show ?thesis by blast
qed

theorem list_insert_ordered_correct_witness:
  "\<exists>h' as bs. list_insert_ordered demo_heap 200 5 (\<lambda>x y. x < y) = Some h'
     \<and> [] = as @ bs \<and> lrep h' 200 (as @ 5 # bs)"
  using list_insert_ordered_correct [OF strict_weak_less demo_heap_rep(2), of 5]
  by (auto simp: list_tail_addr_def)

text \<open>
  \<^verbatim>\<open>list_splice\<close> moves a range of one list in front of any position of another,
  keeping its order; both lists stay well formed and nothing else is written.
\<close>

theorem list_splice_correct:
  assumes "lrep h l1 (as @ ms @ bs)" and "lrep h l2 (cs @ ds)"
    and "set (nodes l1 (as @ ms @ bs)) \<inter> set (nodes l2 (cs @ ds)) = {}"
  shows "\<exists>h'. list_splice h (cursor l2 ds) (cursor l1 (ms @ bs)) (cursor l1 bs) = Some h'
     \<and> lrep h' l1 (as @ bs) \<and> lrep h' l2 (cs @ ms @ ds)
     \<and> agree (- (set (nodes l1 (as @ ms @ bs)) \<union> set (nodes l2 (cs @ ds)))) h h'"
  by (rule list_splice_across_rep [OF assms])

theorem list_splice_correct_witness:
  "\<exists>h'. list_splice demo_heap 208 10 108 = Some h' \<and> lrep h' 100 [30] \<and> lrep h' 200 [10, 20]"
  using list_splice_correct [of demo_heap 100 "[30]" "[10, 20]" "[]" 200 "[]" "[]"] demo_heap_rep
  by (auto simp: list_tail_addr_def)

text \<open>
  \<^verbatim>\<open>list_reverse\<close> terminates and leaves the list holding its elements in the
  opposite order, whatever its length.
\<close>

theorem list_reverse_correct:
  assumes "lrep h l xs"
  shows "\<exists>h'. list_reverse h l = Some h' \<and> lrep h' l (rev xs) \<and> agree (- set (nodes l xs)) h h'"
  by (rule list_reverse_rep [OF assms])

theorem list_reverse_correct_witness:
  "\<exists>h'. list_reverse demo_heap 100 = Some h' \<and> lrep h' 100 [20, 10, 30]"
  using list_reverse_correct [OF demo_heap_rep(1)] by auto

lemma unique_after_spec:
  "strict_weak lt \<Longrightarrow> nondec lt (x # ys) \<Longrightarrow> unique_after lt x ys = (ks, ds) \<Longrightarrow>
    sorted_wrt lt (x # ks) \<and> set ks \<subseteq> set ys \<and> (\<forall>d \<in> set ds. \<exists>k \<in> set (x # ks). \<not> lt d k \<and> \<not> lt k d)"
proof (induction lt x ys arbitrary: ks ds rule: unique_after.induct)
  case (2 lt x y ys)
  show ?case
  proof (cases "\<not> lt x y \<and> \<not> lt y x")
    case True
    then show ?thesis
      using "2.IH"(1) [OF True "2.prems"(1)] "2.prems"(2,3)
      by (cases "unique_after lt x ys") fastforce
  next
    case False
    obtain ks' where u: "unique_after lt y ys = (ks', ds)" and ks: "ks = y # ks'"
      using "2.prems"(3) False by (auto split: prod.splits)
    have xy: "lt x y" and nd: "nondec lt (y # ys)"
      using False "2.prems"(2) by auto
    note IH = "2.IH"(2) [OF False "2.prems"(1) nd u]
    have "\<forall>z \<in> set (y # ks'). lt x z"
      using strict_weak.nondec_less_hd [OF "2.prems"(1) nd xy] IH by auto
    then show ?thesis
      using IH ks by auto
  qed
qed simp

text \<open>
  \<^verbatim>\<open>list_unique\<close> on a sorted list keeps one element of every rank, the first,
  and moves exactly the others, in order, to the end of the list of duplicates.
\<close>

theorem list_unique_correct:
  assumes "strict_weak lt" and "lrep h l (x # xs)" and "nondec lt (x # xs)"
    and "lrep h d ds" and "set (nodes l (x # xs)) \<inter> set (nodes d ds) = {}"
  shows "\<exists>h' ks rs. list_unique h l d lt = Some h'
     \<and> lrep h' l (x # ks) \<and> lrep h' d (ds @ rs)
     \<and> sorted_wrt lt (x # ks) \<and> mset ks + mset rs = mset xs
     \<and> (\<forall>r \<in> set rs. \<exists>k \<in> set (x # ks). \<not> lt r k \<and> \<not> lt k r)"
proof -
  obtain ks rs where u: "unique_after lt x xs = (ks, rs)" by fastforce
  show ?thesis
    using list_unique_rep [OF assms(2,4,5), of lt] unique_after_spec [OF assms(1,3) u] mset_unique_after [OF u] u
    by auto
qed

theorem list_unique_correct_witness:
  "\<exists>h' ks rs. list_unique demo_heap 100 200 (\<lambda>x y. x div 100 < y div 100) = Some h'
     \<and> lrep h' 100 (30 # ks) \<and> lrep h' 200 rs \<and> mset ks + mset rs = {#10, 20#}"
proof -
  have "strict_weak (\<lambda>x y :: ptr. x div 100 < y div 100)"
    by unfold_locales auto
  then show ?thesis
    using list_unique_correct [of "\<lambda>x y. x div 100 < y div 100" demo_heap 100 30 "[10, 20]" 200 "[]"] demo_heap_rep
    by (auto simp: list_tail_addr_def)
qed

end
