(* ===== verification/Fixed_Point.thy ===== *)
theory Fixed_Point
  imports Prelude "HOL-Library.Signed_Division"
begin

text \<open>
  The 17.14 fixed-point arithmetic of \<^verbatim>\<open>threads/fixed-point.h\<close>.  C \<^verbatim>\<open>int\<close>s are
  integers here; an operation whose result leaves the 32-bit (or, for the 64-bit intermediate
  products, the 64-bit) range is undefined behaviour in C and yields \<open>None\<close>.  The conversion of a
  64-bit quotient back to \<^verbatim>\<open>int\<close> keeps the low 32 bits, as the compiler does.  Division
  truncates towards zero (\<open>sdiv\<close>) and faults on zero.
\<close>

section \<open>Operations\<close>

definition FP :: int where
  "FP = 2 ^ 14"

definition int_to_fp :: "int \<Rightarrow> int option" where
  "int_to_fp n = s32 (n * FP)"

definition fp_to_int_zero :: "int \<Rightarrow> int" where
  "fp_to_int_zero x = x sdiv FP"

definition fp_to_int_near :: "int \<Rightarrow> int option" where
  "fp_to_int_near x =
     (if x > 0 then do { y \<leftarrow> s32 (x + FP sdiv 2); Some (y sdiv FP) }
      else do { y \<leftarrow> s32 (x - FP sdiv 2); Some (y sdiv FP) })"

definition add_x_y :: "int \<Rightarrow> int \<Rightarrow> int option" where
  "add_x_y x y = s32 (x + y)"

definition sub_x_y :: "int \<Rightarrow> int \<Rightarrow> int option" where
  "sub_x_y x y = s32 (x - y)"

definition add_x_n :: "int \<Rightarrow> int \<Rightarrow> int option" where
  "add_x_n x n = do { m \<leftarrow> s32 (n * FP); s32 (x + m) }"

definition sub_x_n :: "int \<Rightarrow> int \<Rightarrow> int option" where
  "sub_x_n x n = do { m \<leftarrow> s32 (n * FP); s32 (x - m) }"

definition mul_x_y :: "int \<Rightarrow> int \<Rightarrow> int option" where
  "mul_x_y x y = do { p \<leftarrow> s64 (x * y); Some (trunc32 (p sdiv FP)) }"

definition mul_x_n :: "int \<Rightarrow> int \<Rightarrow> int option" where
  "mul_x_n x n = s32 (x * n)"

definition div_x_y :: "int \<Rightarrow> int \<Rightarrow> int option" where
  "div_x_y x y = do {
     p \<leftarrow> s64 (x * FP);
     if y = 0 then None else do { q \<leftarrow> s64 (p sdiv y); Some (trunc32 q) } }"

definition div_x_n :: "int \<Rightarrow> int \<Rightarrow> int option" where
  "div_x_n x n = (if n = 0 then None else s32 (x sdiv n))"

section \<open>Bounds\<close>

text \<open>Truncating division by a positive number, in terms of the usual one.\<close>

lemma sdiv_pos: "0 < b \<Longrightarrow> a sdiv b = (if 0 \<le> a then a div b else - (- a div b))" for a b :: int
  by (auto simp: signed_divide_int_def sgn_if)

lemma div_le_of: "0 < b \<Longrightarrow> a \<le> c * b \<Longrightarrow> a div b \<le> c" for a b c :: int
  using zdiv_mono1 [of a "c * b" b] by simp

lemma div_ge_of: "0 < b \<Longrightarrow> c * b \<le> a \<Longrightarrow> c \<le> a div b" for a b c :: int
  using zdiv_mono1 [of "c * b" a b] by simp

lemma sdiv_le: "0 < b \<Longrightarrow> a \<le> c * b \<Longrightarrow> a sdiv b \<le> c" for a b c :: int
  using div_le_of [of b a c] div_ge_of [of b "- c" "- a"] by (auto simp: sdiv_pos)

lemma sdiv_ge: "0 < b \<Longrightarrow> c * b \<le> a \<Longrightarrow> c \<le> a sdiv b" for a b c :: int
  using div_ge_of [of b c a] div_le_of [of b "- a" "- c"] by (auto simp: sdiv_pos)

text \<open>The product of two fixed-point numbers is their real product, rounded towards zero.\<close>

lemma mul_x_y_ok:
  assumes "s32_ok x" "s32_ok y" "s32_ok ((x * y) sdiv FP)"
  shows "mul_x_y x y = Some ((x * y) sdiv FP)"
proof -
  have "\<bar>x\<bar> \<le> 2 ^ 31" "\<bar>y\<bar> \<le> 2 ^ 31"
    using assms by (auto simp: s32_ok_def)
  then have "\<bar>x\<bar> * \<bar>y\<bar> \<le> 2 ^ 31 * 2 ^ 31"
    by (intro mult_mono) auto
  then have "s64_ok (x * y)"
    by (auto simp: s64_ok_def abs_mult [symmetric])
  then show ?thesis
    using assms by (simp add: mul_x_y_def s64_in trunc32_id)
qed

end
