(* ===== verification/Kernel_State.thy ===== *)
theory Kernel_State
  imports Ordered Fixed_Point
begin

text \<open>
  The state that \<^verbatim>\<open>threads/thread.c\<close>, \<^verbatim>\<open>threads/synch.c\<close>,
  \<^verbatim>\<open>devices/timer.c\<close> and the interrupt flag of \<^verbatim>\<open>threads/interrupt.c\<close>
  share.  The kernel is the one built without \<^verbatim>\<open>USERPROG\<close> (the configuration of the
  threads project).

  A \<^verbatim>\<open>struct thread\<close> is identified by its page address.  The lists threaded through
  thread structures (run queue, sleepers, semaphore waiters, \<^verbatim>\<open>lock_waiter\<close>) are
  sequences of threads, which the pointer lists of \<^verbatim>\<open>list.c\<close> implement.

  A call of \<^verbatim>\<open>schedule\<close> suspends its caller in the middle of C functions.  What such a
  thread still has to run is kept as a list of commands, its continuation \<open>t_kont\<close>: a C function
  that may switch threads pushes the code behind the call and then acts, and the command is
  executed when the thread runs again.
\<close>

section \<open>Threads, semaphores, locks\<close>

type_synonym tref = ptr
type_synonym lref = ptr
type_synonym cref = ptr

datatype thread_status = THREAD_RUNNING | THREAD_READY | THREAD_BLOCKED | THREAD_DYING

text \<open>The semaphores embedded in a \<^verbatim>\<open>struct thread\<close>.\<close>

datatype thread_sema = CSema | MemSema | LoadSema | SleepingSema | WakeupSema

text \<open>
  Where a semaphore lives: on its own, in a lock, in a thread, or in the
  \<^verbatim>\<open>struct semaphore_elem\<close> on the stack of a thread that waits for a condition.
\<close>

datatype sema_ref = Sema ptr | LockSema lref | ThreadSema tref thread_sema | WaiterSema tref

text \<open>Pending code of a suspended thread.\<close>

datatype kcmd =
    KSetLevel bool              \<comment> \<open>\<^verbatim>\<open>intr_set_level (old_level)\<close>\<close>
  | KEnable                     \<comment> \<open>\<^verbatim>\<open>intr_enable ()\<close>\<close>
  | KSemaDown sema_ref          \<comment> \<open>a call of \<^verbatim>\<open>sema_down\<close>\<close>
  | KDown sema_ref              \<comment> \<open>the loop of \<^verbatim>\<open>sema_down\<close>\<close>
  | KSemaUp sema_ref            \<comment> \<open>a call of \<^verbatim>\<open>sema_up\<close>\<close>
  | KLockAcquire lref           \<comment> \<open>a call of \<^verbatim>\<open>lock_acquire\<close>\<close>
  | KLockTaken lref             \<comment> \<open>the end of \<^verbatim>\<open>lock_acquire\<close>\<close>
  | KLockRelease lref           \<comment> \<open>a call of \<^verbatim>\<open>lock_release\<close>\<close>
  | KBroadcast cref lref        \<comment> \<open>the loop of \<^verbatim>\<open>cond_broadcast\<close>\<close>
  | KSetTid tref                \<comment> \<open>\<^verbatim>\<open>tid = next_tid++\<close> in \<^verbatim>\<open>allocate_tid\<close>\<close>
  | KCreate tref "kcmd list"    \<comment> \<open>the rest of \<^verbatim>\<open>thread_create\<close>; the thread function\<close>
  | KStart sema_ref             \<comment> \<open>a call of \<^verbatim>\<open>thread_start\<close>\<close>
  | KIdleStart sema_ref         \<comment> \<open>the entry of \<^verbatim>\<open>idle\<close>\<close>
  | KIdle                       \<comment> \<open>the loop of \<^verbatim>\<open>idle\<close>\<close>
  | KBody                       \<comment> \<open>some thread function, still running\<close>
  | KExit                       \<comment> \<open>a call of \<^verbatim>\<open>thread_exit\<close>\<close>

record semaphore =
  s_value :: u32
  s_waiters :: "tref list"

record thread =
  t_tid :: int
  t_status :: thread_status
  t_name :: string
  t_priority :: int
  t_exit_status :: int
  t_child :: "tref list"
  t_load_success :: bool
  t_fd :: "ptr list"
  t_wakeup_time :: int
  t_init_priority :: int
  t_lock_wait :: "lref option"
  t_lock_waiter :: "tref list"
  t_nice :: int
  t_recent_cpu :: int
  t_magic :: u32
  t_kont :: "kcmd list"

record kstate =
  thr :: "tref \<Rightarrow> thread"
  sema :: "sema_ref \<Rightarrow> semaphore"
  holder :: "lref \<Rightarrow> tref option"
  cond_waiters :: "cref \<Rightarrow> tref list"
  running :: tref
  ready_list :: "tref list"
  sleeping_list :: "tref list"
  all_list :: "tref list"
  idle_thread :: "tref option"
  initial_thread :: "tref option"
  tid_lock :: lref
  next_tid :: int
  idle_ticks :: int
  kernel_ticks :: int
  thread_ticks :: u32
  load_avg :: int
  thread_mlfqs :: bool
  thread_prior_aging :: bool
  ticks :: int
  intr_on :: bool
  in_external_intr :: bool
  yield_on_return :: bool
  stack_junk :: "tref \<Rightarrow> int" \<comment> \<open>what a read past an empty waiter list finds\<close>

definition PRI_MIN :: int where "PRI_MIN = 0"
definition PRI_DEFAULT :: int where "PRI_DEFAULT = 31"
definition PRI_MAX :: int where "PRI_MAX = 63"
definition THREAD_MAGIC :: u32 where "THREAD_MAGIC = 0xcd6abf4b"
definition TIME_SLICE :: u32 where "TIME_SLICE = 4"
definition TIMER_FREQ :: int where "TIMER_FREQ = 100"

lemmas pri_defs = PRI_MIN_def PRI_DEFAULT_def PRI_MAX_def

section \<open>Access\<close>

definition upd_thr :: "tref \<Rightarrow> (thread \<Rightarrow> thread) \<Rightarrow> kstate \<Rightarrow> kstate" where
  "upd_thr t f st = st\<lparr>thr := (thr st)(t := f (thr st t))\<rparr>"

definition upd_sema :: "sema_ref \<Rightarrow> (semaphore \<Rightarrow> semaphore) \<Rightarrow> kstate \<Rightarrow> kstate" where
  "upd_sema s f st = st\<lparr>sema := (sema st)(s := f (sema st s))\<rparr>"

abbreviation status :: "kstate \<Rightarrow> tref \<Rightarrow> thread_status" where
  "status st t \<equiv> t_status (thr st t)"

abbreviation prio :: "kstate \<Rightarrow> tref \<Rightarrow> int" where
  "prio st t \<equiv> t_priority (thr st t)"

abbreviation waiters :: "kstate \<Rightarrow> sema_ref \<Rightarrow> tref list" where
  "waiters st s \<equiv> s_waiters (sema st s)"

abbreviation set_status :: "thread_status \<Rightarrow> tref \<Rightarrow> kstate \<Rightarrow> kstate" where
  "set_status v t \<equiv> upd_thr t (\<lambda>r. r\<lparr>t_status := v\<rparr>)"

abbreviation set_prio :: "int \<Rightarrow> tref \<Rightarrow> kstate \<Rightarrow> kstate" where
  "set_prio v t \<equiv> upd_thr t (\<lambda>r. r\<lparr>t_priority := v\<rparr>)"

text \<open>Code behind a call that may switch threads.\<close>

definition push :: "kcmd list \<Rightarrow> kstate \<Rightarrow> kstate" where
  "push ks st = upd_thr (running st) (\<lambda>r. r\<lparr>t_kont := ks @ t_kont r\<rparr>) st"

lemma upd_thr_simps [simp]:
  "thr (upd_thr t f st) = (thr st)(t := f (thr st t))"
  "sema (upd_thr t f st) = sema st" "holder (upd_thr t f st) = holder st"
  "cond_waiters (upd_thr t f st) = cond_waiters st" "running (upd_thr t f st) = running st"
  "ready_list (upd_thr t f st) = ready_list st" "sleeping_list (upd_thr t f st) = sleeping_list st"
  "all_list (upd_thr t f st) = all_list st" "idle_thread (upd_thr t f st) = idle_thread st"
  "initial_thread (upd_thr t f st) = initial_thread st" "intr_on (upd_thr t f st) = intr_on st"
  "in_external_intr (upd_thr t f st) = in_external_intr st" "thread_mlfqs (upd_thr t f st) = thread_mlfqs st"
  "ticks (upd_thr t f st) = ticks st" "load_avg (upd_thr t f st) = load_avg st"
  "tid_lock (upd_thr t f st) = tid_lock st" "next_tid (upd_thr t f st) = next_tid st"
  "yield_on_return (upd_thr t f st) = yield_on_return st"
  "stack_junk (upd_thr t f st) = stack_junk st"
  "thread_ticks (upd_thr t f st) = thread_ticks st"
  "thread_prior_aging (upd_thr t f st) = thread_prior_aging st"
  by (simp_all add: upd_thr_def)

lemma upd_sema_simps [simp]:
  "sema (upd_sema s g st) = (sema st)(s := g (sema st s))"
  "thr (upd_sema s g st) = thr st" "holder (upd_sema s g st) = holder st"
  "cond_waiters (upd_sema s g st) = cond_waiters st" "running (upd_sema s g st) = running st"
  "ready_list (upd_sema s g st) = ready_list st" "sleeping_list (upd_sema s g st) = sleeping_list st"
  "all_list (upd_sema s g st) = all_list st" "idle_thread (upd_sema s g st) = idle_thread st"
  "initial_thread (upd_sema s g st) = initial_thread st" "intr_on (upd_sema s g st) = intr_on st"
  "in_external_intr (upd_sema s g st) = in_external_intr st" "thread_mlfqs (upd_sema s g st) = thread_mlfqs st"
  "ticks (upd_sema s g st) = ticks st" "load_avg (upd_sema s g st) = load_avg st"
  "tid_lock (upd_sema s g st) = tid_lock st" "next_tid (upd_sema s g st) = next_tid st"
  "yield_on_return (upd_sema s g st) = yield_on_return st"
  "stack_junk (upd_sema s g st) = stack_junk st"
  "thread_ticks (upd_sema s g st) = thread_ticks st"
  "thread_prior_aging (upd_sema s g st) = thread_prior_aging st"
  by (simp_all add: upd_sema_def)

section \<open>The interrupt flag (threads/interrupt.c)\<close>

definition intr_enable :: "kstate \<Rightarrow> kstate option" where
  "intr_enable st = do { chk (\<not> in_external_intr st); Some (st\<lparr>intr_on := True\<rparr>) }"

definition intr_disable :: "kstate \<Rightarrow> kstate" where
  "intr_disable st = st\<lparr>intr_on := False\<rparr>"

lemma intr_disable_simps [simp]:
  "thr (intr_disable st) = thr st" "sema (intr_disable st) = sema st" "holder (intr_disable st) = holder st"
  "cond_waiters (intr_disable st) = cond_waiters st" "running (intr_disable st) = running st"
  "ready_list (intr_disable st) = ready_list st" "sleeping_list (intr_disable st) = sleeping_list st"
  "all_list (intr_disable st) = all_list st" "idle_thread (intr_disable st) = idle_thread st"
  "initial_thread (intr_disable st) = initial_thread st" "thread_mlfqs (intr_disable st) = thread_mlfqs st"
  "in_external_intr (intr_disable st) = in_external_intr st" "ticks (intr_disable st) = ticks st"
  "\<not> intr_on (intr_disable st)"
  by (simp_all add: intr_disable_def)

definition intr_set_level :: "bool \<Rightarrow> kstate \<Rightarrow> kstate option" where
  "intr_set_level level st = (if level then intr_enable st else Some (intr_disable st))"

definition intr_yield_on_return :: "kstate \<Rightarrow> kstate option" where
  "intr_yield_on_return st = do { chk (in_external_intr st); Some (st\<lparr>yield_on_return := True\<rparr>) }"

section \<open>Thread identity and comparison\<close>

definition is_thread :: "kstate \<Rightarrow> tref \<Rightarrow> bool" where
  "is_thread st t \<longleftrightarrow> t \<noteq> NULL \<and> t_magic (thr st t) = THREAD_MAGIC"

definition thread_current :: "kstate \<Rightarrow> tref option" where
  "thread_current st = do {
     chk (is_thread st (running st));
     chk (status st (running st) = THREAD_RUNNING);
     Some (running st) }"

definition value_more :: "kstate \<Rightarrow> tref \<Rightarrow> tref \<Rightarrow> bool" where
  "value_more st a b \<longleftrightarrow> prio st a > prio st b"

definition value_less :: "kstate \<Rightarrow> tref \<Rightarrow> tref \<Rightarrow> bool" where
  "value_less st a b \<longleftrightarrow> prio st a < prio st b"

definition value_more_waiter :: "kstate \<Rightarrow> tref \<Rightarrow> tref \<Rightarrow> bool" where
  "value_more_waiter st a b \<longleftrightarrow> prio st a > prio st b"

definition value_less_waiter :: "kstate \<Rightarrow> tref \<Rightarrow> tref \<Rightarrow> bool" where
  "value_less_waiter st a b \<longleftrightarrow> prio st a < prio st b"

text \<open>All of them are strict weak orders, so the list routines sort by them.\<close>

interpretation vm: strict_weak "value_more st" for st
  by unfold_locales (auto simp: value_more_def)

interpretation vl: strict_weak "value_less st" for st
  by unfold_locales (auto simp: value_less_def)

interpretation vmw: strict_weak "value_more_waiter st" for st
  by unfold_locales (auto simp: value_more_waiter_def)

interpretation vlw: strict_weak "value_less_waiter st" for st
  by unfold_locales (auto simp: value_less_waiter_def)

lemma thread_current_Some [simp]:
  "thread_current st = Some c \<longleftrightarrow>
     c = running st \<and> is_thread st c \<and> status st c = THREAD_RUNNING"
  by (auto simp: thread_current_def)

lemma is_thread_upd [simp]:
  "is_thread (upd_thr t f st) x \<longleftrightarrow>
     (if x = t then t \<noteq> NULL \<and> t_magic (f (thr st t)) = THREAD_MAGIC else is_thread st x)"
  "is_thread (upd_sema s g st) x = is_thread st x"
  by (simp_all add: is_thread_def)

lemma is_thread_fields [simp]:
  "is_thread (st\<lparr>ready_list := a\<rparr>) t = is_thread st t" "is_thread (st\<lparr>running := b\<rparr>) t = is_thread st t"
  "is_thread (st\<lparr>thread_ticks := c\<rparr>) t = is_thread st t" "is_thread (st\<lparr>sleeping_list := a\<rparr>) t = is_thread st t"
  "is_thread (st\<lparr>all_list := a\<rparr>) t = is_thread st t" "is_thread (st\<lparr>idle_thread := d\<rparr>) t = is_thread st t"
  "is_thread (st\<lparr>initial_thread := d\<rparr>) t = is_thread st t" "is_thread (st\<lparr>holder := h\<rparr>) t = is_thread st t"
  "is_thread (st\<lparr>cond_waiters := w\<rparr>) t = is_thread st t" "is_thread (st\<lparr>intr_on := i\<rparr>) t = is_thread st t"
  "is_thread (st\<lparr>in_external_intr := i\<rparr>) t = is_thread st t" "is_thread (st\<lparr>next_tid := n\<rparr>) t = is_thread st t"
  "is_thread (st\<lparr>ticks := n\<rparr>) t = is_thread st t" "is_thread (st\<lparr>yield_on_return := i\<rparr>) t = is_thread st t"
  by (simp_all add: is_thread_def)

end
