(* ===== verification/Scheduler.thy ===== *)
theory Scheduler
  imports Kernel_State
begin

text \<open>
  The scheduler of \<^verbatim>\<open>threads/thread.c\<close>: blocking, unblocking and yielding, the
  choice of the next thread, preemption by priority, the sleep queue, priority donation for locks,
  aging and the 4.4BSD priority computations.  Every function takes the kernel state and returns
  the new one, or \<open>None\<close> where an assertion of the code fails.
\<close>

section \<open>Switching threads\<close>

text \<open>
  \<^verbatim>\<open>palloc_free_page\<close> fills the page of a dead thread with \<^verbatim>\<open>0xcc\<close>, which
  destroys its magic number.
\<close>

definition free_thread_page :: "tref \<Rightarrow> kstate \<Rightarrow> kstate" where
  "free_thread_page t = upd_thr t (\<lambda>r. r\<lparr>t_magic := 0xcccccccc\<rparr>)"

definition next_thread_to_run :: "kstate \<Rightarrow> tref option \<times> kstate" where
  "next_thread_to_run st =
     (case ready_list st of
        [] \<Rightarrow> (idle_thread st, st)
      | t # ts \<Rightarrow> (Some t, st\<lparr>ready_list := ts\<rparr>))"

definition thread_schedule_tail :: "tref option \<Rightarrow> kstate \<Rightarrow> kstate option" where
  "thread_schedule_tail prev st = do {
     let cur = running st;
     chk (\<not> intr_on st);
     let st = set_status THREAD_RUNNING cur st;
     let st = st\<lparr>thread_ticks := 0\<rparr>;
     (case prev of
        None \<Rightarrow> Some st
      | Some p \<Rightarrow>
          if status st p = THREAD_DYING \<and> Some p \<noteq> initial_thread st
          then do { chk (p \<noteq> cur); Some (free_thread_page p st) }
          else Some st) }"

definition schedule :: "kstate \<Rightarrow> kstate option" where
  "schedule st = do {
     let cur = running st;
     let (nxt, st) = next_thread_to_run st;
     chk (\<not> intr_on st);
     chk (status st cur \<noteq> THREAD_RUNNING);
     nxt \<leftarrow> nxt;
     chk (is_thread st nxt);
     let prev = (if cur \<noteq> nxt then Some cur else None);
     thread_schedule_tail prev (st\<lparr>running := nxt\<rparr>) }"

definition thread_block :: "kstate \<Rightarrow> kstate option" where
  "thread_block st = do {
     chk (\<not> in_external_intr st);
     chk (\<not> intr_on st);
     c \<leftarrow> thread_current st;
     schedule (set_status THREAD_BLOCKED c st) }"

definition thread_unblock :: "tref \<Rightarrow> kstate \<Rightarrow> kstate option" where
  "thread_unblock t st = do {
     chk (is_thread st t);
     let old_level = intr_on st;
     let st = intr_disable st;
     chk (status st t = THREAD_BLOCKED);
     let st = st\<lparr>ready_list := insert_ordered (value_more st) t (ready_list st)\<rparr>;
     let st = set_status THREAD_READY t st;
     intr_set_level old_level st }"

definition thread_yield :: "kstate \<Rightarrow> kstate option" where
  "thread_yield st = do {
     cur \<leftarrow> thread_current st;
     chk (\<not> in_external_intr st);
     let old_level = intr_on st;
     let st = intr_disable st;
     let st = (if Some cur \<noteq> idle_thread st
               then st\<lparr>ready_list := insert_ordered (value_more st) cur (ready_list st)\<rparr> else st);
     let st = set_status THREAD_READY cur st;
     schedule (push [KSetLevel old_level] st) }"

text \<open>\<^verbatim>\<open>thread_exit\<close> does not return: nothing of the caller's code is left to run.\<close>

definition thread_exit :: "kstate \<Rightarrow> kstate option" where
  "thread_exit st = do {
     chk (\<not> in_external_intr st);
     let st = intr_disable st;
     c \<leftarrow> thread_current st;
     let st = st\<lparr>all_list := remove1 c (all_list st)\<rparr>;
     let st = upd_thr c (\<lambda>r. r\<lparr>t_kont := []\<rparr>) st;
     schedule (set_status THREAD_DYING c st) }"

section \<open>Priorities and preemption\<close>

definition thread_get_priority :: "kstate \<Rightarrow> int option" where
  "thread_get_priority st = do { c \<leftarrow> thread_current st; Some (prio st c) }"

definition thread_check_preemption :: "kstate \<Rightarrow> kstate option" where
  "thread_check_preemption st =
     (if ready_list st = [] then Some st
      else do {
        let st = st\<lparr>ready_list := sort_stable (value_more st) (ready_list st)\<rparr>;
        let first_ready_thread = hd (ready_list st);
        p \<leftarrow> thread_get_priority st;
        if prio st first_ready_thread > p then thread_yield st else Some st })"

text \<open>The donation loop of \<^verbatim>\<open>thread_lock_acquire\<close>; \<open>n\<close> is \<^verbatim>\<open>8 - count\<close>.\<close>

primrec donate :: "nat \<Rightarrow> tref \<Rightarrow> tref option \<Rightarrow> kstate \<Rightarrow> kstate option" where
  "donate 0 max_p holder_of_holder st = Some st"
| "donate (Suc n) max_p holder_of_holder st =
     (case holder_of_holder of
        None \<Rightarrow> None
      | Some h \<Rightarrow>
          (case t_lock_wait (thr st h) of
             Some l \<Rightarrow> do {
               let st = set_prio (prio st max_p) h st;
               donate n max_p (holder st l) st }
           | None \<Rightarrow> Some (set_prio (prio st max_p) h st)))"

definition thread_lock_acquire :: "lref \<Rightarrow> kstate \<Rightarrow> kstate option" where
  "thread_lock_acquire l st =
     (case holder st l of
        None \<Rightarrow> Some st
      | Some h \<Rightarrow> do {
          c \<leftarrow> thread_current st;
          let st = upd_thr c (\<lambda>r. r\<lparr>t_lock_wait := Some l\<rparr>) st;
          let st = upd_thr h (\<lambda>r. r\<lparr>t_lock_waiter :=
                     insert_ordered (value_more_waiter st) c (t_lock_waiter r)\<rparr>) st;
          let first = hd (t_lock_waiter (thr st h));
          let max_p = (if prio st first > prio st c then first else c);
          donate 8 max_p (Some h) st })"

definition thread_lock_refresh :: "kstate \<Rightarrow> kstate option" where
  "thread_lock_refresh st = do {
     c \<leftarrow> thread_current st;
     let st = set_prio (t_init_priority (thr st c)) c st;
     if t_lock_waiter (thr st c) = [] then Some st
     else do {
       let st = upd_thr c (\<lambda>r. r\<lparr>t_lock_waiter := sort_stable (value_more_waiter st) (t_lock_waiter r)\<rparr>) st;
       let first_waiter = hd (t_lock_waiter (thr st c));
       Some (if prio st first_waiter > prio st c then set_prio (prio st first_waiter) c st else st) } }"

text \<open>The loop of \<^verbatim>\<open>thread_lock_remove\<close> over the waiters of the current thread.\<close>

fun lock_remove_loop :: "kstate \<Rightarrow> lref \<Rightarrow> tref list \<Rightarrow> tref list" where
  "lock_remove_loop st l [] = []"
| "lock_remove_loop st l (t # ts) =
     (if t_lock_wait (thr st t) = Some l then lock_remove_loop st l ts
      else t # lock_remove_loop st l ts)"

definition thread_lock_remove :: "lref \<Rightarrow> kstate \<Rightarrow> kstate option" where
  "thread_lock_remove l st = do {
     c \<leftarrow> thread_current st;
     Some (upd_thr c (\<lambda>r. r\<lparr>t_lock_waiter := lock_remove_loop st l (t_lock_waiter r)\<rparr>) st) }"

definition thread_set_priority :: "int \<Rightarrow> kstate \<Rightarrow> kstate option" where
  "thread_set_priority new_priority st =
     (if thread_mlfqs st then Some st
      else do {
        c \<leftarrow> thread_current st;
        let st = upd_thr c (\<lambda>r. r\<lparr>t_init_priority := new_priority\<rparr>) st;
        st \<leftarrow> thread_lock_refresh st;
        thread_check_preemption st })"

section \<open>Sleeping\<close>

definition thread_sleeping :: "int \<Rightarrow> kstate \<Rightarrow> kstate option" where
  "thread_sleeping wakeup st = do {
     c \<leftarrow> thread_current st;
     let old_level = intr_on st;
     let st = intr_disable st;
     if Some c \<noteq> idle_thread st
     then do {
       let st = upd_thr c (\<lambda>r. r\<lparr>t_wakeup_time := wakeup\<rparr>) st;
       let st = st\<lparr>sleeping_list := sleeping_list st @ [c]\<rparr>;
       thread_block (push [KSetLevel old_level] st) }
     else intr_set_level old_level st }"

text \<open>\<open>kept\<close> are the sleepers already passed over, \<open>rest\<close> those still to look at.\<close>

fun wake_up_loop :: "int \<Rightarrow> tref list \<Rightarrow> tref list \<Rightarrow> kstate \<Rightarrow> kstate option" where
  "wake_up_loop start kept [] st = Some (st\<lparr>sleeping_list := kept\<rparr>)"
| "wake_up_loop start kept (c # rest) st =
     (if start \<ge> t_wakeup_time (thr st c)
      then do {
        let st = st\<lparr>sleeping_list := kept @ rest\<rparr>;
        let st = upd_thr c (\<lambda>r. r\<lparr>t_wakeup_time := 0\<rparr>) st;
        st \<leftarrow> thread_unblock c st;
        wake_up_loop start kept rest st }
      else wake_up_loop start (kept @ [c]) rest st)"

definition thread_wake_up :: "kstate \<Rightarrow> kstate option" where
  "thread_wake_up st =
     (if sleeping_list st = [] then Some st
      else wake_up_loop (ticks st) [] (sleeping_list st) st)"

section \<open>Aging and the 4.4BSD scheduler\<close>

fun thread_aging_loop :: "tref list \<Rightarrow> kstate \<Rightarrow> kstate option" where
  "thread_aging_loop [] st = Some st"
| "thread_aging_loop (t # ts) st = do {
     p \<leftarrow> s32 (prio st t + 1);
     thread_aging_loop ts (set_prio p t st) }"

definition thread_aging :: "kstate \<Rightarrow> kstate option" where
  "thread_aging st = thread_aging_loop (ready_list st) st"

text \<open>\<^verbatim>\<open>caled_priority\<close>, before it is clamped.\<close>

definition caled_priority :: "int \<Rightarrow> int \<Rightarrow> int option" where
  "caled_priority recent_cpu nice = do {
     m \<leftarrow> int_to_fp PRI_MAX;
     q \<leftarrow> div_x_n recent_cpu 4;
     left_priority \<leftarrow> sub_x_y m q;
     n2 \<leftarrow> s32 (nice * 2);
     d \<leftarrow> sub_x_n left_priority n2;
     Some (fp_to_int_zero d) }"

definition clamp_priority :: "int \<Rightarrow> int" where
  "clamp_priority p = (if p > PRI_MAX then PRI_MAX else if p < PRI_MIN then PRI_MIN else p)"

fun bsd_cal_priority_loop :: "tref list \<Rightarrow> kstate \<Rightarrow> kstate option" where
  "bsd_cal_priority_loop [] st = Some st"
| "bsd_cal_priority_loop (t # ts) st = do {
     p \<leftarrow> caled_priority (t_recent_cpu (thr st t)) (t_nice (thr st t));
     bsd_cal_priority_loop ts (set_prio (clamp_priority p) t st) }"

definition bsd_cal_priority :: "kstate \<Rightarrow> kstate option" where
  "bsd_cal_priority st = bsd_cal_priority_loop (all_list st) st"

fun bsd_cal_recent_cpu_loop :: "int \<Rightarrow> tref list \<Rightarrow> kstate \<Rightarrow> kstate option" where
  "bsd_cal_recent_cpu_loop rate [] st = Some st"
| "bsd_cal_recent_cpu_loop rate (t # ts) st =
     (if t_name (thr st t) \<noteq> ''idle''
      then do {
        left_recent_cpu \<leftarrow> mul_x_y rate (t_recent_cpu (thr st t));
        r \<leftarrow> add_x_n left_recent_cpu (t_nice (thr st t));
        bsd_cal_recent_cpu_loop rate ts (upd_thr t (\<lambda>x. x\<lparr>t_recent_cpu := r\<rparr>) st) }
      else bsd_cal_recent_cpu_loop rate ts st)"

definition bsd_cal_recent_cpu :: "kstate \<Rightarrow> kstate option" where
  "bsd_cal_recent_cpu st = do {
     left_rate_of_decay \<leftarrow> mul_x_n (load_avg st) 2;
     m \<leftarrow> mul_x_n (load_avg st) 2;
     right_rate_of_decay \<leftarrow> add_x_n m 1;
     rate_of_decay \<leftarrow> div_x_y left_rate_of_decay right_rate_of_decay;
     bsd_cal_recent_cpu_loop rate_of_decay (all_list st) st }"

definition ready_threads :: "kstate \<Rightarrow> int" where
  "ready_threads st = int (length (filter
     (\<lambda>t. (status st t = THREAD_RUNNING \<or> status st t = THREAD_READY) \<and> t_name (thr st t) \<noteq> ''idle'')
     (all_list st)))"

definition new_load_avg :: "int \<Rightarrow> int \<Rightarrow> int option" where
  "new_load_avg load ready = do {
     a \<leftarrow> int_to_fp 59; b \<leftarrow> int_to_fp 60;
     div_59_60 \<leftarrow> div_x_y a b;
     c \<leftarrow> int_to_fp 1; d \<leftarrow> int_to_fp 60;
     div_1_60 \<leftarrow> div_x_y c d;
     left_load_avg \<leftarrow> mul_x_y div_59_60 load;
     right_load_avg \<leftarrow> mul_x_n div_1_60 ready;
     add_x_y left_load_avg right_load_avg }"

definition bsd_cal_load_avg :: "kstate \<Rightarrow> kstate option" where
  "bsd_cal_load_avg st = do {
     r \<leftarrow> new_load_avg (load_avg st) (ready_threads st);
     Some (st\<lparr>load_avg := r\<rparr>) }"

definition bsd_increase_recent_cpu :: "kstate \<Rightarrow> kstate option" where
  "bsd_increase_recent_cpu st = do {
     c \<leftarrow> thread_current st;
     if t_name (thr st c) \<noteq> ''idle''
     then do {
       r \<leftarrow> add_x_n (t_recent_cpu (thr st c)) 1;
       Some (upd_thr c (\<lambda>x. x\<lparr>t_recent_cpu := r\<rparr>) st) }
     else Some st }"

definition thread_set_nice :: "int \<Rightarrow> kstate \<Rightarrow> kstate option" where
  "thread_set_nice nice st = do {
     let old_level = intr_on st;
     let st = intr_disable st;
     t \<leftarrow> thread_current st;
     let st = upd_thr t (\<lambda>r. r\<lparr>t_nice := nice\<rparr>) st;
     st \<leftarrow> (if t_name (thr st t) \<noteq> ''idle''
           then do {
             p \<leftarrow> caled_priority (t_recent_cpu (thr st t)) (t_nice (thr st t));
             Some (if p > PRI_MAX then set_prio PRI_MAX t st
                   else if p < PRI_MIN then set_prio PRI_MIN t st
                   else st) }
           else Some st);
     st \<leftarrow> intr_set_level old_level st;
     thread_check_preemption st }"

definition thread_get_nice :: "kstate \<Rightarrow> int option" where
  "thread_get_nice st = do { c \<leftarrow> thread_current st; Some (t_nice (thr st c)) }"

definition thread_get_load_avg :: "kstate \<Rightarrow> int option" where
  "thread_get_load_avg st = do { m \<leftarrow> mul_x_n (load_avg st) 100; fp_to_int_near m }"

definition thread_get_recent_cpu :: "kstate \<Rightarrow> int option" where
  "thread_get_recent_cpu st = do {
     c \<leftarrow> thread_current st;
     m \<leftarrow> mul_x_n (t_recent_cpu (thr st c)) 100;
     fp_to_int_near m }"

section \<open>Clock ticks (thread.c, devices/timer.c)\<close>

definition tick_statistics :: "tref \<Rightarrow> kstate \<Rightarrow> kstate" where
  "tick_statistics t st =
     (if Some t = idle_thread st then st\<lparr>idle_ticks := idle_ticks st + 1\<rparr>
      else st\<lparr>kernel_ticks := kernel_ticks st + 1\<rparr>)"

definition thread_tick :: "kstate \<Rightarrow> kstate option" where
  "thread_tick st = do {
     t \<leftarrow> thread_current st;
     let st = tick_statistics t st;
     let st = st\<lparr>thread_ticks := thread_ticks st + 1\<rparr>;
     st \<leftarrow> (if thread_ticks st \<ge> TIME_SLICE then intr_yield_on_return st else Some st);
     st \<leftarrow> thread_wake_up st;
     if thread_prior_aging st then thread_aging st else Some st }"

definition timer_interrupt :: "kstate \<Rightarrow> kstate option" where
  "timer_interrupt st = do {
     let st = st\<lparr>ticks := ticks st + 1\<rparr>;
     st \<leftarrow> thread_tick st;
     if thread_mlfqs st
     then do {
       st \<leftarrow> bsd_increase_recent_cpu st;
       st \<leftarrow> (if ticks st smod 4 = 0 then bsd_cal_priority st else Some st);
       if ticks st smod TIMER_FREQ = 0
       then do { st \<leftarrow> bsd_cal_load_avg st; bsd_cal_recent_cpu st }
       else Some st }
     else Some st }"

text \<open>
  The external-interrupt path of \<^verbatim>\<open>intr_handler\<close> for the timer.  The processor enters
  with interrupts off and restores the flag on return, after a yield the handler asked for.
\<close>

definition timer_intr_handler :: "kstate \<Rightarrow> kstate option" where
  "timer_intr_handler st = do {
     let st = push [KSetLevel (intr_on st)] (intr_disable st);
     chk (\<not> in_external_intr st);
     let st = st\<lparr>in_external_intr := True, yield_on_return := False\<rparr>;
     st \<leftarrow> timer_interrupt st;
     chk (\<not> intr_on st);
     chk (in_external_intr st);
     let st = st\<lparr>in_external_intr := False\<rparr>;
     if yield_on_return st then thread_yield st else Some st }"

definition timer_elapsed :: "int \<Rightarrow> kstate \<Rightarrow> int" where
  "timer_elapsed th st = ticks st - th"

definition timer_sleep :: "int \<Rightarrow> kstate \<Rightarrow> kstate option" where
  "timer_sleep n st = do {
     let start = ticks st;
     chk (intr_on st);
     thread_sleeping (start + n) st }"

end
