(* ===== verification/Synch.thy ===== *)
theory Synch
  imports Scheduler
begin

text \<open>
  The synchronization primitives of \<^verbatim>\<open>threads/synch.c\<close>: semaphores, locks with priority
  donation, and condition variables.

  Each function is cut where another thread may run: what stands behind a call that can switch
  threads is pushed as commands, and the part in front of it is one step.
\<close>

section \<open>Semaphores\<close>

definition sema_init :: "sema_ref \<Rightarrow> u32 \<Rightarrow> kstate \<Rightarrow> kstate" where
  "sema_init s v = upd_sema s (\<lambda>_. \<lparr>s_value = v, s_waiters = []\<rparr>)"

text \<open>
  One round of the loop of \<^verbatim>\<open>sema_down\<close>.  After a round that blocked, the thread comes
  back to the test of the loop.
\<close>

definition sema_down_loop :: "sema_ref \<Rightarrow> kstate \<Rightarrow> kstate option" where
  "sema_down_loop s st =
     (if s_value (sema st s) = 0
      then do {
        c \<leftarrow> thread_current st;
        let st = upd_sema s (\<lambda>r. r\<lparr>s_waiters := insert_ordered (value_more st) c (s_waiters r)\<rparr>) st;
        thread_block (push [KDown s] st) }
      else Some (upd_sema s (\<lambda>r. r\<lparr>s_value := s_value r - 1\<rparr>) st))"

definition sema_down :: "sema_ref \<Rightarrow> kstate \<Rightarrow> kstate option" where
  "sema_down s st = do {
     chk (\<not> in_external_intr st);
     let old_level = intr_on st;
     let st = intr_disable st;
     sema_down_loop s (push [KSetLevel old_level] st) }"

definition sema_try_down :: "sema_ref \<Rightarrow> kstate \<Rightarrow> (bool \<times> kstate) option" where
  "sema_try_down s st = do {
     let old_level = intr_on st;
     let st = intr_disable st;
     let (success, st) =
       (if s_value (sema st s) > 0
        then (True, upd_sema s (\<lambda>r. r\<lparr>s_value := s_value r - 1\<rparr>) st)
        else (False, st));
     st \<leftarrow> intr_set_level old_level st;
     Some (success, st) }"

definition sema_up :: "sema_ref \<Rightarrow> kstate \<Rightarrow> kstate option" where
  "sema_up s st = do {
     let old_level = intr_on st;
     let st = intr_disable st;
     st \<leftarrow> (if waiters st s \<noteq> []
           then do {
             let ws = sort_stable (value_more st) (waiters st s);
             let st = upd_sema s (\<lambda>r. r\<lparr>s_waiters := tl ws\<rparr>) st;
             thread_unblock (hd ws) st }
           else Some st);
     let st = upd_sema s (\<lambda>r. r\<lparr>s_value := s_value r + 1\<rparr>) st;
     thread_check_preemption (push [KSetLevel old_level] st) }"

section \<open>Locks\<close>

definition lock_init :: "lref \<Rightarrow> kstate \<Rightarrow> kstate" where
  "lock_init l st = sema_init (LockSema l) 1 (st\<lparr>holder := (holder st)(l := None)\<rparr>)"

definition lock_held_by_current_thread :: "lref \<Rightarrow> kstate \<Rightarrow> bool option" where
  "lock_held_by_current_thread l st = do { c \<leftarrow> thread_current st; Some (holder st l = Some c) }"

text \<open>\<^verbatim>\<open>lock_acquire\<close> up to its \<^verbatim>\<open>sema_down\<close>, and the two stores after it.\<close>

definition lock_acquire :: "lref \<Rightarrow> kstate \<Rightarrow> kstate option" where
  "lock_acquire l st = do {
     chk (\<not> in_external_intr st);
     held \<leftarrow> lock_held_by_current_thread l st;
     chk (\<not> held);
     st \<leftarrow> (if \<not> thread_mlfqs st
           then (if holder st l \<noteq> None then thread_lock_acquire l st else Some st)
           else Some st);
     Some (push [KSemaDown (LockSema l), KLockTaken l] st) }"

definition lock_taken :: "lref \<Rightarrow> kstate \<Rightarrow> kstate option" where
  "lock_taken l st = do {
     c \<leftarrow> thread_current st;
     let st = upd_thr c (\<lambda>r. r\<lparr>t_lock_wait := None\<rparr>) st;
     Some (st\<lparr>holder := (holder st)(l := Some c)\<rparr>) }"

definition lock_try_acquire :: "lref \<Rightarrow> kstate \<Rightarrow> (bool \<times> kstate) option" where
  "lock_try_acquire l st = do {
     held \<leftarrow> lock_held_by_current_thread l st;
     chk (\<not> held);
     (success, st) \<leftarrow> sema_try_down (LockSema l) st;
     if success
     then do { c \<leftarrow> thread_current st; Some (success, st\<lparr>holder := (holder st)(l := Some c)\<rparr>) }
     else Some (success, st) }"

text \<open>\<^verbatim>\<open>lock_release\<close> up to its \<^verbatim>\<open>sema_up\<close>.\<close>

definition lock_release :: "lref \<Rightarrow> kstate \<Rightarrow> kstate option" where
  "lock_release l st = do {
     held \<leftarrow> lock_held_by_current_thread l st;
     chk held;
     st \<leftarrow> (if \<not> thread_mlfqs st
           then do { st \<leftarrow> thread_lock_remove l st; thread_lock_refresh st }
           else Some st);
     let st = st\<lparr>holder := (holder st)(l := None)\<rparr>;
     Some (push [KSemaUp (LockSema l)] st) }"

section \<open>Condition variables\<close>

definition cond_init :: "cref \<Rightarrow> kstate \<Rightarrow> kstate" where
  "cond_init c st = st\<lparr>cond_waiters := (cond_waiters st)(c := [])\<rparr>"

text \<open>
  \<^verbatim>\<open>value_more_cond\<close> compares the first waiters of two semaphores.  A semaphore without
  a waiter makes it read behind the empty list: what it finds there is \<open>stack_junk\<close>.
\<close>

definition first_waiter_prio :: "kstate \<Rightarrow> tref \<Rightarrow> int" where
  "first_waiter_prio st w =
     (case waiters st (WaiterSema w) of [] \<Rightarrow> stack_junk st w | t # _ \<Rightarrow> prio st t)"

definition value_more_cond :: "kstate \<Rightarrow> tref \<Rightarrow> tref \<Rightarrow> bool" where
  "value_more_cond st a b \<longleftrightarrow> first_waiter_prio st a > first_waiter_prio st b"

interpretation vmc: strict_weak "value_more_cond st" for st
  by unfold_locales (auto simp: value_more_cond_def)

definition cond_wait :: "cref \<Rightarrow> lref \<Rightarrow> kstate \<Rightarrow> kstate option" where
  "cond_wait cv l st = do {
     chk (\<not> in_external_intr st);
     held \<leftarrow> lock_held_by_current_thread l st;
     chk held;
     w \<leftarrow> thread_current st;
     let st = sema_init (WaiterSema w) 0 st;
     let st = st\<lparr>cond_waiters := (cond_waiters st)(cv :=
                   insert_ordered (value_more_cond st) w (cond_waiters st cv))\<rparr>;
     lock_release l (push [KSemaDown (WaiterSema w), KLockAcquire l] st) }"

definition cond_signal :: "cref \<Rightarrow> lref \<Rightarrow> kstate \<Rightarrow> kstate option" where
  "cond_signal cv l st = do {
     chk (\<not> in_external_intr st);
     held \<leftarrow> lock_held_by_current_thread l st;
     chk held;
     if cond_waiters st cv \<noteq> []
     then do {
       let ws = sort_stable (value_more_cond st) (cond_waiters st cv);
       let st = st\<lparr>cond_waiters := (cond_waiters st)(cv := tl ws)\<rparr>;
       sema_up (WaiterSema (hd ws)) st }
     else Some st }"

text \<open>One round of the loop of \<^verbatim>\<open>cond_broadcast\<close>.\<close>

definition cond_broadcast :: "cref \<Rightarrow> lref \<Rightarrow> kstate \<Rightarrow> kstate option" where
  "cond_broadcast cv l st =
     (if cond_waiters st cv \<noteq> [] then cond_signal cv l (push [KBroadcast cv l] st) else Some st)"

end
