(* ===== verification/Threads.thy ===== *)
theory Threads
  imports Synch
begin

text \<open>
  Thread creation, the idle thread and the start of the thread system
  (\<^verbatim>\<open>threads/thread.c\<close>), and the kernel as a transition system: the running thread executes its
  continuation, its thread function calls the public interface, and timer interrupts strike
  whenever interrupts are on.
\<close>

section \<open>Creating threads\<close>

text \<open>A zeroed \<^verbatim>\<open>struct thread\<close>; \<^verbatim>\<open>THREAD_RUNNING\<close> is 0.\<close>

definition zero_thread :: thread where
  "zero_thread = \<lparr>t_tid = 0, t_status = THREAD_RUNNING, t_name = [], t_priority = 0, t_exit_status = 0,
     t_child = [], t_load_success = False, t_fd = replicate 128 NULL, t_wakeup_time = 0,
     t_init_priority = 0, t_lock_wait = None, t_lock_waiter = [], t_nice = 0, t_recent_cpu = 0,
     t_magic = 0, t_kont = []\<rparr>"

definition init_thread :: "tref \<Rightarrow> string \<Rightarrow> int \<Rightarrow> kstate \<Rightarrow> kstate option" where
  "init_thread t nm priority st = do {
     chk (t \<noteq> NULL);
     chk (PRI_MIN \<le> priority \<and> priority \<le> PRI_MAX);
     let st = upd_thr t (\<lambda>_. zero_thread\<lparr>t_status := THREAD_BLOCKED, t_name := take 15 nm,
                               t_priority := priority, t_magic := THREAD_MAGIC\<rparr>) st;
     let old_level = intr_on st;
     let st = intr_disable st;
     let st = st\<lparr>all_list := all_list st @ [t]\<rparr>;
     intr_set_level old_level st }"

text \<open>The semaphores of a new thread, all initialized to 0.\<close>

definition init_thread_semas :: "tref \<Rightarrow> kstate \<Rightarrow> kstate" where
  "init_thread_semas t st =
     sema_init (ThreadSema t WakeupSema) 0 (sema_init (ThreadSema t SleepingSema) 0
       (sema_init (ThreadSema t LoadSema) 0 (sema_init (ThreadSema t MemSema) 0
         (sema_init (ThreadSema t CSema) 0 st))))"

text \<open>The 4.4BSD priority a thread starts with.\<close>

definition init_bsd :: "tref \<Rightarrow> int \<Rightarrow> int \<Rightarrow> kstate \<Rightarrow> kstate option" where
  "init_bsd t nice recent_cpu st =
     (if thread_mlfqs st
      then do {
        let st = upd_thr t (\<lambda>r. r\<lparr>t_nice := nice, t_recent_cpu := recent_cpu\<rparr>) st;
        p \<leftarrow> caled_priority (t_recent_cpu (thr st t)) (t_nice (thr st t));
        Some (set_prio (clamp_priority p) t st) }
      else Some st)"

definition allocate_tid :: "tref \<Rightarrow> kstate \<Rightarrow> kstate option" where
  "allocate_tid t st =
     lock_acquire (tid_lock st) (push [KSetTid t, KLockRelease (tid_lock st)] st)"

definition set_tid :: "tref \<Rightarrow> kstate \<Rightarrow> kstate option" where
  "set_tid t st = do {
     n \<leftarrow> s32 (next_tid st + 1);
     Some (upd_thr t (\<lambda>r. r\<lparr>t_tid := next_tid st\<rparr>) (st\<lparr>next_tid := n\<rparr>)) }"

text \<open>
  \<^verbatim>\<open>thread_create\<close> up to \<^verbatim>\<open>allocate_tid\<close>, with the page that
  \<^verbatim>\<open>palloc_get_page\<close> gave; without one the function returns \<^verbatim>\<open>TID_ERROR\<close>.
  The tid of the new thread is its \<open>t_tid\<close>.
\<close>

definition thread_create ::
  "string \<Rightarrow> int \<Rightarrow> kcmd list \<Rightarrow> tref option \<Rightarrow> kstate \<Rightarrow> kstate option" where
  "thread_create nm priority function page st =
     (case page of
        None \<Rightarrow> Some st
      | Some t \<Rightarrow> do {
          st \<leftarrow> init_thread t nm priority st;
          allocate_tid t (push [KCreate t function] st) })"

text \<open>
  The rest of \<^verbatim>\<open>thread_create\<close>.  The frames it builds start the thread in
  \<^verbatim>\<open>kernel_thread\<close>: enable interrupts, run the function, exit.
\<close>

definition thread_create_rest :: "tref \<Rightarrow> kcmd list \<Rightarrow> kstate \<Rightarrow> kstate option" where
  "thread_create_rest t function st = do {
     let st = init_thread_semas t st;
     c \<leftarrow> thread_current st;
     let st = upd_thr c (\<lambda>r. r\<lparr>t_child := t_child r @ [t]\<rparr>) st;
     let st = upd_thr t (\<lambda>r. r\<lparr>t_child := [], t_lock_waiter := [], t_init_priority := t_priority r,
                               t_lock_wait := None\<rparr>) st;
     st \<leftarrow> init_bsd t (t_nice (thr st c)) (t_recent_cpu (thr st c)) st;
     let st = upd_thr t (\<lambda>r. r\<lparr>t_fd := replicate 128 NULL\<rparr>) st;
     let st = upd_thr t (\<lambda>r. r\<lparr>t_kont := KEnable # function @ [KExit]\<rparr>) st;
     st \<leftarrow> thread_unblock t st;
     thread_check_preemption st }"

definition idle_start :: "sema_ref \<Rightarrow> kstate \<Rightarrow> kstate option" where
  "idle_start idle_started st = do {
     c \<leftarrow> thread_current st;
     sema_up idle_started (st\<lparr>idle_thread := Some c\<rparr>) }"

definition idle_loop :: "kstate \<Rightarrow> kstate option" where
  "idle_loop st = thread_block (push [KEnable, KIdle] (intr_disable st))"

text \<open>
  \<^verbatim>\<open>idle_started\<close> is the semaphore on the stack of \<^verbatim>\<open>thread_start\<close>.
\<close>

definition thread_start :: "sema_ref \<Rightarrow> tref option \<Rightarrow> kstate \<Rightarrow> kstate option" where
  "thread_start idle_started page st =
     thread_create ''idle'' PRI_MIN [KIdleStart idle_started, KIdle] page
       (push [KEnable, KSemaDown idle_started] (sema_init idle_started 0 st))"

definition thread_init :: "kstate \<Rightarrow> kstate option" where
  "thread_init st = do {
     chk (\<not> intr_on st);
     let st = lock_init (tid_lock st) st;
     let st = st\<lparr>ready_list := [], all_list := [], sleeping_list := []\<rparr>;
     let t = running st;
     let st = st\<lparr>initial_thread := Some t\<rparr>;
     let k = t_kont (thr st t);
     st \<leftarrow> init_thread t ''main'' PRI_DEFAULT st;
     let st = upd_thr t (\<lambda>r. r\<lparr>t_kont := k\<rparr>) st;
     let st = init_thread_semas t st;
     let st = upd_thr t (\<lambda>r. r\<lparr>t_child := [], t_lock_waiter := [], t_init_priority := t_priority r,
                               t_lock_wait := None\<rparr>) st;
     st \<leftarrow> init_bsd t 0 0 st;
     let st = upd_thr t (\<lambda>r. r\<lparr>t_fd := replicate 128 NULL\<rparr>) st;
     allocate_tid t (set_status THREAD_RUNNING t st) }"

definition thread_name :: "kstate \<Rightarrow> string option" where
  "thread_name st = do { c \<leftarrow> thread_current st; Some (t_name (thr st c)) }"

definition thread_tid :: "kstate \<Rightarrow> int option" where
  "thread_tid st = do { c \<leftarrow> thread_current st; Some (t_tid (thr st c)) }"

fun foreach_loop :: "(tref \<Rightarrow> kstate \<Rightarrow> kstate option) \<Rightarrow> tref list \<Rightarrow> kstate \<Rightarrow> kstate option" where
  "foreach_loop func [] st = Some st"
| "foreach_loop func (t # ts) st = do { st \<leftarrow> func t st; foreach_loop func ts st }"

definition thread_foreach :: "(tref \<Rightarrow> kstate \<Rightarrow> kstate option) \<Rightarrow> kstate \<Rightarrow> kstate option" where
  "thread_foreach func st = do { chk (\<not> intr_on st); foreach_loop func (all_list st) st }"

section \<open>The kernel as a transition system\<close>

text \<open>The code behind a command; \<open>page\<close> is what the page allocator gives \<^verbatim>\<open>thread_start\<close>.\<close>

fun exec_cmd :: "tref option \<Rightarrow> kcmd \<Rightarrow> kstate \<Rightarrow> kstate option" where
  "exec_cmd page (KSetLevel b) st = intr_set_level b st"
| "exec_cmd page KEnable st = intr_enable st"
| "exec_cmd page (KSemaDown s) st = sema_down s st"
| "exec_cmd page (KDown s) st = sema_down_loop s st"
| "exec_cmd page (KSemaUp s) st = sema_up s st"
| "exec_cmd page (KLockAcquire l) st = lock_acquire l st"
| "exec_cmd page (KLockTaken l) st = lock_taken l st"
| "exec_cmd page (KLockRelease l) st = lock_release l st"
| "exec_cmd page (KBroadcast cv l) st = cond_broadcast cv l st"
| "exec_cmd page (KSetTid t) st = set_tid t st"
| "exec_cmd page (KCreate t f) st = thread_create_rest t f st"
| "exec_cmd page (KStart s) st = thread_start s page st"
| "exec_cmd page (KIdleStart s) st = idle_start s st"
| "exec_cmd page KIdle st = idle_loop st"
| "exec_cmd page KBody st = Some st"
| "exec_cmd page KExit st = thread_exit st"

definition pop :: "kstate \<Rightarrow> kstate" where
  "pop st = upd_thr (running st) (\<lambda>r. r\<lparr>t_kont := tl (t_kont r)\<rparr>) st"

abbreviation kont :: "kstate \<Rightarrow> tref \<Rightarrow> kcmd list" where
  "kont st t \<equiv> t_kont (thr st t)"

text \<open>The calls a thread function can make.\<close>

datatype kcall =
    CSemaDown sema_ref | CSemaTryDown sema_ref | CSemaUp sema_ref
  | CLockAcquire lref | CLockTryAcquire lref | CLockRelease lref
  | CCondWait cref lref | CCondSignal cref lref | CCondBroadcast cref lref
  | CYield | CSleep int | CSetPriority int | CSetNice int
  | CCreate string int "tref option" | CIntrDisable | CIntrEnable | CExit

text \<open>
  Thread functions use their own semaphores; those inside locks, threads and condition waiters
  belong to the kernel (the ones inside threads serve \<^verbatim>\<open>userprog/process.c\<close> only).
\<close>

definition client_sema :: "sema_ref \<Rightarrow> bool" where
  "client_sema s = (case s of Sema _ \<Rightarrow> True | _ \<Rightarrow> False)"

text \<open>\<^verbatim>\<open>palloc_get_page\<close> gives a page that is no thread's.\<close>

definition fresh_page :: "kstate \<Rightarrow> tref \<Rightarrow> bool" where
  "fresh_page st t \<longleftrightarrow> t \<noteq> NULL \<and> \<not> is_thread st t"

fun call_ok :: "kcall \<Rightarrow> kstate \<Rightarrow> bool" where
  "call_ok (CSemaDown s) st = client_sema s"
| "call_ok (CSemaTryDown s) st = client_sema s"
| "call_ok (CSemaUp s) st = client_sema s"
| "call_ok (CCreate nm p (Some t)) st = fresh_page st t"
| "call_ok _ st = True"

fun do_call :: "kcall \<Rightarrow> kstate \<Rightarrow> kstate option" where
  "do_call (CSemaDown s) st = sema_down s st"
| "do_call (CSemaTryDown s) st = map_option snd (sema_try_down s st)"
| "do_call (CSemaUp s) st = sema_up s st"
| "do_call (CLockAcquire l) st = lock_acquire l st"
| "do_call (CLockTryAcquire l) st = map_option snd (lock_try_acquire l st)"
| "do_call (CLockRelease l) st = lock_release l st"
| "do_call (CCondWait cv l) st = cond_wait cv l st"
| "do_call (CCondSignal cv l) st = cond_signal cv l st"
| "do_call (CCondBroadcast cv l) st = cond_broadcast cv l st"
| "do_call CYield st = thread_yield st"
| "do_call (CSleep n) st = timer_sleep n st"
| "do_call (CSetPriority p) st = thread_set_priority p st"
| "do_call (CSetNice n) st = thread_set_nice n st"
| "do_call (CCreate nm p page) st = thread_create nm p [KBody] page st"
| "do_call CIntrDisable st = Some (intr_disable st)"
| "do_call CIntrEnable st = intr_enable st"
| "do_call CExit st = thread_exit st"

text \<open>
  One step of the machine.  A step that would fail an assertion has no successor.  The allocator
  gives fresh pages, and the semaphore on the stack of \<^verbatim>\<open>thread_start\<close> is a new object, on
  which no thread waits.
\<close>

definition exec_ok :: "tref option \<Rightarrow> kcmd \<Rightarrow> kstate \<Rightarrow> bool" where
  "exec_ok page k st \<longleftrightarrow>
     (case page of None \<Rightarrow> True | Some t \<Rightarrow> fresh_page st t) \<and>
     (case k of KStart s \<Rightarrow> waiters st s = [] | _ \<Rightarrow> True)"

inductive kstep :: "kstate \<Rightarrow> kstate \<Rightarrow> bool" where
  exec: "kont st (running st) = k # ks \<Longrightarrow> exec_ok page k st \<Longrightarrow>
         exec_cmd page k (pop st) = Some st' \<Longrightarrow> kstep st st'"
| call: "kont st (running st) = KBody # ks \<Longrightarrow> call_ok c st \<Longrightarrow> do_call c st = Some st' \<Longrightarrow> kstep st st'"
| tick: "intr_on st \<Longrightarrow> timer_intr_handler st = Some st' \<Longrightarrow> kstep st st'"

inductive_cases kstepE: "kstep st st'"

text \<open>
  The machine before \<^verbatim>\<open>thread_init\<close>: the boot code runs in the page that becomes the initial
  thread; no page is a thread yet, no thread waits anywhere, and locks are initialized.
\<close>

definition boot_state :: "sema_ref \<Rightarrow> kstate \<Rightarrow> bool" where
  "boot_state s st \<longleftrightarrow>
     client_sema s \<and> \<not> intr_on st \<and> \<not> in_external_intr st \<and> running st \<noteq> NULL \<and>
     idle_thread st = None \<and>
     (\<forall>t. t_magic (thr st t) \<noteq> THREAD_MAGIC) \<and>
     (\<forall>t. kont st t = (if t = running st then [KStart s, KBody, KExit] else [])) \<and>
     (\<forall>x. waiters st x = []) \<and> (\<forall>l. s_value (sema st (LockSema l)) = 1 \<and> holder st l = None)"

inductive reachable :: "kstate \<Rightarrow> bool" where
  boot: "boot_state s st0 \<Longrightarrow> thread_init st0 = Some st \<Longrightarrow> reachable st"
| step: "reachable st \<Longrightarrow> kstep st st' \<Longrightarrow> reachable st'"

end
