(* ===== verification/Kernel_Inv.thy ===== *)
theory Kernel_Inv
  imports Threads
begin

text \<open>
  The invariant of the thread system and its preservation by the scheduler and the
  synchronization primitives: every live thread is the running one, the idle thread, or in exactly
  one queue that fits its status; \<^verbatim>\<open>all_list\<close> lists the live threads; every lock has one token, which
  its semaphore, its holder, or a thread on its way into or out of the lock has.
\<close>

section \<open>Places of a thread\<close>

text \<open>Where a thread that does not run can be: a queue, or under construction by \<open>PCreate x\<close>'s thread.\<close>

datatype place = PReady | PSleep | PWait sema_ref | PCreate tref

fun creations :: "kcmd list \<Rightarrow> tref list" where
  "creations [] = []"
| "creations (KCreate t f # ks) = t # creations ks"
| "creations (k # ks) = creations ks"

lemma creations_append [simp]: "creations (xs @ ys) = creations xs @ creations ys"
  by (induction xs rule: creations.induct) auto

fun at_place :: "kstate \<Rightarrow> place \<Rightarrow> tref list" where
  "at_place st PReady = ready_list st"
| "at_place st PSleep = sleeping_list st"
| "at_place st (PWait s) = waiters st s"
| "at_place st (PCreate x) = creations (kont st x)"

definition place_status :: "place \<Rightarrow> thread_status" where
  "place_status p = (case p of PReady \<Rightarrow> THREAD_READY | _ \<Rightarrow> THREAD_BLOCKED)"

lemma place_status_simps [simp]:
  "place_status PReady = THREAD_READY" "place_status PSleep = THREAD_BLOCKED"
  "place_status (PWait s) = THREAD_BLOCKED" "place_status (PCreate x) = THREAD_BLOCKED"
  by (simp_all add: place_status_def)

definition placed :: "kstate \<Rightarrow> bool" where
  "placed st \<longleftrightarrow>
     (\<forall>p. distinct (at_place st p)) \<and>
     (\<forall>p. \<forall>t\<in>set (at_place st p).
        is_thread st t \<and> status st t = place_status p \<and> idle_thread st \<noteq> Some t) \<and>
     (\<forall>p q t. t \<in> set (at_place st p) \<longrightarrow> t \<in> set (at_place st q) \<longrightarrow> p = q) \<and>
     (\<forall>t. is_thread st t \<longrightarrow> status st t = THREAD_READY \<or> status st t = THREAD_BLOCKED \<longrightarrow>
        idle_thread st = Some t \<or> (\<exists>p. t \<in> set (at_place st p))) \<and>
     (\<forall>t. is_thread st t \<longrightarrow> status st t = THREAD_RUNNING \<longrightarrow> t = running st)"

definition all_ok :: "kstate \<Rightarrow> bool" where
  "all_ok st \<longleftrightarrow> distinct (all_list st) \<and>
     (\<forall>t. t \<in> set (all_list st) \<longleftrightarrow> is_thread st t \<and> status st t \<noteq> THREAD_DYING)"

section \<open>Continuations\<close>

fun own_sema :: "tref \<Rightarrow> sema_ref \<Rightarrow> bool" where
  "own_sema x (WaiterSema c) = (c = x)"
| "own_sema x (ThreadSema t y) = False"
| "own_sema x _ = True"

fun cmd_ok :: "tref \<Rightarrow> kcmd \<Rightarrow> bool" where
  "cmd_ok x (KSemaDown s) = own_sema x s"
| "cmd_ok x (KDown s) = own_sema x s"
| "cmd_ok x (KCreate t f) = (f = [KBody] \<or> (\<exists>s. client_sema s \<and> f = [KIdleStart s, KIdle]))"
| "cmd_ok x (KStart s) = client_sema s"
| "cmd_ok x (KIdleStart s) = client_sema s"
| "cmd_ok x _ = True"

definition idle_cmds :: "kcmd set" where
  "idle_cmds = {KSetLevel True, KSetLevel False, KEnable} \<union> range KIdleStart"

definition idle_kont :: "kcmd list \<Rightarrow> bool" where
  "idle_kont ks \<longleftrightarrow> (\<exists>pre. ks = pre @ [KIdle, KExit] \<and> set pre \<subseteq> idle_cmds)"

text \<open>A thread function is at the bottom of a continuation, above the call of \<^verbatim>\<open>thread_exit\<close>.\<close>

fun tail_ok :: "kcmd list \<Rightarrow> bool" where
  "tail_ok [] = True"
| "tail_ok (k # ks) \<longleftrightarrow> (case k of KBody \<Rightarrow> ks = [KExit] | KExit \<Rightarrow> ks = [] | _ \<Rightarrow> tail_ok ks)"

definition kont_ok :: "kstate \<Rightarrow> bool" where
  "kont_ok st \<longleftrightarrow>
     (\<forall>x. \<forall>k\<in>set (kont st x). cmd_ok x k) \<and> (\<forall>x. tail_ok (kont st x)) \<and>
     (\<forall>x. kont st x \<noteq> [] \<longrightarrow> is_thread st x \<and> status st x \<noteq> THREAD_DYING) \<and>
     (\<forall>x. \<forall>t\<in>set (creations (kont st x)). kont st t = []) \<and>
     (\<forall>x. KIdle \<in> set (kont st x) \<or> (\<exists>s. KIdleStart s \<in> set (kont st x)) \<longrightarrow> idle_kont (kont st x)) \<and>
     (\<forall>x. KIdle \<in> set (kont st x) \<longrightarrow> idle_thread st = Some x \<or> (\<exists>s. KIdleStart s \<in> set (kont st x))) \<and>
     (\<forall>x. idle_thread st = Some x \<longrightarrow> KIdle \<in> set (kont st x)) \<and>
     (\<forall>s. \<forall>x\<in>set (waiters st s). own_sema x s)"

section \<open>Tokens\<close>

text \<open>
  A command that will take a lock's semaphore counts \<open>-1\<close>, one behind which the thread has it
  counts \<open>1\<close>.
\<close>

fun tk :: "lref \<Rightarrow> kcmd \<Rightarrow> int" where
  "tk l (KSemaDown s) = (if s = LockSema l then -1 else 0)"
| "tk l (KDown s) = (if s = LockSema l then -1 else 0)"
| "tk l (KSemaUp s) = (if s = LockSema l then 1 else 0)"
| "tk l (KLockTaken l') = (if l' = l then 1 else 0)"
| "tk l _ = 0"

abbreviation tok :: "lref \<Rightarrow> kcmd list \<Rightarrow> int" where
  "tok l ks \<equiv> sum_list (map (tk l) ks)"

fun tok_pos :: "lref \<Rightarrow> kcmd list \<Rightarrow> bool" where
  "tok_pos l [] = True"
| "tok_pos l (k # ks) \<longleftrightarrow> tok_pos l ks \<and> tk l k + tok l ks \<ge> 0"

lemma tok_pos_nonneg: "tok_pos l ks \<Longrightarrow> 0 \<le> tok l ks"
  by (cases ks) auto

definition held_tok :: "kstate \<Rightarrow> lref \<Rightarrow> int" where
  "held_tok st l = (if holder st l = None then 0 else 1)"

text \<open>\<open>d\<close> are the tokens of the command in execution.\<close>

definition tokens_ok :: "(lref \<Rightarrow> int) \<Rightarrow> kstate \<Rightarrow> bool" where
  "tokens_ok d st \<longleftrightarrow>
     (\<forall>l. int (unat (s_value (sema st (LockSema l)))) + (\<Sum>t\<in>UNIV. tok l (kont st t)) + held_tok st l + d l = 1) \<and>
     (\<forall>l t. tok_pos l (kont st t)) \<and>
     (\<forall>l. tok l (kont st (running st)) + d l \<ge> 0)"

fun icount :: "kcmd \<Rightarrow> nat" where
  "icount (KStart s) = 1"
| "icount (KIdleStart s) = 1"
| "icount (KCreate t f) = sum_list (map icount f)"
| "icount _ = 0"

definition idle_once :: "nat \<Rightarrow> kstate \<Rightarrow> bool" where
  "idle_once e st \<longleftrightarrow>
     (\<Sum>t\<in>UNIV. sum_list (map icount (kont st t))) + (if idle_thread st = None then 0 else 1) + e \<le> 1"

text \<open>
  The invariant, with the flag \<^verbatim>\<open>in_external_intr\<close>; \<open>base_inv\<close> is the part that also holds
  while the processor is handed over.
\<close>

definition base_inv :: "bool \<Rightarrow> (lref \<Rightarrow> int) \<Rightarrow> nat \<Rightarrow> kstate \<Rightarrow> bool" where
  "base_inv b d e st \<longleftrightarrow> placed st \<and> all_ok st \<and> kont_ok st \<and> tokens_ok d st \<and> idle_once e st \<and>
     in_external_intr st = b"

definition kernel_inv :: "bool \<Rightarrow> (lref \<Rightarrow> int) \<Rightarrow> nat \<Rightarrow> kstate \<Rightarrow> bool" where
  "kernel_inv b d e st \<longleftrightarrow> base_inv b d e st \<and> is_thread st (running st) \<and> status st (running st) = THREAD_RUNNING"

abbreviation kinv :: "kstate \<Rightarrow> bool" where
  "kinv \<equiv> kernel_inv False (\<lambda>_. 0) 0"

section \<open>Steps the invariant does not see\<close>

definition quiet :: "kstate \<Rightarrow> kstate \<Rightarrow> bool" where
  "quiet st st' \<longleftrightarrow>
     (\<forall>t. status st' t = status st t \<and> t_magic (thr st' t) = t_magic (thr st t) \<and> kont st' t = kont st t) \<and>
     sema st' = sema st \<and> holder st' = holder st \<and> mset (ready_list st') = mset (ready_list st) \<and>
     sleeping_list st' = sleeping_list st \<and> all_list st' = all_list st \<and> idle_thread st' = idle_thread st \<and>
     running st' = running st \<and> in_external_intr st' = in_external_intr st"

lemma quiet_refl [intro!, simp]: "quiet st st"
  by (simp add: quiet_def)

lemma quiet_trans [trans]: "quiet a b \<Longrightarrow> quiet b c \<Longrightarrow> quiet a c"
  by (simp add: quiet_def)

lemma quiet_at: "quiet st st' \<Longrightarrow> mset (at_place st' p) = mset (at_place st p)"
  by (cases p) (auto simp: quiet_def)

lemma quiet_is_thread: "quiet st st' \<Longrightarrow> is_thread st' t = is_thread st t"
  by (simp add: quiet_def is_thread_def)

lemma placed_cong:
  assumes "\<And>p. mset (at_place st' p) = mset (at_place st p)" "\<And>t. is_thread st' t = is_thread st t"
    "\<And>t. status st' t = status st t" "idle_thread st' = idle_thread st" "running st' = running st"
  shows "placed st' = placed st"
proof -
  have "\<And>p. set (at_place st' p) = set (at_place st p)" "\<And>p. distinct (at_place st' p) = distinct (at_place st p)"
    using assms(1) by (metis set_mset_mset, metis distinct_count_atmost_1 set_mset_mset)
  then show ?thesis using assms(2-) by (simp add: placed_def)
qed

lemma quietD:
  assumes "quiet st st'"
  shows "\<And>t. status st' t = status st t" "\<And>t. kont st' t = kont st t" "\<And>t. is_thread st' t = is_thread st t"
    "sema st' = sema st" "holder st' = holder st" "\<And>p. mset (at_place st' p) = mset (at_place st p)"
    "all_list st' = all_list st" "idle_thread st' = idle_thread st" "running st' = running st"
    "in_external_intr st' = in_external_intr st"
  using assms quiet_at quiet_is_thread by (auto simp: quiet_def)

lemma quiet_base:
  assumes "quiet st st'"
  shows "base_inv b d e st' = base_inv b d e st"
  unfolding base_inv_def all_ok_def kont_ok_def tokens_ok_def held_tok_def idle_once_def
  by (simp only: quietD [OF assms] placed_cong [OF quietD(6) quietD(3) quietD(1) quietD(8) quietD(9), OF assms assms assms assms assms])

lemma quiet_kinv:
  assumes "quiet st st'"
  shows "kernel_inv b d e st' = kernel_inv b d e st"
  unfolding kernel_inv_def by (simp only: quietD [OF assms] quiet_base [OF assms])

end
