(* ===== verification/Kernel_Preserve.thy ===== *)
theory Kernel_Preserve
  imports Kernel_Inv
begin

text \<open>
  Every operation of the thread system keeps the invariant of \<^verbatim>\<open>Kernel_Inv\<close>, hence every
  reachable state satisfies it.
\<close>

section \<open>Operations the invariant does not see\<close>

named_theorems quiet_ops

declare bind_eq_Some_conv [simp]

lemma quiet_upd_thr [quiet_ops]:
  "(\<And>r. t_status (f r) = t_status r \<and> t_magic (f r) = t_magic r \<and> t_kont (f r) = t_kont r) \<Longrightarrow>
   quiet st (upd_thr t f st)"
  by (simp add: quiet_def)

lemma quiet_intr [quiet_ops]:
  "quiet st (intr_disable st)"
  "intr_enable st = Some st' \<Longrightarrow> quiet st st'"
  "intr_set_level b st = Some st' \<Longrightarrow> quiet st st'"
  by (auto simp: quiet_def intr_disable_def intr_enable_def intr_set_level_def split: if_splits)

lemma quiet_fields [quiet_ops]:
  "mset rl = mset (ready_list st) \<Longrightarrow> quiet st (st\<lparr>ready_list := rl\<rparr>)"
  "quiet st (st\<lparr>load_avg := v\<rparr>)" "quiet st (st\<lparr>ticks := w\<rparr>)" "quiet st (st\<lparr>thread_ticks := n\<rparr>)"
  "quiet st (st\<lparr>idle_ticks := w\<rparr>)" "quiet st (st\<lparr>kernel_ticks := w\<rparr>)" "quiet st (st\<lparr>next_tid := w\<rparr>)"
  "quiet st (st\<lparr>yield_on_return := b\<rparr>)" "quiet st (st\<lparr>cond_waiters := cw\<rparr>)"
  "quiet st (st\<lparr>initial_thread := it\<rparr>)" "quiet st (st\<lparr>intr_on := b\<rparr>)"
  by (auto simp: quiet_def)

lemma quiet_donate: "donate n m h st = Some st' \<Longrightarrow> quiet st st'"
proof (induction n arbitrary: h st)
  case (Suc n)
  then obtain x where x: "h = Some x" by (auto split: option.splits)
  have q: "quiet st (set_prio (prio st m) x st)" by (rule quiet_upd_thr) simp
  show ?case
  proof (cases "t_lock_wait (thr st x)")
    case None
    then show ?thesis using Suc.prems x q by simp
  next
    case (Some l)
    then have "donate n m (holder st l) (set_prio (prio st m) x st) = Some st'"
      using Suc.prems x by (simp add: Let_def)
    from quiet_trans [OF q Suc.IH [OF this]] show ?thesis .
  qed
qed simp

lemma quiet_thread_lock_acquire:
  assumes "thread_lock_acquire l st = Some st'" shows "quiet st st'"
proof (cases "holder st l")
  case None
  then show ?thesis using assms by (simp add: thread_lock_acquire_def)
next
  case (Some h)
  let ?st1 = "upd_thr (running st) (\<lambda>r. r\<lparr>t_lock_wait := Some l\<rparr>) st"
  let ?st2 = "upd_thr h (\<lambda>r. r\<lparr>t_lock_waiter := insert_ordered (value_more_waiter ?st1) (running st) (t_lock_waiter r)\<rparr>) ?st1"
  have "quiet st ?st1" "quiet ?st1 ?st2" by (rule quiet_upd_thr; simp)+
  moreover have "quiet ?st2 st'"
    using assms Some by (auto simp: thread_lock_acquire_def Let_def bind_eq_Some_conv dest: quiet_donate)
  ultimately show ?thesis using quiet_trans by blast
qed

lemma quiet_thread_lock_refresh: "thread_lock_refresh st = Some st' \<Longrightarrow> quiet st st'"
  by (auto simp: thread_lock_refresh_def Let_def bind_eq_Some_conv quiet_def split: if_splits)

lemma quiet_thread_lock_remove: "thread_lock_remove l st = Some st' \<Longrightarrow> quiet st st'"
  by (auto simp: thread_lock_remove_def quiet_def)

lemma quiet_aging_loop: "thread_aging_loop ts st = Some st' \<Longrightarrow> quiet st st'"
proof (induction ts arbitrary: st)
  case (Cons t ts)
  then obtain p where "thread_aging_loop ts (set_prio p t st) = Some st'"
    by (auto simp: bind_eq_Some_conv)
  then show ?case
    using quiet_trans [OF quiet_upd_thr [where t = t and f = "\<lambda>r. r\<lparr>t_priority := p\<rparr>" and st = st] Cons.IH] by simp
qed simp

lemma quiet_bsd_cal_priority_loop: "bsd_cal_priority_loop ts st = Some st' \<Longrightarrow> quiet st st'"
proof (induction ts arbitrary: st)
  case (Cons t ts)
  then obtain p where "bsd_cal_priority_loop ts (set_prio p t st) = Some st'"
    by (auto simp: bind_eq_Some_conv)
  then show ?case
    using quiet_trans [OF quiet_upd_thr [where t = t and f = "\<lambda>r. r\<lparr>t_priority := p\<rparr>" and st = st] Cons.IH] by simp
qed simp

lemma quiet_bsd_cal_recent_cpu_loop: "bsd_cal_recent_cpu_loop rate ts st = Some st' \<Longrightarrow> quiet st st'"
proof (induction ts arbitrary: st)
  case (Cons t ts)
  show ?case
  proof (cases "t_name (thr st t) \<noteq> ''idle''")
    case True
    then obtain r where "bsd_cal_recent_cpu_loop rate ts (upd_thr t (\<lambda>x. x\<lparr>t_recent_cpu := r\<rparr>) st) = Some st'"
      using Cons.prems by (auto simp: bind_eq_Some_conv)
    then show ?thesis
      using quiet_trans [OF quiet_upd_thr [where t = t and f = "\<lambda>x. x\<lparr>t_recent_cpu := r\<rparr>" and st = st] Cons.IH] by simp
  next
    case False
    then show ?thesis using Cons by simp
  qed
qed simp

lemma quiet_bsd [quiet_ops]:
  "thread_aging st = Some st' \<Longrightarrow> quiet st st'"
  "bsd_cal_priority st = Some st' \<Longrightarrow> quiet st st'"
  "bsd_cal_recent_cpu st = Some st' \<Longrightarrow> quiet st st'"
  "bsd_cal_load_avg st = Some st' \<Longrightarrow> quiet st st'"
  "bsd_increase_recent_cpu st = Some st' \<Longrightarrow> quiet st st'"
  by (auto simp: thread_aging_def bsd_cal_priority_def bsd_cal_recent_cpu_def bsd_cal_load_avg_def
      bsd_increase_recent_cpu_def bind_eq_Some_conv quiet_def split: if_splits
      dest!: quiet_aging_loop quiet_bsd_cal_priority_loop quiet_bsd_cal_recent_cpu_loop)

section \<open>Handing over the processor\<close>

lemma placed_idle_free: "placed st \<Longrightarrow> idle_thread st = Some i \<Longrightarrow> i \<notin> set (at_place st p)"
  by (auto simp: placed_def)

lemma kinv_base: "kernel_inv b d e st \<Longrightarrow> base_inv b d e st"
  by (simp add: kernel_inv_def)

lemma kont_ok_live:
  assumes "kont_ok st" "idle_thread st = Some i"
  shows "is_thread st i" "status st i \<noteq> THREAD_DYING"
proof -
  have "KIdle \<in> set (kont st i)" using assms by (simp add: kont_ok_def)
  then have "kont st i \<noteq> []" by auto
  then show "is_thread st i" "status st i \<noteq> THREAD_DYING" using assms(1) by (simp_all add: kont_ok_def)
qed

lemma placed_disj: "placed st \<Longrightarrow> t \<in> set (at_place st p) \<Longrightarrow> t \<in> set (at_place st q) \<Longrightarrow> p = q"
  unfolding placed_def by blast

lemma placed_distinct: "placed st \<Longrightarrow> distinct (at_place st p)"
  by (simp add: placed_def)

text \<open>Facts about statuses, continuations and tokens carry over when nothing they mention changes.\<close>

lemma all_ok_cong:
  assumes "all_ok st" "\<And>t. (is_thread st' t \<and> status st' t \<noteq> THREAD_DYING) = (is_thread st t \<and> status st t \<noteq> THREAD_DYING)"
    "all_list st' = all_list st"
  shows "all_ok st'"
  using assms(1) unfolding all_ok_def assms(2,3) .

lemma kont_ok_cong:
  assumes "kont_ok st" "\<And>t. (is_thread st' t \<and> status st' t \<noteq> THREAD_DYING) = (is_thread st t \<and> status st t \<noteq> THREAD_DYING) \<or> kont st t = []"
    "\<And>t. kont st' t = kont st t" "idle_thread st' = idle_thread st"
    "\<And>s x. x \<in> set (waiters st' s) \<Longrightarrow> x \<in> set (waiters st s) \<or> own_sema x s"
  shows "kont_ok st'"
proof -
  have w: "\<forall>s. \<forall>x\<in>set (waiters st' s). own_sema x s"
    using assms(1,5) unfolding kont_ok_def by blast
  have l: "\<forall>x. kont st x \<noteq> [] \<longrightarrow> is_thread st' x \<and> status st' x \<noteq> THREAD_DYING"
    using assms(1,2) unfolding kont_ok_def by blast
  show ?thesis
    unfolding kont_ok_def assms(3,4) using w l assms(1) unfolding kont_ok_def by (intro conjI) simp_all
qed

lemma tokens_idle_cong:
  assumes "\<And>t. kont st' t = kont st t"
  shows "tokens_ok d st \<Longrightarrow> sema st' = sema st \<Longrightarrow> holder st' = holder st \<Longrightarrow> running st' = running st \<Longrightarrow> tokens_ok d st'"
    "idle_once e st \<Longrightarrow> idle_thread st' = idle_thread st \<Longrightarrow> idle_once e st'"
  unfolding tokens_ok_def held_tok_def idle_once_def assms by simp_all

text \<open>Choosing \<open>n\<close>, which no queue holds any more.\<close>

lemma placed_dispatch:
  assumes pl: "placed st" and n: "is_thread st n" and cur: "status st (running st) \<noteq> THREAD_RUNNING"
    and rl: "ready_list st = n # rl \<or> (ready_list st = rl \<and> idle_thread st = Some n)"
  shows "placed (set_status THREAD_RUNNING n (st\<lparr>ready_list := rl, running := n\<rparr>)\<lparr>thread_ticks := v\<rparr>)"
    (is "placed ?st2")
proof -
  have notrun: "\<And>t. is_thread st t \<Longrightarrow> status st t \<noteq> THREAD_RUNNING"
    using pl cur by (auto simp: placed_def)
  have at2: "\<And>p. set (at_place ?st2 p) = set (at_place st p) - {n}"
  proof -
    fix p
    show "set (at_place ?st2 p) = set (at_place st p) - {n}"
    proof (cases "ready_list st = n # rl")
      case True
      then have "n \<in> set (at_place st PReady)" by simp
      then have "p \<noteq> PReady \<Longrightarrow> n \<notin> set (at_place st p)" using placed_disj [OF pl] by blast
      moreover have "distinct (ready_list st)" using placed_distinct [OF pl, of PReady] by simp
      ultimately show ?thesis using True by (cases p) auto
    next
      case False
      then have "n \<notin> set (at_place st p)" "ready_list st = rl"
        using rl placed_idle_free [OF pl] by blast+
      then show ?thesis by (cases p) auto
    qed
  qed
  have dist: "\<And>p. distinct (at_place ?st2 p)"
  proof -
    fix p
    have "distinct (at_place st p)" using pl by (simp add: placed_def)
    then show "distinct (at_place ?st2 p)" using rl by (cases p) auto
  qed
  have memb: "\<And>p t. t \<in> set (at_place st p) \<Longrightarrow> is_thread st t \<and> status st t = place_status p \<and> idle_thread st \<noteq> Some t"
    using pl by (simp add: placed_def)
  have isth: "\<And>t. is_thread ?st2 t = is_thread st t" using n by (auto simp: is_thread_def)
  have stat: "\<And>t. status ?st2 t = (if t = n then THREAD_RUNNING else status st t)" by simp
  have oth: "\<And>p q t. t \<in> set (at_place st p) \<Longrightarrow> t \<in> set (at_place st q) \<Longrightarrow> p = q"
    using pl unfolding placed_def by blast
  have lost: "\<And>t. is_thread st t \<Longrightarrow> status st t = THREAD_READY \<or> status st t = THREAD_BLOCKED \<Longrightarrow>
      idle_thread st = Some t \<or> (\<exists>p. t \<in> set (at_place st p))"
    using pl unfolding placed_def by blast
  have i: "idle_thread ?st2 = idle_thread st" "running ?st2 = n" by simp_all
  show ?thesis
    unfolding placed_def isth at2 i
  proof (intro conjI allI ballI impI)
    fix p t assume "t \<in> set (at_place st p) - {n}"
    then show "is_thread st t" "status ?st2 t = place_status p" "idle_thread st \<noteq> Some t"
      using memb [of t p] by (auto simp: stat)
  next
    fix t assume "is_thread st t" "status ?st2 t = THREAD_READY \<or> status ?st2 t = THREAD_BLOCKED"
    then show "idle_thread st = Some t \<or> (\<exists>p. t \<in> set (at_place st p) - {n})"
      using lost [of t] by (auto simp: stat split: if_splits)
  next
    fix t assume "is_thread st t" "status ?st2 t = THREAD_RUNNING"
    then show "t = n" using notrun [of t] by (auto simp: stat split: if_splits)
  qed (use dist oth in blast)+
qed

lemma kinv_dispatch:
  assumes inv: "base_inv b (\<lambda>_. 0) e st" and n: "is_thread st n" "status st n \<noteq> THREAD_DYING"
    and cur: "status st (running st) \<noteq> THREAD_RUNNING"
    and rl: "ready_list st = n # rl \<or> (ready_list st = rl \<and> idle_thread st = Some n)"
  shows "kernel_inv b (\<lambda>_. 0) e (set_status THREAD_RUNNING n (st\<lparr>ready_list := rl, running := n\<rparr>)\<lparr>thread_ticks := v\<rparr>)"
    (is "kernel_inv b _ e ?st2")
proof -
  have isth: "\<And>t. is_thread ?st2 t = is_thread st t" using n by (auto simp: is_thread_def)
  have stat: "\<And>t. status ?st2 t = (if t = n then THREAD_RUNNING else status st t)" by simp
  have k: "\<And>t. kont ?st2 t = kont st t" by simp
  have dy: "\<And>t. (status ?st2 t \<noteq> THREAD_DYING) = (status st t \<noteq> THREAD_DYING)" using n by simp
  have same: "sema ?st2 = sema st" "holder ?st2 = holder st" "all_list ?st2 = all_list st"
    "idle_thread ?st2 = idle_thread st" "in_external_intr ?st2 = in_external_intr st"
    "running ?st2 = n" by simp_all
  have "placed ?st2" using placed_dispatch [OF _ n(1) cur rl] inv by (simp add: base_inv_def)
  moreover have "all_ok ?st2"
    by (rule all_ok_cong [of st]) (use inv in \<open>simp_all only: isth dy same base_inv_def\<close>)
  moreover have "kont_ok ?st2"
    by (rule kont_ok_cong [of st, OF _ _ k same(4)])
       (use inv in \<open>simp_all only: isth dy same base_inv_def simp_thms\<close>)
  moreover have "tokens_ok (\<lambda>_. 0) ?st2"
    using inv tok_pos_nonneg unfolding base_inv_def tokens_ok_def held_tok_def same k by auto
  moreover have "idle_once e ?st2"
    by (rule tokens_idle_cong(2) [of _ st]) (use inv in \<open>simp_all only: k same base_inv_def\<close>)
  ultimately show ?thesis
    using inv n(1) unfolding kernel_inv_def base_inv_def isth same by simp
qed

lemma placed_mem:
  assumes "placed st" "t \<in> set (at_place st p)"
  shows "is_thread st t" "status st t = place_status p" "idle_thread st \<noteq> Some t"
  using assms by (simp_all add: placed_def)

lemma kinv_free:
  assumes inv: "kernel_inv b d e st" and p: "status st p = THREAD_DYING"
  shows "kernel_inv b d e (free_thread_page p st)" (is "kernel_inv b d e ?st2")
proof -
  have b: "base_inv b d e st" using inv by (rule kinv_base)
  have kp: "kont st p = []" using b p by (auto simp: base_inv_def kont_ok_def)
  have pr: "p \<noteq> running st" using inv p by (auto simp: kernel_inv_def)
  have isth: "\<And>t. is_thread ?st2 t = (is_thread st t \<and> t \<noteq> p)"
    by (auto simp: is_thread_def free_thread_page_def THREAD_MAGIC_def)
  have f: "\<And>t. status ?st2 t = status st t" "\<And>t. kont ?st2 t = kont st t" "sema ?st2 = sema st"
    "holder ?st2 = holder st" "all_list ?st2 = all_list st" "idle_thread ?st2 = idle_thread st"
    "in_external_intr ?st2 = in_external_intr st" "running ?st2 = running st"
    by (simp_all add: free_thread_page_def)
  have at: "\<And>q. at_place ?st2 q = at_place st q"
    by (case_tac q) (simp_all add: free_thread_page_def)
  have np: "\<And>q t. t \<in> set (at_place st q) \<Longrightarrow> t \<noteq> p"
  proof -
    fix q t assume t: "t \<in> set (at_place st q)"
    have "status st t = place_status q" using b t placed_mem(2) by (auto simp: base_inv_def)
    then show "t \<noteq> p" using p by (cases q) auto
  qed
  have "placed ?st2"
    using b np unfolding base_inv_def placed_def isth at f by blast
  moreover have "all_ok ?st2"
    by (rule all_ok_cong [of st]) (use b p in \<open>auto simp: isth f base_inv_def\<close>)
  moreover have "kont_ok ?st2"
    by (rule kont_ok_cong [of st]) (use b kp in \<open>auto simp: isth f base_inv_def\<close>)
  moreover have "tokens_ok d ?st2" "idle_once e ?st2"
    by (rule tokens_idle_cong [of _ st]; use b in \<open>simp add: f base_inv_def\<close>)+
  ultimately show ?thesis
    using inv pr unfolding kernel_inv_def base_inv_def isth f by blast
qed

lemma schedule_kinv:
  assumes inv: "base_inv b (\<lambda>_. 0) e st" and s: "schedule st = Some st'"
  shows "kernel_inv b (\<lambda>_. 0) e st'"
proof -
  have pl: "placed st" and ko: "kont_ok st" using inv by (auto simp: base_inv_def)
  from s obtain n rl where n: "is_thread st n" and cur: "status st (running st) \<noteq> THREAD_RUNNING"
    and rl: "ready_list st = n # rl \<or> (ready_list st = rl \<and> idle_thread st = Some n)"
    and tl: "thread_schedule_tail (if running st \<noteq> n then Some (running st) else None)
               (st\<lparr>ready_list := rl, running := n\<rparr>) = Some st'"
  proof (cases "ready_list st")
    case Nil
    then have r: "st\<lparr>ready_list := []\<rparr> = st" by simp
    show ?thesis using s Nil that [of _ "[]", unfolded r]
      by (cases "idle_thread st") (auto simp: schedule_def next_thread_to_run_def Let_def is_thread_def split: if_splits)
  next
    case (Cons a rl)
    then show ?thesis using s that [of a rl]
      by (auto simp: schedule_def next_thread_to_run_def Let_def is_thread_def split: if_splits)
  qed
  have nd: "status st n \<noteq> THREAD_DYING"
    using rl kont_ok_live [OF ko] placed_mem(2) [OF pl, of n PReady] by auto
  note k = kinv_dispatch [OF inv n nd cur rl, of 0]
  show ?thesis
    using tl kinv_free [OF k, of "running st"] k
    by (auto simp: thread_schedule_tail_def Let_def upd_thr_def split: if_splits)
qed

end
