(* ===== verification/Kernel_Safe.thy ===== *)
theory Kernel_Safe
  imports Kernel_Preserve
begin

text \<open>
  Pushing and popping continuations, moving threads between places, and from these the
  preservation of the invariant by every command, call and clock tick.
\<close>

section \<open>Continuations\<close>

lemma sum_fun_upd_int: "(\<Sum>t\<in>(UNIV::'a::finite set). f ((g(c := x)) t)) = (\<Sum>t\<in>UNIV. f (g t)) - f (g c) + (f x :: int)"
  by (simp add: sum.remove [of UNIV c] cong: if_cong)

lemma sum_fun_upd_nat: "(\<Sum>t\<in>(UNIV::'a::finite set). f ((g(c := x)) t)) + f (g c) = (\<Sum>t\<in>UNIV. f (g t)) + (f x :: nat)"
  by (simp add: sum.remove [of UNIV c])

lemma kont_okD:
  assumes "kont_ok st"
  shows "k \<in> set (kont st x) \<Longrightarrow> cmd_ok x k" "tail_ok (kont st x)"
    "kont st x \<noteq> [] \<Longrightarrow> is_thread st x \<and> status st x \<noteq> THREAD_DYING"
    "t \<in> set (creations (kont st x)) \<Longrightarrow> kont st t = []"
    "KIdle \<in> set (kont st x) \<or> KIdleStart s \<in> set (kont st x) \<Longrightarrow> idle_kont (kont st x)"
    "KIdle \<in> set (kont st x) \<Longrightarrow> idle_thread st = Some x \<or> (\<exists>s. KIdleStart s \<in> set (kont st x))"
    "idle_thread st = Some x \<Longrightarrow> KIdle \<in> set (kont st x)"
    "x \<in> set (waiters st s) \<Longrightarrow> own_sema x s"
  using assms unfolding kont_ok_def by blast+

lemma kont_okI:
  assumes "\<And>x k. k \<in> set (kont st x) \<Longrightarrow> cmd_ok x k" "\<And>x. tail_ok (kont st x)"
    "\<And>x. kont st x \<noteq> [] \<Longrightarrow> is_thread st x \<and> status st x \<noteq> THREAD_DYING"
    "\<And>x t. t \<in> set (creations (kont st x)) \<Longrightarrow> kont st t = []"
    "\<And>x s. KIdle \<in> set (kont st x) \<or> KIdleStart s \<in> set (kont st x) \<Longrightarrow> idle_kont (kont st x)"
    "\<And>x. KIdle \<in> set (kont st x) \<Longrightarrow> idle_thread st = Some x \<or> (\<exists>s. KIdleStart s \<in> set (kont st x))"
    "\<And>x. idle_thread st = Some x \<Longrightarrow> KIdle \<in> set (kont st x)"
    "\<And>x s. x \<in> set (waiters st s) \<Longrightarrow> own_sema x s"
  shows "kont_ok st"
  using assms unfolding kont_ok_def by blast

lemma idle_kont_KIdle: "idle_kont ks \<Longrightarrow> KIdle \<in> set ks"
  by (auto simp: idle_kont_def)

text \<open>Replacing the running thread's continuation.\<close>

lemma set_kont_inv:
  assumes inv: "kernel_inv b d e st"
    and cr: "creations ks = creations (kont st (running st))"
    and cmds: "\<forall>k\<in>set ks. cmd_ok (running st) k" "tail_ok ks"
    and idle: "KIdle \<in> set (kont st (running st)) \<longleftrightarrow> KIdle \<in> set ks"
      "\<And>s. KIdleStart s \<in> set (kont st (running st)) \<longleftrightarrow> KIdleStart s \<in> set ks"
      "KIdle \<in> set ks \<Longrightarrow> idle_kont ks"
    and tok: "\<And>l. tok_pos l ks" "\<And>l. tok l ks + d' l = tok l (kont st (running st)) + d l"
    and ic: "sum_list (map icount ks) + e' \<le> sum_list (map icount (kont st (running st))) + e"
  shows "kernel_inv b d' e' (upd_thr (running st) (\<lambda>r. r\<lparr>t_kont := ks\<rparr>) st)" (is "kernel_inv b d' e' ?st2")
proof -
  let ?c = "running st"
  have b: "placed st" "all_ok st" "kont_ok st" "tokens_ok d st" "idle_once e st"
    and c: "is_thread st ?c" "status st ?c = THREAD_RUNNING"
    using inv by (auto simp: kernel_inv_def base_inv_def)
  have isth: "\<And>t. is_thread ?st2 t = is_thread st t" using c by (auto simp: is_thread_def)
  have f: "\<And>t. status ?st2 t = status st t" "sema ?st2 = sema st" "holder ?st2 = holder st" "all_list ?st2 = all_list st"
    "idle_thread ?st2 = idle_thread st" "running ?st2 = ?c" "in_external_intr ?st2 = in_external_intr st" by simp_all
  have at: "\<And>p. at_place ?st2 p = at_place st p" using cr by (case_tac p) auto
  have pl: "placed ?st2" by (subst placed_cong [of ?st2 st]) (simp_all only: at isth f b)
  have nc: "\<And>x t. t \<in> set (creations (kont st x)) \<Longrightarrow> t \<noteq> ?c"
    using placed_mem(2) [OF b(1), of _ "PCreate _"] c by fastforce
  note K = kont_okD [OF b(3)]
  have ki: "kont ?st2 x = (if x = ?c then ks else kont st x)" for x by simp
  have ko: "kont_ok ?st2"
  proof (rule kont_okI, goal_cases)
    case (1 x k) then show ?case using K(1) [of k x] cmds(1) by (auto simp only: ki split: if_splits)
  next
    case (2 x) then show ?case using K(2) [of x] cmds(2) by (simp add: ki)
  next
    case (3 x) then show ?case using K(3) [of x] c by (cases "x = ?c") (simp_all only: ki isth f simp_thms if_True if_False, simp)
  next
    case (4 x t) then show ?case using K(4) [of t x] nc [of t x] cr by (cases "x = ?c") (simp_all add: ki)
  next
    case (5 x s)
    then show ?case
      using K(5) [of x s] K(5) [of ?c s] idle idle_kont_KIdle [of "kont st ?c"]
      by (cases "x = ?c") (auto simp add: ki)
  next
    case (6 x) then show ?case using K(6) [of x] idle(1,2) by (cases "x = ?c") (simp_all add: ki)
  next
    case (7 x) then show ?case using K(7) [of x] idle(1) by (cases "x = ?c") (simp_all add: ki)
  next
    case (8 x s) then show ?case using K(8) [of x s] by (simp only: f)
  qed
  have sm: "(\<Sum>t\<in>UNIV. tok l (kont ?st2 t)) = (\<Sum>t\<in>UNIV. tok l (kont st t)) + d l - d' l" for l
    using tok(2) [of l] sum_fun_upd_int [of "tok l" "kont st" ?c ks] by (simp only: ki fun_upd_apply)
  have tp: "tok_pos l (kont ?st2 x)" for l x
    using tok(1) b(4) by (auto simp only: ki tokens_ok_def split: if_splits)
  have eq: "int (unat (s_value (sema st (LockSema l)))) + (\<Sum>t\<in>UNIV. tok l (kont st t)) + held_tok st l + d l = 1"
    and po: "0 \<le> tok l (kont st ?c) + d l" for l
    using b(4) unfolding tokens_ok_def by blast+
  have tk: "tokens_ok d' ?st2"
    unfolding tokens_ok_def
  proof (intro conjI allI)
    fix l
    show "int (unat (s_value (sema ?st2 (LockSema l)))) + (\<Sum>t\<in>UNIV. tok l (kont ?st2 t)) + held_tok ?st2 l + d' l = 1"
      unfolding sm using eq [of l] by (simp add: held_tok_def)
    show "0 \<le> tok l (kont ?st2 (running ?st2)) + d' l"
      using po [of l] tok(2) [of l] by (simp only: ki f if_True simp_thms)
  qed (rule tp)
  have "(\<Sum>t\<in>UNIV. sum_list (map icount (kont ?st2 t))) + sum_list (map icount (kont st ?c)) =
      (\<Sum>t\<in>UNIV. sum_list (map icount (kont st t))) + sum_list (map icount ks)"
    using sum_fun_upd_nat [of "\<lambda>ks. sum_list (map icount ks)" "kont st" ?c ks] by (simp only: ki fun_upd_apply)
  then have io: "idle_once e' ?st2" using b(5) ic unfolding idle_once_def f by linarith
  have al: "all_ok ?st2" by (rule all_ok_cong [OF b(2)]) (simp_all only: isth f)
  show ?thesis
    unfolding kernel_inv_def base_inv_def isth f using pl ko tk io al c inv
    unfolding kernel_inv_def base_inv_def by blast
qed

lemma push_inv:
  assumes inv: "kernel_inv b d e st" and cr: "creations ks = []"
    and cmds: "\<forall>k\<in>set ks. cmd_ok (running st) k \<and> k \<noteq> KBody \<and> k \<noteq> KExit \<and> k \<noteq> KIdle \<and> icount k = 0"
    and idle: "KIdle \<in> set (kont st (running st)) \<Longrightarrow> set ks \<subseteq> {KSetLevel True, KSetLevel False, KEnable}"
    and tok: "\<And>l. tok_pos l (ks @ kont st (running st))"
  shows "kernel_inv b (\<lambda>l. d l - tok l ks) e (push ks st)"
proof -
  let ?c = "running st"
  have ko: "kont_ok st" using inv by (auto simp: kernel_inv_def base_inv_def)
  have tl: "tail_ok (ks @ kont st ?c)"
    using ko cmds unfolding kont_ok_def by (induction ks) (auto split: kcmd.splits)
  have ns: "\<And>s. KIdleStart s \<notin> set ks" using cmds by auto
  have ik: "KIdle \<in> set (ks @ kont st ?c) \<Longrightarrow> idle_kont (ks @ kont st ?c)"
  proof -
    assume "KIdle \<in> set (ks @ kont st ?c)"
    then have "KIdle \<in> set (kont st ?c)" using cmds by auto
    then obtain pre where "kont st ?c = pre @ [KIdle, KExit]" "set pre \<subseteq> idle_cmds" "set ks \<subseteq> idle_cmds"
      using ko idle unfolding kont_ok_def idle_kont_def idle_cmds_def by blast
    then show ?thesis unfolding idle_kont_def by (intro exI [of _ "ks @ pre"]) auto
  qed
  have ic: "sum_list (map icount ks) = 0" using cmds by (induction ks) auto
  have cm: "\<forall>k\<in>set (ks @ kont st ?c). cmd_ok ?c k" using cmds ko unfolding kont_ok_def by auto
  have "kernel_inv b (\<lambda>l. d l - tok l ks) e (upd_thr ?c (\<lambda>r. r\<lparr>t_kont := ks @ kont st ?c\<rparr>) st)"
    by (rule set_kont_inv [OF inv _ cm tl]) (use cr cmds ns ik tok ic in auto)
  then show ?thesis by (simp add: push_def upd_thr_def)
qed

text \<open>Popping a command; its tokens are then in hand.\<close>

lemma pop_inv:
  assumes inv: "kernel_inv b (\<lambda>_. 0) 0 st" and k: "kont st (running st) = k # ks"
    and nk: "k \<noteq> KIdle" "\<And>s. k \<noteq> KIdleStart s" "\<And>t f. k \<noteq> KCreate t f"
  shows "kernel_inv b (\<lambda>l. tk l k) (icount k) (pop st)"
proof -
  let ?c = "running st"
  have ko: "kont_ok st" and tk: "tokens_ok (\<lambda>_. 0) st" using inv by (auto simp: kernel_inv_def base_inv_def)
  note K = kont_okD(1-7) [OF ko, where x = ?c, unfolded k]
  have cr: "creations ks = creations (kont st ?c)" using nk k by (cases k) auto
  have tp: "\<And>l. tok_pos l ks" using tk k unfolding tokens_ok_def by (metis tok_pos.simps(2))
  have tl: "tail_ok ks" using K(2) by (cases k) auto
  have ik: "KIdle \<in> set ks \<Longrightarrow> idle_kont ks"
  proof -
    assume "KIdle \<in> set ks"
    then have "idle_kont (k # ks)" using K(5) by auto
    then obtain pre where p: "k # ks = pre @ [KIdle, KExit]" "set pre \<subseteq> idle_cmds" by (auto simp: idle_kont_def)
    then have "pre \<noteq> []" using nk(1) by auto
    then show ?thesis using p by (cases pre) (auto simp: idle_kont_def)
  qed
  have "kernel_inv b (\<lambda>l. tk l k) (icount k) (upd_thr ?c (\<lambda>r. r\<lparr>t_kont := ks\<rparr>) st)"
    by (rule set_kont_inv [OF inv cr _ tl]) (use K(1) k nk ik tp in auto)
  then show ?thesis using k by (simp add: pop_def upd_thr_def)
qed

text \<open>A thread whose next command is not one of the idle thread's is busy.\<close>

definition busy :: "kstate \<Rightarrow> bool" where
  "busy st \<longleftrightarrow> KIdle \<notin> set (kont st (running st))"

lemma busy_head:
  assumes "kernel_inv b d e st" "kont st (running st) = k # ks" "k \<notin> idle_cmds" "k \<noteq> KIdle"
  shows "busy st" "busy (pop st)"
proof -
  have "kont_ok st" using assms(1) by (auto simp: kernel_inv_def base_inv_def)
  note K = kont_okD(5) [OF this, of "running st", unfolded assms(2)]
  have "KIdle \<notin> set (k # ks)"
  proof
    assume "KIdle \<in> set (k # ks)"
    then have "idle_kont (k # ks)" using K by auto
    then obtain pre where p: "k # ks = pre @ [KIdle, KExit]" "set pre \<subseteq> idle_cmds" by (auto simp: idle_kont_def)
    then show False using assms(3,4) by (cases pre) auto
  qed
  then show "busy st" "busy (pop st)" using assms(2) by (auto simp: busy_def pop_def)
qed

lemma busy_not_idle:
  assumes "kernel_inv b d e st" "busy st"
  shows "idle_thread st \<noteq> Some (running st)"
  using assms kont_okD(7) [of st "running st"] by (auto simp: kernel_inv_def base_inv_def busy_def)

lemma busy_push: "busy st \<Longrightarrow> KIdle \<notin> set ks \<Longrightarrow> busy (push ks st)"
  by (simp add: busy_def push_def)

lemma busy_quiet: "quiet st st' \<Longrightarrow> busy st' = busy st"
  by (simp add: busy_def quiet_def)

section \<open>Moving a thread to another place\<close>

lemma placed_move:
  assumes pl: "placed st" and t: "is_thread st t" "idle_thread st \<noteq> Some t"
    and at: "\<And>q. set (at_place st2 q) = (if q = p then insert t (set (at_place st q)) else set (at_place st q) - {t})"
    and di: "\<And>q. distinct (at_place st2 q)"
    and stat: "\<And>x. status st2 x = (if x = t then place_status p else status st x)"
    and same: "\<And>x. is_thread st2 x = is_thread st x" "idle_thread st2 = idle_thread st" "running st2 = running st"
  shows "placed st2"
proof -
  note M = placed_mem [OF pl] and D = placed_disj [OF pl]
  have lost: "\<And>t. is_thread st t \<Longrightarrow> status st t = THREAD_READY \<or> status st t = THREAD_BLOCKED \<Longrightarrow>
      idle_thread st = Some t \<or> (\<exists>p. t \<in> set (at_place st p))"
    and run: "\<And>t. is_thread st t \<Longrightarrow> status st t = THREAD_RUNNING \<Longrightarrow> t = running st"
    using pl unfolding placed_def by blast+
  have nr: "place_status p \<noteq> THREAD_RUNNING" by (cases p) auto
  show ?thesis
    unfolding placed_def same
  proof (intro conjI allI ballI impI)
    fix q x assume x: "x \<in> set (at_place st2 q)"
    show "is_thread st x" using x at [of q] M(1) [of x q] t by (auto split: if_splits)
    show "idle_thread st \<noteq> Some x" using x at [of q] M(3) [of x q] t by (auto split: if_splits)
    show "status st2 x = place_status q" using x at [of q] M(2) [of x q] by (auto simp: stat split: if_splits)
  next
    fix q r x assume "x \<in> set (at_place st2 q)" "x \<in> set (at_place st2 r)"
    then show "q = r" using D [of x q r] by (auto simp: at split: if_splits)
  next
    fix x assume "is_thread st x" "status st2 x = THREAD_READY \<or> status st2 x = THREAD_BLOCKED"
    then show "idle_thread st = Some x \<or> (\<exists>q. x \<in> set (at_place st2 q))"
      using lost [of x] by (cases "x = t") (auto simp: at stat)
  next
    fix x assume "is_thread st x" "status st2 x = THREAD_RUNNING"
    then show "x = running st" using run [of x] nr by (auto simp: stat split: if_splits)
  qed (rule di)
qed

text \<open>The idle thread gives up the processor without entering a queue.\<close>

lemma placed_idle:
  assumes pl: "placed st" and i: "idle_thread st = Some t" and s: "s = THREAD_READY \<or> s = THREAD_BLOCKED"
  shows "placed (set_status s t st)"
proof -
  have at: "\<And>q. at_place (set_status s t st) q = at_place st q" by (case_tac q) auto
  have nt: "\<And>q. t \<notin> set (at_place st q)" using pl i by (rule placed_idle_free)
  have isth: "\<And>x. is_thread (set_status s t st) x = is_thread st x" by (auto simp: is_thread_def)
  have st2: "\<And>x. status (set_status s t st) x = (if x = t then s else status st x)" by simp
  have f: "idle_thread (set_status s t st) = idle_thread st" "running (set_status s t st) = running st" by simp_all
  show ?thesis
    using pl nt s i unfolding placed_def at isth st2 f by (intro conjI allI ballI impI) (auto split: if_splits)
qed

text \<open>The same with the rest of the invariant.\<close>

lemma base_move:
  assumes inv: "base_inv b d e st" and t: "is_thread st t" "idle_thread st \<noteq> Some t" "status st t \<noteq> THREAD_DYING"
    and at: "\<And>q. set (at_place st2 q) = (if q = p then insert t (set (at_place st q)) else set (at_place st q) - {t})"
    and di: "\<And>q. distinct (at_place st2 q)"
    and stat: "\<And>x. status st2 x = (if x = t then place_status p else status st x)"
    and isth: "\<And>x. is_thread st2 x = is_thread st x" and kont: "\<And>x. kont st2 x = kont st x"
    and wait: "\<And>s. p = PWait s \<Longrightarrow> own_sema t s"
    and vals: "\<And>s. s_value (sema st2 s) = s_value (sema st s)" "holder st2 = holder st"
    and same: "idle_thread st2 = idle_thread st" "running st2 = running st"
       "all_list st2 = all_list st" "in_external_intr st2 = in_external_intr st"
  shows "base_inv b d e st2"
proof -
  have nd: "place_status p \<noteq> THREAD_DYING" by (cases p) auto
  have B: "placed st" "all_ok st" "kont_ok st" "tokens_ok d st" "idle_once e st" "in_external_intr st = b"
    using inv by (auto simp: base_inv_def)
  have live: "\<And>x. (is_thread st2 x \<and> status st2 x \<noteq> THREAD_DYING) = (is_thread st x \<and> status st x \<noteq> THREAD_DYING)"
    using t nd by (auto simp: isth stat)
  have pl: "placed st2" by (rule placed_move [OF B(1) t(1,2) at di stat isth same(1,2)])
  have al: "all_ok st2" by (rule all_ok_cong [OF B(2) live same(3)])
  have wt: "x \<in> set (waiters st2 s) \<Longrightarrow> x \<in> set (waiters st s) \<or> own_sema x s" for x s
    using at [of "PWait s"] wait [of s] by (auto split: if_splits)
  have ko: "kont_ok st2" by (rule kont_ok_cong [OF B(3) disjI1 [OF live] kont same(1) wt])
  have to: "tokens_ok d st2" using B(4) unfolding tokens_ok_def held_tok_def vals kont same .
  have io: "idle_once e st2" by (rule tokens_idle_cong(2) [OF kont B(5) same(1)])
  show ?thesis unfolding base_inv_def same(4) using pl al ko to io B(6) by blast
qed

section \<open>Blocking, unblocking, yielding, exiting\<close>

lemma kernel_invD:
  assumes "kernel_inv b d e st"
  shows "placed st" "all_ok st" "kont_ok st" "tokens_ok d st" "idle_once e st" "in_external_intr st = b"
    "is_thread st (running st)" "status st (running st) = THREAD_RUNNING" "base_inv b d e st"
  using assms by (auto simp: kernel_inv_def base_inv_def)

lemma insert_ordered_mem [simp]:
  "set (insert_ordered f x xs) = insert x (set xs)" "distinct (insert_ordered f x xs) \<longleftrightarrow> x \<notin> set xs \<and> distinct xs"
  by (induction xs) auto

lemma running_nowhere: "kernel_inv b d e st \<Longrightarrow> running st \<notin> set (at_place st p)"
  using placed_mem(2) [of st "running st" p] kernel_invD(1,8) by (cases p) fastforce+

text \<open>The running thread has entered a queue and blocks.\<close>

lemma block_inv:
  assumes inv: "kernel_inv b (\<lambda>_. 0) e st" and i: "idle_thread st \<noteq> Some (running st)" and p: "p \<noteq> PReady"
    and at: "\<And>q. set (at_place st1 q) = (if q = p then insert (running st) (set (at_place st q)) else set (at_place st q))"
    and di: "\<And>q. distinct (at_place st1 q)"
    and thr: "thr st1 = thr st"
    and wait: "\<And>s. p = PWait s \<Longrightarrow> own_sema (running st) s"
    and vals: "\<And>s. s_value (sema st1 s) = s_value (sema st s)" "holder st1 = holder st"
    and same: "idle_thread st1 = idle_thread st" "running st1 = running st"
       "all_list st1 = all_list st" "in_external_intr st1 = in_external_intr st"
    and blk: "thread_block st1 = Some st'"
  shows "kernel_inv b (\<lambda>_. 0) e st'"
proof -
  let ?c = "running st"
  have s: "schedule (set_status THREAD_BLOCKED ?c st1) = Some st'"
    using blk same by (auto simp: thread_block_def split: if_splits)
  have at2: "at_place (set_status THREAD_BLOCKED ?c st1) q = at_place st1 q" for q by (cases q) auto
  note nw = running_nowhere [OF inv]
  have ps: "place_status p = THREAD_BLOCKED" using p by (cases p) auto
  have "base_inv b (\<lambda>_. 0) e (set_status THREAD_BLOCKED ?c st1)"
    by (rule base_move [OF kernel_invD(9) [OF inv], where t = ?c and p = p])
       (use kernel_invD(7,8) [OF inv] i at di nw wait vals same ps thr in
         \<open>auto simp: at2 is_thread_def simp del: at_place.simps\<close>)
  from schedule_kinv [OF this s] show ?thesis .
qed

text \<open>A thread taken out of its queue becomes ready.\<close>

lemma unblock_inv:
  assumes inv: "kernel_inv b d e st"
    and at: "\<And>q. set (at_place st1 q) = set (at_place st q) - {t}"
    and di: "\<And>q. distinct (at_place st1 q)"
    and thr: "\<And>x. is_thread st1 x = is_thread st x" "\<And>x. status st1 x = status st x" "\<And>x. kont st1 x = kont st x"
    and vals: "\<And>s. s_value (sema st1 s) = s_value (sema st s)" "holder st1 = holder st"
    and same: "idle_thread st1 = idle_thread st" "running st1 = running st"
       "all_list st1 = all_list st" "in_external_intr st1 = in_external_intr st"
    and i: "idle_thread st \<noteq> Some t"
    and u: "thread_unblock t st1 = Some st'"
  shows "kernel_inv b d e st'"
proof -
  let ?st2 = "set_status THREAD_READY t (st1\<lparr>intr_on := False,
     ready_list := insert_ordered (value_more (st1\<lparr>intr_on := False\<rparr>)) t (ready_list st1)\<rparr>)"
  have t: "is_thread st t" "status st t = THREAD_BLOCKED"
    using u thr by (auto simp: thread_unblock_def intr_disable_def Let_def split: if_splits)
  have q: "quiet ?st2 st'"
    using u by (auto simp: thread_unblock_def intr_disable_def Let_def split: if_splits dest: quiet_intr(3))
  have nr: "t \<noteq> running st" using t kernel_invD(8) [OF inv] by auto
  have tr: "t \<notin> set (ready_list st1)" using at [of PReady] by auto
  have at2: "set (at_place ?st2 q) = (if q = PReady then insert t (set (at_place st1 q)) else set (at_place st1 q))"
    for q by (cases q) simp_all
  have di2: "distinct (at_place ?st2 q)" for q
    using di [of q] tr by (cases q) auto
  have st2: "status ?st2 x = (if x = t then place_status PReady else status st1 x)" "kont ?st2 x = kont st1 x"
    "is_thread ?st2 x = is_thread st1 x" for x by (auto simp: is_thread_def)
  have f: "sema ?st2 = sema st1" "holder ?st2 = holder st1" "idle_thread ?st2 = idle_thread st1"
    "running ?st2 = running st1" "all_list ?st2 = all_list st1" "in_external_intr ?st2 = in_external_intr st1"
    by simp_all
  have "base_inv b d e ?st2"
    by (rule base_move [OF kernel_invD(9) [OF inv], where t = t and p = PReady])
       (use t i di2 in \<open>simp_all only: at at2 st2 f vals same thr\<close>, auto)
  then have "kernel_inv b d e ?st2"
    using nr kernel_invD(7,8) [OF inv] unfolding kernel_inv_def f st2 same thr by auto
  then show ?thesis using quiet_kinv [OF q] by simp
qed

lemma thread_comm:
  "r\<lparr>t_status := a, t_kont := k\<rparr> = r\<lparr>t_kont := k, t_status := a\<rparr>" for r :: thread
  by (cases r) simp

lemma yield_inv:
  assumes inv: "kernel_inv b (\<lambda>_. 0) e st" and y: "thread_yield st = Some st'"
  shows "kernel_inv b (\<lambda>_. 0) e st'"
proof -
  let ?c = "running st" and ?st0 = "st\<lparr>intr_on := False\<rparr>"
  let ?A = "push [KSetLevel (intr_on st)] ?st0"
  have i0: "kernel_inv b (\<lambda>_. 0) e ?st0" using inv quiet_kinv [OF quiet_fields(11)] by blast
  have A: "kernel_inv b (\<lambda>_. 0) e ?A"
    using push_inv [OF i0, of "[KSetLevel (intr_on st)]"] kernel_invD(4) [OF i0] tok_pos_nonneg
    by (cases "intr_on st") (fastforce simp: tokens_ok_def)+
  have kA: "kont ?A x = (if x = ?c then KSetLevel (intr_on st) # kont st x else kont st x)" for x
    by (simp add: push_def)
  note nw = running_nowhere [OF A]
  show ?thesis
  proof (cases "Some ?c = idle_thread st")
    case True
    have "placed (set_status THREAD_READY ?c ?A)"
      by (rule placed_idle) (use True kernel_invD(1) [OF A] in \<open>simp_all add: push_def\<close>)
    moreover have "all_ok (set_status THREAD_READY ?c ?A)"
      by (rule all_ok_cong [OF kernel_invD(2) [OF A]]) (use kernel_invD(7,8) [OF A] in \<open>auto simp: push_def is_thread_def\<close>)
    moreover have "kont_ok (set_status THREAD_READY ?c ?A)"
      by (rule kont_ok_cong [OF kernel_invD(3) [OF A]]) (use kernel_invD(7,8) [OF A] in \<open>auto simp: push_def is_thread_def\<close>)
    moreover have "tokens_ok (\<lambda>_. 0) (set_status THREAD_READY ?c ?A)" "idle_once e (set_status THREAD_READY ?c ?A)"
      by (rule tokens_idle_cong [of _ ?A]; use kernel_invD(4,5) [OF A] in \<open>auto simp: push_def\<close>)+
    ultimately have "base_inv b (\<lambda>_. 0) e (set_status THREAD_READY ?c ?A)"
      using kernel_invD(6) [OF A] by (simp add: base_inv_def)
    moreover have "schedule (set_status THREAD_READY ?c ?A) = Some st'"
      using y True by (auto simp: thread_yield_def intr_disable_def Let_def push_def upd_thr_def thread_comm split: if_splits)
    ultimately show ?thesis by (rule schedule_kinv)
  next
    case False
    let ?rl = "insert_ordered (value_more ?st0) ?c (ready_list st)"
    let ?st2 = "set_status THREAD_READY ?c (?A\<lparr>ready_list := ?rl\<rparr>)"
    have s: "schedule ?st2 = Some st'"
      using y False by (auto simp: thread_yield_def intr_disable_def Let_def push_def upd_thr_def thread_comm split: if_splits)
    have at2: "set (at_place ?st2 q) = (if q = PReady then insert ?c (set (at_place ?A q)) else set (at_place ?A q))"
      for q by (cases q) (auto simp: push_def)
    have di2: "distinct (at_place ?st2 q)" for q
      using placed_distinct [OF kernel_invD(1) [OF A], of q] nw [of PReady] by (cases q) (auto simp: push_def)
    have st2: "status ?st2 x = (if x = ?c then THREAD_READY else status ?A x)" "kont ?st2 x = kont ?A x"
      "is_thread ?st2 x = is_thread ?A x" for x by (auto simp: push_def is_thread_def)
    have nwc: "?c \<notin> set (at_place ?A q)" for q using nw [of q] by (simp add: push_def del: at_place.simps)
    have f: "sema ?st2 = sema ?A" "holder ?st2 = holder ?A" "idle_thread ?st2 = idle_thread ?A"
      "running ?st2 = running ?A" "all_list ?st2 = all_list ?A" "in_external_intr ?st2 = in_external_intr ?A"
      by (simp_all add: push_def)
    have cA: "is_thread ?A ?c" "status ?A ?c = THREAD_RUNNING" "idle_thread ?A \<noteq> Some ?c"
      using kernel_invD(7,8) [OF A] False by (simp_all add: push_def)
    have "base_inv b (\<lambda>_. 0) e ?st2"
      by (rule base_move [OF kernel_invD(9) [OF A], where t = ?c and p = PReady])
         (use cA nwc di2 in \<open>simp_all only: at2 st2 f\<close>, simp_all)
    from schedule_kinv [OF this s] show ?thesis .
  qed
qed

end
