(* ===== verification/Kernel_Reach.thy ===== *)
theory Kernel_Reach
  imports Kernel_Safe
begin

text \<open>
  Every command, call and clock tick keeps the invariant, so every reachable state has it.
\<close>

section \<open>Preemption and semaphores\<close>

abbreviation hand :: "sema_ref \<Rightarrow> int \<Rightarrow> lref \<Rightarrow> int" where
  "hand s n \<equiv> (\<lambda>l. if s = LockSema l then n else 0)"

lemma check_preemption_inv:
  assumes inv: "kernel_inv b (\<lambda>_. 0) e st" and r: "thread_check_preemption st = Some st'"
  shows "kernel_inv b (\<lambda>_. 0) e st'"
proof (cases "ready_list st = []")
  case True
  then show ?thesis using r inv by (simp add: thread_check_preemption_def)
next
  case False
  let ?st1 = "st\<lparr>ready_list := sort_stable (value_more st) (ready_list st)\<rparr>"
  have i1: "kernel_inv b (\<lambda>_. 0) e ?st1"
    using inv quiet_kinv [OF quiet_fields(1) [OF mset_sort_stable]] by blast
  have "st' = ?st1 \<or> thread_yield ?st1 = Some st'"
    using r False by (auto simp: thread_check_preemption_def Let_def split: if_splits)
  then show ?thesis using i1 yield_inv by blast
qed

lemma push_level_inv:
  assumes inv: "kernel_inv b d e st"
  shows "kernel_inv b d e (push [KSetLevel v] st)"
proof -
  have tp: "tok_pos l (kont st (running st))" for l using kernel_invD(4) [OF inv] by (simp add: tokens_ok_def)
  have "kernel_inv b (\<lambda>l. d l - tok l [KSetLevel v]) e (push [KSetLevel v] st)"
    using tp tok_pos_nonneg [OF tp] by (intro push_inv [OF inv]) (cases v; auto)+
  then show ?thesis by simp
qed

lemma sema_value_inv:
  assumes inv: "kernel_inv b d e st"
    and v: "\<And>l. s = LockSema l \<Longrightarrow> int (unat v) + d' l = int (unat (s_value (sema st s))) + d l"
    and o: "\<And>l. s \<noteq> LockSema l \<Longrightarrow> d' l = d l"
    and pos: "\<And>l. 0 \<le> tok l (kont st (running st)) + d' l"
  shows "kernel_inv b d' e (upd_sema s (\<lambda>r. r\<lparr>s_value := v\<rparr>) st)" (is "kernel_inv _ _ _ ?st2")
proof -
  have k: "kont ?st2 x = kont st x" "status ?st2 x = status st x" "is_thread ?st2 x = is_thread st x" for x
    by simp_all
  have f: "holder ?st2 = holder st" "idle_thread ?st2 = idle_thread st" "running ?st2 = running st"
    "all_list ?st2 = all_list st" "in_external_intr ?st2 = in_external_intr st" by simp_all
  have at: "at_place ?st2 q = at_place st q" for q by (cases q) auto
  have "placed ?st2" by (subst placed_cong [of ?st2 st]) (simp_all only: at k f kernel_invD [OF inv])
  moreover have "all_ok ?st2" by (rule all_ok_cong [OF kernel_invD(2) [OF inv]]) (simp_all only: k f)
  moreover have "kont_ok ?st2"
    by (rule kont_ok_cong [OF kernel_invD(3) [OF inv]]) (auto split: if_splits)
  moreover have "idle_once e ?st2" by (rule tokens_idle_cong(2) [OF k(1) kernel_invD(5) [OF inv] f(2)])
  moreover have "tokens_ok d' ?st2"
    unfolding tokens_ok_def held_tok_def k f
  proof (intro conjI allI)
    fix l
    have "int (unat (s_value (sema st (LockSema l)))) + (\<Sum>t\<in>UNIV. tok l (kont st t)) + held_tok st l + d l = 1"
      using kernel_invD(4) [OF inv] by (simp add: tokens_ok_def)
    then show "int (unat (s_value (sema ?st2 (LockSema l)))) + (\<Sum>t\<in>UNIV. tok l (kont st t)) +
        (if holder st l = None then 0 else 1) + d' l = 1"
      using v [of l] o [of l] by (cases "s = LockSema l") (auto simp: held_tok_def)
  qed (use kernel_invD(4) [OF inv] pos in \<open>simp_all add: tokens_ok_def\<close>)
  ultimately show ?thesis
    using kernel_invD(6-8) [OF inv] unfolding kernel_inv_def base_inv_def k f by blast
qed

lemma sema_down_loop_inv:
  assumes inv: "kernel_inv b (hand s (-1)) e st" and busy: "busy st"
    and own: "own_sema (running st) s"
    and r: "sema_down_loop s st = Some st'"
  shows "kernel_inv b (\<lambda>_. 0) e st'"
proof (cases "s_value (sema st s) = 0")
  case True
  let ?c = "running st" and ?A = "push [KDown s] st"
  let ?ws = "insert_ordered (value_more st) ?c (waiters st s)"
  let ?st1 = "push [KDown s] (upd_sema s (\<lambda>r. r\<lparr>s_waiters := ?ws\<rparr>) st)"
  have to: "tokens_ok (hand s (-1)) st" by (rule kernel_invD(4) [OF inv])
  have tp: "tok_pos l (kont st ?c)" "0 \<le> tok l (kont st ?c) + hand s (-1) l" for l
    using to unfolding tokens_ok_def by blast+
  have tp3: "tok_pos l ([KDown s] @ kont st ?c)" for l
    using tp(1) [of l] tp(2) [of l] tok_pos_nonneg [OF tp(1) [of l]] by (cases "s = LockSema l") auto
  have "kernel_inv b (\<lambda>l. hand s (-1) l - tok l [KDown s]) e ?A"
    by (rule push_inv [OF inv _ _ _ tp3]) (use own busy in \<open>auto simp: busy_def\<close>)
  moreover have "(\<lambda>l. hand s (-1) l - tok l [KDown s]) = (\<lambda>_. 0)" by auto
  ultimately have A: "kernel_inv b (\<lambda>_. 0) e ?A" by simp
  have rA: "running ?A = ?c" by (simp add: push_def)
  note nw = running_nowhere [OF A, unfolded rA]
  have blk: "thread_block ?st1 = Some st'"
    using r True by (auto simp: sema_down_loop_def Let_def upd_sema_def split: if_splits)
  have at1: "at_place ?st1 q = (if q = PWait s then ?ws else at_place ?A q)" for q
    by (cases q) (auto simp: push_def)
  have wA: "at_place ?A (PWait s) = waiters st s" by (simp add: push_def)
  have dw: "distinct (waiters st s)" "?c \<notin> set (waiters st s)"
    using placed_distinct [OF kernel_invD(1) [OF inv], of "PWait s"] running_nowhere [OF inv, of "PWait s"] by auto
  show ?thesis
  proof (rule block_inv [OF A _ _ _ _ _ _ _ _ _ _ _ _ blk, where p = "PWait s"], unfold rA)
    show "idle_thread ?A \<noteq> Some ?c"
      using busy_not_idle [OF inv busy] by (simp add: push_def)
    show "set (at_place ?st1 q) = (if q = PWait s then insert ?c (set (at_place ?A q)) else set (at_place ?A q))" for q
      unfolding at1 using wA by auto
    show "distinct (at_place ?st1 q)" for q
      unfolding at1 using placed_distinct [OF kernel_invD(1) [OF A], of q] dw by auto
  qed (use own in \<open>auto simp: push_def upd_thr_def upd_sema_def\<close>)
next
  case False
  have "unat (s_value (sema st s)) \<noteq> 0" using False by (simp add: unat_eq_0)
  then have un: "int (unat (s_value (sema st s) - 1)) = int (unat (s_value (sema st s))) - 1"
    using False by (simp add: unat_minus_one of_nat_diff)
  have "kernel_inv b (\<lambda>_. 0) e (upd_sema s (\<lambda>r. r\<lparr>s_value := s_value (sema st s) - 1\<rparr>) st)"
    using kernel_invD(4) [OF inv] un tok_pos_nonneg
    by (intro sema_value_inv [OF inv]) (auto simp: tokens_ok_def)
  then show ?thesis using r False by (auto simp: sema_down_loop_def upd_sema_def)
qed

lemma disable_inv: "kernel_inv b d e st \<Longrightarrow> kernel_inv b d e (intr_disable st)"
  using quiet_kinv [OF quiet_intr(1)] by blast

lemma sema_down_inv:
  assumes inv: "kernel_inv b (hand s (-1)) e st" and busy: "busy st"
    and own: "own_sema (running st) s"
    and r: "sema_down s st = Some st'"
  shows "kernel_inv b (\<lambda>_. 0) e st'"
proof -
  let ?A = "push [KSetLevel (intr_on st)] (intr_disable st)"
  have A: "kernel_inv b (hand s (-1)) e ?A" by (rule push_level_inv [OF disable_inv [OF inv]])
  have "busy ?A" using busy by (simp add: busy_def push_def intr_disable_def)
  moreover have "own_sema (running ?A) s" using own by (simp add: push_def intr_disable_def)
  moreover have "sema_down_loop s ?A = Some st'"
    using r by (auto simp: sema_down_def Let_def split: if_splits)
  ultimately show ?thesis using sema_down_loop_inv [OF A] by blast
qed

lemma client_hand: "client_sema s \<Longrightarrow> hand s n = (\<lambda>_. 0)"
  by (auto simp: client_sema_def split: sema_ref.splits)

lemma sema_try_down_client_inv:
  assumes inv: "kernel_inv b d e st" and s: "client_sema s" and r: "sema_try_down s st = Some (ok, st')"
  shows "kernel_inv b d e st'"
proof -
  have inv1: "kernel_inv b d e (intr_disable st)" by (rule disable_inv [OF inv])
  have "kernel_inv b d e (upd_sema s (\<lambda>r. r\<lparr>s_value := s_value (sema (intr_disable st) s) - 1\<rparr>) (intr_disable st))"
    using s kernel_invD(4) [OF inv1]
    by (intro sema_value_inv [OF inv1]) (auto simp: client_sema_def tokens_ok_def)
  then show ?thesis
    using r inv1 quiet_intr(3) quiet_kinv
    by (auto simp: sema_try_down_def Let_def upd_sema_def split: if_splits) blast+
qed

text \<open>The highest waiter leaves the queue.\<close>

lemma sort_stable_hd_tl:
  assumes "xs \<noteq> []"
  shows "mset xs = add_mset (hd (sort_stable f xs)) (mset (tl (sort_stable f xs)))" "sort_stable f xs \<noteq> []"
proof -
  have m: "mset (sort_stable f xs) = mset xs" by (rule mset_sort_stable)
  then show n: "sort_stable f xs \<noteq> []" using assms by auto
  show "mset xs = add_mset (hd (sort_stable f xs)) (mset (tl (sort_stable f xs)))"
    using n by (subst m [symmetric]) (simp flip: mset.simps(2))
qed

lemma wake_one_inv:
  assumes inv: "kernel_inv b d e st" and ne: "waiters st s \<noteq> []"
    and ws: "ws = sort_stable (value_more st) (waiters st s)"
    and u: "thread_unblock (hd ws) (upd_sema s (\<lambda>r. r\<lparr>s_waiters := tl ws\<rparr>) st) = Some st'"
  shows "kernel_inv b d e st'"
proof (rule unblock_inv [OF inv _ _ _ _ _ _ _ _ _ _ _ _ u])
  note D = sort_stable_hd_tl [OF ne, of "value_more st", folded ws]
  have dw: "distinct (waiters st s)" using placed_distinct [OF kernel_invD(1) [OF inv], of "PWait s"] by simp
  have m: "set (waiters st s) = insert (hd ws) (set (tl ws))"
    using D(1) by (metis set_mset_mset set_mset_add_mset_insert)
  have dd: "hd ws \<notin> set (tl ws)" "distinct (tl ws)"
    using dw D(1) unfolding distinct_count_atmost_1 by (auto split: if_splits)
  have hm: "hd ws \<in> set (at_place st (PWait s))" using m by simp
  have oth: "q \<noteq> PWait s \<Longrightarrow> hd ws \<notin> set (at_place st q)" for q
    using placed_disj [OF kernel_invD(1) [OF inv] hm] by blast
  show "set (at_place (upd_sema s (\<lambda>r. r\<lparr>s_waiters := tl ws\<rparr>) st) q) = set (at_place st q) - {hd ws}" for q
    using oth [of q] m dd by (cases q) auto
  show "distinct (at_place (upd_sema s (\<lambda>r. r\<lparr>s_waiters := tl ws\<rparr>) st) q)" for q
    using placed_distinct [OF kernel_invD(1) [OF inv], of q] dd by (cases q) auto
  show "idle_thread st \<noteq> Some (hd ws)" using placed_mem(3) [OF kernel_invD(1) [OF inv] hm] .
qed auto

lemma held_tok_nonneg [simp]: "0 \<le> held_tok st l"
  by (simp add: held_tok_def)

lemma sema_up_inv:
  assumes inv: "kernel_inv b (hand s 1) e st" and r: "sema_up s st = Some st'"
  shows "kernel_inv b (\<lambda>_. 0) e st'"
proof -
  let ?st0 = "intr_disable st"
  have i0: "kernel_inv b (hand s 1) e ?st0" by (rule disable_inv [OF inv])
  obtain st1 where st1: "waiters ?st0 s = [] \<and> st1 = ?st0 \<or> waiters ?st0 s \<noteq> [] \<and>
      thread_unblock (hd (sort_stable (value_more ?st0) (waiters ?st0 s)))
        (upd_sema s (\<lambda>r. r\<lparr>s_waiters := tl (sort_stable (value_more ?st0) (waiters ?st0 s))\<rparr>) ?st0) = Some st1"
    and cp: "thread_check_preemption (push [KSetLevel (intr_on st)]
        (upd_sema s (\<lambda>r. r\<lparr>s_value := s_value r + 1\<rparr>) st1)) = Some st'"
    using r by (auto simp: sema_up_def Let_def split: if_splits)
  have i1: "kernel_inv b (hand s 1) e st1"
    using st1 i0 wake_one_inv [OF i0 _ refl] by blast
  have un: "int (unat (s_value (sema st1 s) + 1)) = int (unat (s_value (sema st1 s))) + 1" if "s = LockSema l" for l
  proof -
    have eq: "int (unat (s_value (sema st1 (LockSema l)))) + (\<Sum>t\<in>UNIV. tok l (kont st1 t)) + held_tok st1 l + 1 = 1"
      and tp: "\<And>t. tok_pos l (kont st1 t)"
      using kernel_invD(4) [OF i1] that unfolding tokens_ok_def by (auto dest!: spec [of _ l])
    have "0 \<le> (\<Sum>t\<in>UNIV. tok l (kont st1 t))" by (rule sum_nonneg) (simp add: tok_pos_nonneg [OF tp])
    then have "unat (s_value (sema st1 (LockSema l))) = 0" using eq held_tok_nonneg [of st1 l] by linarith
    then have "s_value (sema st1 s) = 0" using that by (simp add: unat_eq_0)
    then show ?thesis by simp
  qed
  have "kernel_inv b (\<lambda>_. 0) e (upd_sema s (\<lambda>r. r\<lparr>s_value := s_value (sema st1 s) + 1\<rparr>) st1)"
    using kernel_invD(4) [OF i1] un tok_pos_nonneg
    by (intro sema_value_inv [OF i1]) (auto simp: tokens_ok_def)
  then have "kernel_inv b (\<lambda>_. 0) e (upd_sema s (\<lambda>r. r\<lparr>s_value := s_value r + 1\<rparr>) st1)"
    by (simp add: upd_sema_def)
  from check_preemption_inv [OF push_level_inv [OF this] cp] show ?thesis .
qed

section \<open>Locks\<close>

lemma token_bound:
  assumes "kernel_inv b d e st"
  shows "int (unat (s_value (sema st (LockSema l)))) + (\<Sum>t\<in>UNIV. tok l (kont st t)) + held_tok st l + d l = 1"
    "0 \<le> tok l (kont st t)" "tok l (kont st t) \<le> (\<Sum>t\<in>UNIV. tok l (kont st t))"
    "0 \<le> (\<Sum>t\<in>UNIV. tok l (kont st t))"
proof -
  have to: "tokens_ok d st" by (rule kernel_invD(4) [OF assms])
  then have tp: "\<And>t. 0 \<le> tok l (kont st t)" using tok_pos_nonneg unfolding tokens_ok_def by blast
  show "int (unat (s_value (sema st (LockSema l)))) + (\<Sum>t\<in>UNIV. tok l (kont st t)) + held_tok st l + d l = 1"
    using to unfolding tokens_ok_def by blast
  show "0 \<le> tok l (kont st t)" by (rule tp)
  show "tok l (kont st t) \<le> (\<Sum>t\<in>UNIV. tok l (kont st t))" by (rule member_le_sum) (use tp in auto)
  show "0 \<le> (\<Sum>t\<in>UNIV. tok l (kont st t))" by (rule sum_nonneg) (use tp in auto)
qed

lemma token_one:
  assumes "kernel_inv b d e st" "d l = 1"
  shows "holder st l = None" "s_value (sema st (LockSema l)) = 0"
proof -
  have "held_tok st l = 0" "unat (s_value (sema st (LockSema l))) = 0"
    using token_bound(1,4) [OF assms(1), of l] assms(2) held_tok_nonneg [of st l] by linarith+
  then show "holder st l = None" "s_value (sema st (LockSema l)) = 0"
    by (auto simp: held_tok_def unat_eq_0 split: if_splits)
qed

lemma token_free:
  assumes "kernel_inv b d e st" "d l = 0" "s_value (sema st (LockSema l)) \<noteq> 0"
  shows "holder st l = None"
proof -
  have "unat (s_value (sema st (LockSema l))) \<noteq> 0" using assms(3) by (simp add: unat_eq_0)
  then have "held_tok st l = 0"
    using token_bound(1,4) [OF assms(1), of l] assms(2) held_tok_nonneg [of st l] by linarith
  then show ?thesis by (simp add: held_tok_def split: if_splits)
qed

lemma unat_pred: "v \<noteq> 0 \<Longrightarrow> int (unat (v - 1)) = int (unat v) - 1" for v :: u32
  by (metis of_nat_1 of_nat_diff unat_eq_0 unat_minus_one less_one linorder_not_le)

lemma holder_inv:
  assumes inv: "kernel_inv b d e st"
    and h: "(if v = None then 0 else 1) + d' l = held_tok st l + d l" "\<And>m. m \<noteq> l \<Longrightarrow> d' m = d m"
    and pos: "\<And>m. 0 \<le> tok m (kont st (running st)) + d' m"
  shows "kernel_inv b d' e (st\<lparr>holder := (holder st)(l := v)\<rparr>)" (is "kernel_inv _ _ _ ?st2")
proof -
  have f: "thr ?st2 = thr st" "idle_thread ?st2 = idle_thread st" "running ?st2 = running st"
    "all_list ?st2 = all_list st" "in_external_intr ?st2 = in_external_intr st" "sema ?st2 = sema st" by simp_all
  have at: "at_place ?st2 q = at_place st q" for q by (cases q) auto
  have "placed ?st2" by (subst placed_cong [of ?st2 st]) (simp_all add: at kernel_invD [OF inv] del: at_place.simps)
  moreover have "all_ok ?st2" by (rule all_ok_cong [OF kernel_invD(2) [OF inv]]) simp_all
  moreover have "kont_ok ?st2" by (rule kont_ok_cong [OF kernel_invD(3) [OF inv]]) simp_all
  moreover have "idle_once e ?st2" by (rule tokens_idle_cong(2) [OF _ kernel_invD(5) [OF inv]]) simp_all
  moreover have "tokens_ok d' ?st2"
    unfolding tokens_ok_def
  proof (intro conjI allI)
    fix m
    show "int (unat (s_value (sema ?st2 (LockSema m)))) + (\<Sum>t\<in>UNIV. tok m (kont ?st2 t)) + held_tok ?st2 m + d' m = 1"
      using token_bound(1) [OF inv, of m] h by (cases "m = l") (auto simp: held_tok_def)
  qed (use kernel_invD(4) [OF inv] pos in \<open>simp_all add: tokens_ok_def\<close>)
  ultimately show ?thesis
    using kernel_invD(6-8) [OF inv] unfolding kernel_inv_def base_inv_def by simp
qed

lemma push_cmds_inv:
  assumes inv: "kernel_inv b d e st" and busy: "busy st" and cr: "creations ks = []"
    and cmds: "\<forall>k\<in>set ks. cmd_ok (running st) k \<and> k \<noteq> KBody \<and> k \<noteq> KExit \<and> k \<noteq> KIdle \<and> icount k = 0"
    and tok: "\<And>l. tok_pos l (ks @ kont st (running st))" and d: "\<And>l. d l - tok l ks = d' l"
  shows "kernel_inv b d' e (push ks st)" "busy (push ks st)"
proof -
  have "(\<lambda>l. d l - tok l ks) = d'" using d by auto
  then show "kernel_inv b d' e (push ks st)"
    using push_inv [OF inv cr cmds _ tok] busy by (simp add: busy_def)
  show "busy (push ks st)" by (rule busy_push [OF busy]) (use cmds in auto)
qed

lemma tok_pos_kont: "kernel_inv b d e st \<Longrightarrow> tok_pos l (kont st t)"
  using kernel_invD(4) unfolding tokens_ok_def by blast

lemma lock_acquire_inv:
  assumes inv: "kernel_inv b (\<lambda>_. 0) e st" and busy: "busy st" and r: "lock_acquire l st = Some st'"
  shows "kernel_inv b (\<lambda>_. 0) e st'" "busy st'"
proof -
  obtain st1 where q: "quiet st st1" and s: "st' = push [KSemaDown (LockSema l), KLockTaken l] st1"
    using r by (auto simp: lock_acquire_def split: if_splits dest: quiet_thread_lock_acquire)
  have i1: "kernel_inv b (\<lambda>_. 0) e st1" "busy st1" using inv busy quiet_kinv [OF q] busy_quiet [OF q] by auto
  show "kernel_inv b (\<lambda>_. 0) e st'" "busy st'"
    unfolding s
    by (rule push_cmds_inv [OF i1]; use tok_pos_kont [OF i1(1)] token_bound(2) [OF i1(1)] in auto)+
qed

lemma lock_taken_inv:
  assumes inv: "kernel_inv b (hand (LockSema l) 1) e st" and r: "lock_taken l st = Some st'"
  shows "kernel_inv b (\<lambda>_. 0) e st'" "holder st l = None"
proof -
  let ?st1 = "upd_thr (running st) (\<lambda>r. r\<lparr>t_lock_wait := None\<rparr>) st"
  have q: "quiet st ?st1" by (rule quiet_upd_thr) simp
  have i1: "kernel_inv b (hand (LockSema l) 1) e ?st1" using inv quiet_kinv [OF q] by simp
  show h: "holder st l = None" by (rule token_one(1) [OF inv]) simp
  have "kernel_inv b (\<lambda>_. 0) e (?st1\<lparr>holder := (holder ?st1)(l := Some (running st))\<rparr>)"
    by (rule holder_inv [OF i1]) (use h token_bound(2) [OF inv] in \<open>auto simp: held_tok_def\<close>)
  then show "kernel_inv b (\<lambda>_. 0) e st'" using r by (auto simp: lock_taken_def Let_def)
qed

lemma lock_try_acquire_inv:
  assumes inv: "kernel_inv b (\<lambda>_. 0) e st" and r: "lock_try_acquire l st = Some (ok, st')"
  shows "kernel_inv b (\<lambda>_. 0) e st'"
proof -
  let ?s = "LockSema l" and ?st0 = "intr_disable st"
  let ?st1 = "upd_sema ?s (\<lambda>r. r\<lparr>s_value := s_value (sema ?st0 ?s) - 1\<rparr>) ?st0"
  have i0: "kernel_inv b (\<lambda>_. 0) e ?st0" by (rule disable_inv [OF inv])
  show ?thesis
  proof (cases "s_value (sema ?st0 ?s) > 0")
    case False
    then show ?thesis
      using r i0 quiet_kinv [OF quiet_intr(3)]
      by (auto simp: lock_try_acquire_def lock_held_by_current_thread_def sema_try_down_def Let_def split: if_splits)
  next
    case True
    then have un: "int (unat (s_value (sema ?st0 ?s) - 1)) = int (unat (s_value (sema ?st0 ?s))) - 1"
      "unat (s_value (sema ?st0 ?s)) \<noteq> 0"
      using unat_pred [of "s_value (sema ?st0 ?s)"] by (auto simp: unat_eq_0 word_gt_0)
    have i1: "kernel_inv b (hand ?s 1) e ?st1"
      using un token_bound(2) [OF i0] by (intro sema_value_inv [OF i0]) auto
    have h: "holder st l = None"
      using token_free [OF i0, of l] un(2) by (simp add: intr_disable_def unat_eq_0)
    obtain st2 where q: "quiet ?st1 st2" and s: "st' = st2\<lparr>holder := (holder st2)(l := Some (running st2))\<rparr>"
      using r True
      by (auto simp: lock_try_acquire_def lock_held_by_current_thread_def sema_try_down_def Let_def upd_sema_def
          split: if_splits dest: quiet_intr(3))
    have i2: "kernel_inv b (hand ?s 1) e st2" using i1 quiet_kinv [OF q] by simp
    have "holder st2 l = None" using q h by (simp add: quiet_def intr_disable_def)
    then show ?thesis
      unfolding s using token_bound(2) [OF i2] by (intro holder_inv [OF i2]) (auto simp: held_tok_def)
  qed
qed

lemma lock_release_inv:
  assumes inv: "kernel_inv b (\<lambda>_. 0) e st" and busy: "busy st" and r: "lock_release l st = Some st'"
  shows "kernel_inv b (\<lambda>_. 0) e st'" "busy st'"
proof -
  obtain st1 where q: "quiet st st1" and h: "holder st l = Some (running st)"
    and s: "st' = push [KSemaUp (LockSema l)] (st1\<lparr>holder := (holder st1)(l := None)\<rparr>)"
    using r by (auto simp: lock_release_def lock_held_by_current_thread_def split: if_splits
        dest!: quiet_thread_lock_remove quiet_thread_lock_refresh dest: quiet_trans)
  let ?st2 = "st1\<lparr>holder := (holder st1)(l := None)\<rparr>"
  have i1: "kernel_inv b (\<lambda>_. 0) e st1" "busy st1" using inv busy quiet_kinv [OF q] busy_quiet [OF q] by auto
  have h1: "holder st1 l = Some (running st)" using q h by (simp add: quiet_def)
  have i2: "kernel_inv b (hand (LockSema l) 1) e ?st2"
    by (rule holder_inv [OF i1(1)]) (use h1 token_bound(2) [OF i1(1)] in \<open>auto simp: held_tok_def\<close>)
  have b2: "busy ?st2" using i1(2) by (simp add: busy_def)
  show "kernel_inv b (\<lambda>_. 0) e st'" "busy st'"
    unfolding s
    by (rule push_cmds_inv [OF i2 b2]; use tok_pos_kont [OF i2] token_bound(2) [OF i1(1)] in auto)+
qed

section \<open>Condition variables\<close>

lemma sema_init_inv:
  assumes inv: "kernel_inv b d e st" and s: "\<And>l. s \<noteq> LockSema l" "waiters st s = []"
  shows "kernel_inv b d e (sema_init s v st)"
proof -
  have "sema_init s v st = upd_sema s (\<lambda>r. r\<lparr>s_value := v\<rparr>) st"
    using s(2) by (cases "sema st s") (simp add: sema_init_def upd_sema_def)
  moreover have "kernel_inv b d e (upd_sema s (\<lambda>r. r\<lparr>s_value := v\<rparr>) st)"
    by (rule sema_value_inv [OF inv]) (use s(1) kernel_invD(4) [OF inv] in \<open>auto simp: tokens_ok_def\<close>)
  ultimately show ?thesis by simp
qed

lemma own_waiters_empty:
  assumes inv: "kernel_inv b d e st" shows "waiters st (WaiterSema (running st)) = []"
proof (rule ccontr)
  assume "waiters st (WaiterSema (running st)) \<noteq> []"
  then obtain x where x: "x \<in> set (waiters st (WaiterSema (running st)))"
    by (cases "waiters st (WaiterSema (running st))") auto
  then have "x = running st" using kont_okD(8) [OF kernel_invD(3) [OF inv] x] by simp
  then show False using running_nowhere [OF inv, of "PWait (WaiterSema (running st))"] x by simp
qed

lemma cond_wait_inv:
  assumes inv: "kernel_inv b (\<lambda>_. 0) e st" and busy: "busy st" and r: "cond_wait cv l st = Some st'"
  shows "kernel_inv b (\<lambda>_. 0) e st'"
proof -
  let ?c = "running st"
  let ?st1 = "sema_init (WaiterSema ?c) 0 st"
  let ?st2 = "?st1\<lparr>cond_waiters := (cond_waiters ?st1)(cv := insert_ordered (value_more_cond ?st1) ?c (cond_waiters ?st1 cv))\<rparr>"
  let ?ks = "[KSemaDown (WaiterSema ?c), KLockAcquire l]"
  have i1: "kernel_inv b (\<lambda>_. 0) e ?st1"
    by (rule sema_init_inv [OF inv]) (use own_waiters_empty [OF inv] in auto)
  have i2: "kernel_inv b (\<lambda>_. 0) e ?st2" using i1 quiet_kinv [OF quiet_fields(9)] by blast
  have b2: "busy ?st2" "running ?st2 = ?c" using busy by (simp_all add: busy_def sema_init_def)
  have i3: "kernel_inv b (\<lambda>_. 0) e (push ?ks ?st2)" "busy (push ?ks ?st2)"
    using tok_pos_kont [OF i2] token_bound(2) [OF i2] b2(2)
    by (intro push_cmds_inv [OF i2 b2(1)]; auto)+
  have "lock_release l (push ?ks ?st2) = Some st'"
    using r by (auto simp: cond_wait_def lock_held_by_current_thread_def Let_def split: if_splits)
  from lock_release_inv(1) [OF i3 this] show ?thesis .
qed

lemma cond_signal_inv:
  assumes inv: "kernel_inv b (\<lambda>_. 0) e st" and r: "cond_signal cv l st = Some st'"
  shows "kernel_inv b (\<lambda>_. 0) e st'"
proof (cases "cond_waiters st cv = []")
  case True
  then show ?thesis using r inv by (auto simp: cond_signal_def lock_held_by_current_thread_def split: if_splits)
next
  case False
  let ?ws = "sort_stable (value_more_cond st) (cond_waiters st cv)"
  let ?st1 = "st\<lparr>cond_waiters := (cond_waiters st)(cv := tl ?ws)\<rparr>"
  have i1: "kernel_inv b (hand (WaiterSema (hd ?ws)) 1) e ?st1" using inv quiet_kinv [OF quiet_fields(9)] by simp
  have "sema_up (WaiterSema (hd ?ws)) ?st1 = Some st'"
    using r False by (auto simp: cond_signal_def lock_held_by_current_thread_def Let_def split: if_splits)
  from sema_up_inv [OF i1 this] show ?thesis .
qed

lemma cond_broadcast_inv:
  assumes inv: "kernel_inv b (\<lambda>_. 0) e st" and busy: "busy st" and r: "cond_broadcast cv l st = Some st'"
  shows "kernel_inv b (\<lambda>_. 0) e st'"
proof (cases "cond_waiters st cv = []")
  case True
  then show ?thesis using r inv by (simp add: cond_broadcast_def)
next
  case False
  have i1: "kernel_inv b (\<lambda>_. 0) e (push [KBroadcast cv l] st)"
    by (rule push_cmds_inv(1) [OF inv busy]) (use tok_pos_kont [OF inv] token_bound(2) [OF inv] in auto)
  show ?thesis using r False by (intro cond_signal_inv [OF i1]) (simp add: cond_broadcast_def)
qed

section \<open>Sleeping and waking up\<close>

lemma thread_sleeping_inv:
  assumes inv: "kernel_inv b (\<lambda>_. 0) e st" and busy: "busy st" and r: "thread_sleeping n st = Some st'"
  shows "kernel_inv b (\<lambda>_. 0) e st'"
proof -
  let ?c = "running st" and ?st0 = "intr_disable st"
  let ?st1 = "upd_thr ?c (\<lambda>r. r\<lparr>t_wakeup_time := n\<rparr>) ?st0"
  let ?A = "push [KSetLevel (intr_on st)] ?st1"
  let ?B = "push [KSetLevel (intr_on st)] (?st1\<lparr>sleeping_list := sleeping_list ?st1 @ [?c]\<rparr>)"
  have rd: "running ?st0 = ?c" "idle_thread ?st0 = idle_thread st" by (simp_all add: intr_disable_def)
  have "quiet ?st0 ?st1" by (rule quiet_upd_thr) simp
  then have i1: "kernel_inv b (\<lambda>_. 0) e ?st1" using disable_inv [OF inv] quiet_kinv by blast
  have A: "kernel_inv b (\<lambda>_. 0) e ?A" by (rule push_level_inv [OF i1])
  have rA: "running ?A = ?c" "idle_thread ?A = idle_thread st" using rd by (simp_all add: push_def)
  note nw = running_nowhere [OF A, unfolded rA]
  have at: "at_place ?B q = (if q = PSleep then at_place ?A q @ [?c] else at_place ?A q)" for q
    using rd by (cases q) (auto simp: push_def)
  have blk: "thread_block ?B = Some st'"
    using r busy_not_idle [OF inv busy] rd by (auto simp: thread_sleeping_def Let_def split: if_splits)
  show ?thesis
  proof (rule block_inv [OF A _ _ _ _ _ _ _ _ _ _ _ _ blk, where p = PSleep], unfold rA)
    show "idle_thread st \<noteq> Some ?c" using busy_not_idle [OF inv busy] by simp
    show "set (at_place ?B q) = (if q = PSleep then insert ?c (set (at_place ?A q)) else set (at_place ?A q))" for q
      unfolding at by simp
    show "distinct (at_place ?B q)" for q
      unfolding at using placed_distinct [OF kernel_invD(1) [OF A], of q] nw [of q] by (cases "q = PSleep") simp_all
  qed (auto simp: push_def upd_thr_def rd)
qed

lemma wake_up_loop_inv:
  assumes "kernel_inv b d e st" "sleeping_list st = kept @ rest" "wake_up_loop now kept rest st = Some st'"
  shows "kernel_inv b d e st'"
  using assms
proof (induction now kept rest st rule: wake_up_loop.induct)
  case (1 now kept st)
  then have "quiet st st'" by (auto simp: quiet_def)
  then show ?case using quiet_kinv 1 by blast
next
  case (2 now kept c rest st)
  show ?case
  proof (cases "now \<ge> t_wakeup_time (thr st c)")
    case False
    then show ?thesis using 2 by simp
  next
    case True
    let ?st1 = "st\<lparr>sleeping_list := kept @ rest\<rparr>"
    let ?st2 = "upd_thr c (\<lambda>r. r\<lparr>t_wakeup_time := 0\<rparr>) ?st1"
    obtain st3 where u: "thread_unblock c ?st2 = Some st3" and w: "wake_up_loop now kept rest st3 = Some st'"
      using 2(5) True by (auto simp: Let_def)
    note inv = 2(3)
    have cs: "c \<in> set (at_place st PSleep)" using 2(4) by simp
    have ds: "distinct (kept @ c # rest)" using placed_distinct [OF kernel_invD(1) [OF inv], of PSleep] 2(4) by simp
    have oth: "q \<noteq> PSleep \<Longrightarrow> c \<notin> set (at_place st q)" for q
      using placed_disj [OF kernel_invD(1) [OF inv] cs] by blast
    have at: "at_place ?st2 q = (if q = PSleep then kept @ rest else at_place st q)" for q by (cases q) auto
    have i3: "kernel_inv b d e st3"
    proof (rule unblock_inv [OF inv _ _ _ _ _ _ _ _ _ _ _ _ u])
      show "set (at_place ?st2 q) = set (at_place st q) - {c}" for q
        unfolding at using oth [of q] ds 2(4) by auto
      show "distinct (at_place ?st2 q)" for q
        unfolding at using placed_distinct [OF kernel_invD(1) [OF inv], of q] ds by auto
      show "idle_thread st \<noteq> Some c" by (rule placed_mem(3) [OF kernel_invD(1) [OF inv] cs])
    qed (auto simp: is_thread_def)
    have "sleeping_list st3 = kept @ rest"
      using u by (auto simp: thread_unblock_def Let_def intr_set_level_def intr_enable_def intr_disable_def split: if_splits)
    then show ?thesis using 2(1) [OF True refl refl u i3] w by blast
  qed
qed

lemma thread_wake_up_inv: "kernel_inv b d e st \<Longrightarrow> thread_wake_up st = Some st' \<Longrightarrow> kernel_inv b d e st'"
  by (auto simp: thread_wake_up_def split: if_splits intro: wake_up_loop_inv [where kept = "[]"])

section \<open>Exiting\<close>

lemma placed_lost: "placed st \<Longrightarrow> is_thread st t \<Longrightarrow> status st t = THREAD_READY \<or> status st t = THREAD_BLOCKED \<Longrightarrow>
    idle_thread st = Some t \<or> (\<exists>p. t \<in> set (at_place st p))"
  unfolding placed_def by blast

lemma placed_run: "placed st \<Longrightarrow> is_thread st t \<Longrightarrow> status st t = THREAD_RUNNING \<Longrightarrow> t = running st"
  unfolding placed_def by blast

lemma thread_exit_inv:
  assumes inv: "kernel_inv b (\<lambda>_. 0) e st" and busy: "busy st"
    and k: "creations (kont st (running st)) = []" "\<And>l. tok l (kont st (running st)) = 0"
    and r: "thread_exit st = Some st'"
  shows "kernel_inv b (\<lambda>_. 0) e st'"
proof -
  let ?c = "running st"
  let ?st2 = "set_status THREAD_DYING ?c (upd_thr ?c (\<lambda>r. r\<lparr>t_kont := []\<rparr>) ((intr_disable st)\<lparr>all_list := remove1 ?c (all_list st)\<rparr>))"
  have s: "schedule ?st2 = Some st'"
    using r by (auto simp: thread_exit_def Let_def intr_disable_def split: if_splits)
  note D = kernel_invD [OF inv]
  have nw: "?c \<notin> set (at_place st q)" for q by (rule running_nowhere [OF inv])
  have at: "at_place ?st2 q = at_place st q" for q using k(1) by (cases q) (auto simp: intr_disable_def)
  have isth: "is_thread ?st2 x = is_thread st x" for x using D(7) by (auto simp: is_thread_def intr_disable_def)
  have stt: "status ?st2 x = (if x = ?c then THREAD_DYING else status st x)" for x by (auto simp: intr_disable_def)
  have ki: "kont ?st2 x = (if x = ?c then [] else kont st x)" for x by (auto simp: intr_disable_def)
  have f: "sema ?st2 = sema st" "holder ?st2 = holder st" "idle_thread ?st2 = idle_thread st" "running ?st2 = ?c"
    "in_external_intr ?st2 = in_external_intr st" "all_list ?st2 = remove1 ?c (all_list st)"
    by (simp_all add: intr_disable_def)
  have ni: "idle_thread st \<noteq> Some ?c" by (rule busy_not_idle [OF inv busy])
  have pl: "placed ?st2"
    unfolding placed_def at isth f
  proof (intro conjI allI ballI impI)
    fix q x assume x: "x \<in> set (at_place st q)"
    then show "is_thread st x" "idle_thread st \<noteq> Some x" "status ?st2 x = place_status q"
      using placed_mem [OF D(1) x] nw [of q] unfolding stt by auto
  next
    fix x assume "is_thread st x" "status ?st2 x = THREAD_READY \<or> status ?st2 x = THREAD_BLOCKED"
    then show "idle_thread st = Some x \<or> (\<exists>q. x \<in> set (at_place st q))"
      using placed_lost [OF D(1), of x] unfolding stt by (simp split: if_splits)
  next
    fix x assume "is_thread st x" "status ?st2 x = THREAD_RUNNING"
    then show "x = ?c" using placed_run [OF D(1), of x] unfolding stt by (simp split: if_splits)
  qed (use placed_distinct [OF D(1)] placed_disj [OF D(1)] in blast)+
  have al: "all_ok ?st2"
    using D(2) unfolding all_ok_def isth stt f by (auto simp: set_remove1_eq distinct_remove1)
  note K = kont_okD [OF D(3)]
  have ko: "kont_ok ?st2"
  proof (rule kont_okI, goal_cases)
    case (1 x k) then show ?case using K(1) [of k x] by (cases "x = ?c") (simp_all add: ki)
  next
    case (2 x) then show ?case using K(2) [of x] by (simp add: ki)
  next
    case (3 x) then show ?case using K(3) [of x] unfolding isth stt by (cases "x = ?c") (simp_all add: ki)
  next
    case (4 x t) then show ?case using K(4) [of t x] by (cases "x = ?c") (simp_all add: ki)
  next
    case (5 x s) then show ?case using K(5) [of x s] by (cases "x = ?c") (simp_all add: ki)
  next
    case (6 x) then show ?case using K(6) [of x] unfolding f by (cases "x = ?c") (simp_all add: ki)
  next
    case (7 x) then show ?case using K(7) [of x] ni unfolding f by (cases "x = ?c") (simp_all add: ki)
  next
    case (8 x s) then show ?case using K(8) [of x s] unfolding f by simp
  qed
  have sm: "(\<Sum>t\<in>UNIV. tok l (kont ?st2 t)) = (\<Sum>t\<in>UNIV. tok l (kont st t))" for l
    using k(2) [of l] by (intro sum.cong) (auto simp: ki)
  have to: "tokens_ok (\<lambda>_. 0) ?st2"
    unfolding tokens_ok_def held_tok_def sm f using D(4) by (auto simp: tokens_ok_def held_tok_def ki)
  have "(\<Sum>t\<in>UNIV. sum_list (map icount (kont ?st2 t))) \<le> (\<Sum>t\<in>UNIV. sum_list (map icount (kont st t)))"
    by (rule sum_mono) (simp add: ki)
  then have io: "idle_once e ?st2" using D(5) unfolding idle_once_def f by linarith
  have "base_inv b (\<lambda>_. 0) e ?st2" using pl al ko to io D(6) f by (simp add: base_inv_def)
  from schedule_kinv [OF this s] show ?thesis .
qed

section \<open>Creating a thread\<close>

lemma init_thread_result:
  assumes "init_thread t nm pr st = Some st1"
  shows "thr st1 = (thr st)(t := zero_thread\<lparr>t_status := THREAD_BLOCKED, t_name := take 15 nm, t_priority := pr,
      t_magic := THREAD_MAGIC\<rparr>)" "all_list st1 = all_list st @ [t]" "sema st1 = sema st"
    "holder st1 = holder st" "running st1 = running st" "idle_thread st1 = idle_thread st"
    "in_external_intr st1 = in_external_intr st" "ready_list st1 = ready_list st" "sleeping_list st1 = sleeping_list st"
  using assms by (auto simp: init_thread_def Let_def intr_set_level_def intr_enable_def intr_disable_def
        split: if_splits)

lemma create_inv:
  assumes inv: "kernel_inv b d e st" and busy: "busy st" and fresh: "fresh_page st t"
    and f: "cmd_ok (running st) (KCreate t f)" "icount (KCreate t f) \<le> e"
    and i: "init_thread t nm pr st = Some st1"
  shows "kernel_inv b d (e - icount (KCreate t f)) (push [KCreate t f] st1)"
    "busy (push [KCreate t f] st1)"
proof -
  let ?e = "e - icount (KCreate t f)" and ?st2 = "push [KCreate t f] st1"
  let ?c = "running st"
  note D = kernel_invD [OF inv] and K = kont_okD [OF kernel_invD(3) [OF inv]]
  have tc: "t \<noteq> ?c" "t \<noteq> NULL" "\<not> is_thread st t" using fresh D(7) by (auto simp: fresh_page_def)
  have kt: "kont st t = []" using K(3) [of t] tc by blast
  note st1 = init_thread_result [OF i]
  have nw: "t \<notin> set (at_place st q)" for q using placed_mem(1) [OF D(1)] tc(3) by blast
  have at: "at_place ?st2 q = (if q = PCreate ?c then t # at_place st q else at_place st q)" for q
    using kt tc by (cases q) (auto simp: push_def st1 zero_thread_def)
  have isth: "is_thread ?st2 x = (x = t \<or> is_thread st x)" for x
    using tc D(7) by (auto simp: push_def st1 is_thread_def)
  have stt: "status ?st2 x = (if x = t then THREAD_BLOCKED else status st x)" for x
    using tc by (auto simp: push_def st1)
  have ki: "kont ?st2 x = (if x = ?c then KCreate t f # kont st x else kont st x)" for x
    using tc kt by (auto simp: push_def st1 zero_thread_def)
  have f2: "sema ?st2 = sema st" "holder ?st2 = holder st" "idle_thread ?st2 = idle_thread st" "running ?st2 = ?c"
    "in_external_intr ?st2 = in_external_intr st" "all_list ?st2 = all_list st @ [t]"
    by (simp_all add: push_def st1)
  have bz: "KIdle \<notin> set (kont st ?c)" using busy by (simp add: busy_def)
  have bs: "KIdleStart s \<notin> set (kont st ?c)" for s using K(5) [of ?c s] bz idle_kont_KIdle by blast
  have ni: "idle_thread st \<noteq> Some t" using K(7) [of t] kt by auto
  have sat: "set (at_place ?st2 q) = (if q = PCreate ?c then insert t (set (at_place st q)) else set (at_place st q))" for q
    by (simp add: at)
  have dat: "distinct (at_place ?st2 q)" for q
    using placed_distinct [OF D(1), of q] nw [of q] unfolding at by (cases "q = PCreate ?c") simp_all
  have pl: "placed ?st2"
    unfolding placed_def isth stt f2
  proof (intro conjI allI ballI impI)
    fix q x assume x: "x \<in> set (at_place ?st2 q)"
    show "x = t \<or> is_thread st x" "idle_thread st \<noteq> Some x"
      "(if x = t then THREAD_BLOCKED else status st x) = place_status q"
      using x placed_mem [OF D(1), of x q] ni nw [of q] unfolding sat by (auto split: if_splits)
  next
    fix q r x assume "x \<in> set (at_place ?st2 q)" "x \<in> set (at_place ?st2 r)"
    then show "q = r" using placed_disj [OF D(1), of x q r] nw unfolding sat by (auto split: if_splits)
  next
    fix x assume x: "x = t \<or> is_thread st x" "(if x = t then THREAD_BLOCKED else status st x) = THREAD_READY \<or>
      (if x = t then THREAD_BLOCKED else status st x) = THREAD_BLOCKED"
    then show "idle_thread st = Some x \<or> (\<exists>q. x \<in> set (at_place ?st2 q))"
    proof (cases "x = t")
      case True
      have "t \<in> set (at_place ?st2 (PCreate ?c))" unfolding sat by simp
      then show ?thesis using True by blast
    next
      case False
      then have "idle_thread st = Some x \<or> (\<exists>q. x \<in> set (at_place st q))"
        using x placed_lost [OF D(1), of x] by simp
      moreover have "set (at_place st q) \<subseteq> set (at_place ?st2 q)" for q unfolding sat by auto
      ultimately show ?thesis by blast
    qed
  next
    fix x assume "x = t \<or> is_thread st x" "(if x = t then THREAD_BLOCKED else status st x) = THREAD_RUNNING"
    then show "x = ?c" using placed_run [OF D(1), of x] by (auto split: if_splits)
  qed (rule dat)
  have al: "all_ok ?st2"
    using D(2) tc unfolding all_ok_def isth stt f2 by auto
  have ko: "kont_ok ?st2"
  proof (rule kont_okI, goal_cases)
    case (1 x k) then show ?case using K(1) [of k x] f by (auto simp: ki split: if_splits)
  next
    case (2 x) then show ?case using K(2) [of x] by (cases "x = ?c") (simp_all add: ki)
  next
    case (3 x) then show ?case using K(3) [of x] tc kt D(7,8) unfolding isth stt by (cases "x = ?c") (simp_all add: ki)
  next
    case (4 x u)
    then have "u = t \<or> u \<in> set (creations (kont st x))" by (auto simp: ki split: if_splits)
    moreover have "u \<noteq> ?c" if "u \<in> set (creations (kont st x))"
      using that running_nowhere [OF inv, of "PCreate x"] by auto
    ultimately show ?case using K(4) [of u x] kt tc by (auto simp: ki)
  next
    case (5 x s) then show ?case using K(5) [of x s] bz bs by (cases "x = ?c") (simp_all add: ki)
  next
    case (6 x) then show ?case using K(6) [of x] bz unfolding f2 by (cases "x = ?c") (simp_all add: ki)
  next
    case (7 x) then show ?case using K(7) [of x] unfolding f2 by (cases "x = ?c") (simp_all add: ki)
  next
    case (8 x s) then show ?case using K(8) [of x s] unfolding f2 by simp
  qed
  have tk0: "tok l (kont ?st2 x) = tok l (kont st x)" for l x by (simp add: ki)
  have tp: "tok_pos l (kont ?st2 x)" for l x
    using tok_pos_kont [OF inv] token_bound(2) [OF inv] by (simp add: ki)
  have to: "tokens_ok d ?st2"
    unfolding tokens_ok_def held_tok_def tk0 f2 using D(4) tp by (auto simp: tokens_ok_def held_tok_def)
  have "(\<Sum>x\<in>UNIV. sum_list (map icount (kont ?st2 x))) + sum_list (map icount (kont st ?c)) =
      (\<Sum>x\<in>UNIV. sum_list (map icount (kont st x))) + (icount (KCreate t f) + sum_list (map icount (kont st ?c)))"
    using sum_fun_upd_nat [of "\<lambda>ks. sum_list (map icount ks)" "kont st" ?c "KCreate t f # kont st ?c"]
    by (simp only: ki fun_upd_apply list.map sum_list.Cons) (simp cong: if_cong)
  then have io: "idle_once ?e ?st2" using D(5) f(2) unfolding idle_once_def f2 by linarith
  show "kernel_inv b d ?e ?st2"
    unfolding kernel_inv_def base_inv_def isth stt f2 using pl al ko to io D(6-8) tc by simp
  show "busy ?st2" using bz unfolding busy_def f2 ki by simp
qed

text \<open>The new thread leaves its creator's hands and becomes ready.\<close>

lemma sum_upd2_int:
  assumes "c \<noteq> t"
  shows "(\<Sum>x\<in>(UNIV::'a::finite set). if x = c then a else if x = t then b' else g x) = (\<Sum>x\<in>UNIV. g x) - g c - g t + a + (b' :: int)"
  using assms by (simp add: sum.remove [of UNIV c] sum.remove [of "UNIV - {c}" t] cong: if_cong)

lemma sum_upd2_nat:
  assumes "c \<noteq> t"
  shows "(\<Sum>x\<in>(UNIV::'a::finite set). if x = c then a else if x = t then b' else g x) + g c + g t = (\<Sum>x\<in>UNIV. g x) + a + (b' :: nat)"
  using assms by (simp add: sum.remove [of UNIV c] sum.remove [of "UNIV - {c}" t])

lemma create_done_inv:
  assumes inv: "kernel_inv b (\<lambda>_. 0) 0 st" and c: "kont st (running st) = KCreate t f # ks"
    and at: "set (ready_list N) = insert t (set (ready_list st))" "distinct (ready_list N)"
    and stt: "\<And>x. status N x = (if x = t then THREAD_READY else status st x)"
    and isth: "\<And>x. is_thread N x = is_thread st x"
    and ki: "\<And>x. kont N x = (if x = running st then ks else if x = t then KEnable # f @ [KExit] else kont st x)"
    and sm: "\<And>s. waiters N s = waiters st s" "\<And>l. s_value (sema N (LockSema l)) = s_value (sema st (LockSema l))"
    and same: "holder N = holder st" "idle_thread N = idle_thread st" "running N = running st"
      "all_list N = all_list st" "in_external_intr N = in_external_intr st" "sleeping_list N = sleeping_list st"
  shows "kernel_inv b (\<lambda>_. 0) 0 N"
proof -
  let ?c = "running st"
  note D = kernel_invD [OF inv] and K = kont_okD [OF kernel_invD(3) [OF inv]]
  have tp: "t \<in> set (at_place st (PCreate ?c))" using c by simp
  note tt = placed_mem [OF D(1) tp, simplified]
  have tc: "t \<noteq> ?c" using tt D(8) by auto
  have kt: "kont st t = []" using K(4) [of t ?c] c by simp
  have oth: "q \<noteq> PCreate ?c \<Longrightarrow> t \<notin> set (at_place st q)" for q using placed_disj [OF D(1) tp] by blast
  have f: "f = [KBody] \<or> (\<exists>s. client_sema s \<and> f = [KIdleStart s, KIdle])" using K(1) [of "KCreate t f" ?c] c by simp
  have crf: "creations f = []" and tkf: "tok l f = 0" and tpf: "tok_pos l (KEnable # f @ [KExit])" for l using f by auto
  have dks: "distinct (t # creations ks)" using placed_distinct [OF D(1), of "PCreate ?c"] c by simp
  have sat: "set (at_place N q) = (if q = PReady then insert t (set (at_place st q)) else set (at_place st q) - {t})"
    and dat: "distinct (at_place N q)" for q
    using oth [of q] at sm same placed_distinct [OF D(1), of q] dks c kt crf tc by (cases q; force simp: ki)+
  have pl: "placed N"
    by (rule placed_move [OF D(1) tt(1,3) sat dat]) (use stt isth same in auto)
  have al: "all_ok N" by (rule all_ok_cong [OF D(2)]) (use tt(2) in \<open>auto simp: stt isth same\<close>)
  have bz: "KIdle \<notin> set ks" "KIdleStart s \<notin> set ks" for s
    using busy_head(1) [OF inv c] idle_kont_KIdle [of "kont st ?c"] K(5) [of ?c s] c by (auto simp: idle_cmds_def busy_def)
  have ko: "kont_ok N"
  proof (rule kont_okI, goal_cases)
    case (1 x k) then show ?case using K(1) [of k x] c f by (auto simp: ki split: if_splits)
  next
    case (2 x) then show ?case using K(2) [of x] c f by (cases "x = ?c") (auto simp: ki)
  next
    case (3 x)
    then show ?case using K(3) [of x] D(7,8) tt unfolding isth stt by (cases "x = ?c") (auto simp: ki split: if_splits)
  next
    case (4 x u)
    then have u: "u \<in> set (creations (kont st x))" "u \<noteq> t"
      using c crf dks oth [of "PCreate x"] by (auto simp: ki split: if_splits)
    have "u \<noteq> ?c" using u running_nowhere [OF inv, of "PCreate x"] by auto
    then show ?case using K(4) [of u x] u by (auto simp: ki)
  next
    case (5 x s)
    have "idle_kont (KEnable # f @ [KExit])" if "KIdle \<in> set f \<or> KIdleStart s \<in> set f"
    proof -
      note m = that
      obtain s' where "f = [KIdleStart s', KIdle]" using f m by auto
      then show ?thesis unfolding idle_kont_def by (intro exI [of _ "[KEnable, KIdleStart s']"]) (simp add: idle_cmds_def)
    qed
    then show ?case using 5 K(5) [of x s] bz(1) bz(2) [of s] by (auto simp: ki split: if_splits)
  next
    case (6 x) then show ?case using K(6) [of x] bz f unfolding same by (auto simp: ki split: if_splits)
  next
    case (7 x) then show ?case using K(7) [of x] K(7) [of t] kt c bz(1) unfolding same by (auto simp: ki split: if_splits)
  next
    case (8 x s) then show ?case using K(8) [of x s] unfolding sm by simp
  qed
  have "(\<Sum>x\<in>UNIV. tok l (kont N x)) = (\<Sum>x\<in>UNIV. if x = ?c then tok l ks else if x = t then 0 else tok l (kont st x))" for l
    by (rule sum.cong) (auto simp: ki tkf)
  then have sm2: "(\<Sum>x\<in>UNIV. tok l (kont N x)) = (\<Sum>x\<in>UNIV. tok l (kont st x))" for l
    using sum_upd2_int [of ?c t "tok l ks" 0 "\<lambda>x. tok l (kont st x)"] tc c kt by simp
  have tpN: "tok_pos l (kont N x)" for l x
    using tok_pos_kont [OF inv, of l x] c tpf by (auto simp: ki split: if_splits)
  have to: "tokens_ok (\<lambda>_. 0) N"
    unfolding tokens_ok_def held_tok_def sm2 sm same using D(4) tpN tok_pos_nonneg [OF tpN]
    by (auto simp: tokens_ok_def held_tok_def)
  have "(\<Sum>x\<in>UNIV. sum_list (map icount (kont N x))) = (\<Sum>x\<in>UNIV. if x = ?c then sum_list (map icount ks)
      else if x = t then sum_list (map icount f) else sum_list (map icount (kont st x)))"
    by (rule sum.cong) (auto simp: ki)
  then have "(\<Sum>x\<in>UNIV. sum_list (map icount (kont N x))) = (\<Sum>x\<in>UNIV. sum_list (map icount (kont st x)))"
    using sum_upd2_nat [of ?c t "sum_list (map icount ks)" "sum_list (map icount f)" "\<lambda>x. sum_list (map icount (kont st x))"]
      tc c kt by simp
  then have io: "idle_once 0 N" using D(5) unfolding idle_once_def same by simp
  show ?thesis
    unfolding kernel_inv_def base_inv_def isth stt same using pl al ko to io D(6-8) tc by simp
qed

lemma init_bsd_quiet: "init_bsd t n rc st = Some st' \<Longrightarrow> quiet st st'"
  by (auto simp: init_bsd_def Let_def quiet_def split: if_splits)

lemma unblock_result:
  assumes "thread_unblock t Z = Some N"
  shows "quiet (set_status THREAD_READY t (Z\<lparr>ready_list := t # ready_list Z\<rparr>)) N"
proof -
  have "mset (insert_ordered (value_more X) t xs) = add_mset t (mset xs)" for X :: kstate and xs
    by (induction xs) auto
  then show ?thesis
    using assms by (auto simp: thread_unblock_def Let_def intr_set_level_def intr_enable_def intr_disable_def
        quiet_def split: if_splits)
qed

lemma init_thread_semas_simps [simp]:
  "thr (init_thread_semas t st) = thr st" "holder (init_thread_semas t st) = holder st"
  "running (init_thread_semas t st) = running st" "ready_list (init_thread_semas t st) = ready_list st"
  "sleeping_list (init_thread_semas t st) = sleeping_list st" "all_list (init_thread_semas t st) = all_list st"
  "idle_thread (init_thread_semas t st) = idle_thread st"
  "in_external_intr (init_thread_semas t st) = in_external_intr st"
  "sema (init_thread_semas t st) (LockSema l) = sema st (LockSema l)"
  "(\<And>y. waiters st (ThreadSema t y) = []) \<Longrightarrow> waiters (init_thread_semas t st) s = waiters st s"
  by (auto simp: init_thread_semas_def sema_init_def)

lemma thread_create_rest_inv:
  assumes inv: "kernel_inv b (\<lambda>_. 0) 0 st" and c: "kont st (running st) = KCreate t f # ks"
    and r: "thread_create_rest t f (pop st) = Some st'"
  shows "kernel_inv b (\<lambda>_. 0) 0 st'"
proof -
  let ?c = "running st" and ?K = "KEnable # f @ [KExit]"
  note D = kernel_invD [OF inv] and K = kont_okD [OF kernel_invD(3) [OF inv]]
  have tp: "t \<in> set (at_place st (PCreate ?c))" using c by simp
  note tt = placed_mem [OF D(1) tp, simplified]
  have tc: "t \<noteq> ?c" using tt D(8) by auto
  have w: "waiters st (ThreadSema t y) = []" for y
    using K(8) [of _ "ThreadSema t y"] by (cases "waiters st (ThreadSema t y)") auto
  define Y where "Y = upd_thr t (\<lambda>r. r\<lparr>t_child := [], t_lock_waiter := [], t_init_priority := t_priority r, t_lock_wait := None\<rparr>)
    (upd_thr ?c (\<lambda>r. r\<lparr>t_child := t_child r @ [t]\<rparr>) (init_thread_semas t (pop st)))"
  obtain X N where X: "quiet Y X" and u: "thread_unblock t (upd_thr t (\<lambda>r. r\<lparr>t_kont := ?K\<rparr>) (upd_thr t (\<lambda>r. r\<lparr>t_fd := replicate 128 NULL\<rparr>) X)) = Some N"
    and cp: "thread_check_preemption N = Some st'"
    using r by (auto simp: thread_create_rest_def Let_def pop_def Y_def dest!: init_bsd_quiet)
  have Yk: "kont Y x = (if x = ?c then ks else kont st x)" for x using c by (simp add: Y_def pop_def)
  have Y: "status Y x = status st x" "is_thread Y x = is_thread st x" for x
    using D(7) tt(1) by (auto simp: Y_def pop_def is_thread_def)
  have Ys: "waiters Y s = waiters st s" "sema Y (LockSema l) = sema st (LockSema l)" for s l
    using w by (auto simp: Y_def pop_def)
  have Yf: "holder Y = holder st" "idle_thread Y = idle_thread st" "running Y = ?c" "all_list Y = all_list st"
    "in_external_intr Y = in_external_intr st" "sleeping_list Y = sleeping_list st" "ready_list Y = ready_list st"
    by (simp_all add: Y_def pop_def)
  note QX = X [unfolded quiet_def] and QN = unblock_result [OF u, unfolded quiet_def]
  have mr: "mset (ready_list N) = add_mset t (mset (ready_list st))" using QX QN Yf by simp
  have "t \<notin> set (ready_list st)" "distinct (ready_list st)"
    using placed_disj [OF D(1) tp, of PReady] placed_distinct [OF D(1), of PReady] by auto
  then have rl: "set (ready_list N) = insert t (set (ready_list st))" "distinct (ready_list N)"
    using mr by (metis set_mset_mset set_mset_add_mset_insert)
      (metis mr \<open>t \<notin> set (ready_list st)\<close> \<open>distinct (ready_list st)\<close> distinct.simps(2) mset.simps(2) mset_eq_imp_distinct_iff)
  have Xi: "is_thread X x = is_thread st x" for x using quiet_is_thread [OF X] Y by simp
  have "kernel_inv b (\<lambda>_. 0) 0 N"
  proof (rule create_done_inv [OF inv c rl])
    show "is_thread N x = is_thread st x" for x
      using QN Xi [of x] by (auto simp: is_thread_def)
    show "kont N x = (if x = ?c then ks else if x = t then ?K else kont st x)" for x
      using QN QX Yk tc by simp
  qed (use QN QX Y Ys Yf in \<open>simp_all\<close>)
  then show ?thesis using check_preemption_inv cp by blast
qed

section \<open>The idle thread\<close>

lemma idle_loop_inv:
  assumes inv: "kernel_inv b (\<lambda>_. 0) 0 st" and c: "kont st (running st) = KIdle # ks"
    and i: "idle_thread st = Some (running st)" and r: "idle_loop (pop st) = Some st'"
  shows "kernel_inv b (\<lambda>_. 0) 0 st'"
proof -
  let ?c = "running st" and ?ks = "KEnable # KIdle # ks"
  let ?A = "upd_thr ?c (\<lambda>r. r\<lparr>t_kont := ?ks\<rparr>) (intr_disable st)"
  have i0: "kernel_inv b (\<lambda>_. 0) 0 (intr_disable st)" by (rule disable_inv [OF inv])
  note D = kernel_invD [OF i0] and K = kont_okD(1-7) [OF kernel_invD(3) [OF inv], where x = ?c, unfolded c]
  have "idle_kont (KIdle # ks)" using K(5) by simp
  then obtain pre where p: "KIdle # ks = pre @ [KIdle, KExit]" "set pre \<subseteq> idle_cmds" by (auto simp: idle_kont_def)
  then have "idle_kont ?ks"
    unfolding idle_kont_def by (intro exI [of _ "KEnable # pre"]) (simp add: idle_cmds_def)
  moreover have "tok_pos l (KIdle # ks)" for l using tok_pos_kont [OF inv, of l ?c] c by simp
  ultimately have A: "kernel_inv b (\<lambda>_. 0) 0 (upd_thr (running (intr_disable st)) (\<lambda>r. r\<lparr>t_kont := ?ks\<rparr>) (intr_disable st))"
    using K(1,2) tok_pos_nonneg
    by (intro set_kont_inv [OF i0]) (auto simp: c)
  let ?B = "set_status THREAD_BLOCKED ?c ?A"
  note DA = kernel_invD [OF A, simplified]
  have iA: "idle_thread ?A = Some ?c" using i by simp
  have "placed ?B" by (rule placed_idle [OF _ iA]) (use DA(1) in simp_all)
  moreover have "all_ok ?B" by (rule all_ok_cong [OF DA(2)]) (use DA(7,8) in \<open>auto simp: is_thread_def\<close>)
  moreover have "kont_ok ?B" by (rule kont_ok_cong [OF DA(3)]) (use DA(7,8) in \<open>auto simp: is_thread_def\<close>)
  moreover have "tokens_ok (\<lambda>_. 0) ?B" "idle_once 0 ?B" by (rule tokens_idle_cong [of _ ?A]; use DA(4,5) in auto)+
  ultimately have B: "base_inv b (\<lambda>_. 0) 0 ?B" using DA(6) by (simp add: base_inv_def)
  have "push [KEnable, KIdle] (intr_disable (pop st)) = ?A"
    using c by (simp add: push_def pop_def upd_thr_def intr_disable_def)
  then have "schedule ?B = Some st'"
    using r by (auto simp: idle_loop_def thread_block_def split: if_splits)
  from schedule_kinv [OF B this] show ?thesis .
qed

lemma idle_start_inv:
  assumes inv: "kernel_inv b (\<lambda>_. 0) 0 st" and c: "kont st (running st) = KIdleStart s # ks"
    and r: "idle_start s (pop st) = Some st'"
  shows "kernel_inv b (\<lambda>_. 0) 0 st'"
proof -
  let ?c = "running st"
  let ?A = "(pop st)\<lparr>idle_thread := Some ?c\<rparr>"
  note D = kernel_invD [OF inv] and K = kont_okD [OF kernel_invD(3) [OF inv]]
  have ki: "kont ?A x = (if x = ?c then ks else kont st x)" for x using c by (simp add: pop_def)
  have kp: "kont (pop st) x = (if x = ?c then ks else kont st x)" for x using c by (simp add: pop_def)
  have stt: "status ?A x = status st x" "is_thread ?A x = is_thread st x" for x
    using D(7) by (auto simp: pop_def is_thread_def)
  have f: "sema ?A = sema st" "holder ?A = holder st" "idle_thread ?A = Some ?c" "running ?A = ?c"
    "all_list ?A = all_list st" "in_external_intr ?A = in_external_intr st" by (simp_all add: pop_def)
  have at: "at_place ?A q = at_place st q" for q using c by (cases q) (auto simp: pop_def)
  have nw: "?c \<notin> set (at_place st q)" for q by (rule running_nowhere [OF inv])
  have "idle_kont (KIdleStart s # ks)" using K(5) [of ?c s] c by simp
  then obtain pre where p: "KIdleStart s # ks = pre @ [KIdle, KExit]" "set pre \<subseteq> idle_cmds" by (auto simp: idle_kont_def)
  then have ik: "idle_kont ks" by (cases pre) (auto simp: idle_kont_def)
  have ge: "sum_list (map icount (kont st ?c)) \<ge> 1" using c by simp
  have le: "(\<Sum>t\<in>UNIV. sum_list (map icount (kont st t))) + (if idle_thread st = None then 0 else 1) \<le> 1"
    using D(5) by (simp add: idle_once_def)
  have in0: "sum_list (map icount (kont st x)) = 0" if "x \<noteq> ?c" for x
  proof -
    have "sum_list (map icount (kont st x)) \<le> (\<Sum>t\<in>UNIV - {?c}. sum_list (map icount (kont st t)))"
      by (rule member_le_sum) (use that in auto)
    moreover have "(\<Sum>t\<in>UNIV. sum_list (map icount (kont st t))) =
        sum_list (map icount (kont st ?c)) + (\<Sum>t\<in>UNIV - {?c}. sum_list (map icount (kont st t)))"
      by (rule sum.remove) auto
    ultimately show ?thesis using le ge by linarith
  qed
  have "sum_list (map icount (kont st ?c)) \<le> (\<Sum>t\<in>UNIV. sum_list (map icount (kont st t)))"
    by (rule member_le_sum) auto
  moreover have "sum_list (map icount (kont st ?c)) = Suc (sum_list (map icount ks))" using c by simp
  ultimately have "Suc (sum_list (map icount ks)) + (if idle_thread st = None then 0 else 1) \<le> 1" using le by linarith
  then have eq1: "sum_list (map icount ks) = 0" "idle_thread st = None" by (linarith, simp split: if_splits)
  have nst: "KIdleStart s' \<notin> set (kont st x)" if "x \<noteq> ?c" for s' x
  proof
    assume "KIdleStart s' \<in> set (kont st x)"
    then have "icount (KIdleStart s') \<le> sum_list (map icount (kont st x))"
      by (intro member_le_sum_list) (auto intro: rev_image_eqI)
    then show False using in0 [OF that] by simp
  qed
  have nid: "KIdle \<notin> set (kont st x)" if "x \<noteq> ?c" for x using K(6) [of x] nst [OF that] eq1(2) by auto
  have pl: "placed ?A"
    unfolding placed_def at stt f
  proof (intro conjI allI ballI impI)
    fix q x assume x: "x \<in> set (at_place st q)"
    then show "is_thread st x" "status st x = place_status q" "Some ?c \<noteq> Some x"
      using placed_mem [OF D(1) x] nw [of q] by auto
  next
    fix x assume "is_thread st x" "status st x = THREAD_READY \<or> status st x = THREAD_BLOCKED"
    then show "Some ?c = Some x \<or> (\<exists>q. x \<in> set (at_place st q))"
      using placed_lost [OF D(1), of x] eq1(2) by auto
  next
    fix x assume "is_thread st x" "status st x = THREAD_RUNNING"
    then show "x = ?c" using placed_run [OF D(1), of x] by simp
  qed (use placed_distinct [OF D(1)] placed_disj [OF D(1)] in blast)+
  have al: "all_ok ?A" by (rule all_ok_cong [OF D(2)]) (simp_all only: stt f)
  have ko: "kont_ok ?A"
  proof (rule kont_okI, goal_cases)
    case (1 x k) then show ?case using K(1) [of k x] c by (auto simp: ki kp split: if_splits)
  next
    case (2 x) then show ?case using K(2) [of x] c by (cases "x = ?c") (simp_all add: ki kp)
  next
    case (3 x) then show ?case using K(3) [of x] D(7,8) unfolding stt by (cases "x = ?c") (simp_all add: ki kp)
  next
    case (4 x t)
    then have t: "t \<in> set (creations (kont st x))" using c by (auto simp: ki kp split: if_splits)
    then have "t \<noteq> ?c" using running_nowhere [OF inv, of "PCreate x"] by auto
    then show ?case using K(4) [OF t] by (simp add: ki kp)
  next
    case (5 x s') then show ?case using K(5) [of x s'] ik by (cases "x = ?c") (simp_all add: ki kp)
  next
    case (6 x) then show ?case using nid [of x] unfolding f by (cases "x = ?c") (simp_all add: ki kp)
  next
    case (7 x) then show ?case using idle_kont_KIdle [OF ik] unfolding f by (cases "x = ?c") (simp_all add: ki kp)
  next
    case (8 x s') then show ?case using K(8) [of x s'] unfolding f by simp
  qed
  have tk0: "tok l (kont ?A x) = tok l (kont st x)" for l x using c by (simp add: ki kp)
  have tp: "tok_pos l (kont ?A x)" for l x using tok_pos_kont [OF inv, of l x] c by (auto simp: ki kp)
  have to: "tokens_ok (\<lambda>_. 0) ?A"
    unfolding tokens_ok_def held_tok_def tk0 f using D(4) tp by (auto simp: tokens_ok_def held_tok_def)
  have "(\<Sum>x\<in>UNIV. sum_list (map icount (kont ?A x))) = 0"
    using in0 eq1(1) by (intro sum.neutral) (auto simp: ki kp)
  then have io: "idle_once 0 ?A" unfolding idle_once_def f by simp
  have A: "kernel_inv b (\<lambda>_. 0) 0 ?A"
    unfolding kernel_inv_def base_inv_def stt f using pl al ko to io D(6-8) by simp
  have cs: "client_sema s" using K(1) [of "KIdleStart s" ?c] c by simp
  have "sema_up s ?A = Some st'" using r by (auto simp: idle_start_def pop_def split: if_splits)
  then show ?thesis using sema_up_inv [of b s 0 ?A] A client_hand [OF cs] by simp
qed

section \<open>The whole machine\<close>

lemma fresh_push: "fresh_page st t \<Longrightarrow> fresh_page (push ks st) t"
  by (auto simp: fresh_page_def push_def is_thread_def)

lemma allocate_tid_inv:
  assumes inv: "kernel_inv b (\<lambda>_. 0) e st" and busy: "busy st" and r: "allocate_tid t st = Some st'"
  shows "kernel_inv b (\<lambda>_. 0) e st'"
proof -
  let ?ks = "[KSetTid t, KLockRelease (tid_lock st)]"
  have i1: "kernel_inv b (\<lambda>_. 0) e (push ?ks st)" "busy (push ?ks st)"
    by (rule push_cmds_inv [OF inv busy]; use tok_pos_kont [OF inv] token_bound(2) [OF inv] in auto)+
  show ?thesis using lock_acquire_inv(1) [OF i1] r by (simp add: allocate_tid_def)
qed

lemma thread_create_inv:
  assumes inv: "kernel_inv b (\<lambda>_. 0) e st" and busy: "busy st"
    and page: "\<And>t. page = Some t \<Longrightarrow> fresh_page st t"
    and f: "\<And>t. cmd_ok (running st) (KCreate t f)" "sum_list (map icount f) = e"
    and r: "thread_create nm pr f page st = Some st'"
  shows "kernel_inv b (\<lambda>_. 0) 0 st'"
proof (cases page)
  case None
  have "idle_once 0 st" using kernel_invD(5) [OF inv] by (simp add: idle_once_def)
  then show ?thesis using r None inv by (auto simp: thread_create_def kernel_inv_def base_inv_def)
next
  case (Some t)
  then obtain st1 where i: "init_thread t nm pr st = Some st1" and a: "allocate_tid t (push [KCreate t f] st1) = Some st'"
    using r by (auto simp: thread_create_def)
  have "kernel_inv b (\<lambda>_. 0) (e - icount (KCreate t f)) (push [KCreate t f] st1)" "busy (push [KCreate t f] st1)"
    by (rule create_inv [OF inv busy page [OF Some] f(1) _ i]; use f(2) in simp)+
  then show ?thesis using allocate_tid_inv [OF _ _ a] f(2) by simp
qed

lemma thread_start_inv:
  assumes inv: "kernel_inv b (\<lambda>_. 0) 1 st" and busy: "busy st" and s: "client_sema s" "waiters st s = []"
    and page: "\<And>t. page = Some t \<Longrightarrow> fresh_page st t" and r: "thread_start s page st = Some st'"
  shows "kernel_inv b (\<lambda>_. 0) 0 st'"
proof -
  let ?A = "sema_init s 0 st" and ?ks = "[KEnable, KSemaDown s]"
  have nl: "s \<noteq> LockSema l" for l using s(1) by (auto simp: client_sema_def)
  have own: "own_sema x s" for x using s(1) by (auto simp: client_sema_def split: sema_ref.splits)
  have A: "kernel_inv b (\<lambda>_. 0) 1 ?A" by (rule sema_init_inv [OF inv nl s(2)])
  have bA: "busy ?A" using busy by (simp add: busy_def sema_init_def)
  have B: "kernel_inv b (\<lambda>_. 0) 1 (push ?ks ?A)" "busy (push ?ks ?A)"
    by (rule push_cmds_inv [OF A bA]; use own nl tok_pos_kont [OF A] token_bound(2) [OF A] in auto)+
  have fr: "page = Some t \<Longrightarrow> fresh_page (push ?ks ?A) t" for t
    using fresh_push [of ?A t] page [of t] by (simp add: fresh_page_def sema_init_def)
  show ?thesis
    by (rule thread_create_inv [OF B fr]) (use s(1) r in \<open>auto simp: thread_start_def\<close>)
qed

lemma pop_simps [simp]:
  "sema (pop st) = sema st" "holder (pop st) = holder st" "running (pop st) = running st"
  "is_thread (pop st) t = is_thread st t" "fresh_page (pop st) t = fresh_page st t"
  by (auto simp: pop_def is_thread_def fresh_page_def)

lemma thread_tick_inv:
  assumes inv: "kernel_inv b d e st" and r: "thread_tick st = Some st'"
  shows "kernel_inv b d e st'"
proof -
  let ?S = "tick_statistics (running st) st"
  let ?T = "?S\<lparr>thread_ticks := thread_ticks ?S + 1\<rparr>"
  obtain c m where c: "(if thread_ticks ?T \<ge> TIME_SLICE then intr_yield_on_return ?T else Some ?T) = Some c"
    and w: "thread_wake_up c = Some m" and a: "(if thread_prior_aging m then thread_aging m else Some m) = Some st'"
    using r by (auto simp: thread_tick_def Let_def)
  have "quiet st ?S" "quiet ?S ?T" by (simp_all add: tick_statistics_def quiet_def)
  moreover have "quiet ?T c" using c by (auto simp: intr_yield_on_return_def quiet_def split: if_splits)
  ultimately have "kernel_inv b d e c" using inv quiet_kinv by blast
  then have "kernel_inv b d e m" using w by (rule thread_wake_up_inv)
  then show ?thesis using a quiet_kinv quiet_bsd(1) by (auto split: if_splits) blast
qed

lemma timer_interrupt_inv:
  assumes inv: "kernel_inv b d e st" and r: "timer_interrupt st = Some st'"
  shows "kernel_inv b d e st'"
proof -
  obtain a where a: "thread_tick (st\<lparr>ticks := ticks st + 1\<rparr>) = Some a" and q: "quiet a st'"
    using r by (auto simp: timer_interrupt_def Let_def split: if_splits dest!: quiet_bsd intro: quiet_trans)
  have "kernel_inv b d e (st\<lparr>ticks := ticks st + 1\<rparr>)" using inv quiet_kinv [OF quiet_fields(3)] by blast
  from thread_tick_inv [OF this a] show ?thesis using quiet_kinv [OF q] by simp
qed

lemma ext_inv: "kernel_inv b d e st \<Longrightarrow> kernel_inv b' d e (st\<lparr>in_external_intr := b'\<rparr>)"
  for st :: kstate
proof -
  assume inv: "kernel_inv b d e st"
  let ?A = "st\<lparr>in_external_intr := b'\<rparr>"
  have at: "at_place ?A q = at_place st q" for q by (cases q) auto
  have "placed ?A" by (subst placed_cong [of ?A st]) (simp_all add: at kernel_invD [OF inv] del: at_place.simps)
  moreover have "all_ok ?A" by (rule all_ok_cong [OF kernel_invD(2) [OF inv]]) simp_all
  moreover have "kont_ok ?A" by (rule kont_ok_cong [OF kernel_invD(3) [OF inv]]) simp_all
  moreover have "tokens_ok d ?A" "idle_once e ?A"
    by (rule tokens_idle_cong [of _ st]; use kernel_invD(4,5) [OF inv] in simp)+
  ultimately show ?thesis using kernel_invD(7,8) [OF inv] by (simp add: kernel_inv_def base_inv_def)
qed

lemma timer_intr_handler_inv:
  assumes inv: "kinv st" and r: "timer_intr_handler st = Some st'"
  shows "kinv st'"
proof -
  let ?A = "(push [KSetLevel (intr_on st)] (intr_disable st))"
  let ?B = "?A\<lparr>in_external_intr := True, yield_on_return := False\<rparr>"
  have "kinv ?A" by (rule push_level_inv [OF disable_inv [OF inv]])
  then have "kernel_inv True (\<lambda>_. 0) 0 (?A\<lparr>in_external_intr := True\<rparr>)" by (rule ext_inv)
  then have B: "kernel_inv True (\<lambda>_. 0) 0 ?B" using quiet_kinv [OF quiet_fields(8)] by blast
  obtain st1 where t: "timer_interrupt ?B = Some st1"
    and e: "st' = st1\<lparr>in_external_intr := False\<rparr> \<or> thread_yield (st1\<lparr>in_external_intr := False\<rparr>) = Some st'"
    using r by (auto simp: timer_intr_handler_def Let_def split: if_splits)
  have "kinv (st1\<lparr>in_external_intr := False\<rparr>)" by (rule ext_inv [OF timer_interrupt_inv [OF B t]])
  then show ?thesis using e yield_inv by blast
qed

lemma set_tid_quiet: "set_tid t st = Some st' \<Longrightarrow> quiet st st'"
  by (auto simp: set_tid_def quiet_def)

lemma pop_client: "kinv st \<Longrightarrow> kont st (running st) = k # ks \<Longrightarrow> k \<noteq> KIdle \<Longrightarrow> (\<And>s. k \<noteq> KIdleStart s) \<Longrightarrow>
    (\<And>t f. k \<noteq> KCreate t f) \<Longrightarrow> (\<And>l. tk l k = d l) \<Longrightarrow> icount k = e \<Longrightarrow> kernel_inv False d e (pop st)"
  using pop_inv [of False st k ks] by (metis ext)

lemma exec_inv:
  assumes inv: "kinv st" and c: "kont st (running st) = k # ks"
    and page: "exec_ok page k st" and r: "exec_cmd page k (pop st) = Some st'"
  shows "kinv st'"
proof -
  note K = kont_okD [OF kernel_invD(3) [OF inv]]
  have ok: "cmd_ok (running st) k" using K(1) [of k "running st"] c by simp
  have bz: "k \<notin> idle_cmds \<Longrightarrow> k \<noteq> KIdle \<Longrightarrow> busy (pop st)" by (rule busy_head(2) [OF inv c])
  note P = pop_client [OF inv c]
  show ?thesis
  proof (cases k)
    case (KSetLevel x)
    then show ?thesis using P [of "\<lambda>_. 0" 0] r quiet_kinv [OF quiet_intr(3)] by auto
  next
    case KEnable
    then show ?thesis using P [of "\<lambda>_. 0" 0] r quiet_kinv [OF quiet_intr(2)] by auto
  next
    case (KSemaDown s)
    have "kernel_inv False (hand s (-1)) 0 (pop st)" by (rule P) (use KSemaDown in auto)
    then show ?thesis by (rule sema_down_inv) (use r bz ok KSemaDown in \<open>auto simp: idle_cmds_def\<close>)
  next
    case (KDown s)
    have "kernel_inv False (hand s (-1)) 0 (pop st)" by (rule P) (use KDown in auto)
    then show ?thesis by (rule sema_down_loop_inv) (use r bz ok KDown in \<open>auto simp: idle_cmds_def\<close>)
  next
    case (KSemaUp s)
    have "kernel_inv False (hand s 1) 0 (pop st)" by (rule P) (use KSemaUp in auto)
    then show ?thesis by (rule sema_up_inv) (use r KSemaUp in auto)
  next
    case (KLockAcquire l)
    then show ?thesis using P [of "\<lambda>_. 0" 0] lock_acquire_inv(1) [of _ 0 "pop st"] bz r by (auto simp: idle_cmds_def)
  next
    case (KLockTaken l)
    have "kernel_inv False (hand (LockSema l) 1) 0 (pop st)" by (rule P) (use KLockTaken in auto)
    then show ?thesis by (rule lock_taken_inv(1)) (use r KLockTaken in auto)
  next
    case (KLockRelease l)
    then show ?thesis using P [of "\<lambda>_. 0" 0] lock_release_inv(1) [of _ 0 "pop st"] bz r by (auto simp: idle_cmds_def)
  next
    case (KBroadcast cv l)
    then show ?thesis using P [of "\<lambda>_. 0" 0] cond_broadcast_inv [of _ 0 "pop st"] bz r by (auto simp: idle_cmds_def)
  next
    case (KSetTid t)
    then show ?thesis using P [of "\<lambda>_. 0" 0] r quiet_kinv [OF set_tid_quiet] by auto
  next
    case (KCreate t f)
    then show ?thesis using thread_create_rest_inv [OF inv] c r by simp
  next
    case (KStart s)
    have "kernel_inv False (\<lambda>_. 0) 1 (pop st)" by (rule P) (use KStart in auto)
    then show ?thesis
      by (rule thread_start_inv) (use r bz ok page KStart in \<open>auto simp: idle_cmds_def exec_ok_def\<close>)
  next
    case (KIdleStart s)
    then show ?thesis using idle_start_inv [OF inv] c r by simp
  next
    case KIdle
    then have "KIdle \<in> set (kont st (running st))" "idle_kont (kont st (running st))"
      using K(5) [of "running st"] c by auto
    then have "idle_thread st = Some (running st) \<or> (\<exists>s. KIdleStart s \<in> set ks)"
      using K(6) [of "running st"] c KIdle by auto
    moreover have "ks = [KExit]"
    proof -
      obtain pre where p: "k # ks = pre @ [KIdle, KExit]" "set pre \<subseteq> idle_cmds"
        using \<open>idle_kont _\<close> c by (auto simp: idle_kont_def)
      then show ?thesis using KIdle by (cases pre) (auto simp: idle_cmds_def)
    qed
    ultimately show ?thesis using idle_loop_inv [OF inv] c KIdle r by simp
  next
    case KBody
    then show ?thesis using P [of "\<lambda>_. 0" 0] r by auto
  next
    case KExit
    then have "ks = []" using K(2) [of "running st"] c by simp
    then have "kont (pop st) (running st) = []" using c by (simp add: pop_def)
    moreover have "kinv (pop st)" by (rule P) (use KExit in auto)
    moreover have "thread_exit (pop st) = Some st'" "busy (pop st)" using r bz KExit by (auto simp: idle_cmds_def)
    ultimately show ?thesis using thread_exit_inv [of False 0 "pop st" st'] by simp
  qed
qed

lemma thread_set_priority_inv:
  assumes inv: "kinv st" and r: "thread_set_priority p st = Some st'"
  shows "kinv st'"
proof (cases "thread_mlfqs st")
  case False
  let ?st1 = "upd_thr (running st) (\<lambda>r. r\<lparr>t_init_priority := p\<rparr>) st"
  obtain st2 where q: "thread_lock_refresh ?st1 = Some st2" and cp: "thread_check_preemption st2 = Some st'"
    using r False by (auto simp: thread_set_priority_def Let_def)
  have "quiet st ?st1" by (rule quiet_upd_thr) simp
  then have "kinv st2" using inv quiet_kinv quiet_thread_lock_refresh [OF q] by blast
  then show ?thesis using check_preemption_inv cp by blast
qed (use assms in \<open>simp add: thread_set_priority_def\<close>)

lemma thread_set_nice_inv:
  assumes inv: "kinv st" and r: "thread_set_nice n st = Some st'"
  shows "kinv st'"
proof -
  let ?A = "upd_thr (running st) (\<lambda>r. r\<lparr>t_nice := n\<rparr>) (intr_disable st)"
  obtain a c where a: "a = ?A \<or> a = set_prio PRI_MAX (running st) ?A \<or> a = set_prio PRI_MIN (running st) ?A"
    and l: "intr_set_level (intr_on st) a = Some c" and cp: "thread_check_preemption c = Some st'"
    using r by (auto simp: thread_set_nice_def Let_def split: if_splits)
  have qA: "quiet (intr_disable st) ?A" and qs: "quiet ?A (set_prio v (running st) ?A)" for v
    by (rule quiet_upd_thr; simp)+
  have "kinv ?A" using disable_inv [OF inv] quiet_kinv [OF qA] by simp
  then have "kinv a" using a quiet_kinv [OF qs] by blast
  then have "kinv c" using quiet_kinv [OF quiet_intr(3) [OF l]] by simp
  then show ?thesis using check_preemption_inv cp by blast
qed

lemma call_inv:
  assumes inv: "kinv st" and c: "kont st (running st) = KBody # ks"
    and ok: "call_ok cl st" and r: "do_call cl st = Some st'"
  shows "kinv st'"
proof -
  have bz: "busy st" by (rule busy_head(1) [OF inv c]) (auto simp: idle_cmds_def)
  have own: "client_sema s \<Longrightarrow> own_sema x s" for x s by (auto simp: client_sema_def split: sema_ref.splits)
  have ks: "ks = [KExit]" using kont_okD(2) [OF kernel_invD(3) [OF inv], of "running st"] c by simp
  show ?thesis
  proof (cases cl)
    case (CSemaDown s)
    then show ?thesis using sema_down_inv [of _ s 0 st] client_hand [of s] inv bz own r ok by simp
  next
    case (CSemaUp s)
    then show ?thesis using sema_up_inv [of _ s 0 st] client_hand [of s] inv r ok by simp
  next
    case (CSemaTryDown s)
    then show ?thesis using sema_try_down_client_inv [OF inv] r ok by auto
  next
    case (CCreate nm p page)
    then show ?thesis
      using ok r by (intro thread_create_inv [OF inv bz, of page "[KBody]"]) auto
  next
    case (CSleep n)
    then show ?thesis using r thread_sleeping_inv [OF inv bz] by (auto simp: timer_sleep_def Let_def split: if_splits)
  next
    case CExit
    then show ?thesis using r thread_exit_inv [OF inv bz] c ks by simp
  next
    case (CLockAcquire l) then show ?thesis using r lock_acquire_inv(1) [OF inv bz] by simp
  next
    case (CLockTryAcquire l) then show ?thesis using r lock_try_acquire_inv [OF inv] by auto
  next
    case (CLockRelease l) then show ?thesis using r lock_release_inv(1) [OF inv bz] by simp
  next
    case (CCondWait cv l) then show ?thesis using r cond_wait_inv [OF inv bz] by simp
  next
    case (CCondSignal cv l) then show ?thesis using r cond_signal_inv [OF inv] by simp
  next
    case (CCondBroadcast cv l) then show ?thesis using r cond_broadcast_inv [OF inv bz] by simp
  next
    case CYield then show ?thesis using r yield_inv [OF inv] by simp
  next
    case (CSetPriority p) then show ?thesis using r thread_set_priority_inv [OF inv] by simp
  next
    case (CSetNice n) then show ?thesis using r thread_set_nice_inv [OF inv] by simp
  next
    case CIntrDisable then show ?thesis using r disable_inv [OF inv] by auto
  next
    case CIntrEnable
    then have "quiet st st'" using r quiet_intr(2) by simp
    then show ?thesis using inv quiet_kinv by simp
  qed
qed

lemma kstep_inv: "kstep st st' \<Longrightarrow> kinv st \<Longrightarrow> kinv st'"
  by (induction rule: kstep.induct) (rule exec_inv call_inv timer_intr_handler_inv; assumption)+

lemma boot_inv_single:
  assumes t: "running Z = t" "is_thread Z t" "status Z t = THREAD_RUNNING" "\<And>x. is_thread Z x \<Longrightarrow> x = t"
    and k: "\<And>x. kont Z x = (if x = t then [KStart s, KBody, KExit] else [])" "client_sema s"
    and q: "ready_list Z = []" "sleeping_list Z = []" "\<And>s. waiters Z s = []" "all_list Z = [t]" "idle_thread Z = None"
    and l: "\<And>l. s_value (sema Z (LockSema l)) = 1" "\<And>l. holder Z l = None" and e: "\<not> in_external_intr Z"
  shows "kinv Z"
proof -
  have at: "at_place Z p = []" for p using q k by (cases p) auto
  have "placed Z"
    unfolding placed_def at
  proof (intro conjI allI ballI impI)
    fix x assume "is_thread Z x" "status Z x = THREAD_READY \<or> status Z x = THREAD_BLOCKED"
    then show "idle_thread Z = Some x \<or> (\<exists>p. x \<in> set [])" using t(3) t(4) [of x] by fastforce
  next
    fix x assume "is_thread Z x" "status Z x = THREAD_RUNNING"
    then show "x = running Z" using t(1) t(4) [of x] by simp
  qed simp_all
  moreover have "x \<in> set [t] \<longleftrightarrow> is_thread Z x \<and> status Z x \<noteq> THREAD_DYING" for x
  proof (cases "x = t")
    case True
    then show ?thesis using t(2,3) by simp
  next
    case False
    then have "\<not> is_thread Z x" using t(4) by blast
    then show ?thesis using False by simp
  qed
  then have "all_ok Z" unfolding all_ok_def q(4) by (intro conjI allI) (simp, blast)
  moreover have "kont_ok Z"
  proof (rule kont_okI, goal_cases)
    case (1 x c) then show ?case using k by (simp split: if_splits) auto
  next
    case (2 x) then show ?case by (simp add: k(1))
  next
    case (3 x) then show ?case using t(2,3) by (simp add: k(1) split: if_splits)
  next
    case (4 x u) then show ?case by (simp add: k(1) split: if_splits)
  next
    case (5 x s') then show ?case by (simp add: k(1) split: if_splits)
  next
    case (6 x) then show ?case by (simp add: k(1) split: if_splits)
  next
    case (7 x) then show ?case using q(5) by simp
  next
    case (8 x s') then show ?case using q(3) by simp
  qed
  moreover have "(\<Sum>x\<in>UNIV. tok l (kont Z x)) = 0" for l by (rule sum.neutral) (simp add: k)
  then have "tokens_ok (\<lambda>_. 0) Z" using l k by (auto simp: tokens_ok_def held_tok_def)
  moreover have "(\<Sum>x\<in>UNIV. sum_list (map icount (kont Z x))) = (\<Sum>x\<in>UNIV. if x = t then 1 else 0)"
    by (rule sum.cong) (auto simp: k)
  then have "idle_once 0 Z" using q by (simp add: idle_once_def)
  ultimately show ?thesis using t(1-3) e by (simp add: kernel_inv_def base_inv_def)
qed

lemma boot_kinv:
  assumes bs: "boot_state s st0" and r: "thread_init st0 = Some st"
  shows "kinv st"
proof -
  let ?t = "running st0"
  let ?a = "lock_init (tid_lock st0) st0\<lparr>ready_list := [], all_list := [], sleeping_list := [], initial_thread := Some ?t\<rparr>"
  let ?rc = "\<lambda>r. r\<lparr>t_child := [], t_lock_waiter := [], t_init_priority := t_priority r, t_lock_wait := None\<rparr>"
  obtain b c where b: "init_thread ?t ''main'' PRI_DEFAULT ?a = Some b"
    and c: "init_bsd ?t 0 0 (upd_thr ?t ?rc (init_thread_semas ?t (upd_thr ?t (\<lambda>r. r\<lparr>t_kont := kont st0 ?t\<rparr>) b))) = Some c"
    and a: "allocate_tid ?t (set_status THREAD_RUNNING ?t (upd_thr ?t (\<lambda>r. r\<lparr>t_fd := replicate 128 NULL\<rparr>) c)) = Some st"
    using r by (auto simp: thread_init_def Let_def lock_init_def sema_init_def split: if_splits)
  let ?b' = "upd_thr ?t ?rc (init_thread_semas ?t (upd_thr ?t (\<lambda>r. r\<lparr>t_kont := kont st0 ?t\<rparr>) b))"
  let ?Z = "set_status THREAD_RUNNING ?t (upd_thr ?t (\<lambda>r. r\<lparr>t_fd := replicate 128 NULL\<rparr>) c)"
  have q: "quiet ?b' c" by (rule init_bsd_quiet [OF c])
  note B = bs [unfolded boot_state_def]
  have b1: "thr b = (thr st0)(?t := zero_thread\<lparr>t_status := THREAD_BLOCKED, t_name := take 15 ''main'', t_priority := PRI_DEFAULT, t_magic := THREAD_MAGIC\<rparr>)"
    "running b = ?t" "ready_list b = []" "sleeping_list b = []" "all_list b = [?t]" "idle_thread b = idle_thread st0"
    "sema b = (sema st0)(LockSema (tid_lock st0) := \<lparr>s_value = 1, s_waiters = []\<rparr>)"
    "holder b = (holder st0)(tid_lock st0 := None)" "in_external_intr b = in_external_intr st0"
    using init_thread_result [OF b] by (simp_all add: lock_init_def sema_init_def)
  have b2: "waiters b s = []" "s_value (sema b (LockSema l)) = 1" "holder b l = None" "\<not> in_external_intr b"
    "idle_thread b = None" for s l
    using B unfolding b1 by simp_all
  have m: "t_magic (thr ?b' x) = (if x = ?t then THREAD_MAGIC else t_magic (thr st0 x))" for x
    by (simp add: b1)
  have qc: "t_magic (thr c x) = t_magic (thr ?b' x)" "kont c x = kont ?b' x" for x using q by (auto simp: quiet_def)
  note Q = quietD [OF q]
  have Z: "kinv ?Z"
  proof (rule boot_inv_single [where t = ?t and s = s])
    show "is_thread ?Z ?t" using B by (simp add: is_thread_def qc m b1)
    show "x = ?t" if "is_thread ?Z x" for x
      using that B by (auto simp: is_thread_def qc m b1 split: if_splits)
    show "kont ?Z x = (if x = ?t then [KStart s, KBody, KExit] else [])" for x
      using B by (auto simp: qc b1)
    show "ready_list ?Z = []" using q b1 by (simp add: quiet_def)
    show "sleeping_list ?Z = []" using q b1 by (simp add: quiet_def)
    show "waiters ?Z s = []" for s using Q(4) b2(1) by (simp del: init_thread_semas_simps(9))
    show "s_value (sema ?Z (LockSema l)) = 1" for l using Q(4) b2(2) by simp
    show "holder ?Z l = None" for l using Q(5) b2(3) by simp
  qed (use B b1 b2(4,5) Q(7-10) in auto)
  moreover have "busy ?Z" using B by (auto simp: busy_def qc b1 Q(9))
  ultimately show ?thesis using allocate_tid_inv [OF _ _ a] by blast
qed

lemma reachable_kinv: "reachable st \<Longrightarrow> kinv st"
  by (induction rule: reachable.induct) (auto intro: boot_kinv kstep_inv)

end
