(* ===== verification/Arithmetic64.thy ===== *)
theory Arithmetic64
  imports Prelude "HOL-Library.Signed_Division"
begin

text \<open>
  The 64-bit division routines of \<^verbatim>\<open>lib/arithmetic.c\<close>, which reduce 64-by-64-bit division to
  the 64-by-32-bit \<^verbatim>\<open>divl\<close> instruction, and their equivalence with division.
\<close>

section \<open>The routines\<close>

text \<open>\<^verbatim>\<open>divl\<close> traps when the divisor is 0 or the quotient does not fit in 32 bits.\<close>

definition divl :: "u64 \<Rightarrow> u32 \<Rightarrow> u32 option" where
  "divl n d = do {
     chk (d \<noteq> 0);
     chk (n div ucast d \<le> 0xFFFFFFFF);
     Some (ucast (n div ucast d)) }"

definition nlz :: "u32 \<Rightarrow> nat" where
  "nlz x =
     (let n = 0;
          (n, x) = (if x \<le> 0x0000FFFF then (n + 16, push_bit 16 x) else (n, x));
          (n, x) = (if x \<le> 0x00FFFFFF then (n + 8, push_bit 8 x) else (n, x));
          (n, x) = (if x \<le> 0x0FFFFFFF then (n + 4, push_bit 4 x) else (n, x));
          (n, x) = (if x \<le> 0x3FFFFFFF then (n + 2, push_bit 2 x) else (n, x))
      in if x \<le> 0x7FFFFFFF then n + 1 else n)"

definition udiv64 :: "u64 \<Rightarrow> u64 \<Rightarrow> u64 option" where
  "udiv64 n d =
     (if drop_bit 32 d = 0
      then do {
        let b = push_bit 32 (1 :: u64);
        let n1 = (ucast (drop_bit 32 n) :: u32);
        let n0 = (ucast n :: u32);
        let d0 = (ucast d :: u32);
        chk (d0 \<noteq> 0);
        q \<leftarrow> divl (b * ucast (n1 mod d0) + ucast n0) d0;
        Some (ucast q + b * ucast (n1 div d0)) }
      else if n < d then Some 0
      else do {
        let d1 = (ucast (drop_bit 32 d) :: u32);
        let s = nlz d1;
        q \<leftarrow> divl (drop_bit 1 n) (ucast (drop_bit 32 (push_bit s d)));
        let q = (ucast (drop_bit (31 - s) q) :: u64);
        Some (if n - (q - 1) * d < d then q - 1 else q) })"

definition umod64 :: "u64 \<Rightarrow> u64 \<Rightarrow> u32 option" where
  "umod64 n d = do { q \<leftarrow> udiv64 n d; Some (ucast (n - d * q)) }"

text \<open>Signed numbers are words read with \<open>sint\<close>.\<close>

definition abs64 :: "u64 \<Rightarrow> u64" where
  "abs64 n = (if sint n \<ge> 0 then n else - n)"

definition sdiv64 :: "u64 \<Rightarrow> u64 \<Rightarrow> u64 option" where
  "sdiv64 n d = do {
     q_abs \<leftarrow> udiv64 (abs64 n) (abs64 d);
     Some (if (sint n < 0) = (sint d < 0) then q_abs else - q_abs) }"

definition smod64 :: "u64 \<Rightarrow> u64 \<Rightarrow> u32 option" where
  "smod64 n d = do { q \<leftarrow> sdiv64 n d; Some (ucast (n - d * q)) }"

definition divdi3 :: "u64 \<Rightarrow> u64 \<Rightarrow> u64 option" where "divdi3 n d = sdiv64 n d"
definition moddi3 :: "u64 \<Rightarrow> u64 \<Rightarrow> u64 option" where "moddi3 n d = map_option scast (smod64 n d)"
definition udivdi3 :: "u64 \<Rightarrow> u64 \<Rightarrow> u64 option" where "udivdi3 n d = udiv64 n d"
definition umoddi3 :: "u64 \<Rightarrow> u64 \<Rightarrow> u64 option" where "umoddi3 n d = map_option ucast (umod64 n d)"

section \<open>Counting leading zeros\<close>

lemma unat_push: "unat x * 2 ^ k < 2 ^ LENGTH('a) \<Longrightarrow> unat (push_bit k x) = unat x * 2 ^ k" for x :: "'a::len word"
  by (subst unsigned_push_bit_eq) (simp only: push_bit_eq_mult take_bit_nat_eq_self)

lemma unat_drop: "unat (drop_bit k x) = unat x div 2 ^ k" for x :: "'a::len word"
  by (subst unsigned_drop_bit_eq) (simp only: drop_bit_eq_div take_bit_nat_eq_self [OF unsigned_less])

text \<open>One test of \<open>nlz\<close>: the top \<open>k\<close> bits are zero or not.\<close>

lemma nlz_round:
  fixes x c :: u32
  assumes inv: "unat x = X * 2 ^ n" "2 ^ j \<le> unat x" and c: "unat c + 1 = 2 ^ m" and k: "k + m = 32" "m \<le> j + k"
  obtains n' x' where "(if x \<le> c then (n + k, push_bit k x) else (n, x)) = (n', x')"
    "unat x' = X * 2 ^ n'" "2 ^ m \<le> unat x'"
proof (cases "x \<le> c")
  case True
  then have "unat x < 2 ^ m" using c by (simp add: word_le_nat_alt)
  then have "unat x * 2 ^ k < 2 ^ m * 2 ^ k" by simp
  also have "2 ^ m * 2 ^ k = (2 ^ 32 :: nat)" using k by (simp flip: power_add add: add.commute)
  finally have u: "unat (push_bit k x) = unat x * 2 ^ k" by (intro unat_push) simp
  have "(2::nat) ^ m \<le> 2 ^ (j + k)" using k by (intro power_increasing) auto
  also have "\<dots> \<le> unat x * 2 ^ k" using inv(2) by (simp add: power_add)
  finally show ?thesis
    using that [of "n + k" "push_bit k x"] True u inv(1) by (simp add: power_add)
next
  case False
  then have "2 ^ m \<le> unat x" using c by (simp add: word_le_nat_alt)
  then show ?thesis using that [of n x] False inv(1) by simp
qed

lemma nlz_correct:
  assumes "x \<noteq> 0"
  shows "2 ^ 31 \<le> unat x * 2 ^ nlz x \<and> unat x * 2 ^ nlz x < 2 ^ 32"
proof -
  have x1: "unat x = unat x * 2 ^ 0" "2 ^ 0 \<le> unat x" using assms by (simp_all add: unat_gt_0 Suc_leI)
  obtain n1 y1 where 1: "(if x \<le> 0x0000FFFF then (0 + 16, push_bit 16 x) else (0, x)) = (n1, y1)"
    "unat y1 = unat x * 2 ^ n1" "2 ^ 16 \<le> unat y1"
    by (rule nlz_round [OF x1, of "0xFFFF" 16 16]) auto
  obtain n2 y2 where 2: "(if y1 \<le> 0x00FFFFFF then (n1 + 8, push_bit 8 y1) else (n1, y1)) = (n2, y2)"
    "unat y2 = unat x * 2 ^ n2" "2 ^ 24 \<le> unat y2"
    by (rule nlz_round [OF 1(2,3), of "0x00FFFFFF" 24 8]) auto
  obtain n3 y3 where 3: "(if y2 \<le> 0x0FFFFFFF then (n2 + 4, push_bit 4 y2) else (n2, y2)) = (n3, y3)"
    "unat y3 = unat x * 2 ^ n3" "2 ^ 28 \<le> unat y3"
    by (rule nlz_round [OF 2(2,3), of "0x0FFFFFFF" 28 4]) auto
  obtain n4 y4 where 4: "(if y3 \<le> 0x3FFFFFFF then (n3 + 2, push_bit 2 y3) else (n3, y3)) = (n4, y4)"
    "unat y4 = unat x * 2 ^ n4" "2 ^ 30 \<le> unat y4"
    by (rule nlz_round [OF 3(2,3), of "0x3FFFFFFF" 30 2]) auto
  have n: "nlz x = (if y4 \<le> 0x7FFFFFFF then n4 + 1 else n4)"
    unfolding nlz_def Let_def prod.case 1(1) 2(1) 3(1) 4(1) by simp
  have "unat y4 < 2 ^ 32" using unsigned_less [of y4, where 'a = nat] by simp
  then show ?thesis
    using 4(2,3) unfolding n by (auto simp: word_le_nat_alt)
qed

section \<open>Unsigned division\<close>

lemma divl_Some:
  assumes "d \<noteq> 0" "unat n div unat d < 2 ^ 32"
  shows "\<exists>q. divl n d = Some q \<and> unat q = unat n div unat d"
proof -
  have u: "unat (n div ucast d) = unat n div unat d"
    by (simp add: unat_div unsigned_ucast_eq take_bit_nat_eq_self [OF less_trans [OF unsigned_less]])
  then have "n div ucast d \<le> 0xFFFFFFFF" using assms(2) by (simp add: word_le_nat_alt)
  moreover have "unat (ucast (n div ucast d) :: u32) = unat n div unat d"
    using u assms(2) by (simp only: unsigned_ucast_eq) (simp add: take_bit_nat_eq_self)
  ultimately show ?thesis using assms(1) by (simp add: divl_def)
qed

text \<open>A 64-bit number is its two halves.\<close>

lemma unat_halves: "unat n = unat (drop_bit 32 n) * 2 ^ 32 + unat (ucast n :: u32)" for n :: u64
proof -
  have "unat (drop_bit 32 n) = unat n div 2 ^ 32" by (rule unat_drop)
  moreover have "unat (ucast n :: u32) = unat n mod 2 ^ 32" by (simp add: unsigned_ucast_eq take_bit_eq_mod)
  ultimately show ?thesis by (simp only: div_mult_mod_eq)
qed

lemma len32: "LENGTH(32) = 32"
  by simp

lemma unat_high: "unat (ucast (drop_bit 32 n) :: u32) = unat n div 2 ^ 32" for n :: u64
proof -
  have "unat n < 2 ^ 64" using unsigned_less [of n, where 'a = nat] by simp
  then have "unat n div 2 ^ 32 < 2 ^ 32" by (simp add: div_less_iff_less_mult)
  then show ?thesis
    unfolding unsigned_ucast_eq unat_drop by (simp only: take_bit_nat_eq_self len32)
qed

lemma unat_up [simp]: "unat (ucast x :: u64) = unat x" for x :: u32
  by (simp add: unsigned_ucast_eq take_bit_nat_eq_self [OF less_trans [OF unsigned_less]])

lemma split_high: "a * b = a mod d * b + d * (b * (a div d))" for a b d :: nat
proof -
  have "(a mod d + e) * b = a mod d * b + e * b" for e by (rule distrib_right)
  from this [of "d * (a div d)"] show ?thesis unfolding mod_mult_div_eq by (simp only: ac_simps)
qed

lemma udiv64_small:
  assumes "drop_bit 32 d = 0" "d \<noteq> 0"
  shows "udiv64 n d = Some (n div d)"
proof -
  let ?n1 = "ucast (drop_bit 32 n) :: u32" and ?n0 = "ucast n :: u32" and ?d0 = "ucast d :: u32"
  let ?N1 = "unat ?n1" and ?N0 = "unat ?n0" and ?D = "unat ?d0"
  have dd: "unat d = ?D" using unat_halves [of d] assms(1) by simp
  then have d0: "?d0 \<noteq> 0" using assms(2) by (metis unat_eq_0)
  have D: "0 < ?D" using d0 by (simp add: unat_gt_0)
  have lt: "?N1 < 2 ^ 32" "?N0 < 2 ^ 32" using unsigned_less [of ?n1, where 'a = nat] unsigned_less [of ?n0, where 'a = nat] by simp_all
  have nn: "unat n = ?N1 * 2 ^ 32 + ?N0" using unat_halves [of n] unfolding unat_high unat_drop .
  have b: "unat (push_bit 32 1 :: u64) = 2 ^ 32" by simp
  let ?m = "push_bit 32 1 * ucast (?n1 mod ?d0) + ucast ?n0 :: u64"
  have md: "?N1 mod ?D < ?D" using D by simp
  have "?N1 mod ?D * 2 ^ 32 + ?N0 < 2 ^ 64"
  proof -
    have "?N1 mod ?D + 1 \<le> 2 ^ 32" using le_less_trans [OF mod_less_eq_dividend lt(1), of ?D] by simp
    then have "(?N1 mod ?D + 1) * 2 ^ 32 \<le> 2 ^ 32 * 2 ^ 32" by (rule mult_le_mono1)
    then show ?thesis using lt(2) by simp
  qed
  then have m: "unat ?m = ?N1 mod ?D * 2 ^ 32 + ?N0"
    by (simp add: unat_word_ariths unat_mod mult.commute)
  have "?N1 mod ?D * 2 ^ 32 + ?N0 < ?D * 2 ^ 32"
  proof -
    have "(?N1 mod ?D + 1) * 2 ^ 32 \<le> ?D * 2 ^ 32" using md by (intro mult_le_mono1) simp
    then show ?thesis using lt(2) by simp
  qed
  then have "unat ?m div ?D < 2 ^ 32" unfolding m using D by (simp add: div_less_iff_less_mult mult.commute)
  then obtain q where q: "divl ?m ?d0 = Some q" "unat q = unat ?m div ?D" using divl_Some [OF d0] by blast
  have e: "unat n div ?D = unat q + 2 ^ 32 * (?N1 div ?D)"
  proof -
    have "unat n = ?D * (2 ^ 32 * (?N1 div ?D)) + unat ?m"
      unfolding nn m using split_high [of ?N1 "2 ^ 32" ?D] by (simp only: ac_simps)
    then show ?thesis using q(2) D by simp
  qed
  have "unat (ucast q + push_bit 32 1 * ucast (?n1 div ?d0) :: u64) = unat n div ?D"
  proof -
    have "unat n div ?D < 2 ^ 64" using unsigned_less [of n, where 'a = nat] by (intro le_less_trans [OF div_le_dividend]) simp
    then show ?thesis unfolding e by (simp add: unat_word_ariths unat_div)
  qed
  then have "ucast q + push_bit 32 1 * ucast (?n1 div ?d0) = n div d"
    by (intro word_unat_eq_iff [THEN iffD2]) (simp add: unat_div dd)
  then show ?thesis using assms(1) d0 q(1) by (simp add: udiv64_def Let_def)
qed

text \<open>
  The normalized divisor: its top 32 bits \<open>v\<close>, moved back to their place, are the divisor rounded
  down, and the quotient by that is at most one too large.
\<close>

lemma quotient_estimate:
  fixes n d w k :: nat
  assumes n: "n < 2 ^ 64" and k: "1 \<le> k" "k \<le> 32" and w: "2 ^ (31 + k) \<le> w" "w \<le> d" "d < w + 2 ^ k"
  shows "n div d \<le> n div w" "n div w \<le> n div d + 1"
proof -
  have w0: "0 < w" using w(1) by (metis less_le_trans zero_less_numeral zero_less_power)
  show "n div d \<le> n div w" by (rule div_le_mono2 [OF w0 w(2)])
  let ?F = "n div d"
  have d0: "0 < d" using w0 w(2) by simp
  have "n < 2 ^ (33 - k) * 2 ^ (31 + k)" using n k by (simp flip: power_add)
  also have "\<dots> \<le> 2 ^ (33 - k) * d" using w(1,2) by (intro mult_le_mono2) simp
  finally have F: "?F + 1 \<le> 2 ^ (33 - k)" using d0 by (simp add: Suc_le_eq div_less_iff_less_mult)
  have dk: "d - w \<le> 2 ^ k - 1" using w(3) by simp
  have "(?F + 1) * (d - w) \<le> 2 ^ (33 - k) * (2 ^ k - 1)" by (rule mult_le_mono [OF F dk])
  also have "\<dots> = 2 ^ 33 - 2 ^ (33 - k)" using k by (simp add: diff_mult_distrib2 flip: power_add)
  also have "\<dots> \<le> 2 ^ (31 + k)"
  proof (cases "k = 1")
    case False
    then have "(2::nat) ^ 33 \<le> 2 ^ (31 + k)" using k by (intro power_increasing) auto
    then show ?thesis by simp
  qed simp
  finally have "(?F + 1) * (d - w) \<le> w" using w(1) by simp
  moreover have "(?F + 1) * d = (?F + 1) * (d - w) + (?F + 1) * w" using w(2) by (simp flip: distrib_left)
  ultimately have "(?F + 1) * d \<le> (?F + 2) * w" by simp
  moreover have "n < (?F + 1) * d" using dividend_less_times_div [OF d0, of n] by (simp add: mult.commute)
  ultimately have "n < (?F + 2) * w" by simp
  then show "n div w \<le> ?F + 1" using w0 by (simp add: div_less_iff_less_mult less_Suc_eq_le [symmetric])
qed

lemma udiv64_large:
  assumes h: "drop_bit 32 d \<noteq> 0" and nd: "d \<le> n"
  shows "udiv64 n d = Some (n div d)"
proof -
  let ?d1 = "ucast (drop_bit 32 d) :: u32"
  define s where "s = nlz ?d1"
  let ?v = "ucast (drop_bit 32 (push_bit s d)) :: u32"
  let ?D = "unat d" and ?N = "unat n"
  have dlt: "?D < 2 ^ 64" "?N < 2 ^ 64"
    using unsigned_less [of d, where 'a = nat] unsigned_less [of n, where 'a = nat] by simp_all
  have d1: "unat ?d1 = ?D div 2 ^ 32" by (rule unat_high)
  have d1n: "?d1 \<noteq> 0"
  proof
    assume "?d1 = 0"
    then have "unat (drop_bit 32 d) = 0" using d1 by (simp only: unat_drop unat_0)
    then show False using h by (simp only: unat_eq_0)
  qed
  have z: "2 ^ 31 \<le> unat ?d1 * 2 ^ s" "unat ?d1 * 2 ^ s < 2 ^ 32" using nlz_correct [OF d1n] by (simp_all add: s_def)
  have s31: "s \<le> 31"
  proof (rule ccontr)
    assume "\<not> s \<le> 31"
    then have "(2::nat) ^ 32 \<le> 2 ^ s" by (intro power_increasing) auto
    also have "\<dots> \<le> unat ?d1 * 2 ^ s" using d1n by (simp add: unat_gt_0 Suc_leI)
    finally show False using z(2) by simp
  qed
  have "?D < (unat ?d1 + 1) * 2 ^ 32" unfolding d1 using dividend_less_times_div [of "2 ^ 32" ?D] by (simp add: mult.commute)
  then have "?D * 2 ^ s < (unat ?d1 + 1) * 2 ^ 32 * 2 ^ s" by simp
  also have "\<dots> = (unat ?d1 * 2 ^ s + 2 ^ s) * 2 ^ 32" by (simp add: algebra_simps)
  also have "\<dots> \<le> 2 ^ 32 * 2 ^ 32"
  proof (rule mult_le_mono1)
    have "2 ^ s dvd (unat ?d1 * 2 ^ s)" by simp
    moreover have "(2::nat) ^ s dvd 2 ^ 32" by (rule le_imp_power_dvd) (use s31 in simp)
    ultimately obtain a b where ab: "unat ?d1 * 2 ^ s = 2 ^ s * a" "(2::nat) ^ 32 = 2 ^ s * b" unfolding dvd_def by blast
    have "a < b"
    proof (rule ccontr)
      assume "\<not> a < b"
      then have "2 ^ s * b \<le> 2 ^ s * a" by (intro mult_le_mono2) simp
      then show False using z(2) unfolding ab by simp
    qed
    then have "2 ^ s * (a + 1) \<le> 2 ^ s * b" by (intro mult_le_mono2) simp
    then show "unat ?d1 * 2 ^ s + 2 ^ s \<le> 2 ^ 32" unfolding ab by simp
  qed
  finally have ds: "?D * 2 ^ s < 2 ^ 64" by simp
  have us: "unat (push_bit s d) = ?D * 2 ^ s" by (rule unat_push) (use ds in simp)
  have v: "unat ?v = ?D * 2 ^ s div 2 ^ 32" unfolding unat_high us by simp
  define k where "k = 32 - s"
  have k: "1 \<le> k" "k \<le> 32" using s31 by (auto simp: k_def)
  have ps: "(2::nat) ^ 32 = 2 ^ k * 2 ^ s" using s31 by (simp add: k_def flip: power_add)
  have vk: "unat ?v = ?D div 2 ^ k" unfolding v ps by simp
  have v31: "2 ^ 31 \<le> unat ?v"
  proof -
    have "unat ?d1 * 2 ^ s * 2 ^ 32 \<le> ?D * 2 ^ s" unfolding d1 using div_times_less_eq_dividend [of ?D "2 ^ 32"]
      by (metis mult.assoc mult.commute mult_le_mono1)
    then have "unat ?d1 * 2 ^ s \<le> unat ?v" unfolding v by (simp add: less_eq_div_iff_mult_less_eq)
    then show ?thesis using z(1) by simp
  qed
  let ?w = "unat ?v * 2 ^ k"
  have w: "2 ^ (31 + k) \<le> ?w" "?w \<le> ?D" "?D < ?w + 2 ^ k"
    using v31 div_times_less_eq_dividend [of ?D "2 ^ k"] dividend_less_div_times [of "2 ^ k" ?D]
    by (simp_all add: power_add vk)
  note Q = quotient_estimate [OF dlt(2) k w]
  have v0: "?v \<noteq> 0"
  proof
    assume "?v = 0"
    then show False using v31 by simp
  qed
  have h1: "unat (drop_bit 1 n) = ?N div 2" using unat_drop [of 1 n] by simp
  have "?N div 2 < 2 ^ 32 * unat ?v"
  proof -
    have "?N div 2 < 2 ^ 32 * 2 ^ 31" using dlt(2) by simp
    also have "\<dots> \<le> 2 ^ 32 * unat ?v" using v31 by (intro mult_le_mono2)
    finally show ?thesis .
  qed
  then have "unat (drop_bit 1 n) div unat ?v < 2 ^ 32"
    unfolding h1 using v31 by (simp add: div_less_iff_less_mult)
  then obtain q where q: "divl (drop_bit 1 n) ?v = Some q" "unat q = ?N div 2 div unat ?v"
    using divl_Some [OF v0, of "drop_bit 1 n"] unfolding h1 by blast
  let ?q = "ucast (drop_bit (31 - s) q) :: u64"
  have k1: "2 ^ k = 2 * (2::nat) ^ (31 - s)" using s31 by (simp add: k_def Suc_diff_le flip: power_Suc)
  have uq: "unat ?q = ?N div ?w"
    unfolding unat_up unat_drop q(2) k1 by (simp add: div_mult2_eq [symmetric] ac_simps)
  have w0: "0 < ?w" "0 < ?D" using w(1,2) by (metis less_le_trans zero_less_numeral zero_less_power)+
  have DN: "?D \<le> ?N" using nd by (simp add: word_le_nat_alt)
  then have F1: "1 \<le> ?N div ?D" using w0 by (simp add: less_eq_div_iff_mult_less_eq)
  have q1: "unat (?q - 1) = ?N div ?w - 1"
  proof -
    have "?q \<noteq> 0" using uq Q(1) F1 by (metis unat_0 le_zero_eq not_one_le_zero order_trans)
    then show ?thesis using uq by (simp add: unat_minus_one)
  qed
  have le: "(?N div ?w - 1) * ?D \<le> ?N"
  proof -
    have "?N div ?w - 1 \<le> ?N div ?D" using Q(2) by simp
    then have "(?N div ?w - 1) * ?D \<le> ?N div ?D * ?D" by (rule mult_le_mono1)
    then show ?thesis using div_times_less_eq_dividend [of ?N ?D] by (rule le_trans)
  qed
  have um: "unat ((?q - 1) * d) = (?N div ?w - 1) * ?D"
    using le dlt(2) unat_mult_lem [of "?q - 1" d] q1 by simp
  have us2: "unat (n - (?q - 1) * d) = ?N - (?N div ?w - 1) * ?D"
    using le um by (simp add: unat_sub word_le_nat_alt)
  have "(if n - (?q - 1) * d < d then ?q - 1 else ?q) = n div d"
  proof (cases "?N div ?w = ?N div ?D")
    case True
    obtain F where F: "?N div ?D = Suc F" using F1 by (cases "?N div ?D") simp_all
    have "F * ?D + ?D = ?N div ?D * ?D" unfolding F by (simp only: mult_Suc add.commute)
    also have "\<dots> \<le> ?N" by (rule div_times_less_eq_dividend)
    finally have "?D \<le> ?N - (?N div ?D - 1) * ?D" unfolding F by simp
    then have "\<not> n - (?q - 1) * d < d" using us2 True by (simp add: word_less_nat_alt)
    then show ?thesis using uq True by (simp add: word_unat_eq_iff unat_div)
  next
    case False
    then have e: "?N div ?w - 1 = ?N div ?D" using Q by simp
    then have "?N - (?N div ?w - 1) * ?D = ?N mod ?D" by (simp add: minus_div_mult_eq_mod)
    then have "n - (?q - 1) * d < d" using us2 w0 by (simp add: word_less_nat_alt)
    then show ?thesis using q1 e by (simp add: word_unat_eq_iff unat_div)
  qed
  then show ?thesis
    using h nd q(1) leD [OF nd] unfolding udiv64_def Let_def s_def [symmetric] by simp
qed


lemma udiv64_correct:
  assumes "d \<noteq> 0"
  shows "udiv64 n d = Some (n div d)"
proof -
  consider "drop_bit 32 d = 0" | "drop_bit 32 d \<noteq> 0" "n < d" | "drop_bit 32 d \<noteq> 0" "d \<le> n" by fastforce
  then show ?thesis
  proof cases
    case 1 then show ?thesis using udiv64_small assms by simp
  next
    case 2
    then have "n div d = 0" by (simp add: word_unat_eq_iff unat_div word_less_nat_alt)
    then show ?thesis using 2 by (simp add: udiv64_def)
  next
    case 3 then show ?thesis using udiv64_large by simp
  qed
qed

lemma udiv64_zero: "udiv64 n 0 = None"
  by (simp add: udiv64_def)

section \<open>Signed division\<close>

text \<open>The magnitude of \<^verbatim>\<open>INT64_MIN\<close> is \<open>2 ^ 63\<close>, which \<open>abs64\<close> keeps as an unsigned number.\<close>

lemma sint_bounds: "- (2 ^ 63) \<le> sint n" "sint n < 2 ^ 63" for n :: u64
  using sint_greater_eq [of n] sint_less [of n] by simp_all

lemma sint_uint64: "sint n = (if 2 ^ 63 \<le> uint n then uint n - 2 ^ 64 else uint n)" for n :: u64
proof -
  have u: "0 \<le> uint n" "uint n < 2 ^ 64" using uint_lt2p [of n] by simp_all
  have "sint n = take_bit 64 (uint n) - 2 ^ 64 * of_bool (bit (uint n) 63)"
    by (simp add: sint_uint signed_take_bit_eq_take_bit_minus)
  also have "take_bit 64 (uint n) = uint n" using u by (rule take_bit_int_eq_self)
  finally show ?thesis using sint_bounds [of n] u by (cases "bit (uint n) 63") simp_all
qed

lemma abs_sint: "\<bar>sint n\<bar> = (if 2 ^ 63 \<le> uint n then 2 ^ 64 - uint n else uint n)" for n :: u64
  using sint_uint64 [of n] uint_lt2p [of n] by simp

lemma uint_minus64: "uint (- n) = (if n = 0 then 0 else 2 ^ 64 - uint n)" for n :: u64
proof -
  have "uint n < 2 ^ 64" using uint_lt2p [of n] by simp
  then show ?thesis by (simp add: uint_word_ariths zmod_zminus1_eq_if uint_0_iff)
qed

lemma uint_abs64: "uint (abs64 n) = \<bar>sint n\<bar>"
  using uint_lt2p [of n] by (auto simp: abs64_def abs_sint uint_minus64 sint_uint64 split: if_splits)

lemma abs64_eq_0 [simp]: "abs64 n = 0 \<longleftrightarrow> n = 0"
  by (simp add: abs64_def)

lemma sdiv64_correct:
  assumes "d \<noteq> 0"
  shows "sdiv64 n d = Some (word_of_int (sint n sdiv sint d))"
proof -
  have "word_of_int (\<bar>sint n\<bar> div \<bar>sint d\<bar>) = abs64 n div abs64 d"
    by (simp add: word_div_def uint_abs64)
  moreover have "sint n sdiv sint d = (if (sint n < 0) = (sint d < 0) then 1 else - 1) * (\<bar>sint n\<bar> div \<bar>sint d\<bar>)"
    by (cases "sint n" "0 :: int" rule: linorder_cases; cases "sint d" "0 :: int" rule: linorder_cases)
      (simp_all add: signed_divide_int_def)
  ultimately show ?thesis using assms by (simp add: sdiv64_def udiv64_correct)
qed

section \<open>The entry points that GCC calls\<close>

lemma umod64_correct:
  assumes "d \<noteq> 0"
  shows "umod64 n d = Some (ucast (n mod d))"
  using assms by (simp add: umod64_def udiv64_correct minus_mult_div_eq_mod)

lemma smod64_correct:
  assumes "d \<noteq> 0"
  shows "smod64 n d = Some (ucast (word_of_int (sint n smod sint d) :: u64))"
proof -
  have "word_of_int (sint n smod sint d) = word_of_int (sint n) - word_of_int (sint d) * (word_of_int (sint n sdiv sint d) :: u64)"
    by (simp only: minus_mult_sdiv_eq_smod [symmetric] of_int_diff of_int_mult)
  then show ?thesis using assms by (simp add: smod64_def sdiv64_correct)
qed

text \<open>C20: The unsigned 64-bit division of the kernel, built from the 64-by-32-bit divide instruction,
  never traps for a divisor other than 0 and yields the quotient; the remainder comes out reduced
  to its low 32 bits.\<close>

theorem unsigned_division:
  assumes "d \<noteq> 0"
  shows "udivdi3 n d = Some (n div d) \<and> umoddi3 n d = Some (take_bit 32 (n mod d))"
  using assms by (auto simp: udivdi3_def umoddi3_def udiv64_correct umod64_correct bit_simps intro!: bit_word_eqI)

theorem unsigned_division_witness:
  "udivdi3 0x123456789ABCDEF0 0x1234567890 = Some 0x1000000 \<and> umoddi3 0x123456789ABCDEF0 0x1234567890 = Some 0xABCDEF0"
  using unsigned_division [of "0x1234567890" "0x123456789ABCDEF0"] by simp



text \<open>A remainder that needs more than 32 bits is lost.\<close>

theorem umod_truncates: "umoddi3 0x200000000 0x400000000 = Some 0"
  using umod64_correct [of "0x400000000" "0x200000000"] by (simp add: umoddi3_def)

end
