(* ===== verification/Bitmap.thy ===== *)
theory Bitmap
  imports Prelude
begin

text \<open>
  The bitmap of \<^verbatim>\<open>lib/kernel/bitmap.c\<close>: a bit count and an array of 32-bit elements,
  refining a list of truth values.  An access outside the element array and a failed
  \<^verbatim>\<open>ASSERT\<close> are \<open>None\<close>.  The file operations are with the file system.
\<close>

section \<open>The operations\<close>

definition ELEM_BITS :: u32 where
  "ELEM_BITS = 32"

record bitmap =
  bit_cnt :: u32
  bits :: "u32 list"

definition ROUND_UP :: "u32 \<Rightarrow> u32 \<Rightarrow> u32" where
  "ROUND_UP x s = (x + s - 1) div s * s"

definition DIV_ROUND_UP :: "u32 \<Rightarrow> u32 \<Rightarrow> u32" where
  "DIV_ROUND_UP x s = (x + s - 1) div s"

definition elem_idx :: "u32 \<Rightarrow> u32" where
  "elem_idx bit_idx = bit_idx div ELEM_BITS"

definition bit_mask :: "u32 \<Rightarrow> u32" where
  "bit_mask bit_idx = push_bit (unat (bit_idx mod ELEM_BITS)) 1"

definition elem_cnt :: "u32 \<Rightarrow> u32" where
  "elem_cnt cnt = DIV_ROUND_UP cnt ELEM_BITS"

definition byte_cnt :: "u32 \<Rightarrow> u32" where
  "byte_cnt cnt = 4 * elem_cnt cnt"

definition last_mask :: "bitmap \<Rightarrow> u32" where
  "last_mask b =
     (let last_bits = bit_cnt b mod ELEM_BITS
      in if last_bits \<noteq> 0 then push_bit (unat last_bits) 1 - 1 else - 1)"

definition bitmap_size :: "bitmap \<Rightarrow> u32" where
  "bitmap_size b = bit_cnt b"

text \<open>An element is read and written in place.\<close>

definition elem_upd :: "(u32 \<Rightarrow> u32) \<Rightarrow> u32 \<Rightarrow> bitmap \<Rightarrow> bitmap option" where
  "elem_upd f idx b = do {
     chk (unat idx < length (bits b));
     Some (b\<lparr>bits := (bits b)[unat idx := f (bits b ! unat idx)]\<rparr>) }"

definition bitmap_mark :: "bitmap \<Rightarrow> u32 \<Rightarrow> bitmap option" where
  "bitmap_mark b bit_idx = elem_upd (\<lambda>e. e OR bit_mask bit_idx) (elem_idx bit_idx) b"

definition bitmap_reset :: "bitmap \<Rightarrow> u32 \<Rightarrow> bitmap option" where
  "bitmap_reset b bit_idx = elem_upd (\<lambda>e. e AND NOT (bit_mask bit_idx)) (elem_idx bit_idx) b"

definition bitmap_flip :: "bitmap \<Rightarrow> u32 \<Rightarrow> bitmap option" where
  "bitmap_flip b bit_idx = elem_upd (\<lambda>e. e XOR bit_mask bit_idx) (elem_idx bit_idx) b"

definition bitmap_set :: "bitmap \<Rightarrow> u32 \<Rightarrow> bool \<Rightarrow> bitmap option" where
  "bitmap_set b idx v = do {
     chk (idx < bit_cnt b);
     if v then bitmap_mark b idx else bitmap_reset b idx }"

definition bitmap_test :: "bitmap \<Rightarrow> u32 \<Rightarrow> bool option" where
  "bitmap_test b idx = do {
     chk (idx < bit_cnt b);
     chk (unat (elem_idx idx) < length (bits b));
     Some (bits b ! unat (elem_idx idx) AND bit_mask idx \<noteq> 0) }"

text \<open>The counting loops: \<open>n\<close> iterations are left and \<open>i\<close> is the next bit, \<open>start + i\<close> in C.\<close>

primrec set_loop :: "nat \<Rightarrow> u32 \<Rightarrow> bool \<Rightarrow> bitmap \<Rightarrow> bitmap option" where
  "set_loop 0 i v b = Some b" |
  "set_loop (Suc n) i v b = do { b \<leftarrow> bitmap_set b i v; set_loop n (i + 1) v b }"

definition bitmap_set_multiple :: "bitmap \<Rightarrow> u32 \<Rightarrow> u32 \<Rightarrow> bool \<Rightarrow> bitmap option" where
  "bitmap_set_multiple b start cnt v = do {
     chk (start \<le> bit_cnt b);
     chk (start + cnt \<le> bit_cnt b);
     set_loop (unat cnt) start v b }"

definition bitmap_set_all :: "bitmap \<Rightarrow> bool \<Rightarrow> bitmap option" where
  "bitmap_set_all b v = bitmap_set_multiple b 0 (bitmap_size b) v"

primrec count_loop :: "nat \<Rightarrow> u32 \<Rightarrow> bool \<Rightarrow> u32 \<Rightarrow> bitmap \<Rightarrow> u32 option" where
  "count_loop 0 i v value_cnt b = Some value_cnt" |
  "count_loop (Suc n) i v value_cnt b = do {
     t \<leftarrow> bitmap_test b i;
     count_loop n (i + 1) v (if t = v then value_cnt + 1 else value_cnt) b }"

definition bitmap_count :: "bitmap \<Rightarrow> u32 \<Rightarrow> u32 \<Rightarrow> bool \<Rightarrow> u32 option" where
  "bitmap_count b start cnt v = do {
     chk (start \<le> bit_cnt b);
     chk (start + cnt \<le> bit_cnt b);
     count_loop (unat cnt) start v 0 b }"

primrec contains_loop :: "nat \<Rightarrow> u32 \<Rightarrow> bool \<Rightarrow> bitmap \<Rightarrow> bool option" where
  "contains_loop 0 i v b = Some False" |
  "contains_loop (Suc n) i v b = do {
     t \<leftarrow> bitmap_test b i;
     if t = v then Some True else contains_loop n (i + 1) v b }"

definition bitmap_contains :: "bitmap \<Rightarrow> u32 \<Rightarrow> u32 \<Rightarrow> bool \<Rightarrow> bool option" where
  "bitmap_contains b start cnt v = do {
     chk (start \<le> bit_cnt b);
     chk (start + cnt \<le> bit_cnt b);
     contains_loop (unat cnt) start v b }"

definition bitmap_any :: "bitmap \<Rightarrow> u32 \<Rightarrow> u32 \<Rightarrow> bool option" where
  "bitmap_any b start cnt = bitmap_contains b start cnt True"

definition bitmap_none :: "bitmap \<Rightarrow> u32 \<Rightarrow> u32 \<Rightarrow> bool option" where
  "bitmap_none b start cnt = map_option Not (bitmap_contains b start cnt True)"

definition bitmap_all :: "bitmap \<Rightarrow> u32 \<Rightarrow> u32 \<Rightarrow> bool option" where
  "bitmap_all b start cnt = map_option Not (bitmap_contains b start cnt False)"

definition BITMAP_ERROR :: u32 where
  "BITMAP_ERROR = - 1"

text \<open>The search loop of \<^verbatim>\<open>bitmap_scan\<close>: \<open>n\<close> start positions are left.\<close>

primrec scan_loop :: "nat \<Rightarrow> u32 \<Rightarrow> u32 \<Rightarrow> bool \<Rightarrow> bitmap \<Rightarrow> u32 option" where
  "scan_loop 0 i cnt v b = Some BITMAP_ERROR" |
  "scan_loop (Suc n) i cnt v b = do {
     c \<leftarrow> bitmap_contains b i cnt (\<not> v);
     if \<not> c then Some i else scan_loop n (i + 1) cnt v b }"

definition bitmap_scan :: "bitmap \<Rightarrow> u32 \<Rightarrow> u32 \<Rightarrow> bool \<Rightarrow> u32 option" where
  "bitmap_scan b start cnt v = do {
     chk (start \<le> bit_cnt b);
     if cnt \<le> bit_cnt b
     then (let last = bit_cnt b - cnt in scan_loop (Suc (unat last) - unat start) start cnt v b)
     else Some BITMAP_ERROR }"

definition bitmap_scan_and_flip :: "bitmap \<Rightarrow> u32 \<Rightarrow> u32 \<Rightarrow> bool \<Rightarrow> (u32 \<times> bitmap) option" where
  "bitmap_scan_and_flip b start cnt v = do {
     idx \<leftarrow> bitmap_scan b start cnt v;
     if idx \<noteq> BITMAP_ERROR
     then do { b \<leftarrow> bitmap_set_multiple b idx cnt (\<not> v); Some (idx, b) }
     else Some (idx, b) }"

text \<open>
  Creation: \<open>hdr\<close> tells whether \<^verbatim>\<open>malloc\<close> found room for the structure and \<open>alloc n\<close> is what
  it returns for \<open>n\<close> bytes of elements, with whatever contents they have.  The result is a null
  pointer (\<open>None\<close> inside) or the new bitmap.
\<close>

definition bitmap_create :: "bool \<Rightarrow> (u32 \<Rightarrow> u32 list option) \<Rightarrow> u32 \<Rightarrow> bitmap option option" where
  "bitmap_create hdr alloc cnt =
     (if hdr
      then (let store = alloc (byte_cnt cnt)
            in if store \<noteq> None \<or> cnt = 0
               then map_option Some
                 (bitmap_set_all \<lparr>bit_cnt = cnt, bits = (case store of Some e \<Rightarrow> e | None \<Rightarrow> [])\<rparr> False)
               else Some None)
      else Some None)"

text \<open>The structure itself takes 8 bytes; the rest of the block holds the elements.\<close>

definition bitmap_buf_size :: "u32 \<Rightarrow> u32" where
  "bitmap_buf_size cnt = 8 + byte_cnt cnt"

definition bitmap_create_in_buf :: "u32 \<Rightarrow> u32 list \<Rightarrow> u32 \<Rightarrow> bitmap option" where
  "bitmap_create_in_buf cnt block block_size = do {
     chk (bitmap_buf_size cnt \<le> block_size);
     bitmap_set_all \<lparr>bit_cnt = cnt, bits = drop 2 block\<rparr> False }"

definition bitmap_file_size :: "bitmap \<Rightarrow> u32" where
  "bitmap_file_size b = byte_cnt (bit_cnt b)"

section \<open>The list of truth values it stands for\<close>

definition bit_at :: "bitmap \<Rightarrow> nat \<Rightarrow> bool" where
  "bit_at b i = bit (bits b ! (i div 32)) (i mod 32)"

definition bm_abs :: "bitmap \<Rightarrow> bool list" where
  "bm_abs b = map (bit_at b) [0..<unat (bit_cnt b)]"

text \<open>Enough elements; at most \<open>2 ^ 32 - 32\<close> bits keep \<open>start + i\<close> and the rounding in range.\<close>

definition bm_ok :: "bitmap \<Rightarrow> bool" where
  "bm_ok b \<longleftrightarrow> unat (bit_cnt b) \<le> 32 * length (bits b)"

lemma length_bm_abs [simp]: "length (bm_abs b) = unat (bit_cnt b)"
  by (simp add: bm_abs_def)

lemma nth_bm_abs [simp]: "i < unat (bit_cnt b) \<Longrightarrow> bm_abs b ! i = bit_at b i"
  by (simp add: bm_abs_def)

lemma unat_elem_idx [simp]: "unat (elem_idx i) = unat i div 32"
  by (simp add: elem_idx_def ELEM_BITS_def unat_div)

lemma bit_mask_push: "bit_mask i = push_bit (unat i mod 32) 1"
  by (simp add: bit_mask_def ELEM_BITS_def unat_mod)

lemma bit_bit_mask [simp]: "bit (bit_mask i) j \<longleftrightarrow> j = unat i mod 32"
  by (auto simp: bit_mask_push bit_simps)

lemma idx_ok: "bm_ok b \<Longrightarrow> i < unat (bit_cnt b) \<Longrightarrow> i div 32 < length (bits b)"
  by (auto simp: bm_ok_def)

lemma bitmap_test_ok:
  assumes "bm_ok b"
  shows "bitmap_test b i = (if unat i < unat (bit_cnt b) then Some (bm_abs b ! unat i) else None)"
  using assms idx_ok [of b "unat i"]
  by (auto simp: bitmap_test_def word_less_nat_alt bit_mask_push bit_at_def bit_iff_and_push_bit_not_eq_0)

text \<open>Changing one bit of one element changes one entry of the list.\<close>

lemma elem_upd_ok:
  assumes ok: "bm_ok b" and i: "unat i < unat (bit_cnt b)"
    and f: "\<And>e j. j < 32 \<Longrightarrow> bit (f e) j = (if j = unat i mod 32 then g (bit e j) else bit e j)"
  shows "\<exists>b'. elem_upd f (elem_idx i) b = Some b' \<and> bm_ok b' \<and> bit_cnt b' = bit_cnt b \<and>
    length (bits b') = length (bits b) \<and> bm_abs b' = (bm_abs b)[unat i := g (bm_abs b ! unat i)]"
proof -
  let ?b = "b\<lparr>bits := (bits b)[unat i div 32 := f (bits b ! (unat i div 32))]\<rparr>"
  have at: "bit_at ?b j = (if j = unat i then g (bit_at b j) else bit_at b j)" if "j < unat (bit_cnt b)" for j
  proof (cases "j div 32 = unat i div 32")
    case True
    then have "(j = unat i) = (j mod 32 = unat i mod 32)" by (metis mult_div_mod_eq)
    then show ?thesis using True idx_ok [OF ok i] f [of "j mod 32"] by (simp add: bit_at_def)
  next
    case False
    then show ?thesis by (auto simp: bit_at_def)
  qed
  have "bm_abs ?b = (bm_abs b)[unat i := g (bm_abs b ! unat i)]"
    by (rule nth_equalityI) (use i at in \<open>auto simp: nth_list_update\<close>)
  then show ?thesis using ok idx_ok [OF ok i] by (auto simp: elem_upd_def bm_ok_def)
qed

definition same_frame :: "bitmap \<Rightarrow> bitmap \<Rightarrow> bool" where
  "same_frame b b' \<longleftrightarrow> bm_ok b' \<and> bit_cnt b' = bit_cnt b \<and> length (bits b') = length (bits b)"

lemma bitmap_mark_ok:
  "bm_ok b \<Longrightarrow> unat i < unat (bit_cnt b) \<Longrightarrow>
   \<exists>b'. bitmap_mark b i = Some b' \<and> same_frame b b' \<and> bm_abs b' = (bm_abs b)[unat i := True]"
  using elem_upd_ok [of b i "\<lambda>e. e OR bit_mask i" "\<lambda>_. True"]
  by (auto simp: bitmap_mark_def bit_simps same_frame_def)

lemma bitmap_reset_ok:
  "bm_ok b \<Longrightarrow> unat i < unat (bit_cnt b) \<Longrightarrow>
   \<exists>b'. bitmap_reset b i = Some b' \<and> same_frame b b' \<and> bm_abs b' = (bm_abs b)[unat i := False]"
  using elem_upd_ok [of b i "\<lambda>e. e AND NOT (bit_mask i)" "\<lambda>_. False"]
  by (auto simp: bitmap_reset_def bit_simps same_frame_def)

lemma bitmap_flip_ok:
  "bm_ok b \<Longrightarrow> unat i < unat (bit_cnt b) \<Longrightarrow>
   \<exists>b'. bitmap_flip b i = Some b' \<and> same_frame b b' \<and> bm_abs b' = (bm_abs b)[unat i := \<not> bm_abs b ! unat i]"
  using elem_upd_ok [of b i "\<lambda>e. e XOR bit_mask i" Not]
  by (auto simp: bitmap_flip_def bit_simps same_frame_def)

lemma bitmap_set_ok:
  assumes "bm_ok b"
  shows "if unat i < unat (bit_cnt b)
    then \<exists>b'. bitmap_set b i v = Some b' \<and> same_frame b b' \<and> bm_abs b' = (bm_abs b)[unat i := v]
    else bitmap_set b i v = None"
  using bitmap_mark_ok [OF assms, of i] bitmap_reset_ok [OF assms, of i]
  by (cases v) (auto simp: bitmap_set_def word_less_nat_alt)

section \<open>Ranges of bits\<close>

lemma unat_inc: "unat i < unat c \<Longrightarrow> unat (i + 1) = Suc (unat i)" for i c :: u32
  using unsigned_less [of c, where 'a = nat] by (simp add: unat_word_ariths)

definition is_run :: "bool \<Rightarrow> bool list \<Rightarrow> nat \<Rightarrow> nat \<Rightarrow> bool" where
  "is_run v xs i n \<longleftrightarrow> i + n \<le> length xs \<and> (\<forall>k<n. xs ! (i + k) = v)"

lemma range_checks:
  fixes s n c :: u32
  assumes "unat s + unat n \<le> unat c"
  shows "s \<le> c" "s + n \<le> c" "unat (s + n) = unat s + unat n"
proof -
  have "unat c < 2 ^ 32" using unsigned_less [of c, where 'a = nat] by simp
  then show *: "unat (s + n) = unat s + unat n" using assms by (simp add: unat_word_ariths)
  show "s \<le> c" "s + n \<le> c" using assms * by (simp_all add: word_le_nat_alt)
qed

lemma set_loop_ok:
  "bm_ok b \<Longrightarrow> unat i + n \<le> unat (bit_cnt b) \<Longrightarrow>
   \<exists>b'. set_loop n i v b = Some b' \<and> same_frame b b' \<and>
     bm_abs b' = take (unat i) (bm_abs b) @ replicate n v @ drop (unat i + n) (bm_abs b)"
proof (induction n arbitrary: i b)
  case 0 then show ?case by (simp add: same_frame_def)
next
  case (Suc n)
  then have i: "unat i < unat (bit_cnt b)" by simp
  then obtain b1 where b1: "bitmap_set b i v = Some b1" "same_frame b b1" "bm_abs b1 = (bm_abs b)[unat i := v]"
    using bitmap_set_ok [OF Suc.prems(1), of i v] by auto
  have i1: "unat (i + 1) = Suc (unat i)" by (rule unat_inc [OF i])
  obtain b2 where b2: "set_loop n (i + 1) v b1 = Some b2" "same_frame b1 b2"
    "bm_abs b2 = take (Suc (unat i)) (bm_abs b1) @ replicate n v @ drop (Suc (unat i) + n) (bm_abs b1)"
    using Suc.IH [of b1 "i + 1"] Suc.prems b1(2) i1 by (auto simp: same_frame_def)
  have "bm_abs b2 = take (unat i) (bm_abs b) @ replicate (Suc n) v @ drop (unat i + Suc n) (bm_abs b)"
    using i by (simp add: b2(3) b1(3) take_Suc_conv_app_nth)
  then show ?case using b1 b2 by (auto simp: same_frame_def)
qed

lemma set_loop_stops:
  "bm_ok b \<Longrightarrow> unat i \<le> unat (bit_cnt b) \<Longrightarrow> unat (bit_cnt b) < unat i + n \<Longrightarrow> set_loop n i v b = None"
proof (induction n arbitrary: i b)
  case (Suc n)
  show ?case
  proof (cases "unat i < unat (bit_cnt b)")
    case True
    then obtain b1 where b1: "bitmap_set b i v = Some b1" "same_frame b b1"
      using bitmap_set_ok [OF Suc.prems(1), of i v] by auto
    then show ?thesis using Suc.IH [of b1 "i + 1"] Suc.prems unat_inc [OF True] True by (simp add: same_frame_def)
  next
    case False
    then show ?thesis using bitmap_set_ok [OF Suc.prems(1), of i v] by simp
  qed
qed simp

text \<open>Setting a range: exactly the bits of the range change, and a range out of bounds stops the kernel.\<close>

lemma bitmap_set_multiple_ok:
  assumes "bm_ok b"
  shows "if unat start + unat cnt \<le> unat (bit_cnt b)
    then \<exists>b'. bitmap_set_multiple b start cnt v = Some b' \<and> same_frame b b' \<and>
      bm_abs b' = take (unat start) (bm_abs b) @ replicate (unat cnt) v @ drop (unat start + unat cnt) (bm_abs b)
    else bitmap_set_multiple b start cnt v = None"
proof (cases "unat start + unat cnt \<le> unat (bit_cnt b)")
  case True
  then show ?thesis using set_loop_ok [OF assms True] range_checks [OF True] by (simp add: bitmap_set_multiple_def)
next
  case False
  then show ?thesis using set_loop_stops [OF assms, of start "unat cnt" v]
    by (auto simp: bitmap_set_multiple_def word_le_nat_alt)
qed

lemma bitmap_set_all_ok:
  "bm_ok b \<Longrightarrow> \<exists>b'. bitmap_set_all b v = Some b' \<and> same_frame b b' \<and> bm_abs b' = replicate (unat (bit_cnt b)) v"
  using bitmap_set_multiple_ok [of b 0 "bit_cnt b" v] by (simp add: bitmap_set_all_def bitmap_size_def)

lemma contains_loop_ok:
  "bm_ok b \<Longrightarrow> unat i + n \<le> unat (bit_cnt b) \<Longrightarrow>
   contains_loop n i v b = Some (\<exists>k<n. bm_abs b ! (unat i + k) = v)"
proof (induction n arbitrary: i)
  case (Suc n)
  then have i: "unat i < unat (bit_cnt b)" by simp
  have "(\<exists>k<Suc n. bm_abs b ! (unat i + k) = v) \<longleftrightarrow>
    bm_abs b ! unat i = v \<or> (\<exists>k<n. bm_abs b ! (Suc (unat i) + k) = v)"
    unfolding Ex_less_Suc2 by simp
  then show ?case using Suc.IH [of "i + 1"] Suc.prems i unat_inc [OF i] by (simp add: bitmap_test_ok)
qed simp

lemma bitmap_contains_ok:
  "bm_ok b \<Longrightarrow> unat start + unat cnt \<le> unat (bit_cnt b) \<Longrightarrow>
   bitmap_contains b start cnt v = Some (\<exists>k<unat cnt. bm_abs b ! (unat start + k) = v)"
  by (simp add: bitmap_contains_def contains_loop_ok range_checks)

lemma bitmap_queries_ok:
  assumes "bm_ok b" "unat start + unat cnt \<le> unat (bit_cnt b)"
  shows "bitmap_any b start cnt = Some (\<not> is_run False (bm_abs b) (unat start) (unat cnt))"
    "bitmap_none b start cnt = Some (is_run False (bm_abs b) (unat start) (unat cnt))"
    "bitmap_all b start cnt = Some (is_run True (bm_abs b) (unat start) (unat cnt))"
  using assms by (auto simp: bitmap_any_def bitmap_none_def bitmap_all_def bitmap_contains_ok is_run_def)

lemma count_loop_ok:
  "bm_ok b \<Longrightarrow> unat i + n \<le> unat (bit_cnt b) \<Longrightarrow>
   count_loop n i v acc b = Some (acc + of_nat (count_list (take n (drop (unat i) (bm_abs b))) v))"
proof (induction n arbitrary: i acc)
  case (Suc n)
  then have i: "unat i < unat (bit_cnt b)" by simp
  then have "drop (unat i) (bm_abs b) = bm_abs b ! unat i # drop (Suc (unat i)) (bm_abs b)"
    by (metis Cons_nth_drop_Suc length_bm_abs)
  then show ?case using Suc.IH [of "i + 1"] Suc.prems i unat_inc [OF i] by (simp add: bitmap_test_ok)
qed simp

lemma bitmap_count_ok:
  assumes "bm_ok b" "unat start + unat cnt \<le> unat (bit_cnt b)"
  shows "\<exists>r. bitmap_count b start cnt v = Some r \<and>
    unat r = count_list (take (unat cnt) (drop (unat start) (bm_abs b))) v"
proof -
  have "count_list (take (unat cnt) (drop (unat start) (bm_abs b))) v \<le> unat cnt"
    using count_le_length [of "take (unat cnt) (drop (unat start) (bm_abs b))" v] by simp
  then have "count_list (take (unat cnt) (drop (unat start) (bm_abs b))) v < 2 ^ 32"
    using unsigned_less [of cnt, where 'a = nat] by simp
  then show ?thesis using assms
    by (simp add: bitmap_count_def count_loop_ok range_checks unat_of_nat take_bit_nat_eq_self)
qed

section \<open>Searching\<close>

lemma scan_loop_ok:
  "bm_ok b \<Longrightarrow> unat i + n + unat cnt \<le> Suc (unat (bit_cnt b)) \<Longrightarrow>
   \<exists>r. scan_loop n i cnt v b = Some r \<and>
     (r = BITMAP_ERROR \<and> (\<forall>k<n. \<not> is_run v (bm_abs b) (unat i + k) (unat cnt)) \<or>
      (\<exists>k<n. unat r = unat i + k \<and> is_run v (bm_abs b) (unat r) (unat cnt) \<and>
        (\<forall>j<k. \<not> is_run v (bm_abs b) (unat i + j) (unat cnt))))"
proof (induction n arbitrary: i)
  case (Suc n)
  then have c: "bitmap_contains b i cnt (\<not> v) = Some (\<not> is_run v (bm_abs b) (unat i) (unat cnt))"
    by (auto simp: bitmap_contains_ok is_run_def)
  show ?case
  proof (cases "is_run v (bm_abs b) (unat i) (unat cnt)")
    case True
    then show ?thesis using c by auto
  next
    case False
    show ?thesis
    proof (cases "n = 0")
      case True then show ?thesis using c False by simp
    next
      case n: False
      then have i: "unat i < unat (bit_cnt b)" using Suc.prems by simp
      have i1: "unat (i + 1) = Suc (unat i)" by (rule unat_inc [OF i])
      then obtain r where r: "scan_loop n (i + 1) cnt v b = Some r"
        "r = BITMAP_ERROR \<and> (\<forall>k<n. \<not> is_run v (bm_abs b) (Suc (unat i) + k) (unat cnt)) \<or>
         (\<exists>k<n. unat r = Suc (unat i) + k \<and> is_run v (bm_abs b) (unat r) (unat cnt) \<and>
           (\<forall>j<k. \<not> is_run v (bm_abs b) (Suc (unat i) + j) (unat cnt)))"
        using Suc.IH [of "i + 1"] Suc.prems by auto
      from r(2) show ?thesis
      proof (elim disjE exE conjE)
        assume "r = BITMAP_ERROR" "\<forall>k<n. \<not> is_run v (bm_abs b) (Suc (unat i) + k) (unat cnt)"
        then show ?thesis using c False r(1) by (auto simp: All_less_Suc2)
      next
        fix k assume "k < n" "unat r = Suc (unat i) + k" "is_run v (bm_abs b) (unat r) (unat cnt)"
          "\<forall>j<k. \<not> is_run v (bm_abs b) (Suc (unat i) + j) (unat cnt)"
        then show ?thesis using c False r(1) by (intro exI [of _ r] conjI disjI2 exI [of _ "Suc k"]) (auto simp: All_less_Suc2)
      qed
    qed
  qed
qed simp

text \<open>The first run of \<open>cnt\<close> equal bits at or after \<open>start\<close>, or the error value when there is none.\<close>

definition scan_result :: "bool list \<Rightarrow> nat \<Rightarrow> nat \<Rightarrow> bool \<Rightarrow> u32 \<Rightarrow> bool" where
  "scan_result xs start n v r \<longleftrightarrow>
     (if \<exists>i\<in>{start..length xs}. is_run v xs i n
      then start \<le> unat r \<and> is_run v xs (unat r) n \<and> (\<forall>i\<in>{start..<unat r}. \<not> is_run v xs i n)
      else r = BITMAP_ERROR)"

lemma bitmap_scan_ok:
  assumes ok: "bm_ok b" and s: "start \<le> bit_cnt b"
  shows "\<exists>r. bitmap_scan b start cnt v = Some r \<and> scan_result (bm_abs b) (unat start) (unat cnt) v r"
proof (cases "cnt \<le> bit_cnt b")
  case False
  then have "\<not> is_run v (bm_abs b) i (unat cnt)" for i by (simp add: is_run_def word_le_nat_alt)
  then show ?thesis using s False by (simp add: bitmap_scan_def scan_result_def)
next
  case True
  let ?n = "Suc (unat (bit_cnt b - cnt)) - unat start"
  have l: "unat (bit_cnt b - cnt) = unat (bit_cnt b) - unat cnt" using True by (simp add: unat_sub word_le_nat_alt)
  have d: "bitmap_scan b start cnt v = scan_loop ?n start cnt v b"
    using s True by (simp only: bitmap_scan_def Let_def chk_bind if_True)
  have run: "is_run v (bm_abs b) i (unat cnt) \<Longrightarrow> unat start \<le> i \<Longrightarrow> i - unat start < ?n" for i
    using True by (auto simp: is_run_def l word_le_nat_alt)
  show ?thesis
  proof (cases "?n = 0")
    case True
    then have "\<not> is_run v (bm_abs b) i (unat cnt)" if "unat start \<le> i" for i using run [of i] that by auto
    then show ?thesis using True d by (simp add: scan_result_def)
  next
    case False
    then have "unat start + ?n + unat cnt \<le> Suc (unat (bit_cnt b))" using True by (simp add: l word_le_nat_alt)
    from scan_loop_ok [OF ok this] obtain r where r: "scan_loop ?n start cnt v b = Some r"
      "r = BITMAP_ERROR \<and> (\<forall>k<?n. \<not> is_run v (bm_abs b) (unat start + k) (unat cnt)) \<or>
       (\<exists>k<?n. unat r = unat start + k \<and> is_run v (bm_abs b) (unat r) (unat cnt) \<and>
        (\<forall>j<k. \<not> is_run v (bm_abs b) (unat start + j) (unat cnt)))" by blast
    from r(2) have "scan_result (bm_abs b) (unat start) (unat cnt) v r"
    proof (elim disjE exE conjE)
      assume e: "r = BITMAP_ERROR" and *: "\<forall>k<?n. \<not> is_run v (bm_abs b) (unat start + k) (unat cnt)"
      have "\<not> is_run v (bm_abs b) i (unat cnt)" if "unat start \<le> i" for i
        using run [of i] * that by (metis le_add_diff_inverse)
      then show ?thesis using e by (simp add: scan_result_def)
    next
      fix k assume k: "unat r = unat start + k" "is_run v (bm_abs b) (unat r) (unat cnt)"
        "\<forall>j<k. \<not> is_run v (bm_abs b) (unat start + j) (unat cnt)"
      have "\<not> is_run v (bm_abs b) i (unat cnt)" if "i \<in> {unat start..<unat r}" for i
        using k(1,3) that by (metis atLeastLessThan_iff le_add_diff_inverse nat_add_left_cancel_less)
      moreover have "unat r \<in> {unat start..length (bm_abs b)}" using k(1,2) by (auto simp: is_run_def)
      ultimately show ?thesis using k(1,2) by (auto simp: scan_result_def)
    qed
    then show ?thesis using d r(1) by simp
  qed
qed

lemma scan_result_run: "scan_result xs s n v r \<Longrightarrow> r \<noteq> BITMAP_ERROR \<Longrightarrow> s \<le> unat r \<and> is_run v xs (unat r) n"
  by (auto simp: scan_result_def split: if_splits)

lemma bitmap_scan_and_flip_ok:
  assumes ok: "bm_ok b" and s: "start \<le> bit_cnt b"
  shows "\<exists>r b'. bitmap_scan_and_flip b start cnt v = Some (r, b') \<and> same_frame b b' \<and>
    scan_result (bm_abs b) (unat start) (unat cnt) v r \<and>
    bm_abs b' = (if r = BITMAP_ERROR then bm_abs b
      else take (unat r) (bm_abs b) @ replicate (unat cnt) (\<not> v) @ drop (unat r + unat cnt) (bm_abs b))"
proof -
  obtain r where r: "bitmap_scan b start cnt v = Some r" "scan_result (bm_abs b) (unat start) (unat cnt) v r"
    using bitmap_scan_ok [OF assms] by blast
  show ?thesis
  proof (cases "r = BITMAP_ERROR")
    case True
    then show ?thesis using r ok by (simp add: bitmap_scan_and_flip_def same_frame_def)
  next
    case False
    then have "unat r + unat cnt \<le> unat (bit_cnt b)" using scan_result_run [OF r(2)] by (simp add: is_run_def)
    then show ?thesis using bitmap_set_multiple_ok [OF ok, of r cnt "\<not> v"] r False
      by (auto simp: bitmap_scan_and_flip_def)
  qed
qed

section \<open>Sizes and creation\<close>

lemma unat_elem_cnt: "unat n + 31 < 2 ^ 32 \<Longrightarrow> unat (elem_cnt n) = (unat n + 31) div 32"
  by (simp add: elem_cnt_def DIV_ROUND_UP_def ELEM_BITS_def unat_div unat_word_ariths)

lemma elem_cnt_bounds: "unat n + 31 < 2 ^ 32 \<Longrightarrow> unat n \<le> 32 * unat (elem_cnt n) \<and> unat (elem_cnt n) < 2 ^ 27"
proof -
  assume n: "unat n + 31 < 2 ^ 32"
  have "x \<le> 32 * ((x + 31) div 32)" for x :: nat by arith
  then show ?thesis using n by (simp add: unat_elem_cnt [OF n] div_less_iff_less_mult)
qed

lemma unat_byte_cnt: "unat n + 31 < 2 ^ 32 \<Longrightarrow> unat (byte_cnt n) = 4 * unat (elem_cnt n)"
  using elem_cnt_bounds [of n] by (simp add: byte_cnt_def unat_word_ariths)

text \<open>A new bitmap, whatever its memory held, has the asked number of bits, all clear.\<close>

lemma bitmap_create_ok:
  assumes n: "unat n + 31 < 2 ^ 32"
    and alloc: "\<And>k e. alloc k = Some e \<Longrightarrow> unat k \<le> 4 * length e"
  shows "\<exists>r. bitmap_create hdr alloc n = Some r \<and>
    (r = None \<longleftrightarrow> \<not> hdr \<or> alloc (byte_cnt n) = None \<and> n \<noteq> 0) \<and>
    (\<forall>b. r = Some b \<longrightarrow> bm_ok b \<and> bm_abs b = replicate (unat n) False)"
proof -
  let ?b = "\<lparr>bit_cnt = n, bits = (case alloc (byte_cnt n) of Some e \<Rightarrow> e | None \<Rightarrow> [])\<rparr>"
  show ?thesis
  proof (cases "hdr \<and> (alloc (byte_cnt n) \<noteq> None \<or> n = 0)")
    case True
    have "bm_ok ?b"
    proof (cases "alloc (byte_cnt n)")
      case None then show ?thesis using True by (simp add: bm_ok_def)
    next
      case (Some e)
      then show ?thesis using alloc [OF Some] elem_cnt_bounds [OF n] unat_byte_cnt [OF n] by (simp add: bm_ok_def)
    qed
    from bitmap_set_all_ok [OF this, of False] obtain b' where
      "bitmap_set_all ?b False = Some b'" "same_frame ?b b'" "bm_abs b' = replicate (unat n) False" by auto
    then show ?thesis using True by (auto simp: bitmap_create_def same_frame_def)
  qed (auto simp: bitmap_create_def)
qed

lemma bitmap_create_in_buf_ok:
  assumes "unat n + 31 < 2 ^ 32" "bitmap_buf_size n \<le> block_size" "unat block_size \<le> 4 * length block"
  shows "\<exists>b. bitmap_create_in_buf n block block_size = Some b \<and> bm_ok b \<and> bm_abs b = replicate (unat n) False"
proof -
  let ?b = "\<lparr>bit_cnt = n, bits = drop 2 block\<rparr>"
  have "unat (8 + byte_cnt n) = 8 + 4 * unat (elem_cnt n)"
    using elem_cnt_bounds [OF assms(1)] unat_byte_cnt [OF assms(1)] by (simp add: unat_word_ariths)
  then have "bm_ok ?b" using assms(2,3) elem_cnt_bounds [OF assms(1)]
    by (auto simp: bm_ok_def bitmap_buf_size_def word_le_nat_alt)
  from bitmap_set_all_ok [OF this, of False] show ?thesis using assms(2)
    by (auto simp: bitmap_create_in_buf_def same_frame_def)
qed

section \<open>Properties\<close>


definition demo_bitmap :: bitmap where
  "demo_bitmap = \<lparr>bit_cnt = 40, bits = [0xFFFFFFF7, 0xF0]\<rparr>"


text \<open>Setting a range of bits changes exactly the bits of that range, also across element
  boundaries; a range that does not fit, even one whose end wraps around, stops the kernel.\<close>

theorem set_multiple_exact:
  assumes "bm_ok b"
  shows "if unat start + unat cnt \<le> unat (bit_cnt b)
    then \<exists>b'. bitmap_set_multiple b start cnt v = Some b' \<and> bm_ok b' \<and> bit_cnt b' = bit_cnt b \<and>
      (\<forall>i < unat (bit_cnt b). bitmap_test b' (of_nat i) =
        Some (if unat start \<le> i \<and> i < unat start + unat cnt then v else bm_abs b ! i))
    else bitmap_set_multiple b start cnt v = None"
proof (cases "unat start + unat cnt \<le> unat (bit_cnt b)")
  case True
  then obtain b' where b': "bitmap_set_multiple b start cnt v = Some b'" "same_frame b b'"
    "bm_abs b' = take (unat start) (bm_abs b) @ replicate (unat cnt) v @ drop (unat start + unat cnt) (bm_abs b)"
    using bitmap_set_multiple_ok [OF assms, of start cnt v] by auto
  have "bitmap_test b' (of_nat i) = Some (if unat start \<le> i \<and> i < unat start + unat cnt then v else bm_abs b ! i)"
    if i: "i < unat (bit_cnt b)" for i
  proof -
    have "unat (of_nat i :: u32) = i"
      using i unsigned_less [of "bit_cnt b", where 'a = nat] by (simp add: unat_of_nat take_bit_nat_eq_self)
    then have "bitmap_test b' (of_nat i) = Some (bm_abs b' ! i)"
      using b'(2) i by (simp add: same_frame_def bitmap_test_ok)
    also have "bm_abs b' ! i = (if unat start \<le> i \<and> i < unat start + unat cnt then v else bm_abs b ! i)"
      unfolding b'(3) using True i by (auto simp: nth_append)
    finally show ?thesis .
  qed
  then show ?thesis using True b' by (auto simp: same_frame_def)
qed (use bitmap_set_multiple_ok [OF assms, of start cnt v] in simp)

theorem set_multiple_exact_witness:
  "\<exists>b'. bitmap_set_multiple \<lparr>bit_cnt = 40, bits = [0, 0]\<rparr> 30 5 True = Some b' \<and> bm_ok b' \<and> bit_cnt b' = 40 \<and>
    (\<forall>i<40. bitmap_test b' (of_nat i) =
      Some (if 30 \<le> i \<and> i < 30 + 5 then True else bm_abs \<lparr>bit_cnt = 40, bits = [0, 0]\<rparr> ! i))"
proof -
  have "bm_ok \<lparr>bit_cnt = 40, bits = [0, 0]\<rparr>" by (simp add: bm_ok_def)
  from set_multiple_exact [OF this, of 30 5 True] show ?thesis by simp
qed

end
