(* ===== verification/Hash.thy ===== *)
theory Hash
  imports Prelude "HOL-Library.Sublist"
begin

text \<open>
  The hash table with chaining of \<^verbatim>\<open>lib/kernel/hash.c\<close>.  A bucket is the list of its
  elements in chain order (the contract of \<^verbatim>\<open>lib/kernel/list.c\<close>); an element is a value of
  type \<open>'e\<close>, the pointer with the data behind it.  The outcome of \<^verbatim>\<open>malloc\<close> is the argument
  \<open>mem\<close>, a predicate on the number of bytes asked for.
\<close>

section \<open>The table and its operations\<close>

record 'e hash =
  elem_count :: u32
  bucket_cnt :: u32
  buckets :: "'e list list"
  hash_fun :: "'e \<Rightarrow> u32"
  hash_less :: "'e \<Rightarrow> 'e \<Rightarrow> bool"

definition FNV_32_PRIME :: u32 where "FNV_32_PRIME = 16777619"
definition FNV_32_BASIS :: u32 where "FNV_32_BASIS = 2166136261"

definition fnv_step :: "u32 \<Rightarrow> u8 \<Rightarrow> u32" where
  "fnv_step h c = (h * FNV_32_PRIME) XOR ucast c"

definition hash_bytes :: "u8 list \<Rightarrow> nat \<Rightarrow> u32 option" where
  "hash_bytes buf n = do { chk (n \<le> length buf); Some (foldl fnv_step FNV_32_BASIS (take n buf)) }"

text \<open>The bytes from \<^verbatim>\<open>s\<close> to the end of its memory: without a null byte the loop runs off it.\<close>

primrec hash_string_loop :: "u32 \<Rightarrow> u8 list \<Rightarrow> u32 option" where
  "hash_string_loop h [] = None" |
  "hash_string_loop h (c # cs) = (if c \<noteq> 0 then hash_string_loop (fnv_step h c) cs else Some h)"

definition hash_string :: "u8 list \<Rightarrow> u32 option" where
  "hash_string s = hash_string_loop FNV_32_BASIS s"

definition hash_int :: "u32 \<Rightarrow> u32 option" where
  "hash_int i = hash_bytes (le_bytes i) 4"

definition find_bucket :: "'e hash \<Rightarrow> 'e \<Rightarrow> nat" where
  "find_bucket h e = unat (hash_fun h e AND (bucket_cnt h - 1))"

definition same_elem :: "('e \<Rightarrow> 'e \<Rightarrow> bool) \<Rightarrow> 'e \<Rightarrow> 'e \<Rightarrow> bool" where
  "same_elem lt a b \<longleftrightarrow> \<not> lt a b \<and> \<not> lt b a"

text \<open>\<^verbatim>\<open>find_elem\<close> walks a chain.\<close>

primrec find_loop :: "('e \<Rightarrow> 'e \<Rightarrow> bool) \<Rightarrow> 'e \<Rightarrow> 'e list \<Rightarrow> 'e option" where
  "find_loop lt e [] = None" |
  "find_loop lt e (hi # chain) = (if same_elem lt hi e then Some hi else find_loop lt e chain)"

definition find_elem :: "'e hash \<Rightarrow> nat \<Rightarrow> 'e \<Rightarrow> 'e option option" where
  "find_elem h b e = do { chk (b < length (buckets h)); Some (find_loop (hash_less h) e (buckets h ! b)) }"

definition insert_elem :: "'e hash \<Rightarrow> nat \<Rightarrow> 'e \<Rightarrow> 'e hash option" where
  "insert_elem h b e = do {
     chk (b < length (buckets h));
     Some (h\<lparr>elem_count := elem_count h + 1, buckets := (buckets h)[b := e # buckets h ! b]\<rparr>) }"

text \<open>An element is unlinked from the chain it is in.\<close>

definition remove_elem :: "'e hash \<Rightarrow> 'e \<Rightarrow> 'e hash" where
  "remove_elem h e = h\<lparr>elem_count := elem_count h - 1, buckets := map (remove1 e) (buckets h)\<rparr>"

definition turn_off_least_1bit :: "u32 \<Rightarrow> u32" where
  "turn_off_least_1bit x = x AND (x - 1)"

definition is_power_of_2 :: "u32 \<Rightarrow> bool" where
  "is_power_of_2 x \<longleftrightarrow> x \<noteq> 0 \<and> turn_off_least_1bit x = 0"

definition BEST_ELEMS_PER_BUCKET :: u32 where "BEST_ELEMS_PER_BUCKET = 2"

partial_function (option) pow2_loop :: "u32 \<Rightarrow> u32 option" where
  [code]: "pow2_loop n = (if is_power_of_2 n then Some n else pow2_loop (turn_off_least_1bit n))"

definition new_bucket_count :: "u32 \<Rightarrow> u32 option" where
  "new_bucket_count cnt =
     (let n = cnt div BEST_ELEMS_PER_BUCKET in pow2_loop (if n < 4 then 4 else n))"

text \<open>Moving the elements of a chain, front first, to the front of their new chains.\<close>

primrec move_chain :: "'e hash \<Rightarrow> 'e list \<Rightarrow> 'e hash option" where
  "move_chain h [] = Some h" |
  "move_chain h (e # chain) = do {
     let b = find_bucket h e;
     chk (b < length (buckets h));
     move_chain (h\<lparr>buckets := (buckets h)[b := e # buckets h ! b]\<rparr>) chain }"

primrec move_chains :: "'e hash \<Rightarrow> 'e list list \<Rightarrow> 'e hash option" where
  "move_chains h [] = Some h" |
  "move_chains h (c # cs) = do { h \<leftarrow> move_chain h c; move_chains h cs }"

definition rehash :: "(u32 \<Rightarrow> bool) \<Rightarrow> 'e hash \<Rightarrow> 'e hash option" where
  "rehash mem h = do {
     n \<leftarrow> new_bucket_count (elem_count h);
     if n = bucket_cnt h then Some h
     else if \<not> mem (16 * n) then Some h
     else move_chains (h\<lparr>buckets := replicate (unat n) [], bucket_cnt := n\<rparr>) (buckets h) }"

definition hash_insert :: "(u32 \<Rightarrow> bool) \<Rightarrow> 'e hash \<Rightarrow> 'e \<Rightarrow> ('e option \<times> 'e hash) option" where
  "hash_insert mem h e = do {
     let b = find_bucket h e;
     old \<leftarrow> find_elem h b e;
     h \<leftarrow> (if old = None then insert_elem h b e else Some h);
     h \<leftarrow> rehash mem h;
     Some (old, h) }"

definition hash_replace :: "(u32 \<Rightarrow> bool) \<Rightarrow> 'e hash \<Rightarrow> 'e \<Rightarrow> ('e option \<times> 'e hash) option" where
  "hash_replace mem h e = do {
     let b = find_bucket h e;
     old \<leftarrow> find_elem h b e;
     let h = (case old of Some x \<Rightarrow> remove_elem h x | None \<Rightarrow> h);
     h \<leftarrow> insert_elem h b e;
     h \<leftarrow> rehash mem h;
     Some (old, h) }"

definition hash_find :: "'e hash \<Rightarrow> 'e \<Rightarrow> 'e option option" where
  "hash_find h e = find_elem h (find_bucket h e) e"

definition hash_delete :: "(u32 \<Rightarrow> bool) \<Rightarrow> 'e hash \<Rightarrow> 'e \<Rightarrow> ('e option \<times> 'e hash) option" where
  "hash_delete mem h e = do {
     found \<leftarrow> find_elem h (find_bucket h e) e;
     case found of
       Some x \<Rightarrow> do { h \<leftarrow> rehash mem (remove_elem h x); Some (found, h) }
     | None \<Rightarrow> Some (found, h) }"

text \<open>A destructor or action is a step on the state \<open>'s\<close> it works on.\<close>

primrec chain_loop :: "('e \<Rightarrow> 's \<Rightarrow> 's option) \<Rightarrow> 'e list \<Rightarrow> 's \<Rightarrow> 's option" where
  "chain_loop act [] s = Some s" |
  "chain_loop act (e # chain) s = do { s \<leftarrow> act e s; chain_loop act chain s }"

primrec buckets_loop :: "('e \<Rightarrow> 's \<Rightarrow> 's option) \<Rightarrow> 'e list list \<Rightarrow> 's \<Rightarrow> 's option" where
  "buckets_loop act [] s = Some s" |
  "buckets_loop act (c # cs) s = do { s \<leftarrow> chain_loop act c s; buckets_loop act cs s }"

definition hash_clear :: "('e \<Rightarrow> 's \<Rightarrow> 's option) option \<Rightarrow> 'e hash \<Rightarrow> 's \<Rightarrow> ('s \<times> 'e hash) option" where
  "hash_clear destructor h s = do {
     s \<leftarrow> (case destructor of Some d \<Rightarrow> buckets_loop d (buckets h) s | None \<Rightarrow> Some s);
     Some (s, h\<lparr>buckets := map (\<lambda>_. []) (buckets h), elem_count := 0\<rparr>) }"

text \<open>The memory of the buckets is gone after \<^verbatim>\<open>hash_destroy\<close>.\<close>

definition hash_destroy :: "('e \<Rightarrow> 's \<Rightarrow> 's option) option \<Rightarrow> 'e hash \<Rightarrow> 's \<Rightarrow> ('s \<times> 'e hash) option" where
  "hash_destroy destructor h s = do {
     (s, h) \<leftarrow> (if destructor = None then Some (s, h) else hash_clear destructor h s);
     Some (s, h\<lparr>buckets := []\<rparr>) }"

definition hash_init :: "(u32 \<Rightarrow> bool) \<Rightarrow> ('e \<Rightarrow> u32) \<Rightarrow> ('e \<Rightarrow> 'e \<Rightarrow> bool) \<Rightarrow> bool \<times> 'e hash" where
  "hash_init mem hf lt =
     (let h = \<lparr>elem_count = 0, bucket_cnt = 4, buckets = [], hash_fun = hf, hash_less = lt\<rparr>
      in if mem (16 * 4) then (True, h\<lparr>buckets := replicate 4 []\<rparr>) else (False, h))"

definition hash_apply :: "('e \<Rightarrow> 's \<Rightarrow> 's option) option \<Rightarrow> 'e hash \<Rightarrow> 's \<Rightarrow> 's option" where
  "hash_apply action h s = do { act \<leftarrow> action; buckets_loop act (buckets h) s }"

definition hash_size :: "'e hash \<Rightarrow> u32" where "hash_size h = elem_count h"
definition hash_empty :: "'e hash \<Rightarrow> bool" where "hash_empty h \<longleftrightarrow> elem_count h = 0"

text \<open>
  An iterator: its table, the number of the current bucket and the place in the chain of the
  current element, 0 being the list head and the length plus 1 the list end.  \<open>None\<close> is the
  null element at the end of the table.
\<close>

record 'e hash_iterator =
  it_hash :: "'e hash"
  it_bucket :: nat
  it_elem :: "nat option"

definition hash_first :: "'e hash \<Rightarrow> 'e hash_iterator" where
  "hash_first h = \<lparr>it_hash = h, it_bucket = 0, it_elem = Some 0\<rparr>"

definition hash_cur :: "'e hash_iterator \<Rightarrow> 'e option" where
  "hash_cur i = map_option (\<lambda>p. buckets (it_hash i) ! it_bucket i ! (p - 1)) (it_elem i)"

function next_loop :: "'e hash \<Rightarrow> nat \<Rightarrow> nat \<Rightarrow> nat \<times> nat option" where
  "next_loop h b p =
     (if p = Suc (length (buckets h ! b))
      then if unat (bucket_cnt h) \<le> Suc b then (Suc b, None) else next_loop h (Suc b) 1
      else (b, Some p))"
  by pat_completeness auto
termination by (relation "measure (\<lambda>(h, b, p). unat (bucket_cnt h) - b)") auto

declare next_loop.simps [simp del]

definition hash_next :: "'e hash_iterator \<Rightarrow> ('e option \<times> 'e hash_iterator) option" where
  "hash_next i = do {
     p \<leftarrow> it_elem i;
     let (b, e) = next_loop (it_hash i) (it_bucket i) (p + 1);
     let i = i\<lparr>it_bucket := b, it_elem := e\<rparr>;
     Some (hash_cur i, i) }"

section \<open>Powers of two\<close>

text \<open>Clearing the lowest set bit of \<open>x\<close>: 0 for a power of two, else the top bit stays.\<close>

lemma clear_lowest:
  fixes x :: nat
  assumes "0 < x"
  shows "x AND (x - 1) < x \<and> (x AND (x - 1) = 0 \<longrightarrow> (\<exists>k. x = 2 ^ k)) \<and>
    (x AND (x - 1) \<noteq> 0 \<longrightarrow> (\<forall>k. 2 ^ k \<le> x \<longrightarrow> 2 ^ k \<le> x AND (x - 1)))"
  using assms
proof (induction x rule: less_induct)
  case (less x)
  show ?case
  proof (cases "odd x")
    case True
    then obtain y where y: "x = 2 * y + 1" by (rule oddE)
    have c: "x AND (x - 1) = 2 * y" unfolding y by (subst and_rec) simp
    have "2 ^ k \<le> 2 * y" if "2 ^ k \<le> x" "y \<noteq> 0" for k
      using that unfolding y by (cases k) auto
    then show ?thesis unfolding c using y by (auto intro: exI [of _ 0])
  next
    case False
    then obtain y where y: "x = 2 * y" by blast
    then have y0: "0 < y" "y < x" using less.prems by auto
    have "(2 * y - 1) div 2 = y - 1" using y0 by (cases y) auto
    then have c: "x AND (x - 1) = 2 * (y AND (y - 1))" unfolding y by (subst and_rec) simp
    note IH = less.IH [OF y0(2,1)]
    have "\<exists>k. x = 2 ^ k" if "y AND (y - 1) = 0"
    proof -
      obtain k where "y = 2 ^ k" using IH \<open>y AND (y - 1) = 0\<close> by blast
      then have "x = 2 ^ Suc k" using y by simp
      then show ?thesis by blast
    qed
    moreover have "2 ^ k \<le> 2 * (y AND (y - 1))" if "y AND (y - 1) \<noteq> 0" "2 ^ k \<le> x" for k
      using IH that y by (cases k) auto
    ultimately show ?thesis unfolding c using IH y by auto
  qed
qed

lemma unat_clear: "x \<noteq> 0 \<Longrightarrow> unat (turn_off_least_1bit x) = unat x AND (unat x - 1)"
  by (simp add: turn_off_least_1bit_def unsigned_and_eq unat_minus_one)

lemma pow2_loop_ok:
  "x \<noteq> 0 \<Longrightarrow> \<exists>m k. pow2_loop x = Some m \<and> is_power_of_2 m \<and> unat m = 2 ^ k \<and> unat m \<le> unat x \<and> unat x < 2 * unat m"
proof (induction "unat x" arbitrary: x rule: less_induct)
  case less
  have x0: "0 < unat x" using less.prems by (simp add: unat_gt_0)
  note c = clear_lowest [OF x0, folded unat_clear [OF less.prems]]
  show ?case
  proof (cases "is_power_of_2 x")
    case True
    then obtain k where "unat x = 2 ^ k" using c by (auto simp: is_power_of_2_def)
    then show ?thesis using True by (subst pow2_loop.simps) auto
  next
    case False
    let ?y = "turn_off_least_1bit x"
    have y: "?y \<noteq> 0" using False less.prems by (simp add: is_power_of_2_def)
    then have uy: "unat ?y \<noteq> 0" by (simp add: unat_eq_0)
    obtain m k where m: "pow2_loop ?y = Some m" "is_power_of_2 m" "unat m = 2 ^ k" "unat m \<le> unat ?y" "unat ?y < 2 * unat m"
      using less.hyps [OF conjunct1 [OF c] y] by blast
    have "unat x < 2 ^ Suc k"
    proof (rule ccontr)
      assume "\<not> unat x < 2 ^ Suc k"
      then have "2 ^ Suc k \<le> unat ?y" using c uy by (meson not_le)
      then show False using m(3,5) by simp
    qed
    then show ?thesis using m False c by (subst pow2_loop.simps) auto
  qed
qed

lemma new_bucket_count_ok:
  "\<exists>m k. new_bucket_count cnt = Some m \<and> is_power_of_2 m \<and> unat m = 2 ^ k \<and> 4 \<le> unat m \<and>
    unat m \<le> max 4 (unat cnt div 2) \<and> max 4 (unat cnt div 2) < 2 * unat m"
proof -
  define n where "n = (if cnt div BEST_ELEMS_PER_BUCKET < 4 then 4 else cnt div BEST_ELEMS_PER_BUCKET)"
  have n: "unat n = max 4 (unat cnt div 2)"
    by (simp add: n_def BEST_ELEMS_PER_BUCKET_def word_less_nat_alt unat_div)
  have "unat n \<noteq> 0" unfolding n by simp
  then have "n \<noteq> 0" by auto
  from pow2_loop_ok [OF this] obtain m k where m: "pow2_loop n = Some m" "is_power_of_2 m" "unat m = 2 ^ k"
    "unat m \<le> unat n" "unat n < 2 * unat m" by blast
  have "2 < unat m" using m(5) unfolding n by linarith
  then have "1 < k" unfolding m(3) using power_strict_increasing_iff [of "2::nat" 1 k] by simp
  then have "4 \<le> unat m" unfolding m(3) using power_increasing [of 2 k "2::nat"] by simp
  then show ?thesis using m unfolding n by (auto simp: new_bucket_count_def Let_def n_def [symmetric])
qed

section \<open>The invariant\<close>

definition in_place :: "'e hash \<Rightarrow> bool" where
  "in_place h \<longleftrightarrow> length (buckets h) = unat (bucket_cnt h) \<and> bucket_cnt h \<noteq> 0 \<and>
     (\<forall>i < length (buckets h). \<forall>e \<in> set (buckets h ! i). find_bucket h e = i)"

definition no_dup :: "('e \<Rightarrow> 'e \<Rightarrow> bool) \<Rightarrow> 'e list \<Rightarrow> bool" where
  "no_dup lt es \<longleftrightarrow> distinct es \<and> (\<forall>a \<in> set es. \<forall>b \<in> set es. same_elem lt a b \<longrightarrow> a = b)"

text \<open>All elements of the table; the table as a map from elements to the equal element stored.\<close>

definition elems :: "'e hash \<Rightarrow> 'e list" where
  "elems h = concat (buckets h)"

definition lookup :: "'e hash \<Rightarrow> 'e \<Rightarrow> 'e option" where
  "lookup h k = find_loop (hash_less h) k (elems h)"

definition hash_ok :: "'e hash \<Rightarrow> bool" where
  "hash_ok h \<longleftrightarrow> in_place h \<and> is_power_of_2 (bucket_cnt h) \<and> 4 \<le> unat (bucket_cnt h) \<and>
     no_dup (hash_less h) (elems h) \<and> elem_count h = of_nat (length (elems h))"

lemma find_bucket_lt: "in_place h \<Longrightarrow> find_bucket h e < length (buckets h)"
proof -
  assume p: "in_place h"
  have "hash_fun h e AND (bucket_cnt h - 1) \<le> bucket_cnt h - 1" by (rule word_and_le1)
  also have "\<dots> < bucket_cnt h" using p by (simp add: in_place_def word_less_nat_alt unat_minus_one unat_gt_0)
  finally show ?thesis using p by (simp add: in_place_def find_bucket_def word_less_nat_alt)
qed

lemma mset_concat_update:
  "b < length bs \<Longrightarrow> mset (concat (bs[b := c])) + mset (bs ! b) = mset (concat bs) + mset c"
proof (induction bs arbitrary: b)
  case (Cons a bs)
  show ?case
  proof (cases b)
    case 0 then show ?thesis by (simp add: ac_simps)
  next
    case (Suc k)
    then have "mset (concat (bs[k := c])) + mset (bs ! k) = mset (concat bs) + mset c" using Cons by simp
    then show ?thesis using Suc by (simp add: add.assoc)
  qed
qed simp

lemma mset_concat_push: "b < length bs \<Longrightarrow> mset (concat (bs[b := e # bs ! b])) = add_mset e (mset (concat bs))"
  using mset_concat_update [of b bs "e # bs ! b"] by simp

lemma mset_concat_remove1:
  "distinct (concat bs) \<Longrightarrow> x \<in> set (concat bs) \<Longrightarrow> mset (concat (map (remove1 x) bs)) = mset (concat bs) - {#x#}"
proof (induction bs)
  case (Cons c cs)
  show ?case
  proof (cases "x \<in> set c")
    case True
    then have "map (remove1 x) cs = cs" using Cons.prems(1) by (intro map_idI remove1_idem) auto
    then show ?thesis using True by (simp add: insert_DiffM2 mset_remove1 union_commute)
  next
    case False
    then show ?thesis using Cons by (simp add: remove1_idem)
  qed
qed simp

section \<open>Rehashing keeps the elements\<close>

definition same_shape :: "'e hash \<Rightarrow> 'e hash \<Rightarrow> bool" where
  "same_shape h h' \<longleftrightarrow> hash_fun h' = hash_fun h \<and> hash_less h' = hash_less h"

lemma find_bucket_cong: "hash_fun h' = hash_fun h \<Longrightarrow> bucket_cnt h' = bucket_cnt h \<Longrightarrow> find_bucket h' e = find_bucket h e"
  by (simp add: find_bucket_def)

lemma no_dup_mset: "mset xs = mset ys \<Longrightarrow> no_dup lt xs = no_dup lt ys"
  using mset_eq_imp_distinct_iff [of xs ys] mset_eq_setD [of xs ys] by (simp add: no_dup_def)

text \<open>Putting an element in front of the chain of its bucket.\<close>

lemma in_place_push:
  assumes "in_place h" "b = find_bucket h e"
  shows "in_place (h\<lparr>buckets := (buckets h)[b := e # buckets h ! b]\<rparr>)"
proof -
  have "find_bucket h x = i"
    if "i < length (buckets h)" "x \<in> set ((buckets h)[b := e # buckets h ! b] ! i)" for i x
    using that assms by (cases "i = b") (auto simp: in_place_def)
  then show ?thesis using assms(1) by (simp add: in_place_def find_bucket_def)
qed

lemma in_place_elem_count: "in_place (h\<lparr>elem_count := c\<rparr>) = in_place h"
  by (simp add: in_place_def find_bucket_def)

lemma move_chain_ok:
  "in_place h \<Longrightarrow> \<exists>h'. move_chain h c = Some h' \<and> in_place h' \<and> same_shape h h' \<and> elem_count h' = elem_count h \<and>
     bucket_cnt h' = bucket_cnt h \<and> mset (elems h') = mset c + mset (elems h)"
proof (induction c arbitrary: h)
  case (Cons e c)
  let ?b = "find_bucket h e"
  let ?h = "h\<lparr>buckets := (buckets h)[?b := e # buckets h ! ?b]\<rparr>"
  have b: "?b < length (buckets h)" by (rule find_bucket_lt [OF Cons.prems])
  have m: "mset (elems ?h) = add_mset e (mset (elems h))" using mset_concat_push [OF b] by (simp add: elems_def)
  obtain h' where "move_chain ?h c = Some h'" "in_place h'" "same_shape ?h h'" "elem_count h' = elem_count h"
    "bucket_cnt h' = bucket_cnt h" "mset (elems h') = mset c + mset (elems ?h)"
    using Cons.IH [OF in_place_push [OF Cons.prems refl]] by auto
  then show ?case using b m by (auto simp: Let_def same_shape_def)
qed (simp add: same_shape_def)

lemma move_chains_ok:
  "in_place h \<Longrightarrow> \<exists>h'. move_chains h cs = Some h' \<and> in_place h' \<and> same_shape h h' \<and> elem_count h' = elem_count h \<and>
     bucket_cnt h' = bucket_cnt h \<and> mset (elems h') = mset (concat cs) + mset (elems h)"
proof (induction cs arbitrary: h)
  case (Cons c cs)
  obtain h1 where h1: "move_chain h c = Some h1" "in_place h1" "same_shape h h1" "elem_count h1 = elem_count h"
    "bucket_cnt h1 = bucket_cnt h" "mset (elems h1) = mset c + mset (elems h)"
    using move_chain_ok [OF Cons.prems] by blast
  obtain h2 where "move_chains h1 cs = Some h2" "in_place h2" "same_shape h1 h2" "elem_count h2 = elem_count h1"
    "bucket_cnt h2 = bucket_cnt h1" "mset (elems h2) = mset (concat cs) + mset (elems h1)"
    using Cons.IH [OF h1(2)] by blast
  then show ?case using h1 by (simp add: same_shape_def add.assoc add.left_commute)
qed (simp add: same_shape_def)

lemma hash_ok_mset:
  assumes "hash_ok h" "in_place h'" "same_shape h h'" "elem_count h' = elem_count h"
    "is_power_of_2 (bucket_cnt h')" "4 \<le> unat (bucket_cnt h')" "mset (elems h') = mset (elems h)"
  shows "hash_ok h'"
  using assms no_dup_mset [OF assms(7)] mset_eq_length [OF assms(7)] by (simp add: hash_ok_def same_shape_def)

lemma rehash_ok:
  assumes "hash_ok h"
  shows "\<exists>h'. rehash mem h = Some h' \<and> hash_ok h' \<and> same_shape h h' \<and> mset (elems h') = mset (elems h) \<and>
    elem_count h' = elem_count h \<and>
    (if \<exists>n. new_bucket_count (elem_count h) = Some n \<and> (n = bucket_cnt h \<or> mem (16 * n))
     then new_bucket_count (elem_count h) = Some (bucket_cnt h') else h' = h)"
proof -
  obtain n k where n: "new_bucket_count (elem_count h) = Some n" "is_power_of_2 n" "unat n = 2 ^ k" "4 \<le> unat n"
    using new_bucket_count_ok [of "elem_count h"] by blast
  show ?thesis
  proof (cases "n \<noteq> bucket_cnt h \<and> mem (16 * n)")
    case False
    then show ?thesis using assms n by (auto simp: rehash_def same_shape_def)
  next
    case True
    let ?h = "h\<lparr>buckets := replicate (unat n) [], bucket_cnt := n\<rparr>"
    have p: "in_place ?h" using n(4) by (auto simp: in_place_def)
    have e: "elems ?h = []" by (simp add: elems_def)
    obtain h' where h': "move_chains ?h (buckets h) = Some h'" "in_place h'" "same_shape ?h h'"
      "elem_count h' = elem_count h" "bucket_cnt h' = n" "mset (elems h') = mset (elems h)"
      using move_chains_ok [OF p, of "buckets h"] e by (auto simp: elems_def)
    have "hash_ok h'"
      using assms h' n by (intro hash_ok_mset [OF assms]) (auto simp: same_shape_def)
    then show ?thesis using True n h' by (auto simp: rehash_def same_shape_def)
  qed
qed

section \<open>The table as a map\<close>

text \<open>The contract between the table and its user: a strict weak order whose equal elements hash alike.\<close>

locale hash_functions = strict_weak lt for lt :: "'e \<Rightarrow> 'e \<Rightarrow> bool" +
  fixes hf :: "'e \<Rightarrow> u32"
  assumes same_hash: "same_elem lt a b \<Longrightarrow> hf a = hf b"
begin

lemma same_refl [simp]: "same_elem lt a a"
  by (simp add: same_elem_def irrefl)

lemma same_sym: "same_elem lt a b \<longleftrightarrow> same_elem lt b a"
  by (auto simp: same_elem_def)

lemma same_trans: "same_elem lt a b \<Longrightarrow> same_elem lt b c \<Longrightarrow> same_elem lt a c"
  unfolding same_elem_def using le_trans by blast

lemma find_loop_SomeD: "find_loop lt k es = Some x \<Longrightarrow> x \<in> set es \<and> same_elem lt x k"
  by (induction es) (auto split: if_splits)

lemma find_loop_None: "find_loop lt k es = None \<longleftrightarrow> (\<forall>x \<in> set es. \<not> same_elem lt x k)"
  by (induction es) auto

lemma find_loop_iff: "no_dup lt es \<Longrightarrow> find_loop lt k es = Some x \<longleftrightarrow> x \<in> set es \<and> same_elem lt x k"
proof
  assume n: "no_dup lt es" and x: "x \<in> set es \<and> same_elem lt x k"
  then obtain y where y: "find_loop lt k es = Some y" using find_loop_None by (metis not_None_eq)
  then have "y \<in> set es" "same_elem lt x y" using find_loop_SomeD x same_sym same_trans by blast+
  then have "x = y" using n x by (simp add: no_dup_def)
  then show "find_loop lt k es = Some x" using y by simp
qed (rule find_loop_SomeD)

text \<open>The functions stored in the table.\<close>

definition fits :: "'e hash \<Rightarrow> bool" where
  "fits h \<longleftrightarrow> hash_less h = lt \<and> hash_fun h = hf"

lemma lookup_iff: "hash_ok h \<Longrightarrow> fits h \<Longrightarrow> lookup h k = Some x \<longleftrightarrow> x \<in> set (elems h) \<and> same_elem lt x k"
  using find_loop_iff by (simp add: hash_ok_def fits_def lookup_def)

lemma lookup_None: "fits h \<Longrightarrow> lookup h k = None \<longleftrightarrow> (\<forall>x \<in> set (elems h). \<not> same_elem lt x k)"
  using find_loop_None by (simp add: fits_def lookup_def)

lemma option_eqI: "(\<And>x. a = Some x \<longleftrightarrow> b = Some x) \<Longrightarrow> a = b"
  by (cases a) (auto simp: eq_commute [of None], metis not_None_eq)

lemma find_elem_ok:
  assumes ok: "hash_ok h" and f: "fits h"
  shows "find_elem h (find_bucket h e) e = Some (lookup h e)"
proof -
  let ?b = "find_bucket h e"
  have p: "in_place h" using ok by (simp add: hash_ok_def)
  have b: "?b < length (buckets h)" by (rule find_bucket_lt [OF p])
  have sub: "set (buckets h ! ?b) \<subseteq> set (elems h)" using nth_mem [OF b] by (auto simp: elems_def)
  have "x \<in> set (buckets h ! ?b)" if "x \<in> set (elems h)" "same_elem lt x e" for x
  proof -
    from that(1) obtain c where "c \<in> set (buckets h)" "x \<in> set c" by (auto simp: elems_def)
    then obtain i where i: "i < length (buckets h)" "x \<in> set (buckets h ! i)"
      unfolding in_set_conv_nth [of c] by blast
    then have "i = find_bucket h x" using p by (auto simp: in_place_def)
    also have "\<dots> = ?b" using same_hash [OF that(2)] f by (simp add: find_bucket_def fits_def)
    finally show ?thesis using i(2) by simp
  qed
  moreover have "no_dup lt (buckets h ! ?b)"
  proof -
    have "no_dup lt (elems h)" using ok f by (simp add: hash_ok_def fits_def)
    moreover have "distinct (buckets h ! ?b)"
      using calculation nth_mem [OF b] by (simp add: no_dup_def elems_def distinct_concat_iff)
    ultimately show ?thesis using sub unfolding no_dup_def by blast
  qed
  ultimately have "find_loop lt e (buckets h ! ?b) = lookup h e"
    using sub by (intro option_eqI) (auto simp: find_loop_iff lookup_iff [OF ok f])
  then show ?thesis using b f by (simp add: find_elem_def fits_def)
qed

lemma insert_elem_ok:
  assumes ok: "hash_ok h" and f: "fits h" and new: "lookup h e = None"
  shows "\<exists>h'. insert_elem h (find_bucket h e) e = Some h' \<and> hash_ok h' \<and> same_shape h h' \<and>
    bucket_cnt h' = bucket_cnt h \<and> mset (elems h') = add_mset e (mset (elems h))"
proof -
  let ?b = "find_bucket h e"
  let ?h = "h\<lparr>elem_count := elem_count h + 1, buckets := (buckets h)[?b := e # buckets h ! ?b]\<rparr>"
  have p: "in_place h" using ok by (simp add: hash_ok_def)
  note b = find_bucket_lt [OF p, of e]
  have m: "mset (elems ?h) = mset (e # elems h)" using mset_concat_push [OF b] by (simp add: elems_def)
  have "in_place ?h"
    using in_place_push [of "h\<lparr>elem_count := elem_count h + 1\<rparr>" ?b e] p by (simp add: in_place_elem_count find_bucket_def)
  moreover have "no_dup lt (e # elems h)"
  proof -
    have n: "no_dup lt (elems h)" using ok f by (simp add: hash_ok_def fits_def)
    have no: "\<not> same_elem lt x e" if "x \<in> set (elems h)" for x using that new lookup_None [OF f] by simp
    have "a = b" if "a \<in> set (e # elems h)" "b \<in> set (e # elems h)" "same_elem lt a b" for a b
    proof -
      have "\<not> (a = e \<and> b \<in> set (elems h))" "\<not> (b = e \<and> a \<in> set (elems h))"
        using no that(3) iffD1 [OF same_sym that(3)] by auto
      then show ?thesis using n that unfolding no_dup_def by auto
    qed
    moreover have "e \<notin> set (elems h)" using no same_refl by blast
    ultimately show ?thesis using n by (simp add: no_dup_def)
  qed
  then have "no_dup lt (elems ?h)" using no_dup_mset [OF m] by simp
  ultimately have "hash_ok ?h" using ok mset_eq_length [OF m] f by (simp add: hash_ok_def fits_def)
  then show ?thesis using b m by (auto simp: insert_elem_def same_shape_def)
qed

lemma remove_elem_ok:
  assumes ok: "hash_ok h" and x: "x \<in> set (elems h)"
  shows "hash_ok (remove_elem h x) \<and> same_shape h (remove_elem h x) \<and> bucket_cnt (remove_elem h x) = bucket_cnt h \<and>
    mset (elems (remove_elem h x)) = mset (elems h) - {#x#}"
proof -
  let ?h = "remove_elem h x"
  have d: "distinct (elems h)" using ok by (simp add: hash_ok_def no_dup_def)
  have m: "mset (elems ?h) = mset (remove1 x (elems h))"
    using mset_concat_remove1 [of "buckets h" x] d x by (simp add: remove_elem_def elems_def)
  have "in_place ?h"
  proof -
    have "find_bucket h y = i" if "i < length (buckets h)" "y \<in> set (remove1 x (buckets h ! i))" for i y
    proof -
      have "y \<in> set (buckets h ! i)" using that(2) set_remove1_subset by fast
      then show ?thesis using that(1) ok by (auto simp: hash_ok_def in_place_def)
    qed
    then show ?thesis using ok by (simp add: hash_ok_def in_place_def remove_elem_def find_bucket_def)
  qed
  moreover have "no_dup (hash_less h) (elems ?h)"
    using ok no_dup_mset [OF m] notin_set_remove1 [of _ "elems h"] d by (fastforce simp: hash_ok_def no_dup_def set_remove1_eq)
  moreover have "length (elems ?h) = length (elems h) - 1" "0 < length (elems h)"
    using mset_eq_length [OF m] x by (auto simp: length_remove1)
  then have "elem_count ?h = of_nat (length (elems ?h))" using ok
    by (cases "length (elems h)") (simp_all add: remove_elem_def hash_ok_def)
  ultimately have "hash_ok ?h" using ok by (simp add: hash_ok_def remove_elem_def)
  then show ?thesis using m by (simp add: same_shape_def remove_elem_def)
qed

text \<open>A rehash after a change of the elements.\<close>

lemma lookup_cong:
  assumes "hash_ok h" "fits h" "hash_ok h'" "fits h'" "mset (elems h') = mset (elems h)"
  shows "lookup h' k = lookup h k"
  using mset_eq_setD [OF assms(5)] by (intro option_eqI) (simp add: lookup_iff assms)

lemma rehash_lookup:
  assumes "hash_ok h" "fits h"
  shows "\<exists>h'. rehash mem h = Some h' \<and> hash_ok h' \<and> fits h' \<and> mset (elems h') = mset (elems h) \<and>
    (\<forall>k. lookup h' k = lookup h k)"
proof -
  obtain h' where h': "rehash mem h = Some h'" "hash_ok h'" "same_shape h h'" "mset (elems h') = mset (elems h)"
    using rehash_ok [OF assms(1)] by blast
  then have "fits h'" using assms(2) by (simp add: fits_def same_shape_def)
  then show ?thesis using h' lookup_cong [OF assms h'(2) _ h'(4)] by blast
qed

lemma fits_shape: "same_shape h h' \<Longrightarrow> fits h \<Longrightarrow> fits h'"
  by (simp add: fits_def same_shape_def)

lemma lookup_added:
  assumes "hash_ok h" "fits h" "hash_ok h'" "fits h'" "lookup h e = None"
    "mset (elems h') = add_mset e (mset (elems h))"
  shows "lookup h' k = (if same_elem lt e k then Some e else lookup h k)"
proof (rule option_eqI)
  fix x
  have s: "set (elems h') = insert e (set (elems h))" using mset_eq_setD [of "elems h'" "e # elems h"] assms(6) by simp
  have "\<not> same_elem lt x k" if "same_elem lt e k" "x \<in> set (elems h)"
    using that assms(5) lookup_None [OF assms(2)] same_sym same_trans by blast
  then show "lookup h' k = Some x \<longleftrightarrow> (if same_elem lt e k then Some e else lookup h k) = Some x"
    using lookup_iff [OF assms(3,4), of k x] lookup_iff [OF assms(1,2), of k x] unfolding s by auto
qed

lemma lookup_removed:
  assumes "hash_ok h" "fits h" "hash_ok h'" "fits h'" "x \<in> set (elems h)"
    "mset (elems h') = mset (elems h) - {#x#}"
  shows "lookup h' k = (if same_elem lt x k then None else lookup h k)"
proof (rule option_eqI)
  fix y
  have n: "no_dup lt (elems h)" using assms(1,2) by (simp add: hash_ok_def fits_def)
  have "mset (elems h') = mset (remove1 x (elems h))" using assms(6) by simp
  from mset_eq_setD [OF this] have s: "set (elems h') = set (elems h) - {x}"
    using n set_remove1_eq [of "elems h" x] unfolding no_dup_def by blast
  have "y = x" if "y \<in> set (elems h)" "same_elem lt x k" "same_elem lt y k"
  proof -
    have "same_elem lt y x" using that same_sym same_trans by blast
    then show ?thesis using n that(1) assms(5) unfolding no_dup_def by blast
  qed
  then show "lookup h' k = Some y \<longleftrightarrow> (if same_elem lt x k then None else lookup h k) = Some y"
    using lookup_iff [OF assms(3,4), of k y] lookup_iff [OF assms(1,2), of k y] unfolding s by auto
qed

lemma hash_find_ok: "hash_ok h \<Longrightarrow> fits h \<Longrightarrow> hash_find h e = Some (lookup h e)"
  by (simp add: hash_find_def find_elem_ok)

lemma hash_insert_ok:
  assumes ok: "hash_ok h" and f: "fits h"
  shows "\<exists>h'. hash_insert mem h e = Some (lookup h e, h') \<and> hash_ok h' \<and> fits h' \<and>
    (\<forall>k. lookup h' k = (if lookup h e = None \<and> same_elem lt e k then Some e else lookup h k)) \<and>
    mset (elems h') = (if lookup h e = None then add_mset e (mset (elems h)) else mset (elems h))"
proof (cases "lookup h e = None")
  case True
  obtain h1 where h1: "insert_elem h (find_bucket h e) e = Some h1" "hash_ok h1" "same_shape h h1"
    "mset (elems h1) = add_mset e (mset (elems h))" using insert_elem_ok [OF ok f True] by blast
  note f1 = fits_shape [OF h1(3) f]
  obtain h2 where "rehash mem h1 = Some h2" "hash_ok h2" "fits h2" "mset (elems h2) = mset (elems h1)"
    "\<forall>k. lookup h2 k = lookup h1 k" using rehash_lookup [OF h1(2) f1] by blast
  then show ?thesis using True h1 find_elem_ok [OF ok f] lookup_added [OF ok f h1(2) f1 True h1(4)]
    by (simp add: hash_insert_def)
next
  case False
  obtain h2 where "rehash mem h = Some h2" "hash_ok h2" "fits h2" "mset (elems h2) = mset (elems h)"
    "\<forall>k. lookup h2 k = lookup h k" using rehash_lookup [OF ok f] by blast
  then show ?thesis using False find_elem_ok [OF ok f] by (auto simp: hash_insert_def)
qed

lemma hash_delete_ok:
  assumes ok: "hash_ok h" and f: "fits h"
  shows "\<exists>h'. hash_delete mem h e = Some (lookup h e, h') \<and> hash_ok h' \<and> fits h' \<and>
    (\<forall>k. lookup h' k = (if same_elem lt e k then None else lookup h k)) \<and>
    mset (elems h') = mset (elems h) - (case lookup h e of Some x \<Rightarrow> {#x#} | None \<Rightarrow> {#})"
proof (cases "lookup h e")
  case None
  have "lookup h k = None" if "same_elem lt e k" for k
    using None that lookup_None [OF f] same_sym same_trans by blast
  then show ?thesis using None ok f find_elem_ok [OF ok f] by (auto simp: hash_delete_def)
next
  case (Some x)
  have x: "x \<in> set (elems h)" "same_elem lt x e" using Some lookup_iff [OF ok f] by auto
  have k: "same_elem lt x k \<longleftrightarrow> same_elem lt e k" for k using x(2) same_sym same_trans by blast
  note r = remove_elem_ok [OF ok x(1)]
  have fr: "fits (remove_elem h x)" using r fits_shape f by blast
  obtain h2 where "rehash mem (remove_elem h x) = Some h2" "hash_ok h2" "fits h2"
    "mset (elems h2) = mset (elems (remove_elem h x))" "\<forall>k. lookup h2 k = lookup (remove_elem h x) k"
    using rehash_lookup [OF conjunct1 [OF r] fr] by blast
  then show ?thesis using Some r find_elem_ok [OF ok f] lookup_removed [OF ok f conjunct1 [OF r] fr x(1)] k
    by (simp add: hash_delete_def)
qed

lemma hash_replace_ok:
  assumes ok: "hash_ok h" and f: "fits h"
  shows "\<exists>h'. hash_replace mem h e = Some (lookup h e, h') \<and> hash_ok h' \<and> fits h' \<and>
    (\<forall>k. lookup h' k = (if same_elem lt e k then Some e else lookup h k))"
proof -
  define h0 where "h0 = (case lookup h e of Some x \<Rightarrow> remove_elem h x | None \<Rightarrow> h)"
  have h0: "hash_ok h0 \<and> fits h0 \<and> bucket_cnt h0 = bucket_cnt h \<and>
    (\<forall>k. lookup h0 k = (if same_elem lt e k then None else lookup h k))"
  proof (cases "lookup h e")
    case None
    have "lookup h k = None" if "same_elem lt e k" for k
      using None that lookup_None [OF f] same_sym same_trans by blast
    then show ?thesis using None ok f by (simp add: h0_def)
  next
    case (Some x)
    have x: "x \<in> set (elems h)" "same_elem lt x e" using Some lookup_iff [OF ok f] by auto
    have k: "same_elem lt x k \<longleftrightarrow> same_elem lt e k" for k using x(2) same_sym same_trans by blast
    note r = remove_elem_ok [OF ok x(1)]
    have fr: "fits (remove_elem h x)" using r fits_shape f by blast
    show ?thesis using r fr k lookup_removed [OF ok f conjunct1 [OF r] fr x(1)] by (simp add: h0_def Some)
  qed
  have b: "find_bucket h0 e = find_bucket h e" using h0 f by (simp add: find_bucket_def fits_def)
  have new: "lookup h0 e = None" using h0 by simp
  obtain h1 where h1: "insert_elem h0 (find_bucket h e) e = Some h1" "hash_ok h1" "same_shape h0 h1"
    "mset (elems h1) = add_mset e (mset (elems h0))" using insert_elem_ok [OF _ _ new] h0 unfolding b by blast
  have f1: "fits h1" using fits_shape [OF h1(3)] h0 by blast
  obtain h2 where h2: "rehash mem h1 = Some h2" "hash_ok h2" "fits h2"
    "\<forall>k. lookup h2 k = lookup h1 k" using rehash_lookup [OF h1(2) f1] by blast
  have "lookup h2 k = (if same_elem lt e k then Some e else lookup h k)" for k
    using h2(4) lookup_added [OF _ _ h1(2) f1 new h1(4)] h0 by simp
  then show ?thesis using h1(1) h2 find_elem_ok [OF ok f]
    by (simp add: hash_replace_def h0_def [symmetric])
qed

end

section \<open>Creating, emptying, visiting\<close>

lemma hash_init_ok:
  "mem 64 \<Longrightarrow> \<exists>h. hash_init mem hf lt = (True, h) \<and> hash_ok h \<and> elems h = [] \<and> hash_fun h = hf \<and> hash_less h = lt"
  by (auto simp: hash_init_def hash_ok_def in_place_def elems_def no_dup_def is_power_of_2_def turn_off_least_1bit_def)

lemma chain_loop_append: "chain_loop act (xs @ ys) s = do { s \<leftarrow> chain_loop act xs s; chain_loop act ys s }"
  by (induction xs arbitrary: s) (auto split: bind_splits)

lemma buckets_loop_concat: "buckets_loop act cs s = chain_loop act (concat cs) s"
  by (induction cs arbitrary: s) (auto simp: chain_loop_append split: bind_splits)

text \<open>An action runs once on every element of the table, in the order of the buckets.\<close>

lemma hash_apply_elems: "hash_apply (Some act) h s = chain_loop act (elems h) s"
  by (simp add: hash_apply_def buckets_loop_concat elems_def)

lemma hash_clear_ok:
  assumes "hash_ok h"
  shows "hash_clear destructor h s =
    map_option (\<lambda>s. (s, h\<lparr>buckets := map (\<lambda>_. []) (buckets h), elem_count := 0\<rparr>))
      (case destructor of Some d \<Rightarrow> chain_loop d (elems h) s | None \<Rightarrow> Some s)"
    and "hash_ok (h\<lparr>buckets := map (\<lambda>_. []) (buckets h), elem_count := 0\<rparr>)"
    and "elems (h\<lparr>buckets := map (\<lambda>_. []) (buckets h), elem_count := 0\<rparr>) = []"
proof -
  show e: "elems (h\<lparr>buckets := map (\<lambda>_. []) (buckets h), elem_count := 0\<rparr>) = []" by (simp add: elems_def)
  show "hash_ok (h\<lparr>buckets := map (\<lambda>_. []) (buckets h), elem_count := 0\<rparr>)"
    using assms unfolding hash_ok_def e by (auto simp: in_place_def no_dup_def)
qed (auto simp: hash_clear_def buckets_loop_concat elems_def split: option.splits bind_splits)

text \<open>The iteration idiom of the header comment, with at most \<open>n\<close> calls of \<open>hash_next\<close>.\<close>

primrec iterate :: "nat \<Rightarrow> 'e hash_iterator \<Rightarrow> 'e list option" where
  "iterate 0 i = None" |
  "iterate (Suc n) i = do {
     (r, i) \<leftarrow> hash_next i;
     case r of None \<Rightarrow> Some [] | Some _ \<Rightarrow> do { e \<leftarrow> hash_cur i; es \<leftarrow> iterate n i; Some (e # es) } }"

definition rest_from :: "'e hash \<Rightarrow> nat \<Rightarrow> nat \<Rightarrow> 'e list" where
  "rest_from h b p = drop p (buckets h ! b) @ concat (drop (Suc b) (buckets h))"

lemma next_loop_ok:
  "length (buckets h) = unat (bucket_cnt h) \<Longrightarrow> b < unat (bucket_cnt h) \<Longrightarrow> p \<le> length (buckets h ! b) \<Longrightarrow>
   (rest_from h b p = [] \<longrightarrow> snd (next_loop h b (Suc p)) = None) \<and>
   (rest_from h b p \<noteq> [] \<longrightarrow> (\<exists>b' p'. next_loop h b (Suc p) = (b', Some (Suc p')) \<and> b' < unat (bucket_cnt h) \<and>
      Suc p' \<le> length (buckets h ! b') \<and> rest_from h b p = buckets h ! b' ! p' # rest_from h b' (Suc p')))"
proof (induction "unat (bucket_cnt h) - b" arbitrary: b p rule: less_induct)
  case less
  show ?case
  proof (cases "p = length (buckets h ! b)")
    case False
    then show ?thesis using less.prems
      by (subst next_loop.simps) (simp add: rest_from_def Cons_nth_drop_Suc [symmetric])
  next
    case True
    show ?thesis
    proof (cases "unat (bucket_cnt h) \<le> Suc b")
      case last: True
      then show ?thesis using less.prems True by (subst (1 2) next_loop.simps) (simp add: rest_from_def)
    next
      case False
      then have b: "Suc b < length (buckets h)" using less.prems by simp
      have r: "rest_from h b p = rest_from h (Suc b) 0"
        using True Cons_nth_drop_Suc [OF b, symmetric] by (simp add: rest_from_def)
      have n: "next_loop h b (Suc p) = next_loop h (Suc b) (Suc 0)" using True False by (subst next_loop.simps) simp
      show ?thesis unfolding r n by (rule less.hyps) (use False less.prems b in auto)
    qed
  qed
qed

lemma iterate_rest:
  assumes len: "length (buckets h) = unat (bucket_cnt h)"
  shows "b < unat (bucket_cnt h) \<Longrightarrow> p \<le> length (buckets h ! b) \<Longrightarrow> length (rest_from h b p) < n \<Longrightarrow>
    iterate n \<lparr>it_hash = h, it_bucket = b, it_elem = Some p\<rparr> = Some (rest_from h b p)"
proof (induction n arbitrary: b p)
  case (Suc n)
  note N = next_loop_ok [OF len Suc.prems(1,2)]
  show ?case
  proof (cases "rest_from h b p = []")
    case True
    then have "snd (next_loop h b (Suc p)) = None" using N by blast
    then show ?thesis using True by (auto simp: hash_next_def hash_cur_def Let_def split: prod.splits)
  next
    case False
    then obtain b' p' where n: "next_loop h b (Suc p) = (b', Some (Suc p'))" "b' < unat (bucket_cnt h)"
      "Suc p' \<le> length (buckets h ! b')" "rest_from h b p = buckets h ! b' ! p' # rest_from h b' (Suc p')"
      using N by blast
    have "length (rest_from h b' (Suc p')) < n" using Suc.prems(3) n(4) by simp
    from Suc.IH [OF n(2,3) this] show ?thesis using n(1,4) by (simp add: hash_next_def hash_cur_def)
  qed
qed simp

section \<open>Properties\<close>

text \<open>C22: \<^verbatim>\<open>hash_insert\<close> refines insertion into a map.  For any order and hash function that
  agree on equal elements, whatever the outcome of the allocations inside, the call returns the
  equal element already stored, if any, leaving the table as it was, and otherwise adds the new one;
  every other key finds what it found before, and the table invariant is kept.\<close>

theorem hash_insert_map:
  assumes c: "hash_functions (hash_less h) (hash_fun h)" and ok: "hash_ok h"
  shows "\<exists>h'. hash_insert mem h e = Some (lookup h e, h') \<and> hash_ok h' \<and>
    (\<forall>k. hash_find h' k =
      Some (if lookup h e = None \<and> same_elem (hash_less h) e k then Some e else lookup h k))"
proof -
  have f: "hash_functions.fits (hash_less h) (hash_fun h) h" by (simp add: hash_functions.fits_def [OF c])
  show ?thesis
    using hash_functions.hash_insert_ok [OF c ok f, of mem e] hash_functions.hash_find_ok [OF c] by fastforce
qed

definition demo_hash :: "u32 hash" where
  "demo_hash = \<lparr>elem_count = 3, bucket_cnt = 4, buckets = [[8, 4], [], [2], []], hash_fun = (\<lambda>x. x), hash_less = (<)\<rparr>"

lemma demo_hash_ok: "hash_functions (hash_less demo_hash) (hash_fun demo_hash)" "hash_ok demo_hash"
proof -
  show "hash_functions (hash_less demo_hash) (hash_fun demo_hash)"
    by unfold_locales (auto simp: demo_hash_def same_elem_def)
  have "find_bucket demo_hash e = i" if i: "i < 4" and e: "e \<in> set (buckets demo_hash ! i)" for i e
  proof -
    consider "i = 0" | "i = 1" | "i = 2" | "i = 3" using i by linarith
    then show ?thesis using e by cases (auto simp: demo_hash_def find_bucket_def)
  qed
  then have "in_place demo_hash" by (simp add: in_place_def) (simp add: demo_hash_def)
  then show "hash_ok demo_hash"
    by (simp add: hash_ok_def) (auto simp: demo_hash_def elems_def no_dup_def is_power_of_2_def turn_off_least_1bit_def same_elem_def)
qed

theorem hash_insert_map_witness:
  "\<exists>h'. hash_insert (\<lambda>_. True) demo_hash 6 = Some (lookup demo_hash 6, h') \<and> hash_ok h' \<and>
    (\<forall>k. hash_find h' k = Some (if lookup demo_hash 6 = None \<and> same_elem (hash_less demo_hash) 6 k then Some 6 else lookup demo_hash k))"
  by (rule hash_insert_map [OF demo_hash_ok])

text \<open>C23: \<^verbatim>\<open>hash_delete\<close> refines deletion from a map: it returns the element equal to its
  argument, if any, which is found no more, while all other keys find what they found before,
  whether or not the table shrinks.\<close>

theorem hash_delete_map:
  assumes c: "hash_functions (hash_less h) (hash_fun h)" and ok: "hash_ok h"
  shows "\<exists>h'. hash_delete mem h e = Some (lookup h e, h') \<and> hash_ok h' \<and>
    (\<forall>k. hash_find h' k = Some (if same_elem (hash_less h) e k then None else lookup h k))"
proof -
  have f: "hash_functions.fits (hash_less h) (hash_fun h) h" by (simp add: hash_functions.fits_def [OF c])
  show ?thesis
    using hash_functions.hash_delete_ok [OF c ok f, of mem e] hash_functions.hash_find_ok [OF c] by fastforce
qed

theorem hash_delete_map_witness:
  "\<exists>h'. hash_delete (\<lambda>_. True) demo_hash 8 = Some (lookup demo_hash 8, h') \<and> hash_ok h' \<and>
    (\<forall>k. hash_find h' k = Some (if same_elem (hash_less demo_hash) 8 k then None else lookup demo_hash k))"
  by (rule hash_delete_map [OF demo_hash_ok])

text \<open>Iterating from \<^verbatim>\<open>hash_first\<close> with \<^verbatim>\<open>hash_next\<close> until the null pointer yields every
  element of the table exactly once, in bucket order, skipping empty buckets.\<close>

theorem hash_iteration:
  assumes "hash_ok h"
  shows "iterate (Suc (length (elems h))) (hash_first h) = Some (elems h) \<and> distinct (elems h)"
proof -
  have l: "length (buckets h) = unat (bucket_cnt h)" and z: "0 < unat (bucket_cnt h)"
    using assms by (auto simp: hash_ok_def in_place_def)
  have "buckets h ! 0 # drop (Suc 0) (buckets h) = buckets h"
    using Cons_nth_drop_Suc [of 0 "buckets h"] l z by simp
  then have "concat (buckets h ! 0 # drop (Suc 0) (buckets h)) = elems h" by (simp add: elems_def)
  then have "rest_from h 0 0 = elems h" by (simp add: rest_from_def)
  then show ?thesis
    using iterate_rest [OF l z, of 0 "Suc (length (elems h))"] assms by (simp add: hash_first_def hash_ok_def no_dup_def)
qed

theorem hash_iteration_witness:
  "iterate (Suc (length (elems demo_hash))) (hash_first demo_hash) = Some (elems demo_hash) \<and> distinct (elems demo_hash)"
  by (rule hash_iteration [OF demo_hash_ok(2)])

end
