(* ===== verification/Vm_Page.thy ===== *)
theory Vm_Page
  imports Hash
begin

text \<open>
  The supplemental page table of \<^verbatim>\<open>vm/page.c\<close>: a hash table of page entries keyed by their
  virtual page address.  An element is the address of the entry with the entry.
\<close>

section \<open>Entries and their functions\<close>

record vm_entry =
  vm_type :: u8
  vaddr :: ptr
  writable :: bool
  is_loaded :: bool
  vm_file :: ptr
  offset :: u32
  read_bytes :: u32
  zero_bytes :: u32
  swap_slot :: u32

type_synonym vme = "ptr \<times> vm_entry"

text \<open>\<open>hash_int\<close> never fails (\<open>hash_int_total\<close>).\<close>

definition vm_hash_func :: "vme \<Rightarrow> u32" where
  "vm_hash_func e = the (hash_int (vaddr (snd e)))"

definition vm_less_func :: "vme \<Rightarrow> vme \<Rightarrow> bool" where
  "vm_less_func a b \<longleftrightarrow> vaddr (snd a) < vaddr (snd b)"

section \<open>The operations\<close>

definition vm_init :: "(u32 \<Rightarrow> bool) \<Rightarrow> vme hash" where
  "vm_init mem = snd (hash_init mem vm_hash_func vm_less_func)"

definition insert_vme :: "(u32 \<Rightarrow> bool) \<Rightarrow> vme hash \<Rightarrow> vme \<Rightarrow> (bool \<times> vme hash) option" where
  "insert_vme mem vm e = do {
     (old, vm) \<leftarrow> hash_insert mem vm e;
     Some (if old \<noteq> None then True else False, vm) }"

definition delete_vme :: "(u32 \<Rightarrow> bool) \<Rightarrow> vme hash \<Rightarrow> vme \<Rightarrow> (bool \<times> vme hash) option" where
  "delete_vme mem vm e = do {
     (found, vm) \<leftarrow> hash_delete mem vm e;
     Some (if found \<noteq> None then True else False, vm) }"

text \<open>
  The search key is a freshly allocated entry of unknown contents (\<open>target\<close>, or none when
  \<^verbatim>\<open>malloc\<close> fails, which faults) with its page address set.  \<^verbatim>\<open>pg_roung_down\<close>, which the source
  calls, is declared nowhere in it and is the parameter \<open>pg_down\<close>.
\<close>

definition find_vme :: "(ptr \<Rightarrow> ptr) \<Rightarrow> vme option \<Rightarrow> vme hash \<Rightarrow> ptr \<Rightarrow> vme option option" where
  "find_vme pg_down target vm va = do {
     (a, t) \<leftarrow> target;
     hash_find vm (a, t\<lparr>vaddr := pg_down va\<rparr>) }"

definition vm_destroy :: "vme hash \<Rightarrow> vme hash option" where
  "vm_destroy vm = map_option snd (hash_destroy (None :: (vme \<Rightarrow> unit \<Rightarrow> unit option) option) vm ())"

section \<open>The contract of the hash table holds\<close>

lemma hash_int_total: "\<exists>h. hash_int i = Some h"
  by (simp add: hash_int_def hash_bytes_def le_bytes_def)

lemma same_vme: "same_elem vm_less_func a b \<longleftrightarrow> vaddr (snd a) = vaddr (snd b)"
  by (auto simp: same_elem_def vm_less_func_def)

interpretation vm: hash_functions vm_less_func vm_hash_func
  by unfold_locales (auto simp: vm_less_func_def vm_hash_func_def same_elem_def)

definition vm_ok :: "vme hash \<Rightarrow> bool" where
  "vm_ok vm \<longleftrightarrow> hash_ok vm \<and> hash_less vm = vm_less_func \<and> hash_fun vm = vm_hash_func"

lemma vm_ok_fits: "vm_ok vm \<longleftrightarrow> hash_ok vm \<and> vm.fits vm"
  by (auto simp: vm_ok_def vm.fits_def)

text \<open>The page table as a map from page addresses to entries.\<close>

definition page_of :: "vme hash \<Rightarrow> ptr \<Rightarrow> vme option" where
  "page_of vm p = List.find (\<lambda>e. vaddr (snd e) = p) (elems vm)"

lemma find_loop_find: "find_loop vm_less_func k es = List.find (\<lambda>e. vaddr (snd e) = vaddr (snd k)) es"
  by (induction es) (auto simp: same_vme)

lemma lookup_page: "vm_ok vm \<Longrightarrow> lookup vm k = page_of vm (vaddr (snd k))"
  by (simp add: lookup_def page_of_def vm_ok_def find_loop_find)

lemma vm_init_ok: "mem 64 \<Longrightarrow> vm_ok (vm_init mem) \<and> page_of (vm_init mem) p = None"
  using hash_init_ok [of mem vm_hash_func vm_less_func] by (auto simp: vm_init_def vm_ok_def page_of_def)

text \<open>C38: The supplemental page table refines a map from page addresses to entries: inserting an
  entry binds its page unless it is bound already, deleting unbinds it, and both report whether the
  page was bound before (so a successful insertion returns \<^verbatim>\<open>false\<close>).\<close>

theorem page_table_map:
  assumes "vm_ok vm"
  shows "(\<exists>vm'. insert_vme mem vm e = Some (page_of vm (vaddr (snd e)) \<noteq> None, vm') \<and> vm_ok vm' \<and>
      page_of vm' = (if page_of vm (vaddr (snd e)) = None then (page_of vm)(vaddr (snd e) \<mapsto> e) else page_of vm)) \<and>
    (\<exists>vm'. delete_vme mem vm e = Some (page_of vm (vaddr (snd e)) \<noteq> None, vm') \<and> vm_ok vm' \<and>
      page_of vm' = (page_of vm)(vaddr (snd e) := None)) \<and>
    find_vme pg_down (Some t) vm va = Some (page_of vm (pg_down va))"
proof (intro conjI)
  note a = assms [unfolded vm_ok_fits]
  have ext: "page_of vm' p = lookup vm' (fst e, (snd e)\<lparr>vaddr := p\<rparr>)" if "vm_ok vm'" for vm' p
    using lookup_page [OF that] by simp
  obtain h' where "hash_insert mem vm e = Some (lookup vm e, h')" "hash_ok h'" "vm.fits h'"
    "\<forall>k. lookup h' k = (if lookup vm e = None \<and> same_elem vm_less_func e k then Some e else lookup vm k)"
    using vm.hash_insert_ok [OF conjunct1 [OF a] conjunct2 [OF a]] by blast
  moreover from this have o: "vm_ok h'" by (simp add: vm_ok_fits)
  ultimately show "\<exists>vm'. insert_vme mem vm e = Some (page_of vm (vaddr (snd e)) \<noteq> None, vm') \<and> vm_ok vm' \<and>
      page_of vm' = (if page_of vm (vaddr (snd e)) = None then (page_of vm)(vaddr (snd e) \<mapsto> e) else page_of vm)"
    by (auto simp: insert_vme_def lookup_page [OF assms] ext [OF o] same_vme fun_eq_iff)
  obtain h' where "hash_delete mem vm e = Some (lookup vm e, h')" "hash_ok h'" "vm.fits h'"
    "\<forall>k. lookup h' k = (if same_elem vm_less_func e k then None else lookup vm k)"
    using vm.hash_delete_ok [OF conjunct1 [OF a] conjunct2 [OF a]] by blast
  moreover from this have o: "vm_ok h'" by (simp add: vm_ok_fits)
  ultimately show "\<exists>vm'. delete_vme mem vm e = Some (page_of vm (vaddr (snd e)) \<noteq> None, vm') \<and> vm_ok vm' \<and>
      page_of vm' = (page_of vm)(vaddr (snd e) := None)"
    by (auto simp: delete_vme_def lookup_page [OF assms] ext [OF o] same_vme fun_eq_iff)
  show "find_vme pg_down (Some t) vm va = Some (page_of vm (pg_down va))"
    using vm.hash_find_ok a lookup_page [OF assms] by (simp add: find_vme_def split: prod.split)
qed

definition demo_entry :: vm_entry where
  "demo_entry = \<lparr>vm_type = 0, vaddr = 0x8048000, writable = True, is_loaded = False, vm_file = 0, offset = 0,
     read_bytes = 4096, zero_bytes = 0, swap_slot = 0\<rparr>"

theorem page_table_map_witness:
  "\<exists>vm'. insert_vme (\<lambda>_. True) (vm_init (\<lambda>_. True)) (0xC0101000, demo_entry) = Some (False, vm') \<and>
    vm_ok vm' \<and> page_of vm' 0x8048000 = Some (0xC0101000, demo_entry)"
proof -
  have v: "vm_ok (vm_init (\<lambda>_. True))" "page_of (vm_init (\<lambda>_. True)) p = None" for p
    using vm_init_ok [of "\<lambda>_. True"] by simp_all
  show ?thesis
    using conjunct1 [OF page_table_map [OF v(1), of "\<lambda>_. True" "(0xC0101000, demo_entry)"]] v(2)
    by (auto simp: demo_entry_def)
qed

end
