(* ===== verification/Stdlib.thy ===== *)
theory Stdlib
  imports Prelude
begin

text \<open>
  \<^verbatim>\<open>lib/stdlib.c\<close> and the character classes of \<^verbatim>\<open>lib/ctype.h\<close>: number parsing, heap sort
  and binary search.  A C string is the list of its characters before the null byte; an array is
  the list of its elements, indexed from 1 where the code does; an access outside it is \<open>None\<close>.
\<close>

section \<open>Characters\<close>

abbreviation chr :: "char \<Rightarrow> int" where
  "chr c \<equiv> of_char c"

definition isdigit :: "char \<Rightarrow> bool" where
  "isdigit c \<longleftrightarrow> chr c \<ge> chr (CHR ''0'') \<and> chr c \<le> chr (CHR ''9'')"

definition isspace :: "char \<Rightarrow> bool" where
  "isspace c \<longleftrightarrow> chr c = 32 \<or> chr c = 12 \<or> chr c = 10 \<or> chr c = 13 \<or> chr c = 9 \<or> chr c = 11"

definition isprint :: "char \<Rightarrow> bool" where
  "isprint c \<longleftrightarrow> chr c \<ge> 32 \<and> chr c < 127"

section \<open>Numbers\<close>

primrec skip_space :: "string \<Rightarrow> string" where
  "skip_space [] = []" |
  "skip_space (c # s) = (if isspace c then skip_space s else c # s)"

primrec atoi_digits :: "int \<Rightarrow> string \<Rightarrow> int option" where
  "atoi_digits value [] = Some value" |
  "atoi_digits value (c # s) =
     (if isdigit c then do { v \<leftarrow> s32 (value * 10); v \<leftarrow> s32 (v - (chr c - chr (CHR ''0''))); atoi_digits v s }
      else Some value)"

definition atoi :: "string \<Rightarrow> int option" where
  "atoi s =
     (let s = skip_space s;
          (negative, s) =
            (case s of
               [] \<Rightarrow> (False, s)
             | c # t \<Rightarrow> if c = CHR ''+'' then (False, t) else if c = CHR ''-'' then (True, t) else (False, s))
      in do {
        value \<leftarrow> atoi_digits 0 s;
        if \<not> negative then s32 (- value) else Some value })"

section \<open>Heap sort\<close>

text \<open>The element with 1-based index \<open>k\<close>.\<close>

definition elt :: "'a list \<Rightarrow> nat \<Rightarrow> 'a option" where
  "elt xs k = (if 1 \<le> k \<and> k \<le> length xs then Some (xs ! (k - 1)) else None)"

definition do_swap :: "'a list \<Rightarrow> nat \<Rightarrow> nat \<Rightarrow> 'a list option" where
  "do_swap xs a b = do {
     x \<leftarrow> elt xs a;
     y \<leftarrow> elt xs b;
     Some (xs[a - 1 := y, b - 1 := x]) }"

definition do_compare :: "('a \<Rightarrow> 'a \<Rightarrow> int) \<Rightarrow> 'a list \<Rightarrow> nat \<Rightarrow> nat \<Rightarrow> int option" where
  "do_compare cmp xs a b = do {
     x \<leftarrow> elt xs a;
     y \<leftarrow> elt xs b;
     Some (cmp x y) }"

text \<open>\<^verbatim>\<open>size_t\<close> wraps around at \<open>2 ^ 32\<close>.\<close>

definition size_wrap :: "nat \<Rightarrow> nat" where
  "size_wrap n = n mod 2 ^ 32"

partial_function (option) heapify :: "('a \<Rightarrow> 'a \<Rightarrow> int) \<Rightarrow> 'a list \<Rightarrow> nat \<Rightarrow> nat \<Rightarrow> 'a list option" where
  [code]: "heapify cmp xs i cnt = do {
     let left = size_wrap (2 * i);
     let right = size_wrap (2 * i + 1);
     m \<leftarrow> (if left \<le> cnt then do { c \<leftarrow> do_compare cmp xs left i; Some (if c > 0 then left else i) } else Some i);
     m \<leftarrow> (if right \<le> cnt then do { c \<leftarrow> do_compare cmp xs right m; Some (if c > 0 then right else m) } else Some m);
     if m = i then Some xs
     else do { xs \<leftarrow> do_swap xs i m; heapify cmp xs m cnt } }"

primrec build_loop :: "('a \<Rightarrow> 'a \<Rightarrow> int) \<Rightarrow> nat \<Rightarrow> 'a list \<Rightarrow> nat \<Rightarrow> 'a list option" where
  "build_loop cmp 0 xs cnt = Some xs" |
  "build_loop cmp (Suc i) xs cnt = do { xs \<leftarrow> heapify cmp xs (Suc i) cnt; build_loop cmp i xs cnt }"

fun sort_loop :: "('a \<Rightarrow> 'a \<Rightarrow> int) \<Rightarrow> nat \<Rightarrow> 'a list \<Rightarrow> 'a list option" where
  "sort_loop cmp i xs =
     (if i > 1
      then do { xs \<leftarrow> do_swap xs 1 i; xs \<leftarrow> heapify cmp xs 1 (i - 1); sort_loop cmp (i - 1) xs }
      else Some xs)"

declare sort_loop.simps [simp del]

definition sort_array :: "('a \<Rightarrow> 'a \<Rightarrow> int) \<Rightarrow> 'a list \<Rightarrow> 'a list option" where
  "sort_array cmp xs = do {
     let cnt = length xs;
     xs \<leftarrow> build_loop cmp (cnt div 2) xs cnt;
     sort_loop cmp cnt xs }"

definition compare_thunk :: "'a \<Rightarrow> 'a \<Rightarrow> ('a \<Rightarrow> 'a \<Rightarrow> int) \<Rightarrow> int" where
  "compare_thunk a b compare = compare a b"

definition qsort :: "('a \<Rightarrow> 'a \<Rightarrow> int) \<Rightarrow> 'a list \<Rightarrow> 'a list option" where
  "qsort compare xs = sort_array (\<lambda>a b. compare_thunk a b compare) xs"

section \<open>Binary search\<close>

text \<open>\<open>lo\<close> and \<open>hi\<close> (\<^verbatim>\<open>first\<close> and \<^verbatim>\<open>last\<close>) are element numbers; the result is the number of a match or null.\<close>

function binary_search_loop :: "('k \<Rightarrow> 'a \<Rightarrow> int) \<Rightarrow> 'k \<Rightarrow> 'a list \<Rightarrow> nat \<Rightarrow> nat \<Rightarrow> nat option" where
  "binary_search_loop cmp key xs lo hi =
     (if lo < hi
      then let range = hi - lo; middle = lo + range div 2; c = cmp key (xs ! middle)
        in if c < 0 then binary_search_loop cmp key xs lo middle
           else if c > 0 then binary_search_loop cmp key xs (middle + 1) hi
           else Some middle
      else None)"
  by pat_completeness auto
termination by (relation "measure (\<lambda>(cmp, key, xs, lo, hi). hi - lo)") auto

declare binary_search_loop.simps [simp del]

definition binary_search :: "('k \<Rightarrow> 'a \<Rightarrow> int) \<Rightarrow> 'k \<Rightarrow> 'a list \<Rightarrow> nat option" where
  "binary_search cmp key xs = binary_search_loop cmp key xs 0 (length xs)"

definition bsearch :: "('a \<Rightarrow> 'a \<Rightarrow> int) \<Rightarrow> 'a \<Rightarrow> 'a list \<Rightarrow> nat option" where
  "bsearch compare key xs = binary_search (\<lambda>a b. compare_thunk a b compare) key xs"

section \<open>The sort is a sort\<close>

text \<open>The contract of a comparison function: its sign is a strict weak order, the same in both directions.\<close>

locale comparison =
  fixes cmp :: "'a \<Rightarrow> 'a \<Rightarrow> int"
  assumes order: "strict_weak (\<lambda>x y. cmp x y < 0)"
    and sign: "cmp x y > 0 \<longleftrightarrow> cmp y x < 0"
begin

abbreviation lt :: "'a \<Rightarrow> 'a \<Rightarrow> bool" where
  "lt x y \<equiv> cmp x y < 0"

abbreviation at :: "'a list \<Rightarrow> nat \<Rightarrow> 'a" where
  "at xs k \<equiv> xs ! (k - 1)"

definition heap :: "nat \<Rightarrow> nat \<Rightarrow> 'a list \<Rightarrow> bool" where
  "heap l n xs \<longleftrightarrow> (\<forall>j. l \<le> j div 2 \<longrightarrow> j \<le> n \<longrightarrow> \<not> lt (at xs (j div 2)) (at xs j))"

text \<open>A heap but for the children of \<open>i\<close>, which do not exceed its parent.\<close>

definition near_heap :: "nat \<Rightarrow> nat \<Rightarrow> nat \<Rightarrow> 'a list \<Rightarrow> bool" where
  "near_heap l n i xs \<longleftrightarrow>
     (\<forall>j. l \<le> j div 2 \<longrightarrow> j \<le> n \<longrightarrow> j div 2 \<noteq> i \<longrightarrow> \<not> lt (at xs (j div 2)) (at xs j)) \<and>
     (l \<le> i div 2 \<longrightarrow> (\<forall>j. j \<le> n \<longrightarrow> j div 2 = i \<longrightarrow> \<not> lt (at xs (i div 2)) (at xs j)))"

lemma swap_at:
  assumes "1 \<le> a" "a < b" "b \<le> length xs"
  shows "do_swap xs a b = Some (xs[a - 1 := at xs b, b - 1 := at xs a])"
    and "k \<ge> 1 \<Longrightarrow> at (xs[a - 1 := at xs b, b - 1 := at xs a]) k = (if k = a then at xs b else if k = b then at xs a else at xs k)"
    and "mset (xs[a - 1 := at xs b, b - 1 := at xs a]) = mset xs"
    and "b \<le> n \<Longrightarrow> drop n (xs[a - 1 := at xs b, b - 1 := at xs a]) = drop n xs"
  using assms by (auto simp: do_swap_def elt_def nth_list_update mset_swap)

text \<open>The child chosen by one round of \<open>heapify\<close>.\<close>

definition larger :: "'a list \<Rightarrow> nat \<Rightarrow> nat \<Rightarrow> nat \<Rightarrow> nat" where
  "larger xs n m c = (if c \<le> n \<and> lt (at xs m) (at xs c) then c else m)"

lemma heapify_unfold:
  assumes "n < 2 ^ 31" "n \<le> length xs" "1 \<le> i" "i \<le> n"
  shows "heapify cmp xs i n =
    (let m = larger xs n (larger xs n i (2 * i)) (2 * i + 1)
     in if m = i then Some xs else do { xs \<leftarrow> do_swap xs i m; heapify cmp xs m n })"
proof -
  have w: "size_wrap (2 * i) = 2 * i" "size_wrap (2 * i + 1) = 2 * i + 1" using assms by (simp_all add: size_wrap_def)
  have c: "do_compare cmp xs a b = Some (cmp (at xs a) (at xs b))" if "1 \<le> a" "a \<le> n" "1 \<le> b" "b \<le> n" for a b
    using that assms(2) by (simp add: do_compare_def elt_def)
  let ?m = "larger xs n i (2 * i)"
  have 1: "(if 2 * i \<le> n then do { c \<leftarrow> do_compare cmp xs (2 * i) i; Some (if c > 0 then 2 * i else i) } else Some i) = Some ?m"
    using assms c [of "2 * i" i] by (simp add: larger_def sign)
  have m: "1 \<le> ?m" "?m \<le> n" using assms by (auto simp: larger_def)
  have 2: "(if 2 * i + 1 \<le> n then do { c \<leftarrow> do_compare cmp xs (2 * i + 1) ?m; Some (if c > 0 then 2 * i + 1 else ?m) } else Some ?m) =
    Some (larger xs n ?m (2 * i + 1))"
    using assms c [of "2 * i + 1" ?m] m by (simp add: larger_def sign)
  show ?thesis
    by (subst heapify.simps) (simp only: w Let_def 1 2 bind.bind_lunit)
qed

sublocale ord: strict_weak "\<lambda>x y. cmp x y < 0"
  by (rule order)

lemma larger_best:
  fixes xs :: "'a list" and n i j :: nat
  defines "m1 \<equiv> larger xs n i (2 * i)"
  defines "m \<equiv> larger xs n m1 (2 * i + 1)"
  assumes "1 \<le> i" "i \<le> n"
  shows "m = i \<or> m div 2 = i" "i \<le> m" "m \<le> n" "m \<noteq> i \<Longrightarrow> lt (at xs i) (at xs m) \<and> i < m"
    "j \<le> n \<Longrightarrow> j div 2 = i \<Longrightarrow> \<not> lt (at xs m) (at xs j)"
proof -
  have 1: "m1 = i \<or> m1 = 2 * i \<and> 2 * i \<le> n \<and> lt (at xs i) (at xs (2 * i))" by (simp add: m1_def larger_def)
  have 2: "m = m1 \<or> m = 2 * i + 1 \<and> 2 * i + 1 \<le> n \<and> lt (at xs m1) (at xs (2 * i + 1))" by (simp add: m_def larger_def)
  show "m = i \<or> m div 2 = i" "i \<le> m" "m \<le> n" using 1 2 assms(3,4) by auto
  have m1: "\<not> lt (at xs m1) (at xs i)" using 1 ord.asym ord.irrefl by auto
  then have gt: "lt (at xs i) (at xs (2 * i + 1))" if "lt (at xs m1) (at xs (2 * i + 1))"
    using that ord.neg_trans by blast
  show "lt (at xs i) (at xs m) \<and> i < m" if "m \<noteq> i" using that 1 2 gt assms(3) by auto
  assume j: "j \<le> n" "j div 2 = i"
  then consider "j = 2 * i" | "j = 2 * i + 1" by linarith
  then show "\<not> lt (at xs m) (at xs j)"
  proof cases
    case 1
    then have a: "\<not> lt (at xs m1) (at xs j)" using j(1) ord.irrefl by (auto simp: m1_def larger_def)
    have "\<not> lt (at xs m) (at xs m1)" using 2 ord.asym ord.irrefl by auto
    then show ?thesis using a ord.le_trans by blast
  next
    case 2
    then show ?thesis using j(1) ord.irrefl by (auto simp: m_def larger_def)
  qed
qed

lemma heapify_ok:
  "n < 2 ^ 31 \<Longrightarrow> n \<le> length xs \<Longrightarrow> 1 \<le> l \<Longrightarrow> l \<le> i \<Longrightarrow> i \<le> n \<Longrightarrow> near_heap l n i xs \<Longrightarrow>
   \<exists>ys. heapify cmp xs i n = Some ys \<and> mset ys = mset xs \<and> drop n ys = drop n xs \<and> heap l n ys"
proof (induction "n - i" arbitrary: i xs rule: less_induct)
  case less
  note prems = less.prems
  have i1: "1 \<le> i" using prems by simp
  define m where "m = larger xs n (larger xs n i (2 * i)) (2 * i + 1)"
  note M = larger_best [OF i1 prems(5), where xs = xs, folded m_def]
  have u: "heapify cmp xs i n = (if m = i then Some xs else do { xs \<leftarrow> do_swap xs i m; heapify cmp xs m n })"
    unfolding heapify_unfold [OF prems(1,2) i1 prems(5)] Let_def m_def ..
  show ?case
  proof (cases "m = i")
    case True
    have "heap l n xs"
      unfolding heap_def
    proof (intro allI impI)
      fix j assume "l \<le> j div 2" "j \<le> n"
      then show "\<not> lt (at xs (j div 2)) (at xs j)"
        using M(5) [of j] True prems(6) by (cases "j div 2 = i") (auto simp: near_heap_def)
    qed
    then show ?thesis using u True by simp
  next
    case False
    then have mi: "i < m" "m div 2 = i" "lt (at xs i) (at xs m)" using M(1,4) by auto
    let ?ys = "xs[i - 1 := at xs m, m - 1 := at xs i]"
    note S = swap_at [OF i1 mi(1) le_trans [OF M(3) prems(2)]]
    have par: "\<not> lt (at ?ys (j div 2)) (at ?ys j)" if j: "l \<le> j div 2" "j \<le> n" "j div 2 \<noteq> m" for j
    proof -
      have j1: "1 \<le> j" "1 \<le> j div 2" using j(1) prems(3) by auto
      consider (c1) "j div 2 = i" "j = m" | (c2) "j div 2 = i" "j \<noteq> m" | (c3) "j = i" | (c4) "j div 2 \<noteq> i" "j \<noteq> i" "j \<noteq> m"
        using mi by auto
      then show ?thesis
      proof cases
        case c1 then show ?thesis using S(2) [of i] S(2) [of m] i1 mi(1,2) ord.asym [OF mi(3)] by simp
      next
        case c2
        then have "j \<noteq> i" using j1 by auto
        then show ?thesis using c2 S(2) j1 M(5) [of j] j by simp
      next
        case c3
        then have "j div 2 \<noteq> i" "j div 2 \<noteq> m" using j1 mi by auto
        moreover have "\<not> lt (at xs (i div 2)) (at xs m)"
          using prems(6) j(1) c3 M(3) mi(2) unfolding near_heap_def by blast
        ultimately show ?thesis using S(2) [of "j div 2"] S(2) [of j] j1 c3 by simp
      next
        case c4
        then show ?thesis using S(2) [of "j div 2"] S(2) [of j] j1 j prems(6) unfolding near_heap_def by simp
      qed
    qed
    have "near_heap l n m ?ys"
      unfolding near_heap_def
    proof (intro conjI allI impI)
      fix j assume "l \<le> j div 2" "j \<le> n" "j div 2 \<noteq> m"
      then show "\<not> lt (at ?ys (j div 2)) (at ?ys j)" by (rule par)
    next
      fix j assume j: "j \<le> n" "j div 2 = m"
      then have "\<not> lt (at xs m) (at xs j)" using prems(4,6) mi unfolding near_heap_def by auto
      moreover have "j \<noteq> i" "j \<noteq> m" "1 \<le> j" using j mi by auto
      ultimately show "\<not> lt (at ?ys (m div 2)) (at ?ys j)" using S(2) [of i] S(2) [of j] i1 mi(2) by simp
    qed
    moreover have "n - m < n - i" using mi(1) M(3) by linarith
    ultimately obtain zs where "heapify cmp ?ys m n = Some zs" "mset zs = mset ?ys" "drop n zs = drop n ?ys" "heap l n zs"
      using less.hyps [of m ?ys] prems M(3) mi(1) by auto
    then show ?thesis using u False S(1,3) S(4) [OF M(3)] by auto
  qed
qed

lemma build_ok:
  "n < 2 ^ 31 \<Longrightarrow> n = length xs \<Longrightarrow> i \<le> n div 2 \<Longrightarrow> heap (Suc i) n xs \<Longrightarrow>
   \<exists>ys. build_loop cmp i xs n = Some ys \<and> mset ys = mset xs \<and> heap 1 n ys"
proof (induction i arbitrary: xs)
  case 0 then show ?case by simp
next
  case (Suc i)
  have "near_heap (Suc i) n (Suc i) xs" using Suc.prems(4) by (auto simp: near_heap_def heap_def)
  moreover have i: "Suc i \<le> n" using Suc.prems(3) by auto
  ultimately obtain ys where ys: "heapify cmp xs (Suc i) n = Some ys" "mset ys = mset xs" "heap (Suc i) n ys"
    using heapify_ok [OF Suc.prems(1) eq_imp_le [OF Suc.prems(2)] _ _ i] by auto
  obtain zs where "build_loop cmp i ys n = Some zs" "mset zs = mset ys" "heap 1 n zs"
    using Suc.IH [of ys] Suc.prems ys mset_eq_length [OF ys(2)] by auto
  then show ?case using ys by auto
qed

lemma heap_top: "heap 1 n xs \<Longrightarrow> 1 \<le> k \<Longrightarrow> k \<le> n \<Longrightarrow> \<not> lt (at xs 1) (at xs k)"
proof (induction k rule: less_induct)
  case (less k)
  show ?case
  proof (cases "k = 1")
    case True then show ?thesis using ord.irrefl by simp
  next
    case False
    then have k: "1 \<le> k div 2" "k div 2 < k" using less.prems by auto
    have "\<not> lt (at xs 1) (at xs (k div 2))" using less k by auto
    moreover have "\<not> lt (at xs (k div 2)) (at xs k)" using less.prems k by (simp add: heap_def)
    ultimately show ?thesis using ord.le_trans by blast
  qed
qed

lemma mset_take_drop: "mset (take k xs) = mset xs - mset (drop k xs)"
  by (metis add_diff_cancel_right' append_take_drop_id mset_append)

lemma sort_loop_ok:
  "i \<le> length xs \<Longrightarrow> length xs < 2 ^ 31 \<Longrightarrow> heap 1 i xs \<Longrightarrow> nondec lt (drop i xs) \<Longrightarrow>
   (\<And>x y. x \<in> set (take i xs) \<Longrightarrow> y \<in> set (drop i xs) \<Longrightarrow> \<not> lt y x) \<Longrightarrow>
   \<exists>ys. sort_loop cmp i xs = Some ys \<and> mset ys = mset xs \<and> nondec lt ys"
proof (induction i arbitrary: xs)
  case 0 then show ?case by (auto simp: sort_loop.simps)
next
  case (Suc i)
  show ?case
  proof (cases "i = 0")
    case True
    then have "xs = hd xs # drop 1 xs" using Suc.prems(1) by (cases xs) auto
    then have "nondec lt xs" using Suc.prems(4,5) True by (cases xs) auto
    then show ?thesis using True by (auto simp: sort_loop.simps)
  next
    case False
    let ?n = "Suc i"
    let ?ys = "xs[0 := at xs ?n, i := xs ! 0]"
    have n: "1 \<le> (1::nat)" "1 < ?n" "?n \<le> length xs" using False Suc.prems(1) by auto
    note S = swap_at [OF n]
    have "near_heap 1 i 1 ?ys"
    proof -
      have "\<not> lt (at ?ys (j div 2)) (at ?ys j)" if "1 \<le> j div 2" "j \<le> i" "j div 2 \<noteq> 1" for j
      proof -
        have "j \<noteq> 1" "j \<noteq> ?n" "j div 2 \<noteq> ?n" "1 \<le> j" using that by auto
        then show ?thesis using S(2) [of j] S(2) [of "j div 2"] that Suc.prems(3) by (simp add: heap_def)
      qed
      then show ?thesis by (simp add: near_heap_def)
    qed
    then obtain zs where zs: "heapify cmp ?ys 1 i = Some zs" "mset zs = mset ?ys" "drop i zs = drop i ?ys" "heap 1 i zs"
      using heapify_ok [of i ?ys 1 1] False Suc.prems(1,2) by auto
    have mz: "mset zs = mset xs" using zs(2) S(3) by simp
    have "drop i ?ys = ?ys ! i # drop ?n ?ys" using n(3) by (subst Cons_nth_drop_Suc) auto
    also have "?ys ! i = xs ! 0" using n(3) by simp
    also have "drop ?n ?ys = drop ?n xs" using S(4) [of ?n] by simp
    finally have dz: "drop i zs = xs ! 0 # drop ?n xs" using zs(3) by simp
    have tz: "set (take i zs) \<subseteq> set (take ?n xs)"
    proof -
      have "mset (take i zs) = mset xs - mset (drop ?n xs) - {#xs ! 0#}" unfolding mset_take_drop mz dz by simp
      also have "\<dots> = mset (take ?n xs) - {#xs ! 0#}" unfolding mset_take_drop [symmetric] ..
      finally have "set_mset (mset (take i zs)) \<subseteq> set_mset (mset (take ?n xs))" by (auto dest: in_diffD)
      then show ?thesis by simp
    qed
    have top: "\<not> lt (xs ! 0) x" if "x \<in> set (take ?n xs)" for x
    proof -
      from that obtain k where "k < ?n" "x = xs ! k" using n(3) by (auto simp: in_set_conv_nth)
      then show ?thesis using heap_top [OF Suc.prems(3), of "Suc k"] by simp
    qed
    have x0: "xs ! 0 \<in> set (take ?n xs)" using n(3) by (cases xs) auto
    have "nondec lt (drop i zs)" using dz Suc.prems(4,5) x0 by simp
    moreover have "\<not> lt y x" if "x \<in> set (take i zs)" "y \<in> set (drop i zs)" for x y
      using that tz top Suc.prems(5) unfolding dz by auto
    ultimately obtain ws where "sort_loop cmp i zs = Some ws" "mset ws = mset zs" "nondec lt ws"
      using Suc.IH [of zs] zs(4) mset_eq_length [OF mz] Suc.prems(1,2) by auto
    then show ?thesis using S(1) zs(1) mz False by (subst sort_loop.simps) simp
  qed
qed

lemma sort_array_ok:
  assumes "length xs < 2 ^ 31"
  shows "\<exists>ys. sort_array cmp xs = Some ys \<and> mset ys = mset xs \<and> nondec lt ys"
proof -
  let ?n = "length xs"
  have "heap (Suc (?n div 2)) ?n xs" by (auto simp: heap_def dest: div_le_mono [of _ _ 2])
  then obtain ys where ys: "build_loop cmp (?n div 2) xs ?n = Some ys" "mset ys = mset xs" "heap 1 ?n ys"
    using build_ok [of ?n xs "?n div 2"] assms by auto
  have l: "length ys = ?n" by (rule mset_eq_length [OF ys(2)])
  obtain zs where "sort_loop cmp ?n ys = Some zs" "mset zs = mset ys" "nondec lt zs"
    using sort_loop_ok [of ?n ys] ys(3) l assms by auto
  then show ?thesis using ys by (auto simp: sort_array_def)
qed

lemma binary_search_loop_ok:
  "hi \<le> length xs \<Longrightarrow> nondec lt xs \<Longrightarrow>
   (\<And>j. j < lo \<Longrightarrow> cmp key (xs ! j) > 0) \<Longrightarrow> (\<And>j. hi \<le> j \<Longrightarrow> j < length xs \<Longrightarrow> cmp key (xs ! j) < 0) \<Longrightarrow>
   (case binary_search_loop cmp key xs lo hi of
      Some i \<Rightarrow> i < length xs \<and> cmp key (xs ! i) = 0
    | None \<Rightarrow> \<forall>j < length xs. cmp key (xs ! j) \<noteq> 0)"
proof (induction "hi - lo" arbitrary: lo hi rule: less_induct)
  case less
  show ?case
  proof (cases "lo < hi")
    case False
    have "cmp key (xs ! j) \<noteq> 0" if "j < length xs" for j
      using less.prems(3) [of j] less.prems(4) [of j] that False by (cases "j < lo") auto
    then show ?thesis using False by (simp add: binary_search_loop.simps)
  next
    case True
    let ?m = "lo + (hi - lo) div 2"
    have m: "lo \<le> ?m" "?m < hi" "?m < length xs" using True less.prems(1) by auto
    have inc: "\<not> lt (xs ! j) (xs ! i)" if "i < j" "j < length xs" for i j
      using less.prems(2) that by (simp add: sorted_wrt_iff_nth_less)
    consider "cmp key (xs ! ?m) < 0" | "cmp key (xs ! ?m) > 0" | "cmp key (xs ! ?m) = 0" by linarith
    then show ?thesis
    proof cases
      case 1
      have up: "cmp key (xs ! j) < 0" if "?m \<le> j" "j < length xs" for j
      proof (cases "j = ?m")
        case False
        then have "\<not> lt (xs ! j) (xs ! ?m)" using that by (intro inc) auto
        then show ?thesis using 1 ord.less_le_trans by blast
      qed (use 1 in simp)
      have e: "binary_search_loop cmp key xs lo hi = binary_search_loop cmp key xs lo ?m"
        by (subst binary_search_loop.simps) (use True 1 in \<open>simp add: Let_def\<close>)
      have "?m - lo < hi - lo" using m by linarith
      from less.hyps [OF this _ less.prems(2,3) up] show ?thesis unfolding e using m(3) by (simp only: less_imp_le)
    next
      case 2
      have down: "cmp key (xs ! j) > 0" if "j < ?m + 1" for j
      proof (cases "j = ?m")
        case False
        then have "\<not> lt (xs ! ?m) (xs ! j)" using that m(3) by (intro inc) auto
        moreover have "lt (xs ! ?m) key" using 2 sign by simp
        ultimately have "lt (xs ! j) key" using ord.neg_trans by blast
        then show ?thesis using sign by simp
      qed (use 2 in simp)
      have e: "binary_search_loop cmp key xs lo hi = binary_search_loop cmp key xs (?m + 1) hi"
        by (subst binary_search_loop.simps) (use True 2 in \<open>simp add: Let_def\<close>)
      have "hi - (?m + 1) < hi - lo" using m by linarith
      from less.hyps [OF this less.prems(1,2) down less.prems(4)] show ?thesis unfolding e .
    next
      case 3
      then have "binary_search_loop cmp key xs lo hi = Some ?m"
        by (subst binary_search_loop.simps) (use True in \<open>simp add: Let_def\<close>)
      then show ?thesis using 3 m by simp
    qed
  qed
qed

lemma binary_search_ok:
  "nondec lt xs \<Longrightarrow>
   (case binary_search cmp key xs of
      Some i \<Rightarrow> i < length xs \<and> cmp key (xs ! i) = 0
    | None \<Rightarrow> \<forall>j < length xs. cmp key (xs ! j) \<noteq> 0)"
  unfolding binary_search_def by (rule binary_search_loop_ok) auto

end

section \<open>Properties\<close>

text \<open>C24: \<^verbatim>\<open>qsort\<close>, a heap sort in place, terminates and turns an array of fewer than
  \<open>2 ^ 31\<close> elements into a permutation of it that is sorted, for every comparison function
  whose sign is a strict weak order.\<close>

theorem qsort_sorts:
  assumes "comparison cmp" and "length xs < 2 ^ 31"
  shows "\<exists>ys. qsort cmp xs = Some ys \<and> mset ys = mset xs \<and> sorted_wrt (\<lambda>x y. cmp x y \<le> 0) ys"
proof -
  obtain ys where ys: "sort_array cmp xs = Some ys" "mset ys = mset xs" "sorted_wrt (\<lambda>x y. \<not> cmp y x < 0) ys"
    using comparison.sort_array_ok [OF assms] by blast
  have "(\<lambda>x y. \<not> cmp y x < 0) = (\<lambda>x y. cmp x y \<le> 0)"
    using comparison.sign [OF assms(1)] by (simp add: fun_eq_iff not_less flip: not_le)
  then show ?thesis using ys by (auto simp: qsort_def compare_thunk_def)
qed

lemma int_comparison: "comparison (\<lambda>x y :: int. x - y)"
  by unfold_locales auto

theorem qsort_sorts_witness:
  "\<exists>ys. qsort (\<lambda>x y :: int. x - y) [3, 1, 2, 1] = Some ys \<and> mset ys = mset [3, 1, 2, 1] \<and>
    sorted_wrt (\<lambda>x y. x - y \<le> 0) ys"
  by (rule qsort_sorts [OF int_comparison]) simp

text \<open>\<^verbatim>\<open>bsearch\<close> on a sorted array returns the place of an element that compares equal to the
  key, and the null pointer only if there is none.\<close>

theorem bsearch_finds:
  assumes "comparison cmp" and "sorted_wrt (\<lambda>x y. cmp x y \<le> 0) xs"
  shows "case bsearch cmp key xs of
      Some i \<Rightarrow> i < length xs \<and> cmp key (xs ! i) = 0
    | None \<Rightarrow> \<forall>x \<in> set xs. cmp key x \<noteq> 0"
proof -
  have "(\<lambda>x y. \<not> cmp y x < 0) = (\<lambda>x y. cmp x y \<le> 0)"
    using comparison.sign [OF assms(1)] by (simp add: fun_eq_iff not_less flip: not_le)
  then have "sorted_wrt (\<lambda>x y. \<not> cmp y x < 0) xs" using assms(2) by simp
  from comparison.binary_search_ok [OF assms(1) this, of key]
  show ?thesis by (auto simp: bsearch_def compare_thunk_def in_set_conv_nth split: option.splits)
qed

theorem bsearch_finds_witness:
  "case bsearch (\<lambda>x y :: int. x - y) 5 [1, 3, 5, 8] of
      Some i \<Rightarrow> i < length [1, 3, 5, 8 :: int] \<and> 5 - [1, 3, 5, 8 :: int] ! i = 0
    | None \<Rightarrow> \<forall>x \<in> set [1, 3, 5, 8 :: int]. 5 - x \<noteq> 0"
  by (rule bsearch_finds [OF int_comparison]) simp

end
