(* ===== verification/Stdio.thy ===== *)
theory Stdio
  imports Stdlib
begin

text \<open>
  Formatted output, \<^verbatim>\<open>lib/stdio.c\<close>.  A format is the list of its characters before the null
  byte; the character \<open>at\<close> its end is the null byte.  The output function and its auxiliary
  data are parameters, a function \<open>char \<Rightarrow> 'a \<Rightarrow> 'a\<close> and the data.
\<close>

section \<open>Conversions\<close>

definition MINUS :: u32 where "MINUS = push_bit 0 1"
definition PLUS :: u32 where "PLUS = push_bit 1 1"
definition SPACE :: u32 where "SPACE = push_bit 2 1"
definition POUND :: u32 where "POUND = push_bit 3 1"
definition ZERO :: u32 where "ZERO = push_bit 4 1"
definition GROUP :: u32 where "GROUP = push_bit 5 1"

datatype conv_type = T_CHAR | T_SHORT | T_INT | T_INTMAX | T_LONG | T_LONGLONG | T_PTRDIFFT | T_SIZET

record printf_conversion =
  cflags :: u32
  cwidth :: int
  cprecision :: int
  ctype :: conv_type

record integer_base =
  ibase :: nat
  idigits :: string
  ix :: "char option"
  igroup :: nat

definition base_d :: integer_base where
  "base_d = \<lparr>ibase = 10, idigits = ''0123456789'', ix = None, igroup = 3\<rparr>"
definition base_o :: integer_base where
  "base_o = \<lparr>ibase = 8, idigits = ''01234567'', ix = None, igroup = 3\<rparr>"
definition base_x :: integer_base where
  "base_x = \<lparr>ibase = 16, idigits = ''0123456789abcdef'', ix = Some (CHR ''x''), igroup = 4\<rparr>"
definition base_X :: integer_base where
  "base_X = \<lparr>ibase = 16, idigits = ''0123456789ABCDEF'', ix = Some (CHR ''X''), igroup = 4\<rparr>"

text \<open>
  Variable arguments: a 32-bit slot (\<^verbatim>\<open>int\<close>, \<^verbatim>\<open>long\<close>, \<^verbatim>\<open>size_t\<close>, pointers), a 64-bit
  one (\<^verbatim>\<open>long long\<close>, \<^verbatim>\<open>intmax_t\<close>), a string (null or its characters).  Taking an argument
  of the wrong size or kind, or one that is not there, is undefined behaviour.
\<close>

datatype va_arg = Arg32 u32 | Arg64 u64 | ArgStr "string option"

definition arg32 :: "va_arg list \<Rightarrow> (u32 \<times> va_arg list) option" where
  "arg32 args = (case args of Arg32 w # rest \<Rightarrow> Some (w, rest) | _ \<Rightarrow> None)"

definition arg64 :: "va_arg list \<Rightarrow> (u64 \<times> va_arg list) option" where
  "arg64 args = (case args of Arg64 w # rest \<Rightarrow> Some (w, rest) | _ \<Rightarrow> None)"

definition argstr :: "va_arg list \<Rightarrow> (string option \<times> va_arg list) option" where
  "argstr args = (case args of ArgStr s # rest \<Rightarrow> Some (s, rest) | _ \<Rightarrow> None)"

section \<open>Parsing a conversion\<close>

definition flag_of :: "char \<Rightarrow> u32 option" where
  "flag_of c =
     (if c = CHR ''-'' then Some MINUS else if c = CHR ''+'' then Some PLUS
      else if c = CHR '' '' then Some SPACE else if c = CHR ''#'' then Some POUND
      else if c = CHR ''0'' then Some ZERO else if c = CHR 0x27 then Some GROUP else None)"

fun parse_flags :: "u32 \<Rightarrow> string \<Rightarrow> u32 \<times> string" where
  "parse_flags fl [] = (fl, [])" |
  "parse_flags fl (c # s) = (case flag_of c of Some f \<Rightarrow> parse_flags (fl OR f) s | None \<Rightarrow> (fl, c # s))"

fun parse_number :: "int \<Rightarrow> string \<Rightarrow> (int \<times> string) option" where
  "parse_number n [] = Some (n, [])" |
  "parse_number n (c # s) =
     (if isdigit c
      then do { n \<leftarrow> s32 (n * 10); n \<leftarrow> s32 (n + chr c); n \<leftarrow> s32 (n - chr (CHR ''0'')); parse_number n s }
      else Some (n, c # s))"

definition adjust_flags :: "u32 \<Rightarrow> u32" where
  "adjust_flags fl =
     (let fl = (if fl AND MINUS \<noteq> 0 then fl AND NOT ZERO else fl)
      in if fl AND PLUS \<noteq> 0 then fl AND NOT SPACE else fl)"

definition parse_width :: "string \<Rightarrow> va_arg list \<Rightarrow> (int \<times> string \<times> va_arg list) option" where
  "parse_width s args =
     (if s \<noteq> [] \<and> hd s = CHR ''*''
      then do { (w, args) \<leftarrow> arg32 args; Some (sint w, tl s, args) }
      else do { (n, s) \<leftarrow> parse_number 0 s; Some (n, s, args) })"

definition parse_precision :: "string \<Rightarrow> va_arg list \<Rightarrow> (int \<times> string \<times> va_arg list) option" where
  "parse_precision s args =
     (if s \<noteq> [] \<and> hd s = CHR ''.''
      then do {
        (p, s, args) \<leftarrow> parse_width (tl s) args;
        Some (if p < 0 then - 1 else p, s, args) }
      else Some (- 1, s, args))"

definition parse_type :: "string \<Rightarrow> conv_type \<times> string" where
  "parse_type s =
     (case s of
        [] \<Rightarrow> (T_INT, s)
      | c # t \<Rightarrow>
          if c = CHR ''h'' then (if t \<noteq> [] \<and> hd t = CHR ''h'' then (T_CHAR, tl t) else (T_SHORT, t))
          else if c = CHR ''j'' then (T_INTMAX, t)
          else if c = CHR ''l'' then (if t \<noteq> [] \<and> hd t = CHR ''l'' then (T_LONGLONG, tl t) else (T_LONG, t))
          else if c = CHR ''t'' then (T_PTRDIFFT, t)
          else if c = CHR ''z'' then (T_SIZET, t)
          else (T_INT, s))"

definition parse_conversion ::
  "string \<Rightarrow> va_arg list \<Rightarrow> (printf_conversion \<times> string \<times> va_arg list) option" where
  "parse_conversion s args = do {
     let (fl, s) = parse_flags 0 s;
     let fl = adjust_flags fl;
     (w, s, args) \<leftarrow> parse_width s args;
     (w, fl) \<leftarrow> (if w < 0 then do { w \<leftarrow> s32 (- w); Some (w, fl OR MINUS) } else Some (w, fl));
     (p, s, args) \<leftarrow> parse_precision s args;
     let fl = (if p \<ge> 0 then fl AND NOT ZERO else fl);
     let (t, s) = parse_type s;
     Some (\<lparr>cflags = fl, cwidth = w, cprecision = p, ctype = t\<rparr>, s, args) }"

section \<open>Writing a conversion\<close>

definition output_dup :: "char \<Rightarrow> nat \<Rightarrow> (char \<Rightarrow> 'a \<Rightarrow> 'a) \<Rightarrow> 'a \<Rightarrow> 'a" where
  "output_dup ch cnt out aux = ((out ch) ^^ cnt) aux"

text \<open>
  The digit buffer of 64 characters; the list is in the order of writing.  Writing to a full
  buffer is a fault.
\<close>

definition buf_push :: "char \<Rightarrow> string \<Rightarrow> string option" where
  "buf_push ch buf = (if length buf < 64 then Some (buf @ [ch]) else None)"

partial_function (option) digits_loop :: "integer_base \<Rightarrow> bool \<Rightarrow> u64 \<Rightarrow> nat \<Rightarrow> string \<Rightarrow> string option" where
  [code]: "digits_loop b grp v digit_cnt buf =
     (if v > 0
      then do {
        buf \<leftarrow> (if grp \<and> digit_cnt > 0 \<and> digit_cnt mod igroup b = 0 then buf_push (CHR '','') buf else Some buf);
        buf \<leftarrow> buf_push (idigits b ! (unat v mod ibase b)) buf;
        digits_loop b grp (v div of_nat (ibase b)) (digit_cnt + 1) buf }
      else Some buf)"

text \<open>Zeros up to the precision, as long as the buffer keeps a place for one more character.\<close>

function zeros_loop :: "int \<Rightarrow> string \<Rightarrow> string" where
  "zeros_loop precision buf =
     (if int (length buf) < precision \<and> length buf < 63 then zeros_loop precision (buf @ [CHR ''0'']) else buf)"
  by pat_completeness auto
termination by (relation "measure (\<lambda>(precision, buf). 63 - length buf)") auto

declare zeros_loop.simps [simp del]

definition sign_char :: "u32 \<Rightarrow> bool \<Rightarrow> bool \<Rightarrow> char option" where
  "sign_char fl is_signed negative =
     (if is_signed
      then if fl AND PLUS \<noteq> 0 then Some (if negative then CHR ''-'' else CHR ''+'')
        else if fl AND SPACE \<noteq> 0 then Some (if negative then CHR ''-'' else CHR '' '')
        else if negative then Some (CHR ''-'') else None
      else None)"

definition fill_buffer :: "u64 \<Rightarrow> integer_base \<Rightarrow> printf_conversion \<Rightarrow> string option" where
  "fill_buffer v b c = do {
     buf \<leftarrow> digits_loop b (cflags c AND GROUP \<noteq> 0) v 0 [];
     let buf = zeros_loop (if cprecision c < 0 then 1 else cprecision c) buf;
     if cflags c AND POUND \<noteq> 0 \<and> ibase b = 8 \<and> (buf = [] \<or> last buf \<noteq> CHR ''0'')
     then buf_push (CHR ''0'') buf else Some buf }"

definition format_integer ::
  "u64 \<Rightarrow> bool \<Rightarrow> bool \<Rightarrow> integer_base \<Rightarrow> printf_conversion \<Rightarrow> (char \<Rightarrow> 'a \<Rightarrow> 'a) \<Rightarrow> 'a \<Rightarrow> 'a option" where
  "format_integer v is_signed negative b c out aux = do {
     let fl = cflags c;
     let sign = sign_char fl is_signed negative;
     let x = (if fl AND POUND \<noteq> 0 \<and> v \<noteq> 0 then ix b else None);
     buf \<leftarrow> fill_buffer v b c;
     let pad_cnt = nat (cwidth c - int (length buf) - (if x \<noteq> None then 2 else 0) - (if sign \<noteq> None then 1 else 0));
     let aux = (if fl AND (MINUS OR ZERO) = 0 then output_dup (CHR '' '') pad_cnt out aux else aux);
     let aux = (case sign of Some s \<Rightarrow> out s aux | None \<Rightarrow> aux);
     let aux = (case x of Some x \<Rightarrow> out x (out (CHR ''0'') aux) | None \<Rightarrow> aux);
     let aux = (if fl AND ZERO \<noteq> 0 then output_dup (CHR ''0'') pad_cnt out aux else aux);
     let aux = fold out (rev buf) aux;
     Some (if fl AND MINUS \<noteq> 0 then output_dup (CHR '' '') pad_cnt out aux else aux) }"

definition format_string :: "string \<Rightarrow> printf_conversion \<Rightarrow> (char \<Rightarrow> 'a \<Rightarrow> 'a) \<Rightarrow> 'a \<Rightarrow> 'a" where
  "format_string s c out aux =
     (let pad = nat (cwidth c - int (length s));
          aux = (if cwidth c > int (length s) \<and> cflags c AND MINUS = 0 then output_dup (CHR '' '') pad out aux else aux);
          aux = fold out s aux
      in if cwidth c > int (length s) \<and> cflags c AND MINUS \<noteq> 0 then output_dup (CHR '' '') pad out aux else aux)"

section \<open>The format loop\<close>

definition signed_arg :: "conv_type \<Rightarrow> va_arg list \<Rightarrow> (u64 \<times> va_arg list) option" where
  "signed_arg t args =
     (case t of
        T_CHAR \<Rightarrow> map_option (map_prod (\<lambda>w. scast (ucast w :: u8)) id) (arg32 args)
      | T_SHORT \<Rightarrow> map_option (map_prod (\<lambda>w. scast (ucast w :: u16)) id) (arg32 args)
      | T_INTMAX \<Rightarrow> arg64 args
      | T_LONGLONG \<Rightarrow> arg64 args
      | T_SIZET \<Rightarrow> map_option (map_prod (\<lambda>w. let v = (ucast w :: u64)
          in if v > 0xFFFFFFFF div 2 then v - 0xFFFFFFFF - 1 else v) id) (arg32 args)
      | _ \<Rightarrow> map_option (map_prod scast id) (arg32 args))"

definition unsigned_arg :: "conv_type \<Rightarrow> va_arg list \<Rightarrow> (u64 \<times> va_arg list) option" where
  "unsigned_arg t args =
     (case t of
        T_CHAR \<Rightarrow> map_option (map_prod (\<lambda>w. ucast (ucast w :: u8)) id) (arg32 args)
      | T_SHORT \<Rightarrow> map_option (map_prod (\<lambda>w. ucast (ucast w :: u16)) id) (arg32 args)
      | T_INTMAX \<Rightarrow> arg64 args
      | T_LONGLONG \<Rightarrow> arg64 args
      | T_PTRDIFFT \<Rightarrow> map_option (map_prod (\<lambda>w. scast w AND (push_bit 1 0x7FFFFFFF OR 1)) id) (arg32 args)
      | _ \<Rightarrow> map_option (map_prod ucast id) (arg32 args))"

text \<open>The characters of a string up to a maximum length, \<open>- 1\<close> being \<^verbatim>\<open>SIZE_MAX\<close>.\<close>

definition limit :: "int \<Rightarrow> string \<Rightarrow> string" where
  "limit precision s = (if precision < 0 then s else take (nat precision) s)"

text \<open>
  One conversion, at its conversion character.  \<open>nested\<close> is the recursive call of
  \<^verbatim>\<open>__vprintf\<close> through \<^verbatim>\<open>__printf\<close> that reports an unknown conversion.
\<close>

definition convert ::
  "(string \<Rightarrow> va_arg list \<Rightarrow> 'a \<Rightarrow> 'a option) \<Rightarrow> (char \<Rightarrow> 'a \<Rightarrow> 'a) \<Rightarrow> char \<Rightarrow> printf_conversion \<Rightarrow>
   va_arg list \<Rightarrow> 'a \<Rightarrow> (va_arg list \<times> 'a) option" where
  "convert nested out ch c args aux =
     (if ch \<in> {CHR ''d'', CHR ''i''}
      then do {
        (v, args) \<leftarrow> signed_arg (ctype c) args;
        aux \<leftarrow> format_integer (if sint v < 0 then - v else v) True (sint v < 0) base_d c out aux;
        Some (args, aux) }
      else if ch \<in> {CHR ''o'', CHR ''u'', CHR ''x'', CHR ''X''}
      then do {
        (v, args) \<leftarrow> unsigned_arg (ctype c) args;
        let b = (if ch = CHR ''o'' then base_o else if ch = CHR ''u'' then base_d
          else if ch = CHR ''x'' then base_x else base_X);
        aux \<leftarrow> format_integer v False False b c out aux;
        Some (args, aux) }
      else if ch = CHR ''c''
      then do {
        (w, args) \<leftarrow> arg32 args;
        Some (args, format_string [char_of (unat w)] c out aux) }
      else if ch = CHR ''s''
      then do {
        (s, args) \<leftarrow> argstr args;
        let s = (case s of Some s \<Rightarrow> s | None \<Rightarrow> ''(null)'');
        Some (args, format_string (limit (cprecision c) s) c out aux) }
      else if ch = CHR ''p''
      then do {
        (p, args) \<leftarrow> arg32 args;
        aux \<leftarrow> format_integer (ucast p) False False base_x (c\<lparr>cflags := POUND\<rparr>) out aux;
        Some (args, aux) }
      else if ch \<in> {CHR ''f'', CHR ''e'', CHR ''E'', CHR ''g'', CHR ''G'', CHR ''n''}
      then map_option (Pair args) (nested ''<<no %%%c in kernel>>'' [Arg32 (of_nat (of_char ch))] aux)
      else map_option (Pair args) (nested ''<<no %%%c conversion>>'' [Arg32 (of_nat (of_char ch))] aux))"

text \<open>The format shrinks while it is parsed.\<close>

lemma parse_flags_length: "length (snd (parse_flags fl s)) \<le> length s"
  by (induction fl s rule: parse_flags.induct) (auto split: option.splits)

lemma parse_number_length: "parse_number n s = Some (m, t) \<Longrightarrow> length t \<le> length s"
  by (induction n s rule: parse_number.induct) (fastforce split: if_splits bind_splits)+

lemma parse_width_length: "parse_width s args = Some (w, t, args') \<Longrightarrow> length t \<le> length s"
  by (auto simp: parse_width_def dest: parse_number_length split: if_splits bind_splits)

lemma parse_precision_length: "parse_precision s args = Some (w, t, args') \<Longrightarrow> length t \<le> length s"
  by (auto simp: parse_precision_def dest!: parse_width_length split: if_splits bind_splits)

lemma parse_type_length: "length (snd (parse_type s)) \<le> length s"
  by (auto simp: parse_type_def split: list.splits)

lemma parse_conversion_length:
  assumes "parse_conversion s args = Some (c, t, args')"
  shows "length t \<le> length s"
proof -
  obtain w s1 args1 p s2 where "parse_width (snd (parse_flags 0 s)) args = Some (w, s1, args1)"
    "parse_precision s1 args1 = Some (p, s2, args')" "t = snd (parse_type s2)"
    using assms by (auto simp: parse_conversion_def Let_def split: prod.splits bind_splits if_splits)
  then show ?thesis
    using parse_flags_length [of 0 s] parse_width_length parse_precision_length parse_type_length [of s2]
    by (meson le_trans)
qed

text \<open>
  The loop of \<^verbatim>\<open>__vprintf\<close>.  A format that ends inside a conversion makes its null byte the
  conversion character, and the loop then runs past the end of the string.
\<close>

function vprintf_loop ::
  "(string \<Rightarrow> va_arg list \<Rightarrow> 'a \<Rightarrow> 'a option) \<Rightarrow> (char \<Rightarrow> 'a \<Rightarrow> 'a) \<Rightarrow> string \<Rightarrow> va_arg list \<Rightarrow> 'a \<Rightarrow> 'a option" where
  "vprintf_loop nested out [] args aux = Some aux" |
  "vprintf_loop nested out (f # format) args aux =
     (if f \<noteq> CHR ''%'' then vprintf_loop nested out format args (out f aux)
      else if format \<noteq> [] \<and> hd format = CHR ''%''
      then vprintf_loop nested out (tl format) args (out (CHR ''%'') aux)
      else case parse_conversion format args of
          None \<Rightarrow> None
        | Some (c, format, args) \<Rightarrow>
            (case format of
               [] \<Rightarrow> None
             | ch # format \<Rightarrow>
                 (case convert nested out ch c args aux of
                    None \<Rightarrow> None
                  | Some (args, aux) \<Rightarrow> vprintf_loop nested out format args aux)))"
  by pat_completeness auto
termination
  by (relation "measure (\<lambda>(nested, out, format, args, aux). length format)")
    (auto simp: less_Suc_eq_le dest!: parse_conversion_length)

text \<open>The report of an unknown conversion is itself formatted; it contains no unknown conversion.\<close>

primrec vprintf_depth :: "nat \<Rightarrow> (char \<Rightarrow> 'a \<Rightarrow> 'a) \<Rightarrow> string \<Rightarrow> va_arg list \<Rightarrow> 'a \<Rightarrow> 'a option" where
  "vprintf_depth 0 out format args aux = None" |
  "vprintf_depth (Suc n) out format args aux = vprintf_loop (vprintf_depth n out) out format args aux"

definition vprintf :: "(char \<Rightarrow> 'a \<Rightarrow> 'a) \<Rightarrow> string \<Rightarrow> va_arg list \<Rightarrow> 'a \<Rightarrow> 'a option" where
  "vprintf out format args aux = vprintf_depth 2 out format args aux"

section \<open>Printing to a buffer\<close>

record vsnprintf_aux =
  written :: string
  out_length :: u32
  max_length :: u32

definition vsnprintf_helper :: "char \<Rightarrow> vsnprintf_aux \<Rightarrow> vsnprintf_aux" where
  "vsnprintf_helper ch aux =
     (let room = sint (out_length aux) < sint (max_length aux);
          aux = aux\<lparr>out_length := out_length aux + 1\<rparr>
      in if room then aux\<lparr>written := written aux @ [ch]\<rparr> else aux)"

text \<open>The result: the characters stored in the buffer, with the terminator, and the return value.\<close>

definition vsnprintf :: "u32 \<Rightarrow> string \<Rightarrow> va_arg list \<Rightarrow> (string \<times> u32) option" where
  "vsnprintf buf_size format args = do {
     let aux = \<lparr>written = [], out_length = 0, max_length = (if buf_size > 0 then buf_size - 1 else 0)\<rparr>;
     aux \<leftarrow> vprintf vsnprintf_helper format args aux;
     Some (if buf_size > 0 then written aux @ [CHR 0x00] else written aux, out_length aux) }"

definition snprintf :: "u32 \<Rightarrow> string \<Rightarrow> va_arg list \<Rightarrow> (string \<times> u32) option" where
  "snprintf buf_size format args = vsnprintf buf_size format args"

text \<open>The console collects characters.\<close>

definition putc :: "char \<Rightarrow> string \<Rightarrow> string" where
  "putc ch con = con @ [ch]"

definition printf :: "string \<Rightarrow> va_arg list \<Rightarrow> string \<Rightarrow> string option" where
  "printf format args con = vprintf putc format args con"

text \<open>A sequence of calls of \<^verbatim>\<open>printf\<close>.\<close>

primrec print_calls :: "(string \<times> va_arg list) list \<Rightarrow> string \<Rightarrow> string option" where
  "print_calls [] con = Some con" |
  "print_calls (c # cs) con = do { con \<leftarrow> printf (fst c) (snd c) con; print_calls cs con }"

text \<open>
  One line of \<^verbatim>\<open>hex_dump\<close>: \<open>st\<close> and \<open>en\<close> are the columns of its first byte and after its
  last one, \<open>buf\<close> the bytes still to print.
\<close>

definition hex_line :: "u32 \<Rightarrow> u8 list \<Rightarrow> nat \<Rightarrow> nat \<Rightarrow> bool \<Rightarrow> (string \<times> va_arg list) list" where
  "hex_line ofs buf st en ascii =
     (let byte = (\<lambda>i. ucast (buf ! (i - st)) :: u32);
          shown = (\<lambda>i. if isprint (char_of (unat (byte i))) then byte i else of_nat (of_char (CHR ''.'')))
      in [(''%08jx  '', [Arg64 (ucast (ofs div 16 * 16))])]
       @ map (\<lambda>_. (''   '', [])) [0..<st]
       @ map (\<lambda>i. (''%02hhx%c'', [Arg32 (byte i), Arg32 (of_nat (of_char (if i = 7 then CHR ''-'' else CHR '' '')))])) [st..<en]
       @ (if ascii
          then map (\<lambda>_. (''   '', [])) [en..<16] @ [(''|'', [])]
            @ map (\<lambda>_. ('' '', [])) [0..<st]
            @ map (\<lambda>i. (''%c'', [Arg32 (shown i)])) [st..<en]
            @ map (\<lambda>_. ('' '', [])) [en..<16] @ [(''|'', [])]
          else [])
       @ [([CHR 0x0A], [])])"

function hex_lines :: "u32 \<Rightarrow> u8 list \<Rightarrow> nat \<Rightarrow> bool \<Rightarrow> (string \<times> va_arg list) list" where
  "hex_lines ofs buf size_left ascii =
     (if size_left > 0
      then let st = unat ofs mod 16;
               en = (if 16 - st > size_left then st + size_left else 16);
               n = en - st
        in hex_line ofs buf st en ascii @ hex_lines (ofs + of_nat n) (drop n buf) (size_left - n) ascii
      else [])"
  by pat_completeness auto
termination
  by (relation "measure (\<lambda>(ofs, buf, size_left, ascii). size_left)") auto

declare hex_lines.simps [simp del]

definition hex_dump :: "u32 \<Rightarrow> u8 list \<Rightarrow> nat \<Rightarrow> bool \<Rightarrow> string \<Rightarrow> string option" where
  "hex_dump ofs buf n ascii con = do { chk (n \<le> length buf); print_calls (hex_lines ofs buf n ascii) con }"

fun scale_size :: "u64 \<Rightarrow> string list \<Rightarrow> u64 \<times> string" where
  "scale_size n [] = (n, [])" |
  "scale_size n [f] = (n, f)" |
  "scale_size n (f # g # fs) = (if n \<ge> 1024 then scale_size (n div 1024) (g # fs) else (n, f))"

definition print_human_readable_size :: "u64 \<Rightarrow> string \<Rightarrow> string option" where
  "print_human_readable_size n con =
     (if n = 1 then printf ''1 byte'' [] con
      else (let (m, f) = scale_size n [''bytes'', ''kB'', ''MB'', ''GB'', ''TB'']
        in printf ''%llu %s'' [Arg64 m, ArgStr (Some f)] con))"

section \<open>Output is the text, character by character\<close>

lemma fold_putc [simp]: "fold putc t con = con @ t"
  by (induction t arbitrary: con) (auto simp: putc_def)

lemma output_dup_fold: "output_dup ch n out aux = fold out (replicate n ch) aux"
proof (induction n arbitrary: aux)
  case (Suc n)
  have "(out ch ^^ Suc n) aux = (out ch ^^ n) (out ch aux)" by (simp add: funpow_swap1)
  then show ?case using Suc by (simp add: output_dup_def)
qed (simp add: output_dup_def)

text \<open>The text of an integer conversion around the digits in the buffer.\<close>

definition int_text :: "u64 \<Rightarrow> bool \<Rightarrow> bool \<Rightarrow> integer_base \<Rightarrow> printf_conversion \<Rightarrow> string \<Rightarrow> string" where
  "int_text v is_signed negative b c buf =
     (let fl = cflags c;
          sign = (case sign_char fl is_signed negative of Some s \<Rightarrow> [s] | None \<Rightarrow> []);
          pre = (case (if fl AND POUND \<noteq> 0 \<and> v \<noteq> 0 then ix b else None) of Some x \<Rightarrow> [CHR ''0'', x] | None \<Rightarrow> []);
          pad = nat (cwidth c - int (length buf) - int (length pre) - int (length sign))
      in (if fl AND (MINUS OR ZERO) = 0 then replicate pad (CHR '' '') else []) @ sign @ pre
        @ (if fl AND ZERO \<noteq> 0 then replicate pad (CHR ''0'') else []) @ rev buf
        @ (if fl AND MINUS \<noteq> 0 then replicate pad (CHR '' '') else []))"

lemma format_integer_text:
  "format_integer v is_signed negative b c out aux =
   map_option (\<lambda>buf. fold out (int_text v is_signed negative b c buf) aux) (fill_buffer v b c)"
  by (cases "fill_buffer v b c")
    (auto simp: format_integer_def int_text_def Let_def output_dup_fold split: option.splits)

definition str_text :: "string \<Rightarrow> printf_conversion \<Rightarrow> string" where
  "str_text s c =
     (let pad = replicate (nat (cwidth c - int (length s))) (CHR '' '')
      in if cflags c AND MINUS = 0 then pad @ s else s @ pad)"

lemma format_string_text: "format_string s c out aux = fold out (str_text s c) aux"
  by (auto simp: format_string_def str_text_def Let_def output_dup_fold)

text \<open>
  \<open>f\<close> with an output function does what \<open>g\<close>, which collects the text from nothing, tells it to.
\<close>

definition writes :: "(char \<Rightarrow> 'a \<Rightarrow> 'a) \<Rightarrow> ('a \<Rightarrow> 'a option) \<Rightarrow> (string \<Rightarrow> string option) \<Rightarrow> bool" where
  "writes out f g \<longleftrightarrow> (\<forall>aux. f aux = map_option (\<lambda>t. fold out t aux) (g []))"

lemma convert_text:
  assumes "\<And>fmt args. writes out (nested fmt args) (np fmt args)"
  shows "convert nested out ch c args aux = map_option (map_prod id (\<lambda>t. fold out t aux)) (convert np putc ch c args [])"
proof -
  have n: "nested fmt args aux = map_option (\<lambda>t. fold out t aux) (np fmt args [])" for fmt args aux
    using assms by (simp add: writes_def)
  let ?F = "map_option (map_prod id (\<lambda>t. fold out t aux))"
  have 1: "do { (v, args) \<leftarrow> A; aux \<leftarrow> format_integer (V v) s (S v) b c out aux; Some (args, aux) } =
    ?F (do { (v, args) \<leftarrow> A; aux \<leftarrow> format_integer (V v) s (S v) b c putc []; Some (args, aux) })" for A V s S b c
  proof (cases A)
    case (Some p)
    then show ?thesis
      by (cases p, cases "fill_buffer (V (fst p)) b c") (simp_all add: format_integer_text)
  qed simp
  have 2: "do { (w, args) \<leftarrow> A; Some (args, format_string (S w) c out aux) } =
    ?F (do { (w, args) \<leftarrow> A; Some (args, format_string (S w) c putc []) })"
    for A :: "('b \<times> va_arg list) option" and S c
    by (cases A) (auto simp: format_string_text)
  have 3: "map_option (Pair args) (nested fmt as aux) = ?F (map_option (Pair args) (np fmt as []))" for fmt as
    by (simp add: n option.map_comp comp_def)
  show ?thesis
    unfolding convert_def Let_def if_distrib [of ?F] 1 2 3 ..
qed

lemma vprintf_loop_step:
  assumes N: "\<And>fmt args. writes out (nested fmt args) (np fmt args)"
    and cont: "\<And>g t args. length g < length format \<Longrightarrow> vprintf_loop nested out g args (fold out t aux) =
      map_option (\<lambda>t. fold out t aux) (vprintf_loop np putc g args t)"
  shows "vprintf_loop nested out format args aux = map_option (\<lambda>t. fold out t aux) (vprintf_loop np putc format args [])"
proof -
  show ?thesis
  proof (cases format)
    case (Cons f g)
    consider (plain) "f \<noteq> CHR ''%''" | (percent) "f = CHR ''%''" "g \<noteq> []" "hd g = CHR ''%''"
      | (conv) "f = CHR ''%''" "\<not> (g \<noteq> [] \<and> hd g = CHR ''%'')" by blast
    then show ?thesis
    proof cases
      case plain
      then show ?thesis using cont [of g args "[f]"] Cons by (simp add: putc_def)
    next
      case percent
      then have "length (tl g) < length format" using Cons by simp
      from cont [OF this, of args "[f]"] show ?thesis using percent Cons by (simp add: putc_def)
    next
      case conv
      show ?thesis
      proof (cases "parse_conversion g args")
        case None then show ?thesis using conv Cons by auto
      next
        case (Some p)
        obtain c h args1 where p: "p = (c, h, args1)" by (cases p) auto
        show ?thesis
        proof (cases h)
          case Nil then show ?thesis using conv Cons Some p by auto
        next
          case (Cons ch h1)
          have len: "length h1 < length format"
            using parse_conversion_length [OF Some [unfolded p]] \<open>h = ch # h1\<close> \<open>format = f # g\<close> by simp
          have u: "vprintf_loop nd o' format args x = (case convert nd o' ch c args1 x of None \<Rightarrow> None
              | Some (args, aux) \<Rightarrow> vprintf_loop nd o' h1 args aux)"
            for nd :: "string \<Rightarrow> va_arg list \<Rightarrow> 'x \<Rightarrow> 'x option" and o' x
            using conv \<open>h = ch # h1\<close> \<open>format = f # g\<close> Some p by auto
          show ?thesis
            unfolding u convert_text [OF N, where ch = ch and c = c and args = args1 and aux = aux]
            by (cases "convert np putc ch c args1 []") (auto simp: cont [OF len])
        qed
      qed
    qed
  qed simp
qed

lemma append_fun: "(@) (xs @ ys) = (\<lambda>x. xs @ ys @ x)"
  by (simp add: fun_eq_iff)

lemma vprintf_loop_putc:
  assumes "\<And>fmt args. writes putc (np fmt args) (np fmt args)"
  shows "vprintf_loop np putc format args con = map_option ((@) con) (vprintf_loop np putc format args [])"
proof (induction "length format" arbitrary: format args con rule: less_induct)
  case less
  have "vprintf_loop np putc g args (fold putc t con) = map_option (\<lambda>t. fold putc t con) (vprintf_loop np putc g args t)"
    if "length g < length format" for g t args
    using less [OF that, of args "con @ t"] less [OF that, of args t] by (simp add: option.map_comp comp_def append_fun)
  from vprintf_loop_step [OF assms this] show ?case by simp
qed

lemma vprintf_loop_text:
  assumes N: "\<And>fmt args. writes out (nested fmt args) (np fmt args)" and P: "\<And>fmt args. writes putc (np fmt args) (np fmt args)"
  shows "vprintf_loop nested out format args aux = map_option (\<lambda>t. fold out t aux) (vprintf_loop np putc format args [])"
proof (induction "length format" arbitrary: format args aux rule: less_induct)
  case less
  show ?case
  proof (rule vprintf_loop_step [OF N])
    fix g t :: string and args assume "length g < length format"
    from less [OF this, of args "fold out t aux"] vprintf_loop_putc [OF P, where format = g and args = args and con = t]
    show "vprintf_loop nested out g args (fold out t aux) = map_option (\<lambda>t. fold out t aux) (vprintf_loop np putc g args t)"
      by (simp add: option.map_comp comp_def)
  qed
qed

lemma vprintf_depth_putc:
  "vprintf_depth n putc format args con = map_option ((@) con) (vprintf_depth n putc format args [])"
proof (induction n arbitrary: format args con)
  case (Suc n)
  have "writes putc (vprintf_depth n putc fmt as) (vprintf_depth n putc fmt as)" for fmt as
    unfolding writes_def fold_putc by (rule allI) (rule Suc)
  from vprintf_loop_putc [OF this] show ?case unfolding vprintf_depth.simps .
qed simp

lemma vprintf_depth_text:
  "vprintf_depth n out format args aux = map_option (\<lambda>t. fold out t aux) (vprintf_depth n putc format args [])"
proof (induction n arbitrary: format args aux)
  case (Suc n)
  have "writes out (vprintf_depth n out fmt as) (vprintf_depth n putc fmt as)" for fmt as
    unfolding writes_def by (rule allI) (rule Suc)
  moreover have "writes putc (vprintf_depth n putc fmt as) (vprintf_depth n putc fmt as)" for fmt as
    unfolding writes_def fold_putc by (rule allI) (rule vprintf_depth_putc)
  ultimately have "vprintf_loop (vprintf_depth n out) out format args aux =
    map_option (\<lambda>t. fold out t aux) (vprintf_loop (vprintf_depth n putc) putc format args [])"
    by (rule vprintf_loop_text)
  then show ?case unfolding vprintf_depth.simps .
qed simp

text \<open>The text that \<^verbatim>\<open>printf\<close> writes.\<close>

definition printf_text :: "string \<Rightarrow> va_arg list \<Rightarrow> string option" where
  "printf_text format args = printf format args []"

lemma vprintf_text: "vprintf out format args aux = map_option (\<lambda>t. fold out t aux) (printf_text format args)"
  unfolding vprintf_def printf_text_def printf_def by (rule vprintf_depth_text)

lemma printf_con: "printf format args con = map_option (\<lambda>t. con @ t) (printf_text format args)"
  unfolding printf_def vprintf_text by simp

text \<open>Two levels of nesting are enough.\<close>

lemma vprintf_loop_cong:
  assumes "\<And>ch aux. n1 ''<<no %%%c in kernel>>'' [Arg32 ch] aux = n2 ''<<no %%%c in kernel>>'' [Arg32 ch] aux"
    "\<And>ch aux. n1 ''<<no %%%c conversion>>'' [Arg32 ch] aux = n2 ''<<no %%%c conversion>>'' [Arg32 ch] aux"
  shows "vprintf_loop n1 out format args aux = vprintf_loop n2 out format args aux"
proof -
  have "convert n1 out = convert n2 out" by (intro ext) (simp only: convert_def assms)
  then show ?thesis
    by (induction n2 out format args aux rule: vprintf_loop.induct) (auto split: option.splits list.splits)
qed

lemmas parse_defs = parse_conversion_def parse_width_def parse_precision_def parse_type_def flag_of_def isdigit_def
  adjust_flags_def Let_def

lemma message_text:
  "vprintf_depth (Suc n) out ''<<no %%%c in kernel>>'' [Arg32 ch] aux =
   Some (fold out (''<<no %'' @ [char_of (unat ch)] @ '' in kernel>>'') aux)"
  "vprintf_depth (Suc n) out ''<<no %%%c conversion>>'' [Arg32 ch] aux =
   Some (fold out (''<<no %'' @ [char_of (unat ch)] @ '' conversion>>'') aux)"
  by (simp_all add: parse_defs convert_def arg32_def format_string_text str_text_def)

lemma vprintf_deep: "vprintf_depth (Suc (Suc n)) out format args aux = vprintf out format args aux"
  unfolding vprintf_def numeral_2_eq_2 vprintf_depth.simps(2) [of "Suc _"]
  by (rule vprintf_loop_cong) (simp_all only: message_text)

section \<open>Digits\<close>

lemma zeros_loop_eq: "zeros_loop p buf = buf @ replicate (min (nat p) 63 - length buf) (CHR ''0'')"
proof (induction p buf rule: zeros_loop.induct)
  case (1 p buf)
  show ?case
  proof (cases "int (length buf) < p \<and> length buf < 63")
    case True
    then have "min (nat p) 63 - length buf = Suc (min (nat p) 63 - Suc (length buf))" by linarith
    then show ?thesis using 1 [OF True] True by (subst zeros_loop.simps) simp
  next
    case False
    then have "min (nat p) 63 - length buf = 0" by linarith
    then show ?thesis using False by (subst zeros_loop.simps) auto
  qed
qed

lemma unat_div_base: "n < 2 ^ 64 \<Longrightarrow> unat (v div of_nat n) = unat v div n" for v :: u64
  by (simp add: unat_div unat_of_nat take_bit_nat_eq_self)

lemma digits_loop_room:
  assumes b: "2 \<le> ibase b" "ibase b < 2 ^ 64"
  shows "unat v < ibase b ^ m \<Longrightarrow> length buf + 2 * m \<le> 64 \<Longrightarrow>
    \<exists>ds. digits_loop b grp v k buf = Some (buf @ ds) \<and> length ds \<le> 2 * m"
proof (induction m arbitrary: v k buf)
  case 0
  then have "v = 0" by (simp add: unat_eq_0)
  then show ?case by (subst digits_loop.simps) simp
next
  case (Suc m)
  show ?case
  proof (cases "v = 0")
    case True then show ?thesis by (subst digits_loop.simps) simp
  next
    case False
    then have v: "v > 0" by (simp add: word_neq_0_conv)
    define p where "p = (if grp \<and> k > 0 \<and> k mod igroup b = 0 then '','' else [])"
    have p: "(if grp \<and> k > 0 \<and> k mod igroup b = 0 then buf_push (CHR '','') buf else Some buf) = Some (buf @ p)" "length p \<le> 1"
      using Suc.prems(2) by (auto simp: buf_push_def p_def)
    let ?c = "idigits b ! (unat v mod ibase b)"
    have q: "buf_push ?c (buf @ p) = Some (buf @ p @ [?c])" using Suc.prems(2) p(2) by (simp add: buf_push_def)
    have "unat (v div of_nat (ibase b)) < ibase b ^ m"
      using Suc.prems(1) unat_div_base [OF b(2)] by (simp add: less_mult_imp_div_less mult.commute)
    from Suc.IH [OF this, of "buf @ p @ [?c]" "k + 1"] obtain ds where
      "digits_loop b grp (v div of_nat (ibase b)) (k + 1) (buf @ p @ [?c]) = Some (buf @ p @ [?c] @ ds)" "length ds \<le> 2 * m"
      using Suc.prems(2) p(2) by auto
    then show ?thesis using v p q by (subst digits_loop.simps) auto
  qed
qed

lemma bases: "b \<in> {base_d, base_o, base_x, base_X} \<Longrightarrow> 8 \<le> ibase b \<and> ibase b < 2 ^ 64"
  by (auto simp: base_d_def base_o_def base_x_def base_X_def)

text \<open>The 64 characters of the buffer are enough for every number in every base, flag and precision.\<close>

lemma fill_buffer_safe:
  assumes "b \<in> {base_d, base_o, base_x, base_X}"
  shows "\<exists>buf. fill_buffer v b c = Some buf \<and> length buf \<le> 64"
proof -
  note B = bases [OF assms]
  have "unat v < 2 ^ 66" using unsigned_less [of v, where 'a = nat] by simp
  also have "(2::nat) ^ 66 = 8 ^ 22" by simp
  also have "\<dots> \<le> ibase b ^ 22" using B by (intro power_mono) auto
  finally obtain ds where ds: "digits_loop b (cflags c AND GROUP \<noteq> 0) v 0 [] = Some ds" "length ds \<le> 44"
    using digits_loop_room [of b v 22 "[]" "cflags c AND GROUP \<noteq> 0" 0] B by auto
  let ?z = "zeros_loop (if cprecision c < 0 then 1 else cprecision c) ds"
  have "length ?z \<le> 63" using ds(2) by (simp add: zeros_loop_eq)
  then show ?thesis using ds(1) by (auto simp: fill_buffer_def buf_push_def Let_def)
qed

lemma int_text_length: "cwidth c \<le> int (length (int_text v s n b c buf))"
proof -
  have "cflags c AND (MINUS OR ZERO) = 0 \<or> cflags c AND MINUS \<noteq> 0 \<or> cflags c AND ZERO \<noteq> 0"
    by (auto simp: word_ao_dist2)
  then show ?thesis by (auto simp: int_text_def Let_def)
qed

function rev_digits :: "nat \<Rightarrow> string \<Rightarrow> nat \<Rightarrow> string" where
  "rev_digits b ds n = (if n = 0 \<or> b < 2 then [] else ds ! (n mod b) # rev_digits b ds (n div b))"
  by pat_completeness auto
termination by (relation "measure (\<lambda>(b, ds, n). n)") auto

declare rev_digits.simps [simp del]

lemma digits_loop_plain:
  assumes b: "2 \<le> ibase b" "ibase b < 2 ^ 64"
  shows "unat v < ibase b ^ m \<Longrightarrow> length buf + m \<le> 64 \<Longrightarrow>
    digits_loop b False v k buf = Some (buf @ rev_digits (ibase b) (idigits b) (unat v))"
proof (induction m arbitrary: v k buf)
  case 0
  then have "v = 0" by (simp add: unat_eq_0)
  then show ?case by (subst digits_loop.simps) (simp add: rev_digits.simps)
next
  case (Suc m)
  show ?case
  proof (cases "v = 0")
    case True then show ?thesis by (subst digits_loop.simps) (simp add: rev_digits.simps)
  next
    case False
    then have v: "v > 0" "unat v \<noteq> 0" by (simp_all add: word_neq_0_conv unat_eq_0)
    let ?c = "idigits b ! (unat v mod ibase b)"
    have q: "buf_push ?c buf = Some (buf @ [?c])" using Suc.prems(2) by (simp add: buf_push_def)
    note d = unat_div_base [OF b(2), of v]
    have "unat (v div of_nat (ibase b)) < ibase b ^ m"
      using Suc.prems(1) d by (simp add: less_mult_imp_div_less mult.commute)
    from Suc.IH [OF this, of "buf @ [?c]" "k + 1"] have
      "digits_loop b False (v div of_nat (ibase b)) (k + 1) (buf @ [?c]) =
       Some (buf @ ?c # rev_digits (ibase b) (idigits b) (unat v div ibase b))"
      using Suc.prems(2) d by auto
    then show ?thesis using v q b(1) by (subst digits_loop.simps) (simp add: rev_digits.simps [of _ _ "unat v"])
  qed
qed

lemma rev_digits_length: "n < b ^ m \<Longrightarrow> length (rev_digits b ds n) \<le> m"
proof (induction m arbitrary: n)
  case (Suc m)
  then have "n div b < b ^ m" by (simp add: less_mult_imp_div_less mult.commute)
  then show ?case using Suc.IH by (subst rev_digits.simps) auto
qed (simp add: rev_digits.simps)

section \<open>Decimal numbers\<close>

definition decimal :: "nat \<Rightarrow> string" where
  "decimal n = (if n = 0 then ''0'' else rev (rev_digits 10 ''0123456789'' n))"

definition signed_decimal :: "int \<Rightarrow> string" where
  "signed_decimal i = (if i < 0 then ''-'' else []) @ decimal (nat \<bar>i\<bar>)"

lemma fill_buffer_decimal:
  "fill_buffer v base_d \<lparr>cflags = 0, cwidth = w, cprecision = - 1, ctype = t\<rparr> = Some (rev (decimal (unat v)))"
proof -
  have "unat v < 2 ^ 64" using unsigned_less [of v, where 'a = nat] by simp
  also have "(2::nat) ^ 64 \<le> 10 ^ 20" by simp
  finally have "unat v < 10 ^ 20" .
  then have "digits_loop base_d False v 0 [] = Some (rev_digits 10 ''0123456789'' (unat v))"
    using digits_loop_plain [of base_d v 20 "[]" 0] by (simp add: base_d_def)
  then show ?thesis
    by (cases "v = 0") (auto simp: fill_buffer_def zeros_loop_eq decimal_def Let_def rev_digits.simps unat_eq_0)
qed

lemma sint_word_of_int: "- (2 ^ 63) \<le> k \<Longrightarrow> k < 2 ^ 63 \<Longrightarrow> sint (word_of_int k :: u64) = k"
  by (simp add: signed_of_int signed_take_bit_int_eq_self)

lemma scast_abs:
  fixes w :: u32
  shows "sint (scast w :: u64) = sint w"
    and "unat (if sint w < 0 then - scast w else scast w :: u64) = nat \<bar>sint w\<bar>"
proof -
  have r: "- (2 ^ 31) \<le> sint w" "sint w < 2 ^ 31" using sint_greater_eq [of w] sint_less [of w] by simp_all
  have e: "scast w = (word_of_int (sint w) :: u64)" by (rule scast_eq)
  show "sint (scast w :: u64) = sint w" unfolding e
    by (rule sint_word_of_int [OF order_trans [OF _ r(1)] less_le_trans [OF r(2)]]) simp_all
  have u: "unat (word_of_int k :: u64) = nat k" if "0 \<le> k" "k < 2 ^ 63" for k
    using that by (simp add: unsigned_of_int take_bit_int_eq_self)
  show "unat (if sint w < 0 then - scast w else scast w :: u64) = nat \<bar>sint w\<bar>"
  proof (cases "sint w < 0")
    case True
    then have "- scast w = (word_of_int (- sint w) :: u64)" unfolding e by simp
    then show ?thesis using True u [of "- sint w"] r by simp
  next
    case False
    then show ?thesis using u [of "sint w"] r unfolding e by simp
  qed
qed

lemma decimal_conversion:
  "format_integer (if sint w < 0 then - scast w else scast w) True (sint w < 0) base_d
     \<lparr>cflags = 0, cwidth = 0, cprecision = - 1, ctype = t\<rparr> out aux = Some (fold out (signed_decimal (sint w)) aux)" for w :: u32
  unfolding format_integer_text fill_buffer_decimal scast_abs
  by (simp add: int_text_def sign_char_def signed_decimal_def)

lemma printf_signed: "printf_text ''%d'' [Arg32 w] = Some (signed_decimal (sint w))"
  by (simp add: printf_text_def printf_def vprintf_def numeral_2_eq_2 parse_defs convert_def signed_arg_def arg32_def
      scast_abs decimal_conversion del: if_split)

lemma decimal_digit:
  assumes "d < 10"
  shows "isdigit (''0123456789'' ! d)" "chr (''0123456789'' ! d) = int d + 48" "\<not> isspace (''0123456789'' ! d)"
    "''0123456789'' ! d \<noteq> CHR ''-''" "''0123456789'' ! d \<noteq> CHR ''+''"
proof -
  have "\<forall>d < 10. isdigit (''0123456789'' ! d) \<and> chr (''0123456789'' ! d) = int d + 48 \<and>
    \<not> isspace (''0123456789'' ! d) \<and> ''0123456789'' ! d \<noteq> CHR ''-'' \<and> ''0123456789'' ! d \<noteq> CHR ''+''"
    by (simp add: eval_nat_numeral All_less_Suc2 isdigit_def isspace_def)
  then show "isdigit (''0123456789'' ! d)" "chr (''0123456789'' ! d) = int d + 48" "\<not> isspace (''0123456789'' ! d)"
    "''0123456789'' ! d \<noteq> CHR ''-''" "''0123456789'' ! d \<noteq> CHR ''+''"
    using assms by blast+
qed

lemma rev_digits_digits: "\<forall>c \<in> set (rev_digits 10 ''0123456789'' n). isdigit c"
proof (induction n rule: less_induct)
  case (less n)
  show ?case
  proof (cases "n = 0")
    case False
    then have "\<forall>c \<in> set (rev_digits 10 ''0123456789'' (n div 10)). isdigit c" by (intro less) simp
    then show ?thesis using decimal_digit(1) [of "n mod 10"] by (subst rev_digits.simps) auto
  qed (simp add: rev_digits.simps)
qed

lemma atoi_digits_append:
  "\<forall>c \<in> set s. isdigit c \<Longrightarrow> atoi_digits v (s @ t) = do { v \<leftarrow> atoi_digits v s; atoi_digits v t }"
  by (induction s arbitrary: v) (auto split: bind_splits)

lemma atoi_rev_digits:
  "n \<le> 2 ^ 31 \<Longrightarrow> atoi_digits 0 (rev (rev_digits 10 ''0123456789'' n)) = Some (- int n)"
proof (induction n rule: less_induct)
  case (less n)
  show ?case
  proof (cases "n = 0")
    case False
    have IH: "atoi_digits 0 (rev (rev_digits 10 ''0123456789'' (n div 10))) = Some (- int (n div 10))"
      using less False by auto
    have r: "rev_digits 10 ''0123456789'' n = ''0123456789'' ! (n mod 10) # rev_digits 10 ''0123456789'' (n div 10)"
      using False by (subst rev_digits.simps) simp
    have e: "- int (n div 10) * 10 - int (n mod 10) = - int n"
    proof -
      have "int (n div 10 * 10 + n mod 10) = int n" by (simp only: div_mult_mod_eq)
      then show ?thesis unfolding of_nat_add of_nat_mult by linarith
    qed
    have "s32_ok (- int (n div 10) * 10)" "s32_ok (- int n)"
      using less.prems by (auto simp: s32_ok_def)
    then show ?thesis
      unfolding r using decimal_digit(1,2) [of "n mod 10"] rev_digits_digits [of "n div 10"] IH e
      by (simp add: atoi_digits_append s32_def)
  qed (simp add: rev_digits.simps)
qed

lemma atoi_decimal: "n \<le> 2 ^ 31 \<Longrightarrow> atoi_digits 0 (decimal n) = Some (- int n)"
proof (cases "n = 0")
  case True
  then show ?thesis by (simp add: decimal_def isdigit_def s32_def s32_ok_def)
qed (simp add: decimal_def atoi_rev_digits)

lemma decimal_hd: "\<exists>d < 10. \<exists>t. decimal n = ''0123456789'' ! d # t"
proof (induction n rule: less_induct)
  case (less n)
  consider "n = 0" | "0 < n" "n div 10 = 0" | "n div 10 \<noteq> 0" by blast
  then show ?case
  proof cases
    case 1 then show ?thesis by (auto simp: decimal_def intro!: exI [of _ 0])
  next
    case 2
    then have "decimal n = [''0123456789'' ! (n mod 10)]" by (simp add: decimal_def rev_digits.simps [of _ _ n] rev_digits.simps [of _ _ 0])
    then show ?thesis by (intro exI [of _ "n mod 10"]) simp
  next
    case 3
    then have "decimal n = decimal (n div 10) @ [''0123456789'' ! (n mod 10)]"
      by (auto simp: decimal_def rev_digits.simps [of _ _ n])
    moreover obtain d t where "d < 10" "decimal (n div 10) = ''0123456789'' ! d # t" using less [of "n div 10"] 3 by auto
    ultimately show ?thesis by auto
  qed
qed

lemma decimal_length: "n < 10 ^ 10 \<Longrightarrow> length (decimal n) \<le> 10"
  using rev_digits_length [of n 10 10] by (auto simp: decimal_def)

lemma atoi_signed_decimal:
  assumes "s32_ok i"
  shows "atoi (signed_decimal i) = Some i"
proof -
  obtain d t where d: "d < 10" "decimal (nat \<bar>i\<bar>) = ''0123456789'' ! d # t" using decimal_hd by blast
  have n: "nat \<bar>i\<bar> \<le> 2 ^ 31" using assms by (auto simp: s32_ok_def)
  note a = atoi_decimal [OF n]
  show ?thesis
  proof (cases "i < 0")
    case True
    then show ?thesis using a by (simp add: atoi_def signed_decimal_def isspace_def)
  next
    case False
    then have "atoi (signed_decimal i) = do { value \<leftarrow> atoi_digits 0 (decimal (nat \<bar>i\<bar>)); s32 (- value) }"
      using decimal_digit [OF d(1)] d(2) by (simp add: atoi_def signed_decimal_def)
    then show ?thesis using a False assms by (simp add: s32_def)
  qed
qed

section \<open>Bounded printing\<close>

lemma helper_fold:
  "sint (out_length aux) + int (length t) < 2 ^ 31 \<Longrightarrow> 0 \<le> sint (out_length aux) \<Longrightarrow>
   fold vsnprintf_helper t aux = aux\<lparr>out_length := out_length aux + of_nat (length t),
     written := written aux @ take (nat (sint (max_length aux) - sint (out_length aux))) t\<rparr>"
proof (induction t arbitrary: aux)
  case (Cons ch t)
  let ?l = "out_length aux" and ?m = "max_length aux"
  have l1: "sint (?l + 1) = sint ?l + 1"
  proof -
    have "sint ?l + 1 < 2 ^ 31" using Cons.prems(1) by simp
    then show ?thesis using Cons.prems(2) by (simp add: sint_word_ariths signed_take_bit_int_eq_self)
  qed
  show ?case
  proof (cases "sint ?l < sint ?m")
    case True
    then have "nat (sint ?m - sint ?l) = Suc (nat (sint ?m - (sint ?l + 1)))" by linarith
    then show ?thesis
      using Cons.IH [of "vsnprintf_helper ch aux"] Cons.prems True l1 by (simp add: vsnprintf_helper_def Let_def ac_simps)
  next
    case False
    then show ?thesis
      using Cons.IH [of "vsnprintf_helper ch aux"] Cons.prems l1 by (simp add: vsnprintf_helper_def Let_def ac_simps)
  qed
qed simp

lemma vsnprintf_text:
  assumes t: "printf_text format args = Some t" and l: "length t < 2 ^ 31" and n: "0 < n" "unat n \<le> 2 ^ 31"
  shows "vsnprintf n format args = Some (take (unat n - 1) t @ [CHR 0x00], of_nat (length t))"
proof -
  have u: "unat (n - 1) = unat n - 1" using n(1) by (simp add: unat_minus_one word_neq_0_conv)
  then have m: "sint (n - 1) = int (unat n - 1)" using sint_small [of "n - 1"] n(2) by simp
  then show ?thesis
    using helper_fold [of "\<lparr>written = [], out_length = 0, max_length = n - 1\<rparr>" t] t l n(1) m
    by (simp add: vsnprintf_def vprintf_text)
qed

section \<open>Properties\<close>

text \<open>Whatever the number, base, flags, width and precision, \<^verbatim>\<open>format_integer\<close> never writes
  past its 64-character buffer: it succeeds, outputs one text whatever the output function, and the
  text fills the field width.\<close>

theorem format_integer_safe:
  assumes "b \<in> {base_d, base_o, base_x, base_X}"
  shows "\<exists>t. (\<forall>out aux. format_integer v is_signed negative b c out aux = Some (fold out t aux)) \<and>
    cwidth c \<le> int (length t)"
proof -
  obtain buf where "fill_buffer v b c = Some buf" using fill_buffer_safe [OF assms] by blast
  then show ?thesis using int_text_length by (auto simp: format_integer_text)
qed

theorem format_integer_safe_witness:
  "\<exists>t. (\<forall>out aux. format_integer 0xFFFFFFFFFFFFFFFF False False base_o
      \<lparr>cflags = GROUP OR POUND, cwidth = 100, cprecision = 90, ctype = T_LONGLONG\<rparr> out aux = Some (fold out t (aux :: string))) \<and>
    100 \<le> int (length t)"
  using format_integer_safe [of base_o "0xFFFFFFFFFFFFFFFF" False False
      "\<lparr>cflags = GROUP OR POUND, cwidth = 100, cprecision = 90, ctype = T_LONGLONG\<rparr>"] by simp

text \<open>\<^verbatim>\<open>snprintf\<close> into a buffer of \<open>n\<close> bytes stores the text that \<^verbatim>\<open>printf\<close> writes
  for the same format and arguments, cut to \<open>n - 1\<close> characters and terminated, and returns the
  length of the whole text.\<close>

theorem snprintf_truncates:
  assumes "printf format args [] = Some t" and "length t < 2 ^ 31" and "0 < n" and "unat n \<le> 2 ^ 31"
  shows "snprintf n format args = Some (take (unat n - 1) t @ [CHR 0x00], of_nat (length t))"
  using vsnprintf_text [of format args t n] assms by (simp add: snprintf_def printf_text_def)

theorem snprintf_truncates_witness:
  "snprintf 4 ''pid %d'' [Arg32 (- 7)] = Some (''pid'' @ [CHR 0x00], 6)"
proof -
  have r: "printf_text ''%d'' [Arg32 (- 7)] = Some ''-7''"
    by (simp add: printf_signed signed_decimal_def decimal_def rev_digits.simps)
  have "printf ''pid %d'' [Arg32 (- 7)] [] = printf ''%d'' [Arg32 (- 7)] ''pid ''"
    by (simp add: printf_def vprintf_def numeral_2_eq_2 putc_def)
  also have "\<dots> = Some ''pid -7''" unfolding printf_con r by simp
  finally show ?thesis using snprintf_truncates [of "''pid %d''" "[Arg32 (- 7)]" "''pid -7''" 4] by simp
qed

text \<open>C25: Printing and parsing are inverse: for every 32-bit integer, \<^verbatim>\<open>snprintf\<close> with the format
  \<^verbatim>\<open>%d\<close> into a buffer of at least 12 bytes stores a terminated text that \<^verbatim>\<open>atoi\<close> reads back
  as the same integer, the most negative one included.\<close>

theorem print_atoi_roundtrip:
  assumes "12 \<le> n" and "unat n \<le> 2 ^ 31"
  shows "\<exists>t. snprintf n ''%d'' [Arg32 w] = Some (t @ [CHR 0x00], of_nat (length t)) \<and> atoi t = Some (sint w)"
proof -
  have r: "- (2 ^ 31) \<le> sint w" "sint w < 2 ^ 31" using sint_greater_eq [of w] sint_less [of w] by simp_all
  let ?t = "signed_decimal (sint w)"
  have "nat \<bar>sint w\<bar> < 10 ^ 10" using r by simp
  then have "length (decimal (nat \<bar>sint w\<bar>)) \<le> 10" by (rule decimal_length)
  then have l: "length ?t \<le> 11" unfolding signed_decimal_def length_append by (cases "sint w < 0") simp_all
  have n: "12 \<le> unat n" using assms(1) by (simp add: word_le_nat_alt)
  then have "0 < n" by (simp add: word_less_nat_alt)
  from vsnprintf_text [OF printf_signed _ this assms(2), of w] have
    "snprintf n ''%d'' [Arg32 w] = Some (?t @ [CHR 0x00], of_nat (length ?t))"
    using l n by (simp add: snprintf_def)
  moreover have "atoi ?t = Some (sint w)" using r by (intro atoi_signed_decimal) (simp add: s32_ok_def)
  ultimately show ?thesis by blast
qed

theorem print_atoi_roundtrip_witness:
  "\<exists>t. snprintf 12 ''%d'' [Arg32 0x80000000] = Some (t @ [CHR 0x00], of_nat (length t)) \<and> atoi t = Some (- 2147483648)"
  using print_atoi_roundtrip [of 12 "0x80000000"] by simp

end
