(* ===== verification/Slots.thy ===== *)
theory Slots
  imports Prelude
begin

text \<open>
  The interface of an allocator of numbered slots (pages of a pool, sectors of a disk): getting a
  run of free slots and putting a run back.  The client keeps a ledger of the runs it holds.
\<close>

datatype slot_op = Get nat | Put nat

text \<open>
  A client: \<open>Get n\<close> asks for \<open>n\<close> slots and enters them in the ledger, \<open>Put k\<close> returns the
  \<open>k\<close>-th run of the ledger.
\<close>

primrec run_slots ::
  "(nat \<Rightarrow> 's \<Rightarrow> (nat option \<times> 's) option) \<Rightarrow> (nat \<Rightarrow> nat \<Rightarrow> 's \<Rightarrow> 's option) \<Rightarrow>
   slot_op list \<Rightarrow> 's \<Rightarrow> (nat \<times> nat) list \<Rightarrow> ('s \<times> (nat \<times> nat) list) option" where
  "run_slots get put [] s L = Some (s, L)" |
  "run_slots get put (a # as) s L =
     (case a of
        Get n \<Rightarrow>
          if n = 0 \<or> n \<ge> 2 ^ 32 then run_slots get put as s L
          else do {
            (r, s) \<leftarrow> get n s;
            run_slots get put as s (case r of Some i \<Rightarrow> (i, n) # L | None \<Rightarrow> L) }
      | Put k \<Rightarrow>
          if k < length L
          then do {
            s \<leftarrow> put (fst (L ! k)) (snd (L ! k)) s;
            run_slots get put as s (take k L @ drop (Suc k) L) }
          else run_slots get put as s L)"

definition slots :: "nat \<times> nat \<Rightarrow> nat set" where
  "slots r = {fst r..<fst r + snd r}"

text \<open>No slot is in two runs of the ledger.\<close>

definition no_overlap :: "(nat \<times> nat) list \<Rightarrow> bool" where
  "no_overlap L \<longleftrightarrow> sorted_wrt (\<lambda>a b. slots a \<inter> slots b = {}) L"

lemma no_overlap_drop:
  assumes "no_overlap L" "k < length L"
  shows "no_overlap (take k L @ drop (Suc k) L)"
    and "slots (L ! k) \<inter> (\<Union> (slots ` set (take k L @ drop (Suc k) L))) = {}"
    and "\<Union> (slots ` set L) = slots (L ! k) \<union> \<Union> (slots ` set (take k L @ drop (Suc k) L))"
proof -
  have L: "L = take k L @ L ! k # drop (Suc k) L" using assms(2) by (simp add: id_take_nth_drop)
  then have o: "no_overlap (take k L @ L ! k # drop (Suc k) L)" using assms(1) by simp
  then show "no_overlap (take k L @ drop (Suc k) L)" by (simp add: no_overlap_def sorted_wrt_append)
  show "slots (L ! k) \<inter> (\<Union> (slots ` set (take k L @ drop (Suc k) L))) = {}"
    using o by (fastforce simp: no_overlap_def sorted_wrt_append)
  have "set L = insert (L ! k) (set (take k L @ drop (Suc k) L))" by (subst L) simp
  then show "\<Union> (slots ` set L) = slots (L ! k) \<union> \<Union> (slots ` set (take k L @ drop (Suc k) L))" by simp
qed

locale slot_allocator =
  fixes ok :: "'s \<Rightarrow> bool"
    and cap :: "'s \<Rightarrow> nat"
    and used :: "'s \<Rightarrow> nat set"
    and get :: "nat \<Rightarrow> 's \<Rightarrow> (nat option \<times> 's) option"
    and put :: "nat \<Rightarrow> nat \<Rightarrow> 's \<Rightarrow> 's option"
  assumes get_spec: "ok s \<Longrightarrow> 0 < n \<Longrightarrow> n < 2 ^ 32 \<Longrightarrow>
      \<exists>r s'. get n s = Some (r, s') \<and> ok s' \<and> cap s' = cap s \<and>
        (case r of
           None \<Rightarrow> used s' = used s
         | Some i \<Rightarrow> i + n \<le> cap s \<and> slots (i, n) \<inter> used s = {} \<and> used s' = used s \<union> slots (i, n))"
    and put_spec: "ok s \<Longrightarrow> 0 < n \<Longrightarrow> i + n \<le> cap s \<Longrightarrow> slots (i, n) \<subseteq> used s \<Longrightarrow>
      \<exists>s'. put i n s = Some s' \<and> ok s' \<and> cap s' = cap s \<and> used s' = used s - slots (i, n)"
begin

definition ledger_ok :: "nat set \<Rightarrow> 's \<Rightarrow> (nat \<times> nat) list \<Rightarrow> bool" where
  "ledger_ok R s L \<longleftrightarrow> ok s \<and> no_overlap L \<and> (\<forall>r \<in> set L. 0 < snd r \<and> fst r + snd r \<le> cap s) \<and>
     R \<inter> (\<Union> (slots ` set L)) = {} \<and> used s = R \<union> (\<Union> (slots ` set L))"

text \<open>Whatever the client does, it holds disjoint runs, and the slots in use are exactly those it
  holds beside the ones in use from the start.\<close>

lemma run_ledger:
  "ledger_ok R s L \<Longrightarrow> \<exists>s' L'. run_slots get put as s L = Some (s', L') \<and> ledger_ok R s' L' \<and> cap s' = cap s"
proof (induction as arbitrary: s L)
  case (Cons a as)
  have ok: "ok s" and no: "no_overlap L" and fit: "\<forall>r \<in> set L. 0 < snd r \<and> fst r + snd r \<le> cap s"
    and dis: "R \<inter> (\<Union> (slots ` set L)) = {}" and us: "used s = R \<union> (\<Union> (slots ` set L))"
    using Cons.prems by (simp_all add: ledger_ok_def)
  show ?case
  proof (cases a)
    case (Get n)
    show ?thesis
    proof (cases "n = 0 \<or> n \<ge> 2 ^ 32")
      case True then show ?thesis using Cons Get by simp
    next
      case False
      then obtain r s1 where g: "get n s = Some (r, s1)" "ok s1" "cap s1 = cap s"
        "case r of None \<Rightarrow> used s1 = used s
         | Some i \<Rightarrow> i + n \<le> cap s \<and> slots (i, n) \<inter> used s = {} \<and> used s1 = used s \<union> slots (i, n)"
        using get_spec [OF ok, of n] by auto
      have "ledger_ok R s1 (case r of Some i \<Rightarrow> (i, n) # L | None \<Rightarrow> L)"
        using no fit dis us g(2,3,4) False by (cases r) (auto simp: ledger_ok_def no_overlap_def)
      from Cons.IH [OF this] show ?thesis using Get False g(1,3) by auto
    qed
  next
    case (Put k)
    show ?thesis
    proof (cases "k < length L")
      case False then show ?thesis using Cons Put by simp
    next
      case True
      note O = no_overlap_drop [OF no True]
      have in_L: "L ! k \<in> set L" using True by simp
      have "slots (L ! k) \<subseteq> used s" unfolding us O(3) by (rule le_supI2) (rule Un_upper1)
      moreover have "0 < snd (L ! k)" "fst (L ! k) + snd (L ! k) \<le> cap s" using fit in_L by simp_all
      ultimately obtain s1 where p: "put (fst (L ! k)) (snd (L ! k)) s = Some s1" "ok s1" "cap s1 = cap s"
        "used s1 = used s - slots (L ! k)"
        using put_spec [OF ok, of "snd (L ! k)" "fst (L ! k)"] unfolding prod.collapse by blast
      have sub: "set (take k L @ drop (Suc k) L) \<subseteq> set L" by (auto dest: in_set_takeD in_set_dropD)
      have "ledger_ok R s1 (take k L @ drop (Suc k) L)"
        unfolding ledger_ok_def
      proof (intro conjI)
        show "R \<inter> (\<Union> (slots ` set (take k L @ drop (Suc k) L))) = {}" using dis unfolding O(3) by blast
        have "R \<inter> slots (L ! k) = {}" using dis unfolding O(3) by blast
        then show "used s1 = R \<union> (\<Union> (slots ` set (take k L @ drop (Suc k) L)))" using O(2) unfolding p(4) us O(3) by blast
        show "\<forall>r \<in> set (take k L @ drop (Suc k) L). 0 < snd r \<and> fst r + snd r \<le> cap s1"
          using fit sub unfolding p(3) by blast
      qed (fact O(1) p(2))+
      from Cons.IH [OF this] show ?thesis using Put True p(1,3) by auto
    qed
  qed
qed simp

end

end
