(* ===== verification/Palloc.thy ===== *)
theory Palloc
  imports Bitmap Slots
begin

text \<open>
  Virtual addresses (\<^verbatim>\<open>threads/vaddr.h\<close>) and the page allocator \<^verbatim>\<open>threads/palloc.c\<close>: two
  pools of pages, each with a bitmap of the pages in use.  The locks of the pools serialize the
  calls and are not part of the model.  A kernel panic is \<open>None\<close>.
\<close>

section \<open>Virtual addresses\<close>

definition PGBITS :: nat where "PGBITS = 12"
definition PGSIZE :: u32 where "PGSIZE = push_bit PGBITS 1"
definition PGMASK :: u32 where "PGMASK = push_bit 0 (push_bit PGBITS 1 - 1)"
definition PHYS_BASE :: ptr where "PHYS_BASE = 0xC0000000"

definition pg_ofs :: "ptr \<Rightarrow> u32" where "pg_ofs va = va AND PGMASK"
definition pg_no :: "ptr \<Rightarrow> u32" where "pg_no va = drop_bit PGBITS va"
definition pg_round_up :: "ptr \<Rightarrow> ptr" where "pg_round_up va = (va + PGSIZE - 1) AND NOT PGMASK"
definition pg_round_down :: "ptr \<Rightarrow> ptr" where "pg_round_down va = va AND NOT PGMASK"
definition is_user_vaddr :: "ptr \<Rightarrow> bool" where "is_user_vaddr va \<longleftrightarrow> va < PHYS_BASE"
definition is_kernel_vaddr :: "ptr \<Rightarrow> bool" where "is_kernel_vaddr va \<longleftrightarrow> va \<ge> PHYS_BASE"

definition ptov :: "u32 \<Rightarrow> ptr option" where
  "ptov paddr = do { chk (paddr < PHYS_BASE); Some (paddr + PHYS_BASE) }"

definition vtop :: "ptr \<Rightarrow> u32 option" where
  "vtop va = do { chk (is_kernel_vaddr va); Some (va - PHYS_BASE) }"

section \<open>The allocator\<close>

record pool =
  used_map :: bitmap
  base :: ptr

record palloc_state =
  kernel_pool :: pool
  user_pool :: pool
  bytes :: "ptr \<Rightarrow> u8"

definition PAL_ASSERT :: u32 where "PAL_ASSERT = 1"
definition PAL_ZERO :: u32 where "PAL_ZERO = 2"
definition PAL_USER :: u32 where "PAL_USER = 4"

text \<open>\<open>fill p c n\<close> is \<^verbatim>\<open>memset (p, c, n)\<close> on the memory of the machine.\<close>

definition fill :: "ptr \<Rightarrow> u8 \<Rightarrow> u32 \<Rightarrow> (ptr \<Rightarrow> u8) \<Rightarrow> ptr \<Rightarrow> u8" where
  "fill p c n m = (\<lambda>a. if a - p < n then c else m a)"

text \<open>The words of memory from \<open>p\<close> on, as many as fit in \<open>n\<close> bytes.\<close>

definition words_at :: "(ptr \<Rightarrow> u8) \<Rightarrow> ptr \<Rightarrow> nat \<Rightarrow> u32 list" where
  "words_at m p n = map (\<lambda>i. let a = p + 4 * of_nat i in
     ucast (m a) + push_bit 8 (ucast (m (a + 1))) + push_bit 16 (ucast (m (a + 2))) + push_bit 24 (ucast (m (a + 3))))
     [0..<n div 4]"

definition init_pool :: "(ptr \<Rightarrow> u8) \<Rightarrow> ptr \<Rightarrow> u32 \<Rightarrow> pool option" where
  "init_pool m start page_cnt = do {
     let bm_pages = DIV_ROUND_UP (bitmap_buf_size page_cnt) PGSIZE;
     chk (bm_pages \<le> page_cnt);
     let page_cnt = page_cnt - bm_pages;
     bm \<leftarrow> bitmap_create_in_buf page_cnt (words_at m start (unat (bm_pages * PGSIZE))) (bm_pages * PGSIZE);
     Some \<lparr>used_map = bm, base = start + bm_pages * PGSIZE\<rparr> }"

definition palloc_init :: "u32 \<Rightarrow> u32 \<Rightarrow> (ptr \<Rightarrow> u8) \<Rightarrow> palloc_state option" where
  "palloc_init init_ram_pages user_page_limit m = do {
     free_start \<leftarrow> ptov (1024 * 1024);
     free_end \<leftarrow> ptov (init_ram_pages * PGSIZE);
     let free_pages = (free_end - free_start) div PGSIZE;
     let user_pages = free_pages div 2;
     let user_pages = (if user_pages > user_page_limit then user_page_limit else user_pages);
     let kernel_pages = free_pages - user_pages;
     k \<leftarrow> init_pool m free_start kernel_pages;
     u \<leftarrow> init_pool m (free_start + kernel_pages * PGSIZE) user_pages;
     Some \<lparr>kernel_pool = k, user_pool = u, bytes = m\<rparr> }"

definition the_pool :: "u32 \<Rightarrow> palloc_state \<Rightarrow> pool" where
  "the_pool fl st = (if fl AND PAL_USER \<noteq> 0 then user_pool st else kernel_pool st)"

definition put_pool :: "bool \<Rightarrow> pool \<Rightarrow> palloc_state \<Rightarrow> palloc_state" where
  "put_pool user p st = (if user then st\<lparr>user_pool := p\<rparr> else st\<lparr>kernel_pool := p\<rparr>)"

definition palloc_get_multiple :: "u32 \<Rightarrow> u32 \<Rightarrow> palloc_state \<Rightarrow> (ptr \<times> palloc_state) option" where
  "palloc_get_multiple fl page_cnt st =
     (if page_cnt = 0 then Some (NULL, st)
      else do {
        let p = the_pool fl st;
        (page_idx, bm) \<leftarrow> bitmap_scan_and_flip (used_map p) 0 page_cnt False;
        let st = put_pool (fl AND PAL_USER \<noteq> 0) (p\<lparr>used_map := bm\<rparr>) st;
        let pages = (if page_idx \<noteq> BITMAP_ERROR then base p + PGSIZE * page_idx else NULL);
        if pages \<noteq> NULL
        then Some (pages, if fl AND PAL_ZERO \<noteq> 0 then st\<lparr>bytes := fill pages 0 (PGSIZE * page_cnt) (bytes st)\<rparr> else st)
        else do { chk (fl AND PAL_ASSERT = 0); Some (pages, st) } })"

definition palloc_get_page :: "u32 \<Rightarrow> palloc_state \<Rightarrow> (ptr \<times> palloc_state) option" where
  "palloc_get_page fl st = palloc_get_multiple fl 1 st"

definition page_from_pool :: "pool \<Rightarrow> ptr \<Rightarrow> bool" where
  "page_from_pool p page =
     (let page_no = pg_no page;
          start_page = pg_no (base p);
          end_page = start_page + bitmap_size (used_map p)
      in page_no \<ge> start_page \<and> page_no < end_page)"

definition palloc_free_multiple :: "ptr \<Rightarrow> u32 \<Rightarrow> palloc_state \<Rightarrow> palloc_state option" where
  "palloc_free_multiple pages page_cnt st = do {
     chk (pg_ofs pages = 0);
     if pages = NULL \<or> page_cnt = 0 then Some st
     else do {
       user \<leftarrow> (if page_from_pool (kernel_pool st) pages then Some False
         else if page_from_pool (user_pool st) pages then Some True else None);
       let p = (if user then user_pool st else kernel_pool st);
       let page_idx = pg_no pages - pg_no (base p);
       let st = st\<lparr>bytes := fill pages 0xCC (PGSIZE * page_cnt) (bytes st)\<rparr>;
       used \<leftarrow> bitmap_all (used_map p) page_idx page_cnt;
       chk used;
       bm \<leftarrow> bitmap_set_multiple (used_map p) page_idx page_cnt False;
       Some (put_pool user (p\<lparr>used_map := bm\<rparr>) st) } }"

definition palloc_free_page :: "ptr \<Rightarrow> palloc_state \<Rightarrow> palloc_state option" where
  "palloc_free_page page st = palloc_free_multiple page 1 st"

section \<open>The pools as sets of pages\<close>

definition page_count :: "pool \<Rightarrow> nat" where
  "page_count p = unat (bit_cnt (used_map p))"

definition used_pages :: "pool \<Rightarrow> nat set" where
  "used_pages p = {i. i < page_count p \<and> bm_abs (used_map p) ! i}"

text \<open>A pool of whole pages that end below the top of the address space and do not start at 0.\<close>

definition pool_ok :: "pool \<Rightarrow> bool" where
  "pool_ok p \<longleftrightarrow> bm_ok (used_map p) \<and> unat (base p) mod 4096 = 0 \<and> base p \<noteq> 0 \<and>
     unat (base p) + 4096 * page_count p < 2 ^ 32"

definition pools_ok :: "palloc_state \<Rightarrow> bool" where
  "pools_ok st \<longleftrightarrow> pool_ok (kernel_pool st) \<and> pool_ok (user_pool st) \<and>
     unat (base (kernel_pool st)) + 4096 * page_count (kernel_pool st) \<le> unat (base (user_pool st))"

lemma PGSIZE_val: "PGSIZE = 4096"
  by (simp add: PGSIZE_def PGBITS_def)

lemma unat_pg_ofs: "unat (pg_ofs va) = unat va mod 4096"
proof -
  have "PGMASK = mask 12" by (simp add: PGMASK_def PGBITS_def mask_eq_exp_minus_1)
  then have "pg_ofs va = take_bit 12 va" by (simp add: pg_ofs_def take_bit_eq_mask)
  then show ?thesis by (simp add: take_bit_eq_mod unat_mod)
qed

lemma unat_pg_no: "unat (pg_no va) = unat va div 4096"
  by (simp add: pg_no_def PGBITS_def drop_bit_eq_div unat_div)

lemma used_pages_le: "used_pages p \<subseteq> {..<page_count p}"
  by (auto simp: used_pages_def)

lemma is_run_pages:
  "is_run False (bm_abs (used_map p)) i n \<longleftrightarrow> i + n \<le> page_count p \<and> {i..<i + n} \<inter> used_pages p = {}"
  "is_run True (bm_abs (used_map p)) i n \<longleftrightarrow> i + n \<le> page_count p \<and> {i..<i + n} \<subseteq> used_pages p"
proof -
  have *: "(\<forall>k<n. bm_abs (used_map p) ! (i + k) = v) \<longleftrightarrow> (\<forall>j\<in>{i..<i + n}. bm_abs (used_map p) ! j = v)" for v
    by (metis atLeastLessThan_iff le_add1 le_add_diff_inverse nat_add_left_cancel_less)
  show "is_run False (bm_abs (used_map p)) i n \<longleftrightarrow> i + n \<le> page_count p \<and> {i..<i + n} \<inter> used_pages p = {}"
    unfolding is_run_def * by (auto simp: used_pages_def page_count_def)
  show "is_run True (bm_abs (used_map p)) i n \<longleftrightarrow> i + n \<le> page_count p \<and> {i..<i + n} \<subseteq> used_pages p"
    unfolding is_run_def * by (auto simp: used_pages_def page_count_def)
qed

lemma used_pages_update:
  assumes "bm_abs bm = take i (bm_abs (used_map p)) @ replicate n v @ drop (i + n) (bm_abs (used_map p))"
    "bit_cnt bm = bit_cnt (used_map p)" "i + n \<le> page_count p"
  shows "used_pages (p\<lparr>used_map := bm\<rparr>) = (if v then used_pages p \<union> {i..<i + n} else used_pages p - {i..<i + n})"
  using assms(2,3) by (auto simp: used_pages_def page_count_def assms(1) nth_append)

text \<open>The address of page \<open>i\<close> of a pool.\<close>

lemma page_address:
  assumes "pool_ok p" "unat i \<le> page_count p"
  shows "unat (base p + PGSIZE * i) = unat (base p) + 4096 * unat i"
    and "base p + PGSIZE * i \<noteq> NULL"
    and "pg_ofs (base p + PGSIZE * i) = 0"
    and "unat (pg_no (base p + PGSIZE * i)) = unat (pg_no (base p)) + unat i"
proof -
  have "unat (base p) + 4096 * unat i < 2 ^ 32" using assms by (simp add: pool_ok_def)
  then show *: "unat (base p + PGSIZE * i) = unat (base p) + 4096 * unat i"
    by (simp add: PGSIZE_val unat_word_ariths)
  have "unat (base p) \<noteq> 0" using assms(1) by (simp add: pool_ok_def unat_eq_0)
  then have "unat (base p + PGSIZE * i) \<noteq> 0" using * by simp
  then show "base p + PGSIZE * i \<noteq> NULL" by auto
  have m: "unat (base p) mod 4096 = 0" using assms(1) by (simp add: pool_ok_def)
  have "unat (pg_ofs (base p + PGSIZE * i)) = 0" unfolding unat_pg_ofs * using m by simp
  then show "pg_ofs (base p + PGSIZE * i) = 0" by (simp add: unat_eq_0)
  show "unat (pg_no (base p + PGSIZE * i)) = unat (pg_no (base p)) + unat i" unfolding unat_pg_no * by simp
qed

lemma page_from_pool_iff:
  assumes "pool_ok p"
  shows "page_from_pool p a \<longleftrightarrow> unat (base p) div 4096 \<le> unat a div 4096 \<and> unat a div 4096 < unat (base p) div 4096 + page_count p"
proof -
  have "unat (base p) div 4096 + page_count p < 2 ^ 32" using assms by (auto simp: pool_ok_def)
  then have "unat (pg_no (base p) + bit_cnt (used_map p)) = unat (base p) div 4096 + page_count p"
    by (simp add: unat_word_ariths unat_pg_no page_count_def)
  then show ?thesis by (simp add: page_from_pool_def Let_def bitmap_size_def word_le_nat_alt word_less_nat_alt unat_pg_no)
qed

section \<open>Getting and freeing pages\<close>

definition no_room :: "pool \<Rightarrow> nat \<Rightarrow> bool" where
  "no_room p n \<longleftrightarrow> \<not> (\<exists>i. i + n \<le> page_count p \<and> {i..<i + n} \<inter> used_pages p = {})"

text \<open>The same allocator but for the pages in use of one pool and the contents of memory.\<close>

definition pool_change :: "u32 \<Rightarrow> palloc_state \<Rightarrow> palloc_state \<Rightarrow> nat set \<Rightarrow> bool" where
  "pool_change fl st st' used \<longleftrightarrow>
     pools_ok st' \<and> used_pages (the_pool fl st') = used \<and>
     page_count (the_pool fl st') = page_count (the_pool fl st) \<and> base (the_pool fl st') = base (the_pool fl st) \<and>
     (if fl AND PAL_USER \<noteq> 0 then kernel_pool st' = kernel_pool st else user_pool st' = user_pool st)"

lemma pools_ok_put:
  assumes "pools_ok st" "bm_ok bm" "bit_cnt bm = bit_cnt (used_map (the_pool fl st))"
  shows "pool_change fl st (put_pool (fl AND PAL_USER \<noteq> 0) ((the_pool fl st)\<lparr>used_map := bm\<rparr>) st)
    (used_pages ((the_pool fl st)\<lparr>used_map := bm\<rparr>))"
  using assms by (auto simp: pool_change_def put_pool_def the_pool_def pools_ok_def pool_ok_def page_count_def)

lemma pool_change_bytes: "pool_change fl st (st'\<lparr>bytes := m\<rparr>) used = pool_change fl st st' used"
  by (simp add: pool_change_def pools_ok_def the_pool_def)

lemma the_pool_ok: "pools_ok st \<Longrightarrow> pool_ok (the_pool fl st)"
  by (simp add: the_pool_def pools_ok_def)

lemma put_pool_same: "put_pool (fl AND PAL_USER \<noteq> 0) (the_pool fl st) st = st"
  by (simp add: put_pool_def the_pool_def)

lemma palloc_get_ok:
  assumes ok: "pools_ok st" and n: "cnt \<noteq> 0"
  shows "if no_room (the_pool fl st) (unat cnt)
    then palloc_get_multiple fl cnt st = (if fl AND PAL_ASSERT = 0 then Some (NULL, st) else None)
    else \<exists>i st'. palloc_get_multiple fl cnt st = Some (base (the_pool fl st) + PGSIZE * i, st') \<and>
      unat i + unat cnt \<le> page_count (the_pool fl st) \<and> {unat i..<unat i + unat cnt} \<inter> used_pages (the_pool fl st) = {} \<and>
      pool_change fl st st' (used_pages (the_pool fl st) \<union> {unat i..<unat i + unat cnt}) \<and>
      bytes st' = (if fl AND PAL_ZERO \<noteq> 0 then fill (base (the_pool fl st) + PGSIZE * i) 0 (PGSIZE * cnt) (bytes st) else bytes st)"
proof -
  let ?p = "the_pool fl st"
  have p: "pool_ok ?p" by (rule the_pool_ok [OF ok])
  then have bok: "bm_ok (used_map ?p)" by (simp add: pool_ok_def)
  obtain r bm where r: "bitmap_scan_and_flip (used_map ?p) 0 cnt False = Some (r, bm)" "same_frame (used_map ?p) bm"
    "scan_result (bm_abs (used_map ?p)) 0 (unat cnt) False r"
    "bm_abs bm = (if r = BITMAP_ERROR then bm_abs (used_map ?p)
      else take (unat r) (bm_abs (used_map ?p)) @ replicate (unat cnt) True @ drop (unat r + unat cnt) (bm_abs (used_map ?p)))"
    using bitmap_scan_and_flip_ok [OF bok, of 0 cnt False] by auto
  have bd: "bm = used_map ?p" if "r = BITMAP_ERROR"
    using r(1) that by (auto simp: bitmap_scan_and_flip_def split: bind_splits if_splits)
  have run: "is_run False (bm_abs (used_map ?p)) i (unat cnt) \<longleftrightarrow>
    i + unat cnt \<le> page_count ?p \<and> {i..<i + unat cnt} \<inter> used_pages ?p = {}" for i by (rule is_run_pages)
  show ?thesis
  proof (cases "no_room ?p (unat cnt)")
    case True
    then have "r = BITMAP_ERROR" using r(3) unfolding scan_result_def run no_room_def by (auto split: if_splits)
    then show ?thesis using True n r(1) bd by (simp add: palloc_get_multiple_def Let_def put_pool_same)
  next
    case False
    then obtain i where i: "i + unat cnt \<le> page_count ?p" "{i..<i + unat cnt} \<inter> used_pages ?p = {}" by (auto simp: no_room_def)
    then have "\<exists>i\<in>{0..length (bm_abs (used_map ?p))}. is_run False (bm_abs (used_map ?p)) i (unat cnt)"
      unfolding run by (auto simp: page_count_def)
    then have rr: "is_run False (bm_abs (used_map ?p)) (unat r) (unat cnt)" using r(3) unfolding scan_result_def by auto
    have "unat cnt \<noteq> 0" using n by (simp add: unat_eq_0)
    then have "unat r < page_count ?p" using rr unfolding run by linarith
    moreover have "page_count ?p \<le> unat (BITMAP_ERROR)" 
      unfolding page_count_def BITMAP_ERROR_def by (simp only: word_le_nat_alt [symmetric] word_order.extremum)
    ultimately have ne: "r \<noteq> BITMAP_ERROR" by auto
    have le: "unat r + unat cnt \<le> page_count ?p" "{unat r..<unat r + unat cnt} \<inter> used_pages ?p = {}" using rr unfolding run by auto
    have a: "base ?p + PGSIZE * r \<noteq> NULL" using page_address(2) [OF p] le(1) by simp
    have fr: "bm_ok bm" "bit_cnt bm = bit_cnt (used_map ?p)" using r(2) by (simp_all add: same_frame_def)
    have "used_pages (?p\<lparr>used_map := bm\<rparr>) = used_pages ?p \<union> {unat r..<unat r + unat cnt}"
      using used_pages_update [OF _ fr(2) le(1), of True] r(4) ne by simp
    then have "pool_change fl st (put_pool (fl AND PAL_USER \<noteq> 0) (?p\<lparr>used_map := bm\<rparr>) st) (used_pages ?p \<union> {unat r..<unat r + unat cnt})"
      using pools_ok_put [OF ok fr] by simp
    moreover have "bytes (put_pool (fl AND PAL_USER \<noteq> 0) (?p\<lparr>used_map := bm\<rparr>) st) = bytes st" by (simp add: put_pool_def)
    ultimately show ?thesis using False n r(1) ne a le
      by (auto simp: palloc_get_multiple_def Let_def pool_change_bytes intro!: exI [of _ r])
  qed
qed

text \<open>Freeing finds the pool from the address.\<close>

lemma owner_of_page:
  assumes ok: "pools_ok st" and i: "unat i < page_count (the_pool fl st)"
  defines "a \<equiv> base (the_pool fl st) + PGSIZE * i"
  shows "(if page_from_pool (kernel_pool st) a then Some False
      else if page_from_pool (user_pool st) a then Some True else None) = Some (fl AND PAL_USER \<noteq> 0)"
proof -
  have p: "pool_ok (the_pool fl st)" by (rule the_pool_ok [OF ok])
  have k: "pool_ok (kernel_pool st)" and u: "pool_ok (user_pool st)"
    and ku: "unat (base (kernel_pool st)) + 4096 * page_count (kernel_pool st) \<le> unat (base (user_pool st))"
    using ok by (simp_all add: pools_ok_def)
  have a: "unat a = unat (base (the_pool fl st)) + 4096 * unat i"
    unfolding a_def using page_address(1) [OF p] i by simp
  have in_own: "page_from_pool (the_pool fl st) a" unfolding page_from_pool_iff [OF p] a using i by auto
  show ?thesis
  proof (cases "fl AND PAL_USER = 0")
    case True
    then show ?thesis using in_own by (simp add: the_pool_def)
  next
    case False
    then have t: "the_pool fl st = user_pool st" by (simp add: the_pool_def)
    have "unat (base (kernel_pool st)) div 4096 + page_count (kernel_pool st) \<le> unat a div 4096"
      using div_le_mono [OF ku, of 4096] unfolding a t by auto
    then have "\<not> page_from_pool (kernel_pool st) a" unfolding page_from_pool_iff [OF k] by linarith
    then show ?thesis using in_own False t by simp
  qed
qed

lemma palloc_free_ok:
  assumes ok: "pools_ok st" and n: "0 < unat cnt" "unat i + unat cnt \<le> page_count (the_pool fl st)"
  shows "if {unat i..<unat i + unat cnt} \<subseteq> used_pages (the_pool fl st)
    then \<exists>st'. palloc_free_multiple (base (the_pool fl st) + PGSIZE * i) cnt st = Some st' \<and>
      pool_change fl st st' (used_pages (the_pool fl st) - {unat i..<unat i + unat cnt})
    else palloc_free_multiple (base (the_pool fl st) + PGSIZE * i) cnt st = None"
proof -
  let ?p = "the_pool fl st"
  let ?a = "base ?p + PGSIZE * i"
  let ?m = "fill ?a 0xCC (PGSIZE * cnt) (bytes st)"
  have p: "pool_ok ?p" by (rule the_pool_ok [OF ok])
  then have bok: "bm_ok (used_map ?p)" by (simp add: pool_ok_def)
  have i: "unat i < page_count ?p" "unat i \<le> page_count ?p" using n by simp_all
  note A = page_address [OF p i(2)]
  have c0: "cnt \<noteq> 0" using n(1) by auto
  have lim: "unat (pg_no (base ?p)) + unat i < 2 ^ 32" using p i(1) by (auto simp: pool_ok_def unat_pg_no)
  then have "pg_no ?a = pg_no (base ?p) + i" using A(4) by (simp add: word_unat_eq_iff unat_word_ariths)
  then have idx: "pg_no ?a - pg_no (base ?p) = i" by simp
  have range: "unat i + unat cnt \<le> unat (bit_cnt (used_map ?p))" using n(2) by (simp add: page_count_def)
  have all: "bitmap_all (used_map ?p) i cnt = Some ({unat i..<unat i + unat cnt} \<subseteq> used_pages ?p)"
    unfolding bitmap_queries_ok(3) [OF bok range] is_run_pages using n(2) by simp
  obtain bm where bm: "bitmap_set_multiple (used_map ?p) i cnt False = Some bm" "same_frame (used_map ?p) bm"
    "bm_abs bm = take (unat i) (bm_abs (used_map ?p)) @ replicate (unat cnt) False @ drop (unat i + unat cnt) (bm_abs (used_map ?p))"
    using bitmap_set_multiple_ok [OF bok, of i cnt False] range by auto
  have sel: "(if fl AND PAL_USER \<noteq> 0 then user_pool st else kernel_pool st) = ?p" by (simp add: the_pool_def)
  have e: "palloc_free_multiple ?a cnt st =
    (if {unat i..<unat i + unat cnt} \<subseteq> used_pages ?p
     then Some (put_pool (fl AND PAL_USER \<noteq> 0) (?p\<lparr>used_map := bm\<rparr>) (st\<lparr>bytes := ?m\<rparr>)) else None)"
    using A(2,3) c0 by (simp add: palloc_free_multiple_def owner_of_page [OF ok i(1)] sel idx all bm(1) Let_def)
  have "pool_change fl st (put_pool (fl AND PAL_USER \<noteq> 0) (?p\<lparr>used_map := bm\<rparr>) st) (used_pages (?p\<lparr>used_map := bm\<rparr>))"
    using bm(2) by (intro pools_ok_put [OF ok]) (simp_all add: same_frame_def)
  moreover have "used_pages (?p\<lparr>used_map := bm\<rparr>) = used_pages ?p - {unat i..<unat i + unat cnt}"
    using used_pages_update [OF bm(3) _ n(2)] bm(2) by (simp add: same_frame_def)
  moreover have "put_pool u q (st\<lparr>bytes := ?m\<rparr>) = (put_pool u q st)\<lparr>bytes := ?m\<rparr>" for u q by (simp add: put_pool_def)
  ultimately show ?thesis unfolding e by (simp add: pool_change_bytes)
qed

section \<open>Initialization\<close>

lemma unat_pages: "unat n < 2 ^ 20 \<Longrightarrow> unat (n * PGSIZE) = 4096 * unat n"
  by (simp add: PGSIZE_val unat_word_ariths mult.commute)

lemma elem_cnt_mono: "unat n \<le> unat m \<Longrightarrow> unat m + 31 < 2 ^ 32 \<Longrightarrow> unat (elem_cnt n) \<le> unat (elem_cnt m)"
  by (simp add: unat_elem_cnt div_le_mono)

lemma unat_buf_size: "unat n < 2 ^ 20 \<Longrightarrow> unat (bitmap_buf_size n) = 8 + 4 * ((unat n + 31) div 32)"
proof -
  assume n: "unat n < 2 ^ 20"
  then have "unat (byte_cnt n) = 4 * ((unat n + 31) div 32)" using unat_byte_cnt [of n] unat_elem_cnt [of n] by simp
  moreover have "(unat n + 31) div 32 < 2 ^ 16" using n by (simp add: div_less_iff_less_mult)
  ultimately show ?thesis by (simp add: bitmap_buf_size_def unat_word_ariths)
qed

lemma init_pool_ok:
  assumes n: "0 < unat n" "unat n < 2 ^ 20" and s: "unat start mod 4096 = 0" "start \<noteq> 0" "unat start + 4096 * unat n < 2 ^ 32"
  shows "\<exists>p. init_pool m start n = Some p \<and> pool_ok p \<and> used_pages p = {} \<and>
    unat start \<le> unat (base p) \<and> unat (base p) + 4096 * page_count p = unat start + 4096 * unat n"
proof -
  let ?s = "8 + 4 * ((unat n + 31) div 32)"
  define k where "k = DIV_ROUND_UP (bitmap_buf_size n) PGSIZE"
  have "(unat n + 31) div 32 \<le> unat n" using n(1) by simp
  then have s4: "?s + 4095 < 4096 * (unat n + 1)" "?s < 2 ^ 23" using n by simp_all
  have uk: "unat k = (?s + 4095) div 4096"
    using s4(2) by (simp add: k_def DIV_ROUND_UP_def PGSIZE_val unat_buf_size [OF n(2)] unat_word_ariths unat_div)
  then have kn: "unat k \<le> unat n" using s4(1) by (simp add: div_less_iff_less_mult less_Suc_eq_le [symmetric])
  have "x \<le> 4096 * ((x + 4095) div 4096)" for x :: nat by arith
  then have ks: "?s \<le> 4096 * unat k" unfolding uk .
  have k4: "4096 * unat k < 2 ^ 32" using kn s(3) by simp
  have kb: "unat (k * PGSIZE) = 4096 * unat k" using k4 by (simp add: PGSIZE_val unat_word_ariths mult.commute)
  let ?n = "n - k"
  have un: "unat ?n = unat n - unat k" using kn by (simp add: unat_sub word_le_nat_alt)
  have "unat (bitmap_buf_size ?n) \<le> ?s" using unat_buf_size [of ?n] un n(2) div_le_mono [of "unat ?n + 31" "unat n + 31" 32] by simp
  then have "bitmap_buf_size ?n \<le> k * PGSIZE" using ks kb by (simp add: word_le_nat_alt)
  moreover have "unat ?n + 31 < 2 ^ 32" using un n(2) by simp
  moreover have "unat (k * PGSIZE) \<le> 4 * length (words_at m start (unat (k * PGSIZE)))" by (simp add: words_at_def kb)
  ultimately obtain bm where bm: "bitmap_create_in_buf ?n (words_at m start (unat (k * PGSIZE))) (k * PGSIZE) = Some bm"
    "bm_ok bm" "bm_abs bm = replicate (unat ?n) False"
    using bitmap_create_in_buf_ok by blast
  have cnt: "unat (bit_cnt bm) = unat ?n" using arg_cong [OF bm(3), of length] by simp
  let ?p = "\<lparr>used_map = bm, base = start + k * PGSIZE\<rparr>"
  have b: "unat (start + k * PGSIZE) = unat start + 4096 * unat k" using kn kb s(3) by (simp add: unat_word_ariths)
  have b0: "start + k * PGSIZE \<noteq> 0" using b s(2) by (metis add_is_0 unat_0 unat_eq_0)
  have end_eq: "unat (base ?p) + 4096 * page_count ?p = unat start + 4096 * unat n"
    using kn by (simp add: b page_count_def cnt un diff_mult_distrib2)
  have "pool_ok ?p" using bm(2) b0 s end_eq by (simp add: pool_ok_def b)
  moreover have "used_pages ?p = {}" using cnt by (auto simp: used_pages_def page_count_def bm(3) simp del: nth_bm_abs)
  moreover have "init_pool m start n = Some ?p"
    using kn bm(1) by (simp add: init_pool_def k_def [symmetric] Let_def word_le_nat_alt)
  ultimately show ?thesis using end_eq b by auto
qed

lemma palloc_init_ok:
  assumes "258 \<le> unat ram" "unat ram < 2 ^ 18" "lim \<noteq> 0"
  shows "\<exists>st. palloc_init ram lim m = Some st \<and> pools_ok st \<and> used_pages (kernel_pool st) = {} \<and> used_pages (user_pool st) = {}"
proof -
  let ?s = "0x100000 + PHYS_BASE" and ?e = "ram * PGSIZE + PHYS_BASE"
  have us: "unat ?s = 0xC0100000" by (simp add: PHYS_BASE_def)
  have rp: "unat (ram * PGSIZE) = 4096 * unat ram" using assms(2) by (simp add: PGSIZE_val unat_word_ariths mult.commute)
  have ue: "unat ?e = 0xC0000000 + 4096 * unat ram" using assms(2) rp by (simp add: PHYS_BASE_def unat_word_ariths)
  have "?s \<le> ?e" using us ue assms(1) by (simp add: word_le_nat_alt)
  from unat_sub [OF this] have "unat (?e - ?s) = 4096 * unat ram - 0x100000" unfolding us ue by simp
  then have f: "unat ((?e - ?s) div PGSIZE) = unat ram - 256" by (simp add: unat_div PGSIZE_val)
  define F where "F = (?e - ?s) div PGSIZE"
  define U where "U = (if F div 2 > lim then lim else F div 2)"
  have uf: "unat F = unat ram - 256" using f by (simp add: F_def)
  have "unat lim \<noteq> 0" using assms(3) by (simp add: unat_eq_0)
  moreover have f2: "unat (F div 2) = unat F div 2" by (simp add: unat_div)
  ultimately have U: "0 < unat U" "unat U \<le> unat F div 2" using assms(1) uf by (auto simp: U_def word_less_nat_alt)
  then have uk: "unat (F - U) = unat F - unat U" by (simp add: unat_sub word_le_nat_alt)
  have F: "unat F < 262144" "2 \<le> unat F" using uf assms(1,2) by simp_all
  have "0 < unat (F - U)" "unat (F - U) < 1048576" "unat U < 1048576" using U uk F by linarith+
  then have K: "0 < unat (F - U)" "unat (F - U) < 2 ^ 20" "unat U < 2 ^ 20" by simp_all
  have s0: "?s \<noteq> 0" using us by auto
  have ks: "unat ?s + 4096 * unat (F - U) < 2 ^ 32" "unat ?s mod 4096 = 0" using U uk uf assms(2) unfolding us by simp_all
  obtain k where k: "init_pool m ?s (F - U) = Some k" "pool_ok k" "used_pages k = {}"
    "unat (base k) + 4096 * page_count k = unat ?s + 4096 * unat (F - U)"
    using init_pool_ok [OF K(1,2) ks(2) s0 ks(1)] by blast
  let ?u = "?s + (F - U) * PGSIZE"
  have "unat ((F - U) * PGSIZE) = 4096 * unat (F - U)" by (rule unat_pages [OF K(2)])
  then have uu: "unat ?u = 0xC0100000 + 4096 * unat (F - U)"
    using ks(1) us unat_add_lem [of ?s "(F - U) * PGSIZE"] by simp
  then have u0: "?u \<noteq> 0" by auto
  have um: "unat ?u mod 4096 = 0" unfolding uu by simp
  have "unat ?u + 4096 * unat U < 2 ^ 32" using uu uk uf U assms(2) by simp
  then obtain u where u: "init_pool m ?u U = Some u" "pool_ok u" "used_pages u = {}" "unat ?u \<le> unat (base u)"
    using init_pool_ok [OF U(1) K(3) um u0] by blast
  have e1: "(1024 * 1024 :: u32) = 0x100000" by simp
  have e2: "ptov 0x100000 = Some ?s" by (simp add: ptov_def PHYS_BASE_def)
  have e3: "ptov (ram * PGSIZE) = Some ?e" using assms(2) rp by (simp add: ptov_def PHYS_BASE_def word_less_nat_alt)
  have "palloc_init ram lim m = Some \<lparr>kernel_pool = k, user_pool = u, bytes = m\<rparr>"
    by (simp only: palloc_init_def Let_def e1 e2 e3 bind.bind_lunit F_def [symmetric] U_def [symmetric] k(1) u(1))
  then show ?thesis using k u uu us by (auto simp: pools_ok_def)
qed

section \<open>The pools as slot allocators\<close>

text \<open>Pages by their number in the pool.\<close>

definition pool_get :: "u32 \<Rightarrow> nat \<Rightarrow> palloc_state \<Rightarrow> (nat option \<times> palloc_state) option" where
  "pool_get fl n st =
     map_option (map_prod (\<lambda>a. if a = NULL then None else Some (unat (pg_no a) - unat (pg_no (base (the_pool fl st))))) id)
       (palloc_get_multiple fl (of_nat n) st)"

definition pool_put :: "u32 \<Rightarrow> nat \<Rightarrow> nat \<Rightarrow> palloc_state \<Rightarrow> palloc_state option" where
  "pool_put fl i n st = palloc_free_multiple (base (the_pool fl st) + PGSIZE * of_nat i) (of_nat n) st"

lemma unat_small: "n < 2 ^ 32 \<Longrightarrow> unat (of_nat n :: u32) = n"
  by (simp add: unat_of_nat take_bit_nat_eq_self)

lemma pool_slots:
  assumes "fl AND PAL_ASSERT = 0"
  shows "slot_allocator pools_ok (\<lambda>st. page_count (the_pool fl st)) (\<lambda>st. used_pages (the_pool fl st)) (pool_get fl) (pool_put fl)"
proof
  fix st :: palloc_state and n :: nat
  assume ok: "pools_ok st" and n: "0 < n" "n < 2 ^ 32"
  let ?p = "the_pool fl st"
  have un: "unat (of_nat n :: u32) = n" by (rule unat_small [OF n(2)])
  then have n0: "(of_nat n :: u32) \<noteq> 0" using n(1) by auto
  note G = palloc_get_ok [OF ok n0, of fl, unfolded un]
  show "\<exists>r s'. pool_get fl n st = Some (r, s') \<and> pools_ok s' \<and> page_count (the_pool fl s') = page_count ?p \<and>
    (case r of None \<Rightarrow> used_pages (the_pool fl s') = used_pages ?p
     | Some i \<Rightarrow> i + n \<le> page_count ?p \<and> slots (i, n) \<inter> used_pages ?p = {} \<and>
         used_pages (the_pool fl s') = used_pages ?p \<union> slots (i, n))"
  proof (cases "no_room ?p n")
    case True
    then show ?thesis using G ok assms by (simp add: pool_get_def)
  next
    case False
    then obtain i st' where g: "palloc_get_multiple fl (of_nat n) st = Some (base ?p + PGSIZE * i, st')"
      "unat i + n \<le> page_count ?p" "{unat i..<unat i + n} \<inter> used_pages ?p = {}"
      "pool_change fl st st' (used_pages ?p \<union> {unat i..<unat i + n})" using G by auto
    have "unat i \<le> page_count ?p" using g(2) by simp
    note A = page_address(2,4) [OF the_pool_ok [OF ok] this]
    have "pool_get fl n st = Some (Some (unat i), st')" using g(1) A by (simp add: pool_get_def)
    then show ?thesis using g(2,3,4) by (auto simp: pool_change_def slots_def)
  qed
next
  fix st :: palloc_state and n i :: nat
  assume ok: "pools_ok st" and n: "0 < n" "i + n \<le> page_count (the_pool fl st)" "slots (i, n) \<subseteq> used_pages (the_pool fl st)"
  have "page_count (the_pool fl st) < 2 ^ 32"
    using unsigned_less [of "bit_cnt (used_map (the_pool fl st))", where 'a = nat] by (simp add: page_count_def)
  then have u: "unat (of_nat n :: u32) = n" "unat (of_nat i :: u32) = i" using n(2) by (simp_all add: unat_small)
  show "\<exists>s'. pool_put fl i n st = Some s' \<and> pools_ok s' \<and> page_count (the_pool fl s') = page_count (the_pool fl st) \<and>
    used_pages (the_pool fl s') = used_pages (the_pool fl st) - slots (i, n)"
    using palloc_free_ok [OF ok, of "of_nat n" "of_nat i" fl] n unfolding u
    by (auto simp: pool_put_def pool_change_def slots_def)
qed

interpretation kernel_pages: slot_allocator pools_ok "\<lambda>st. page_count (the_pool 0 st)" "\<lambda>st. used_pages (the_pool 0 st)"
  "pool_get 0" "pool_put 0"
  by (rule pool_slots) simp

interpretation user_pages: slot_allocator pools_ok "\<lambda>st. page_count (the_pool PAL_USER st)"
  "\<lambda>st. used_pages (the_pool PAL_USER st)" "pool_get PAL_USER" "pool_put PAL_USER"
  by (rule pool_slots) (simp add: PAL_USER_def PAL_ASSERT_def)

section \<open>Properties\<close>

text \<open>A request for pages returns the kernel address of a run of free pages of the chosen pool, which
  are then in use, zeroed if asked, and nothing else changes; when the pool has no such run it
  returns the null pointer, or panics under \<open>PAL_ASSERT\<close>.\<close>

theorem palloc_get_fresh:
  assumes "pools_ok st" and "cnt \<noteq> 0"
  shows "if no_room (the_pool fl st) (unat cnt)
    then palloc_get_multiple fl cnt st = (if fl AND PAL_ASSERT = 0 then Some (NULL, st) else None)
    else \<exists>i st'. palloc_get_multiple fl cnt st = Some (base (the_pool fl st) + PGSIZE * i, st') \<and>
      unat i + unat cnt \<le> page_count (the_pool fl st) \<and> {unat i..<unat i + unat cnt} \<inter> used_pages (the_pool fl st) = {} \<and>
      pool_change fl st st' (used_pages (the_pool fl st) \<union> {unat i..<unat i + unat cnt}) \<and>
      bytes st' = (if fl AND PAL_ZERO \<noteq> 0 then fill (base (the_pool fl st) + PGSIZE * i) 0 (PGSIZE * cnt) (bytes st) else bytes st)"
  by (rule palloc_get_ok [OF assms])

text \<open>A machine with 4 MB, after \<open>palloc_init\<close>.\<close>

definition demo_pools :: palloc_state where
  "demo_pools = the (palloc_init 1024 0xFFFFFFFF (\<lambda>_. 0))"

lemma demo_pools_ok: "pools_ok demo_pools" "used_pages (kernel_pool demo_pools) = {}" "used_pages (user_pool demo_pools) = {}"
  using palloc_init_ok [of 1024 "0xFFFFFFFF" "\<lambda>_. 0"] by (auto simp: demo_pools_def)

theorem palloc_get_fresh_witness:
  "if no_room (the_pool PAL_ZERO demo_pools) (unat (3 :: u32))
    then palloc_get_multiple PAL_ZERO 3 demo_pools = (if PAL_ZERO AND PAL_ASSERT = 0 then Some (NULL, demo_pools) else None)
    else \<exists>i st'. palloc_get_multiple PAL_ZERO 3 demo_pools = Some (base (the_pool PAL_ZERO demo_pools) + PGSIZE * i, st') \<and>
      unat i + unat (3 :: u32) \<le> page_count (the_pool PAL_ZERO demo_pools) \<and>
      {unat i..<unat i + unat (3 :: u32)} \<inter> used_pages (the_pool PAL_ZERO demo_pools) = {} \<and>
      pool_change PAL_ZERO demo_pools st' (used_pages (the_pool PAL_ZERO demo_pools) \<union> {unat i..<unat i + unat (3 :: u32)}) \<and>
      bytes st' = (if PAL_ZERO AND PAL_ZERO \<noteq> 0
        then fill (base (the_pool PAL_ZERO demo_pools) + PGSIZE * i) 0 (PGSIZE * 3) (bytes demo_pools) else bytes demo_pools)"
  by (rule palloc_get_fresh [OF demo_pools_ok(1)]) simp

text \<open>C4: Pages are never handed out twice: from any state of the allocator reached with no pages in
  use, a client that gets and frees groups of pages in any order never panics, holds disjoint
  groups, and the pages marked in use are exactly those it holds.\<close>

theorem palloc_disjoint:
  assumes "pools_ok st" and "used_pages (the_pool fl st) = {}" and "fl AND PAL_ASSERT = 0"
  shows "\<exists>st' L. run_slots (pool_get fl) (pool_put fl) ops st [] = Some (st', L) \<and> pools_ok st' \<and> no_overlap L \<and>
    used_pages (the_pool fl st') = \<Union> (slots ` set L)"
proof -
  note pool = pool_slots [OF assms(3)]
  have "slot_allocator.ledger_ok pools_ok (\<lambda>st. page_count (the_pool fl st)) (\<lambda>st. used_pages (the_pool fl st)) {} st []"
    using assms by (simp add: slot_allocator.ledger_ok_def [OF pool] no_overlap_def)
  from slot_allocator.run_ledger [OF pool this, of ops] show ?thesis
    by (auto simp: slot_allocator.ledger_ok_def [OF pool])
qed

theorem palloc_disjoint_witness:
  "\<exists>st' L. run_slots (pool_get 0) (pool_put 0) [Get 3, Get 1, Put 1, Get 4] demo_pools [] = Some (st', L) \<and>
    pools_ok st' \<and> no_overlap L \<and> used_pages (the_pool 0 st') = \<Union> (slots ` set L)"
  by (rule palloc_disjoint [OF demo_pools_ok(1)]) (simp_all add: the_pool_def demo_pools_ok)

end
