(* ===== verification/Rc4_Random.thy ===== *)
theory Rc4_Random
  imports Hash
begin

text \<open>
  The RC4 pseudo-random number generator of \<^verbatim>\<open>lib/random.c\<close>.  Its state \<open>s\<close> is always a
  permutation of the 256 bytes.
\<close>

section \<open>The generator\<close>

record random_state =
  rc4 :: "u8 list"
  s_i :: u8
  s_j :: u8
  inited :: bool

definition swap_byte :: "u8 list \<Rightarrow> nat \<Rightarrow> nat \<Rightarrow> u8 list option" where
  "swap_byte s a b = do {
     chk (a < length s);
     chk (b < length s);
     Some (s[a := s ! b, b := s ! a]) }"

text \<open>The second loop of \<^verbatim>\<open>random_init\<close>, \<open>n\<close> rounds being left from index \<open>i\<close> on.\<close>

primrec init_loop :: "nat \<Rightarrow> nat \<Rightarrow> u8 \<Rightarrow> u8 list \<Rightarrow> u8 list \<Rightarrow> u8 list option" where
  "init_loop 0 i j seedp s = Some s" |
  "init_loop (Suc n) i j seedp s = do {
     chk (i < length s);
     let j = j + (s ! i + seedp ! (i mod 4));
     s \<leftarrow> swap_byte s i (unat j);
     init_loop n (i + 1) j seedp s }"

definition random_init :: "u32 \<Rightarrow> random_state option" where
  "random_init seed = do {
     let s = map of_nat [0..<256];
     s \<leftarrow> init_loop 256 0 0 (le_bytes seed) s;
     Some \<lparr>rc4 = s, s_i = 0, s_j = 0, inited = True\<rparr> }"

definition random_byte :: "random_state \<Rightarrow> (u8 \<times> random_state) option" where
  "random_byte st = do {
     let i = s_i st + 1;
     chk (unat i < length (rc4 st));
     let j = s_j st + rc4 st ! unat i;
     s \<leftarrow> swap_byte (rc4 st) (unat i) (unat j);
     let k = s ! unat i + s ! unat j;
     chk (unat k < length s);
     Some (s ! unat k, st\<lparr>rc4 := s, s_i := i, s_j := j\<rparr>) }"

primrec bytes_loop :: "nat \<Rightarrow> random_state \<Rightarrow> (u8 list \<times> random_state) option" where
  "bytes_loop 0 st = Some ([], st)" |
  "bytes_loop (Suc n) st = do {
     (b, st) \<leftarrow> random_byte st;
     (bs, st) \<leftarrow> bytes_loop n st;
     Some (b # bs, st) }"

text \<open>The bytes written to the buffer.\<close>

definition random_bytes :: "u32 \<Rightarrow> random_state \<Rightarrow> (u8 list \<times> random_state) option" where
  "random_bytes sz st = do {
     st \<leftarrow> (if \<not> inited st then random_init 0 else Some st);
     bytes_loop (unat sz) st }"

definition random_ulong :: "random_state \<Rightarrow> (u32 \<times> random_state) option" where
  "random_ulong st = do {
     (bs, st) \<leftarrow> random_bytes 4 st;
     Some (ucast (bs ! 0) + push_bit 8 (ucast (bs ! 1)) + push_bit 16 (ucast (bs ! 2)) + push_bit 24 (ucast (bs ! 3)), st) }"

section \<open>The state is a permutation\<close>

definition is_perm :: "u8 list \<Rightarrow> bool" where
  "is_perm s \<longleftrightarrow> mset s = mset (map of_nat [0..<256])"

lemma is_perm_length: "is_perm s \<Longrightarrow> length s = 256"
  unfolding is_perm_def by (drule mset_eq_length) simp

lemma unat_u8: "unat b < 256" for b :: u8
  using unsigned_less [of b, where 'a = nat] by simp

lemma swap_byte_ok:
  assumes "is_perm s" "a < 256" "b < 256"
  shows "\<exists>s'. swap_byte s a b = Some s' \<and> is_perm s'"
  using assms is_perm_length [OF assms(1)] by (simp add: swap_byte_def is_perm_def mset_swap)

lemma init_loop_ok: "is_perm s \<Longrightarrow> i + n \<le> 256 \<Longrightarrow> \<exists>s'. init_loop n i j seedp s = Some s' \<and> is_perm s'"
proof (induction n arbitrary: i j s)
  case (Suc n)
  let ?j = "j + (s ! i + seedp ! (i mod 4))"
  obtain s1 where s1: "swap_byte s i (unat ?j) = Some s1" "is_perm s1"
    using swap_byte_ok [OF Suc.prems(1), of i "unat ?j"] Suc.prems(2) unat_u8 by auto
  then show ?case using Suc.IH [of s1 "i + 1" ?j] Suc.prems is_perm_length [OF Suc.prems(1)] by (simp add: Let_def)
qed simp

lemma random_init_ok: "\<exists>st. random_init seed = Some st \<and> is_perm (rc4 st) \<and> inited st"
  using init_loop_ok [of "map of_nat [0..<256]" 0 256 0 "le_bytes seed"] by (auto simp: random_init_def is_perm_def Let_def)

lemma random_byte_ok: "is_perm (rc4 st) \<Longrightarrow> \<exists>b st'. random_byte st = Some (b, st') \<and> is_perm (rc4 st') \<and> inited st' = inited st"
proof -
  assume p: "is_perm (rc4 st)"
  let ?i = "s_i st + 1"
  let ?j = "s_j st + rc4 st ! unat ?i"
  obtain s where s: "swap_byte (rc4 st) (unat ?i) (unat ?j) = Some s" "is_perm s" using swap_byte_ok [OF p unat_u8 unat_u8] by blast
  then show ?thesis using is_perm_length [OF p] is_perm_length [OF s(2)] unat_u8 [of ?i] unat_u8 [of "s ! unat ?i + s ! unat ?j"]
    by (simp add: random_byte_def Let_def)
qed

lemma bytes_loop_ok:
  "is_perm (rc4 st) \<Longrightarrow> \<exists>bs st'. bytes_loop n st = Some (bs, st') \<and> length bs = n \<and> is_perm (rc4 st') \<and> inited st' = inited st"
proof (induction n arbitrary: st)
  case (Suc n)
  obtain b st1 where "random_byte st = Some (b, st1)" "is_perm (rc4 st1)" "inited st1 = inited st"
    using random_byte_ok [OF Suc.prems] by blast
  then show ?case using Suc.IH [of st1] by fastforce
qed simp

text \<open>The generator never indexes outside its table and always delivers as many bytes as asked for:
  seeding makes the table a permutation of the 256 bytes, and every call keeps it one.\<close>

theorem random_permutation:
  "\<exists>st. random_init seed = Some st \<and> is_perm (rc4 st) \<and>
    (\<forall>sz. \<exists>bs st'. random_bytes sz st = Some (bs, st') \<and> length bs = unat sz \<and> is_perm (rc4 st'))"
proof -
  obtain st where st: "random_init seed = Some st" "is_perm (rc4 st)" "inited st" using random_init_ok by blast
  have "\<exists>bs st'. random_bytes sz st = Some (bs, st') \<and> length bs = unat sz \<and> is_perm (rc4 st')" for sz
    using bytes_loop_ok [OF st(2), of "unat sz"] st(3) by (auto simp: random_bytes_def)
  then show ?thesis using st by blast
qed

end
