(* ===== verification/Block_Device.thy ===== *)
theory Block_Device
  imports Prelude
begin

text \<open>
  Block devices of \<^verbatim>\<open>devices/block.c\<close>: the structure of a device, sector input and output with
  its bounds check, the table of all devices and the devices that play a role.  What a driver's
  \<^verbatim>\<open>read\<close> and \<^verbatim>\<open>write\<close> operations do is documented as reading and writing a sector of the
  medium, so the pair of driver operations and their \<^verbatim>\<open>aux\<close> is the field \<open>medium\<close> here.  Names are
  the bytes of a C string without its null character.
\<close>

section \<open>Devices\<close>

definition BLOCK_SECTOR_SIZE :: int where
  "BLOCK_SECTOR_SIZE = 512"

datatype block_type = BLOCK_KERNEL | BLOCK_FILESYS | BLOCK_SCRATCH | BLOCK_SWAP | BLOCK_RAW | BLOCK_FOREIGN

text \<open>\<^verbatim>\<open>type < BLOCK_ROLE_CNT\<close>\<close>

definition is_role :: "block_type \<Rightarrow> bool" where
  "is_role t \<longleftrightarrow> t \<noteq> BLOCK_RAW \<and> t \<noteq> BLOCK_FOREIGN"

record block =
  b_name :: "u8 list"
  b_type :: block_type
  b_size :: u32
  medium :: "u32 \<Rightarrow> u8 list"
  read_cnt :: u64
  write_cnt :: u64

definition block_type_name :: "block_type \<Rightarrow> string" where
  "block_type_name t =
     (case t of BLOCK_KERNEL \<Rightarrow> ''kernel'' | BLOCK_FILESYS \<Rightarrow> ''filesys'' | BLOCK_SCRATCH \<Rightarrow> ''scratch''
        | BLOCK_SWAP \<Rightarrow> ''swap'' | BLOCK_RAW \<Rightarrow> ''raw'' | BLOCK_FOREIGN \<Rightarrow> ''foreign'')"

definition check_sector :: "block \<Rightarrow> u32 \<Rightarrow> unit option" where
  "check_sector b sector = chk (\<not> sector \<ge> b_size b)"

definition block_read :: "block \<Rightarrow> u32 \<Rightarrow> (u8 list \<times> block) option" where
  "block_read b sector = do {
     check_sector b sector;
     Some (medium b sector, b\<lparr>read_cnt := read_cnt b + 1\<rparr>) }"

definition block_write :: "block \<Rightarrow> u32 \<Rightarrow> u8 list \<Rightarrow> block option" where
  "block_write b sector buffer = do {
     check_sector b sector;
     chk (b_type b \<noteq> BLOCK_FOREIGN);
     Some (b\<lparr>medium := (medium b)(sector := buffer), write_cnt := write_cnt b + 1\<rparr>) }"

definition block_size :: "block \<Rightarrow> u32" where
  "block_size b = b_size b"

definition block_name :: "block \<Rightarrow> u8 list" where
  "block_name b = b_name b"

section \<open>The table of devices\<close>

text \<open>A device is known by the address of its structure.\<close>

record block_table =
  all_blocks :: "nat list"
  block_at :: "nat \<Rightarrow> block"
  block_by_role :: "block_type \<Rightarrow> nat option"

definition block_get_role :: "block_type \<Rightarrow> block_table \<Rightarrow> nat option option" where
  "block_get_role role st = do { chk (is_role role); Some (block_by_role st role) }"

definition block_set_role :: "block_type \<Rightarrow> nat option \<Rightarrow> block_table \<Rightarrow> block_table option" where
  "block_set_role role b st = do { chk (is_role role); Some (st\<lparr>block_by_role := (block_by_role st)(role := b)\<rparr>) }"

text \<open>The list elements from some position of the list on: the device there, or null at the end.\<close>

definition list_elem_to_block :: "nat list \<Rightarrow> nat option" where
  "list_elem_to_block rest = (case rest of [] \<Rightarrow> None | b # _ \<Rightarrow> Some b)"

definition block_first :: "block_table \<Rightarrow> nat option" where
  "block_first st = list_elem_to_block (all_blocks st)"

definition block_next :: "nat \<Rightarrow> block_table \<Rightarrow> nat option" where
  "block_next b st = list_elem_to_block (tl (dropWhile (\<lambda>x. x \<noteq> b) (all_blocks st)))"

primrec by_name_loop :: "u8 list \<Rightarrow> nat list \<Rightarrow> block_table \<Rightarrow> nat option" where
  "by_name_loop name [] st = None" |
  "by_name_loop name (b # bs) st = (if name = b_name (block_at st b) then Some b else by_name_loop name bs st)"

definition block_get_by_name :: "u8 list \<Rightarrow> block_table \<Rightarrow> nat option" where
  "block_get_by_name name st = by_name_loop name (all_blocks st) st"

text \<open>
  \<open>addr\<close> is what \<^verbatim>\<open>malloc\<close> returns for the structure and \<open>med\<close> stands for the driver.  The name is
  cut to the 15 characters that \<^verbatim>\<open>strlcpy\<close> keeps.  The message that is printed is left out.
\<close>

definition block_register ::
  "nat option \<Rightarrow> u8 list \<Rightarrow> block_type \<Rightarrow> u32 \<Rightarrow> (u32 \<Rightarrow> u8 list) \<Rightarrow> block_table \<Rightarrow> (nat \<times> block_table) option" where
  "block_register addr name type sz med st = do {
     b \<leftarrow> addr;
     Some (b, st\<lparr>all_blocks := all_blocks st @ [b],
       block_at := (block_at st)(b := \<lparr>b_name = take 15 name, b_type = type, b_size = sz, medium = med,
         read_cnt = 0, write_cnt = 0\<rparr>)\<rparr>) }"

section \<open>The medium as one sequence of bytes\<close>

definition block_ok :: "block \<Rightarrow> bool" where
  "block_ok b \<longleftrightarrow> (\<forall>i < unat (b_size b). length (medium b (of_nat i)) = 512) \<and> b_type b \<noteq> BLOCK_FOREIGN"

definition disk_bytes :: "block \<Rightarrow> u8 list" where
  "disk_bytes b = concat (map (\<lambda>i. medium b (of_nat i)) [0..<unat (b_size b)])"

lemma slice_concat:
  "(\<And>x. x \<in> set xs \<Longrightarrow> length (f x) = m) \<Longrightarrow> i < length xs \<Longrightarrow> slice (m * i) m (concat (map f xs)) = f (xs ! i)"
  by (induction xs arbitrary: i) (auto simp: slice_def nth_Cons algebra_simps split: nat.splits)

lemma length_concat_const: "(\<And>x. x \<in> set xs \<Longrightarrow> length (f x) = m) \<Longrightarrow> length (concat (map f xs)) = m * length xs"
  by (induction xs) auto

lemma concat_update:
  assumes "\<And>x. x \<in> set xs \<Longrightarrow> length (f x) = m" "\<And>x. x \<in> set xs \<Longrightarrow> length (g x) = m" "i < length xs"
    "\<And>j. j < length xs \<Longrightarrow> j \<noteq> i \<Longrightarrow> g (xs ! j) = f (xs ! j)"
  shows "concat (map g xs) = overwrite (m * i) (g (xs ! i)) (concat (map f xs))"
  using assms
proof (induction xs arbitrary: i)
  case (Cons x xs)
  show ?case
  proof (cases i)
    case 0
    have "map g xs = map f xs" using Cons.prems(4) 0 by (fastforce simp: in_set_conv_nth)
    then have "concat (map g xs) = concat (map f xs)" by (rule arg_cong)
    then show ?thesis using 0 Cons.prems(1,2) by (simp add: overwrite_def)
  next
    case (Suc k)
    have "g (xs ! j) = f (xs ! j)" if "j < length xs" "j \<noteq> k" for j
      using Cons.prems(4) [of "Suc j"] that Suc by auto
    then have "concat (map g xs) = overwrite (m * k) (g (xs ! k)) (concat (map f xs))"
      using Cons.IH [of k] Cons.prems(1,2,3) Suc by auto
    moreover have "g x = f x" using Cons.prems(4) [of 0] Suc by simp
    ultimately show ?thesis using Suc Cons.prems(1) by (auto simp: overwrite_def)
  qed
qed simp

lemma length_disk_bytes [simp]: "block_ok b \<Longrightarrow> length (disk_bytes b) = 512 * unat (b_size b)"
  unfolding disk_bytes_def by (subst length_concat_const [where m = 512]) (auto simp: block_ok_def)

lemma medium_disk_bytes: "block_ok b \<Longrightarrow> s < b_size b \<Longrightarrow> medium b s = slice (512 * unat s) 512 (disk_bytes b)"
  unfolding disk_bytes_def by (subst slice_concat [where m = 512]) (auto simp: block_ok_def word_less_nat_alt)

lemma block_read_ok:
  assumes "block_ok b" "unat s < unat (b_size b)"
  shows "\<exists>b'. block_read b s = Some (slice (512 * unat s) 512 (disk_bytes b), b') \<and> block_ok b' \<and> disk_bytes b' = disk_bytes b \<and>
    b_size b' = b_size b \<and> b_type b' = b_type b \<and> medium b' = medium b"
  using assms medium_disk_bytes [OF assms(1), of s]
  by (simp add: block_read_def check_sector_def word_less_nat_alt linorder_not_le block_ok_def disk_bytes_def)

lemma block_write_ok:
  assumes ok: "block_ok b" and s: "unat s < unat (b_size b)" and l: "length buf = 512"
  shows "\<exists>b'. block_write b s buf = Some b' \<and> block_ok b' \<and> disk_bytes b' = overwrite (512 * unat s) buf (disk_bytes b) \<and>
    b_size b' = b_size b \<and> b_type b' = b_type b"
proof -
  let ?b = "b\<lparr>medium := (medium b)(s := buf), write_cnt := write_cnt b + 1\<rparr>"
  have inj: "(of_nat j :: u32) = s \<longleftrightarrow> j = unat s" if "j < unat (b_size b)" for j
  proof -
    have "j < 2 ^ 32" using that unsigned_less [of "b_size b", where 'a = nat] by simp
    then have "unat (of_nat j :: u32) = j" by (simp add: unat_of_nat take_bit_nat_eq_self)
    then show ?thesis by auto
  qed
  have e: "b_size ?b = b_size b" by simp
  have "disk_bytes ?b = overwrite (512 * unat s) (medium ?b (of_nat ([0..<unat (b_size b)] ! unat s))) (disk_bytes b)"
    unfolding disk_bytes_def e
    by (rule concat_update [where m = 512]) (use ok s l inj in \<open>auto simp: block_ok_def\<close>)
  then show ?thesis using assms
    by (auto simp: block_write_def check_sector_def block_ok_def word_less_nat_alt linorder_not_le)
qed

lemma block_access_panics:
  "b_size b \<le> s \<Longrightarrow> block_read b s = None" "b_size b \<le> s \<Longrightarrow> block_write b s buf = None"
  by (simp_all add: block_read_def block_write_def check_sector_def)

end
