(* ===== verification/Inode.thy ===== *)
theory Inode
  imports Block_Device Bitmap "HOL-Library.Signed_Division"
begin

text \<open>
  The state of the file system and the operations of \<^verbatim>\<open>filesys/inode.c\<close> that read and write files:
  open inodes are objects known by their address, shared by all their openers, and \<^verbatim>\<open>open_inodes\<close>
  lists them.  An \<^verbatim>\<open>off_t\<close> is an integer whose overflow is a fault, and a use of freed memory is
  one too.  \<^verbatim>\<open>malloc\<close> is an environment: \<open>mem_ok k\<close> tells whether call number \<open>k\<close> succeeds,
  in which case it returns an address that no other object has had; \<open>uninit\<close> are the bytes that an
  uninitialised local variable holds.  Creating and closing inodes
  needs the free map and is in \<open>Files\<close>.
\<close>

section \<open>State\<close>

definition INODE_MAGIC :: u32 where
  "INODE_MAGIC = 0x494e4f44"

record inode_disk =
  d_start :: u32
  d_length :: int
  d_magic :: u32

record inode =
  i_sector :: u32
  i_open_cnt :: int
  i_removed :: bool
  i_deny_write_cnt :: int
  i_data :: inode_disk

record file_t =
  f_inode :: nat
  f_pos :: int
  f_deny_write :: bool

record dir =
  dir_inode :: nat
  dir_pos :: int

record fstate =
  fs_device :: block
  open_inodes :: "nat list"
  inodes :: "nat \<rightharpoonup> inode"
  files :: "nat \<rightharpoonup> file_t"
  dirs :: "nat \<rightharpoonup> dir"
  free_map :: bitmap
  free_map_file :: "nat option"
  mallocs :: nat
  mem_ok :: "nat \<Rightarrow> bool"
  uninit :: "u8 list"

definition fs_malloc :: "fstate \<Rightarrow> nat option \<times> fstate" where
  "fs_malloc s = (if mem_ok s (mallocs s) then Some (mallocs s) else None, s\<lparr>mallocs := Suc (mallocs s)\<rparr>)"

definition upd_inode :: "nat \<Rightarrow> (inode \<Rightarrow> inode) \<Rightarrow> fstate \<Rightarrow> fstate option" where
  "upd_inode h f s = do { i \<leftarrow> inodes s h; Some (s\<lparr>inodes := (inodes s)(h \<mapsto> f i)\<rparr>) }"

text \<open>The on-disk inode: start, length and magic number, and 500 unused bytes.\<close>

definition inode_bytes :: "inode_disk \<Rightarrow> u8 list" where
  "inode_bytes d = le_bytes (d_start d) @ le_bytes (word_of_int (d_length d)) @ le_bytes (d_magic d) @ replicate 500 0"

definition inode_of_bytes :: "u8 list \<Rightarrow> inode_disk" where
  "inode_of_bytes bs =
     \<lparr>d_start = le_word bs, d_length = sint (le_word (drop 4 bs)), d_magic = le_word (drop 8 bs)\<rparr>"

definition bytes_to_sectors :: "int \<Rightarrow> u32 option" where
  "bytes_to_sectors sz = do {
     x \<leftarrow> s32 (sz + BLOCK_SECTOR_SIZE);
     x \<leftarrow> s32 (x - 1);
     Some (word_of_int (x sdiv BLOCK_SECTOR_SIZE)) }"

definition inode_length :: "inode \<Rightarrow> int" where
  "inode_length i = d_length (i_data i)"

definition byte_to_sector :: "inode \<Rightarrow> int \<Rightarrow> u32" where
  "byte_to_sector i pos =
     (if pos < d_length (i_data i) then d_start (i_data i) + word_of_int (pos sdiv BLOCK_SECTOR_SIZE) else - 1)"

definition inode_get_inumber :: "inode \<Rightarrow> u32" where
  "inode_get_inumber i = i_sector i"

section \<open>Opening\<close>

definition inode_init :: "fstate \<Rightarrow> fstate" where
  "inode_init s = s\<lparr>open_inodes := []\<rparr>"

definition inode_reopen :: "nat option \<Rightarrow> fstate \<Rightarrow> (nat option \<times> fstate) option" where
  "inode_reopen inode s =
     (case inode of
        None \<Rightarrow> Some (None, s)
      | Some h \<Rightarrow> do {
          i \<leftarrow> inodes s h;
          n \<leftarrow> s32 (i_open_cnt i + 1);
          s \<leftarrow> upd_inode h (\<lambda>i. i\<lparr>i_open_cnt := n\<rparr>) s;
          Some (Some h, s) })"

primrec open_loop :: "u32 \<Rightarrow> nat list \<Rightarrow> fstate \<Rightarrow> nat option option" where
  "open_loop sector [] s = Some None" |
  "open_loop sector (h # hs) s = do {
     i \<leftarrow> inodes s h;
     if i_sector i = sector then Some (Some h) else open_loop sector hs s }"

definition inode_open :: "u32 \<Rightarrow> fstate \<Rightarrow> (nat option \<times> fstate) option" where
  "inode_open sector s = do {
     already \<leftarrow> open_loop sector (open_inodes s) s;
     if already \<noteq> None then inode_reopen already s
     else do {
       let (inode, s) = fs_malloc s;
       case inode of
         None \<Rightarrow> Some (None, s)
       | Some h \<Rightarrow> do {
           let s = s\<lparr>open_inodes := h # open_inodes s\<rparr>;
           (buf, dev) \<leftarrow> block_read (fs_device s) sector;
           Some (Some h, s\<lparr>fs_device := dev,
             inodes := (inodes s)(h \<mapsto> \<lparr>i_sector = sector, i_open_cnt = 1, i_removed = False, i_deny_write_cnt = 0,
               i_data = inode_of_bytes buf\<rparr>)\<rparr>) } } }"

definition inode_remove :: "nat \<Rightarrow> fstate \<Rightarrow> fstate option" where
  "inode_remove h s = upd_inode h (\<lambda>i. i\<lparr>i_removed := True\<rparr>) s"

definition inode_deny_write :: "nat \<Rightarrow> fstate \<Rightarrow> fstate option" where
  "inode_deny_write h s = do {
     i \<leftarrow> inodes s h;
     n \<leftarrow> s32 (i_deny_write_cnt i + 1);
     chk (n \<le> i_open_cnt i);
     upd_inode h (\<lambda>i. i\<lparr>i_deny_write_cnt := n\<rparr>) s }"

definition inode_allow_write :: "nat \<Rightarrow> fstate \<Rightarrow> fstate option" where
  "inode_allow_write h s = do {
     i \<leftarrow> inodes s h;
     chk (i_deny_write_cnt i > 0);
     chk (i_deny_write_cnt i \<le> i_open_cnt i);
     upd_inode h (\<lambda>i. i\<lparr>i_deny_write_cnt := i_deny_write_cnt i - 1\<rparr>) s }"

section \<open>Reading and writing\<close>

text \<open>Sector, offset within it, bytes left in it, and the number of bytes to move in this round.\<close>

definition next_chunk :: "inode \<Rightarrow> int \<Rightarrow> int \<Rightarrow> (u32 \<times> int \<times> int \<times> int) option" where
  "next_chunk i sz offset = do {
     let sector_idx = byte_to_sector i offset;
     let sector_ofs = offset smod BLOCK_SECTOR_SIZE;
     inode_left \<leftarrow> s32 (inode_length i - offset);
     let sector_left = BLOCK_SECTOR_SIZE - sector_ofs;
     let min_left = (if inode_left < sector_left then inode_left else sector_left);
     let chunk_size = (if sz < min_left then sz else min_left);
     Some (sector_idx, sector_ofs, sector_left, chunk_size) }"

text \<open>The bounce buffer is allocated when it is first needed; \<open>bounce\<close> tells whether it has been.\<close>

definition get_bounce :: "bool \<Rightarrow> fstate \<Rightarrow> bool \<times> fstate" where
  "get_bounce bounce s = (if bounce then (True, s) else (case fs_malloc s of (p, s) \<Rightarrow> (p \<noteq> None, s)))"

definition read_chunk :: "u32 \<Rightarrow> int \<Rightarrow> int \<Rightarrow> bool \<Rightarrow> fstate \<Rightarrow> (u8 list option \<times> bool \<times> fstate) option" where
  "read_chunk sector_idx sector_ofs chunk_size bounce s =
     (if sector_ofs = 0 \<and> chunk_size = BLOCK_SECTOR_SIZE
      then do {
        (buf, dev) \<leftarrow> block_read (fs_device s) sector_idx;
        Some (Some buf, bounce, s\<lparr>fs_device := dev\<rparr>) }
      else do {
        let (bounce, s) = get_bounce bounce s;
        if \<not> bounce then Some (None, bounce, s)
        else do {
          (buf, dev) \<leftarrow> block_read (fs_device s) sector_idx;
          chk (0 \<le> sector_ofs);
          Some (Some (slice (nat sector_ofs) (nat chunk_size) buf), bounce, s\<lparr>fs_device := dev\<rparr>) } })"

text \<open>The bytes read are returned; their number is what the C function returns.\<close>

function read_loop :: "inode \<Rightarrow> int \<Rightarrow> int \<Rightarrow> bool \<Rightarrow> fstate \<Rightarrow> (u8 list \<times> fstate) option" where
  "read_loop i sz offset bounce s =
     (if sz > 0
      then (case next_chunk i sz offset of
          None \<Rightarrow> None
        | Some (sector_idx, sector_ofs, sector_left, chunk_size) \<Rightarrow>
            if chunk_size \<le> 0 then Some ([], s)
            else do {
              (r, bounce, s) \<leftarrow> read_chunk sector_idx sector_ofs chunk_size bounce s;
              case r of
                None \<Rightarrow> Some ([], s)
              | Some bytes \<Rightarrow> do {
                  offset \<leftarrow> s32 (offset + chunk_size);
                  (rest, s) \<leftarrow> read_loop i (sz - chunk_size) offset bounce s;
                  Some (bytes @ rest, s) } })
      else Some ([], s))"
  by pat_completeness auto
termination
  by (relation "measure (\<lambda>(i, sz, offset, bounce, s). nat sz)") auto

declare read_loop.simps [simp del]

definition inode_read_at :: "nat \<Rightarrow> int \<Rightarrow> int \<Rightarrow> fstate \<Rightarrow> (u8 list \<times> fstate) option" where
  "inode_read_at h sz offset s = do { i \<leftarrow> inodes s h; read_loop i sz offset False s }"

definition write_chunk ::
  "u32 \<Rightarrow> int \<Rightarrow> int \<Rightarrow> int \<Rightarrow> u8 list \<Rightarrow> bool \<Rightarrow> fstate \<Rightarrow> (bool \<times> bool \<times> fstate) option" where
  "write_chunk sector_idx sector_ofs sector_left chunk_size bytes bounce s =
     (if sector_ofs = 0 \<and> chunk_size = BLOCK_SECTOR_SIZE
      then do {
        dev \<leftarrow> block_write (fs_device s) sector_idx bytes;
        Some (True, bounce, s\<lparr>fs_device := dev\<rparr>) }
      else do {
        let (bounce, s) = get_bounce bounce s;
        if \<not> bounce then Some (False, bounce, s)
        else do {
          (buf, dev) \<leftarrow> (if sector_ofs > 0 \<or> chunk_size < sector_left
                         then block_read (fs_device s) sector_idx
                         else Some (replicate 512 0, fs_device s));
          chk (0 \<le> sector_ofs);
          dev \<leftarrow> block_write dev sector_idx (overwrite (nat sector_ofs) bytes buf);
          Some (True, bounce, s\<lparr>fs_device := dev\<rparr>) } })"

function write_loop :: "inode \<Rightarrow> u8 list \<Rightarrow> int \<Rightarrow> int \<Rightarrow> int \<Rightarrow> bool \<Rightarrow> fstate \<Rightarrow> (int \<times> fstate) option" where
  "write_loop i buffer sz offset bytes_written bounce s =
     (if sz > 0
      then (case next_chunk i sz offset of
          None \<Rightarrow> None
        | Some (sector_idx, sector_ofs, sector_left, chunk_size) \<Rightarrow>
            if chunk_size \<le> 0 then Some (bytes_written, s)
            else do {
              chk (nat (bytes_written + chunk_size) \<le> length buffer);
              (r, bounce, s) \<leftarrow> write_chunk sector_idx sector_ofs sector_left chunk_size
                (slice (nat bytes_written) (nat chunk_size) buffer) bounce s;
              if \<not> r then Some (bytes_written, s)
              else do {
                offset \<leftarrow> s32 (offset + chunk_size);
                write_loop i buffer (sz - chunk_size) offset (bytes_written + chunk_size) bounce s } })
      else Some (bytes_written, s))"
  by pat_completeness auto
termination
  by (relation "measure (\<lambda>(i, buffer, sz, offset, bytes_written, bounce, s). nat sz)") auto

declare write_loop.simps [simp del]

definition inode_write_at :: "nat \<Rightarrow> u8 list \<Rightarrow> int \<Rightarrow> int \<Rightarrow> fstate \<Rightarrow> (int \<times> fstate) option" where
  "inode_write_at h buffer sz offset s = do {
     i \<leftarrow> inodes s h;
     if i_deny_write_cnt i \<noteq> 0 then Some (0, s)
     else write_loop i buffer sz offset 0 False s }"

section \<open>Chunks\<close>

text \<open>An inode whose data lie on the device, and the bytes of its file.\<close>

definition ext_ok :: "block \<Rightarrow> inode_disk \<Rightarrow> bool" where
  "ext_ok b d \<longleftrightarrow> 0 \<le> d_length d \<and> d_length d + 512 < 2 ^ 31 \<and>
     unat (d_start d) + nat ((d_length d + 511) div 512) \<le> unat (b_size b)"

definition content :: "block \<Rightarrow> inode_disk \<Rightarrow> u8 list" where
  "content b d = slice (512 * unat (d_start d)) (nat (d_length d)) (disk_bytes b)"

lemma ext_ok_bound: "ext_ok b d \<Longrightarrow> 512 * unat (d_start d) + nat (d_length d) \<le> 512 * unat (b_size b)"
  unfolding ext_ok_def by linarith

lemma length_content [simp]: "block_ok b \<Longrightarrow> ext_ok b d \<Longrightarrow> length (content b d) = nat (d_length d)"
  using ext_ok_bound [of b d] by (simp add: content_def)

lemma trunc_pos: "0 \<le> a \<Longrightarrow> a sdiv 512 = a div 512" "0 \<le> a \<Longrightarrow> a smod 512 = a mod 512" for a :: int
  by (simp_all add: signed_divide_int_def signed_modulo_int_def sgn_if minus_div_mult_eq_mod)

lemma next_chunk_end:
  assumes "d_length (i_data i) \<le> int p" "0 \<le> d_length (i_data i)" "int p < 2 ^ 31"
  shows "\<exists>a b c e. next_chunk i sz (int p) = Some (a, b, c, e) \<and> e \<le> 0"
proof -
  have "0 \<le> int p mod 512" "int p mod 512 < 512" by simp_all
  then show ?thesis using assms
    by (auto simp: next_chunk_def inode_length_def s32_in s32_ok_def BLOCK_SECTOR_SIZE_def trunc_pos Let_def)
qed

lemma next_chunk_ok:
  assumes d: "ext_ok b (i_data i)" and p: "int p < d_length (i_data i)" and n: "0 < n"
  defines "c \<equiv> min n (min (nat (d_length (i_data i)) - p) (512 - p mod 512))"
  shows "\<exists>sec. next_chunk i (int n) (int p) = Some (sec, int (p mod 512), int (512 - p mod 512), int c) \<and>
    unat sec = unat (d_start (i_data i)) + p div 512 \<and> unat sec < unat (b_size b) \<and> 0 < c"
proof -
  let ?d = "i_data i"
  have q: "unat (d_start ?d) + p div 512 < unat (b_size b)" using d p unfolding ext_ok_def by linarith
  moreover have "unat (b_size b) < 2 ^ 32" using unsigned_less [of "b_size b", where 'a = nat] by simp
  ultimately have lt: "unat (d_start ?d) + p div 512 < 2 ^ 32" by linarith
  have e: "int p div 512 = int (p div 512)" by (simp add: zdiv_int)
  have w: "word_of_int (int p div 512) = (of_nat (p div 512) :: u32)" unfolding e by (rule of_int_of_nat_eq)
  have s: "unat (byte_to_sector i (int p)) = unat (d_start ?d) + p div 512"
    using lt p by (simp add: byte_to_sector_def BLOCK_SECTOR_SIZE_def trunc_pos w unat_word_ariths unat_of_nat)
  have m: "int p mod 512 = int (p mod 512)" "p mod 512 < 512" by (simp_all add: zmod_int)
  have ok32: "s32_ok (d_length ?d - int p)" using d p by (auto simp: s32_ok_def ext_ok_def)
  obtain L where L: "d_length ?d = int L" using d by (auto simp: ext_ok_def elim: nonneg_int_cases)
  have pL: "p < L" using p L by simp
  have chunk: "(if int n < (if d_length ?d - int p < 512 - int (p mod 512) then d_length ?d - int p else 512 - int (p mod 512))
      then int n else if d_length ?d - int p < 512 - int (p mod 512) then d_length ?d - int p else 512 - int (p mod 512)) = int c"
    using m(2) pL unfolding c_def L by (auto simp: min_def of_nat_diff)
  have "next_chunk i (int n) (int p) = Some (byte_to_sector i (int p), int (p mod 512), int (512 - p mod 512), int c)"
    using chunk m by (simp add: next_chunk_def inode_length_def BLOCK_SECTOR_SIZE_def trunc_pos Let_def s32_in [OF ok32] del: s32_Some)
  moreover have "0 < c" using n p m(2) by (simp add: c_def)
  ultimately show ?thesis using s q by simp
qed

section \<open>What input and output change\<close>

definition wrote :: "nat \<Rightarrow> u8 list \<Rightarrow> fstate \<Rightarrow> fstate \<Rightarrow> bool" where
  "wrote k bs s s' \<longleftrightarrow> (\<exists>d m. s' = s\<lparr>fs_device := d, mallocs := m\<rparr> \<and> mallocs s \<le> m \<and> block_ok d \<and>
     b_size d = b_size (fs_device s) \<and> disk_bytes d = overwrite k bs (disk_bytes (fs_device s)))"

abbreviation calm :: "fstate \<Rightarrow> fstate \<Rightarrow> bool" where
  "calm \<equiv> wrote 0 []"

definition mem_fine :: "fstate \<Rightarrow> bool" where
  "mem_fine s \<longleftrightarrow> (\<forall>k \<ge> mallocs s. mem_ok s k)"

lemma calm_refl [simp]: "block_ok (fs_device s) \<Longrightarrow> calm s s"
  by (auto simp: wrote_def intro!: exI [of _ "fs_device s"] exI [of _ "mallocs s"])

lemma wrote_trans:
  assumes "wrote k as s s1" "wrote (k + length as) bs s1 s2" "block_ok (fs_device s)"
    "k + length as + length bs \<le> 512 * unat (b_size (fs_device s))"
  shows "wrote k (as @ bs) s s2"
proof -
  obtain d m where 1: "s1 = s\<lparr>fs_device := d, mallocs := m\<rparr>" "mallocs s \<le> m" "b_size d = b_size (fs_device s)"
    "disk_bytes d = overwrite k as (disk_bytes (fs_device s))" using assms(1) by (auto simp: wrote_def)
  obtain d' m' where "s2 = s1\<lparr>fs_device := d', mallocs := m'\<rparr>" "mallocs s1 \<le> m'" "block_ok d'"
    "b_size d' = b_size (fs_device s1)" "disk_bytes d' = overwrite (k + length as) bs (disk_bytes (fs_device s1))"
    using assms(2) by (auto simp: wrote_def)
  then show ?thesis using 1 assms(3,4) unfolding wrote_def
    by (intro exI [of _ d'] exI [of _ m']) (simp add: overwrite_append)
qed

lemma calm_trans: "calm s s1 \<Longrightarrow> wrote k bs s1 s2 \<Longrightarrow> wrote k bs s s2"
  unfolding wrote_def overwrite_Nil
  by (elim exE conjE, rule_tac x = da in exI, rule_tac x = ma in exI) simp

lemma wrote_calm: "wrote k bs s s1 \<Longrightarrow> calm s1 s2 \<Longrightarrow> wrote k bs s s2"
  unfolding wrote_def overwrite_Nil
  by (elim exE conjE, rule_tac x = da in exI, rule_tac x = ma in exI) simp

lemma wrote_fine: "wrote k bs s s' \<Longrightarrow> mem_fine s \<Longrightarrow> mem_fine s'"
  by (auto simp: wrote_def mem_fine_def)

lemma wrote_simps:
  assumes "wrote k bs s s'"
  shows "block_ok (fs_device s')" "b_size (fs_device s') = b_size (fs_device s)"
    "disk_bytes (fs_device s') = overwrite k bs (disk_bytes (fs_device s))"
    "inodes s' = inodes s" "files s' = files s" "dirs s' = dirs s" "open_inodes s' = open_inodes s"
    "free_map s' = free_map s" "free_map_file s' = free_map_file s" "mem_ok s' = mem_ok s" "mallocs s \<le> mallocs s'"
  using assms by (auto simp: wrote_def)

lemma wroteI:
  assumes "block_ok d" "b_size d = b_size (fs_device s)" "disk_bytes d = overwrite k bs (disk_bytes (fs_device s))"
  shows "wrote k bs s (s\<lparr>fs_device := d\<rparr>)"
  unfolding wrote_def by (rule exI [of _ d], rule exI [of _ "mallocs s"]) (use assms in simp)

lemma malloc_calm: "block_ok (fs_device s) \<Longrightarrow> calm s (s\<lparr>mallocs := Suc (mallocs s)\<rparr>)"
  unfolding wrote_def by (rule exI [of _ "fs_device s"], rule exI [of _ "Suc (mallocs s)"]) simp

lemma get_bounce_cases:
  assumes "block_ok (fs_device s)"
  obtains s' where "get_bounce bounce s = (True, s')" "calm s s'"
  | s' where "get_bounce bounce s = (False, s')" "calm s s'" "\<not> mem_fine s"
proof (cases bounce)
  case True
  then show ?thesis using that(1) [of s] assms by (simp add: get_bounce_def)
next
  case False
  then show ?thesis using that [of "s\<lparr>mallocs := Suc (mallocs s)\<rparr>"] malloc_calm [OF assms]
    by (cases "mem_ok s (mallocs s)") (auto simp: get_bounce_def fs_malloc_def mem_fine_def)
qed

lemma block_read_calm:
  assumes "block_ok (fs_device s)" "unat sec < unat (b_size (fs_device s))"
  shows "\<exists>dev. block_read (fs_device s) sec = Some (slice (512 * unat sec) 512 (disk_bytes (fs_device s)), dev) \<and>
    calm s (s\<lparr>fs_device := dev\<rparr>) \<and> block_ok dev \<and> disk_bytes dev = disk_bytes (fs_device s) \<and> b_size dev = b_size (fs_device s)"
proof -
  obtain dev where "block_read (fs_device s) sec = Some (slice (512 * unat sec) 512 (disk_bytes (fs_device s)), dev)"
    "block_ok dev" "disk_bytes dev = disk_bytes (fs_device s)" "b_size dev = b_size (fs_device s)"
    using block_read_ok [OF assms] by blast
  then show ?thesis by (intro exI [of _ dev]) (simp add: wroteI)
qed

lemma read_chunk_ok:
  assumes ok: "block_ok (fs_device s)" and sec: "unat sec < unat (b_size (fs_device s))" and c: "p + c \<le> 512"
  shows "\<exists>r bounce' s'. read_chunk sec (int p) (int c) bounce s = Some (r, bounce', s') \<and> calm s s' \<and>
    (if r = None then \<not> mem_fine s else r = Some (slice (512 * unat sec + p) c (disk_bytes (fs_device s))))"
proof (cases "p = 0 \<and> c = 512")
  case True
  then show ?thesis using block_read_calm [OF ok sec] by (auto simp: read_chunk_def BLOCK_SECTOR_SIZE_def)
next
  case False
  then have f: "\<not> (int p = 0 \<and> int c = BLOCK_SECTOR_SIZE)" by (simp add: BLOCK_SECTOR_SIZE_def)
  show ?thesis using ok
  proof (cases rule: get_bounce_cases [where bounce = bounce])
    case (1 s1)
    note w = wrote_simps [OF 1(2)]
    obtain dev where d: "block_read (fs_device s1) sec = Some (slice (512 * unat sec) 512 (disk_bytes (fs_device s)), dev)"
      "calm s1 (s1\<lparr>fs_device := dev\<rparr>)"
      using block_read_calm [OF w(1), of sec] sec w(2,3) by auto
    have "calm s (s1\<lparr>fs_device := dev\<rparr>)" by (rule calm_trans [OF 1(2) d(2)])
    then show ?thesis using 1(1) d(1) c
      by (intro exI [of _ "Some (slice (512 * unat sec + p) c (disk_bytes (fs_device s)))"] exI [of _ True]
          exI [of _ "s1\<lparr>fs_device := dev\<rparr>"]) (simp add: read_chunk_def f slice_slice del: of_nat_eq_0_iff)
  next
    case (2 s1)
    then show ?thesis
      by (intro exI [of _ None] exI [of _ False] exI [of _ s1]) (simp add: read_chunk_def f del: of_nat_eq_0_iff)
  qed
qed

text \<open>Reading yields the bytes of the file from the offset on; a failed allocation makes it shorter.\<close>

lemma read_loop_ok:
  assumes "block_ok (fs_device s)" "ext_ok (fs_device s) (i_data i)" "int p < 2 ^ 31"
  shows "\<exists>k s'. read_loop i (int n) (int p) bounce s = Some (slice p k (content (fs_device s) (i_data i)), s') \<and>
    calm s s' \<and> k \<le> n \<and> k \<le> nat (d_length (i_data i)) - p \<and>
    (mem_fine s \<longrightarrow> k = min n (nat (d_length (i_data i)) - p))"
  using assms
proof (induction n arbitrary: p bounce s rule: less_induct)
  case (less n)
  let ?d = "i_data i" and ?L = "nat (d_length (i_data i))" and ?c = "content (fs_device s) (i_data i)"
  note ok = less.prems(1) and ext = less.prems(2)
  consider "n = 0" | "0 < n" "?L \<le> p" | "0 < n" "p < ?L" by linarith
  then show ?case
  proof cases
    case 1
    then show ?thesis using ok by (intro exI [of _ 0] exI [of _ s]) (simp add: read_loop.simps slice_def)
  next
    case 2
    have "d_length ?d \<le> int p" "0 \<le> d_length ?d" using 2 ext by (auto simp: ext_ok_def)
    from next_chunk_end [OF this less.prems(3)] obtain a b c e
      where "next_chunk i (int n) (int p) = Some (a, b, c, e)" "e \<le> 0" by blast
    then show ?thesis using ok 2 by (intro exI [of _ 0] exI [of _ s]) (simp add: read_loop.simps slice_def)
  next
    case 3
    define c where "c = min n (min (?L - p) (512 - p mod 512))"
    have pp: "int p < d_length ?d" using 3(2) by simp
    obtain sec where sec: "next_chunk i (int n) (int p) = Some (sec, int (p mod 512), int (512 - p mod 512), int c)"
      "unat sec = unat (d_start ?d) + p div 512" "unat sec < unat (b_size (fs_device s))" "0 < c"
      using next_chunk_ok [OF ext pp 3(1)] unfolding c_def by blast
    have "c \<le> 512 - p mod 512" "p mod 512 < 512" unfolding c_def by simp_all
    then have "p mod 512 + c \<le> 512" by linarith
    from read_chunk_ok [OF ok sec(3) this] obtain r bounce' s1 where r:
      "read_chunk sec (int (p mod 512)) (int c) bounce s = Some (r, bounce', s1)" "calm s s1"
      "if r = None then \<not> mem_fine s else r = Some (slice (512 * unat sec + p mod 512) c (disk_bytes (fs_device s)))" by blast
    show ?thesis
    proof (cases r)
      case None
      then show ?thesis using r sec 3 by (intro exI [of _ 0] exI [of _ s1]) (simp add: read_loop.simps slice_def)
    next
      case (Some bytes)
      have cL: "p + c \<le> ?L" "c \<le> n" unfolding c_def using 3 by auto
      have "512 * unat sec + p mod 512 = 512 * unat (d_start ?d) + p" unfolding sec(2) by simp
      then have bytes: "bytes = slice p c ?c" using r(3) Some cL(1) by (simp add: content_def slice_slice)
      note w = wrote_simps [OF r(2)]
      have ext1: "ext_ok (fs_device s1) ?d" using ext w(2) by (simp add: ext_ok_def)
      have pc: "int (p + c) < 2 ^ 31" using cL(1) ext unfolding ext_ok_def by linarith
      have same: "content (fs_device s1) ?d = ?c" using w(3) by (simp add: content_def)
      have lt: "n - c < n" using sec(4) 3(1) by simp
      from less.IH [OF lt w(1) ext1 pc, of bounce'] obtain k s2 where k:
        "read_loop i (int (n - c)) (int (p + c)) bounce' s1 = Some (slice (p + c) k ?c, s2)" "calm s1 s2"
        "k \<le> n - c" "k \<le> ?L - (p + c)" "mem_fine s1 \<longrightarrow> k = min (n - c) (?L - (p + c))"
        unfolding same by blast
      have "s32_ok (int p + int c)" using pc by (simp add: s32_ok_def)
      note s32 = s32_in [OF this]
      have e: "int n - int c = int (n - c)" using cL(2) by simp
      have "read_loop i (int n) (int p) bounce s = Some (slice p (c + k) ?c, s2)"
        by (subst read_loop.simps) (use 3(1) sec(1,4) r(1) Some k(1) in \<open>simp add: e bytes s32 slice_append\<close>)
      moreover have "mem_fine s \<longrightarrow> c + k = min n (?L - p)"
        using k(5) wrote_fine [OF r(2)] cL by (auto simp: min_def)
      ultimately show ?thesis using calm_trans [OF r(2) k(2)] k(3,4) cL
        by (intro exI [of _ "c + k"] exI [of _ s2]) auto
    qed
  qed
qed

lemma block_write_wrote:
  assumes "block_ok d" "unat sec < unat (b_size d)" "length buf = 512"
    "d = fs_device s \<or> block_ok (fs_device s) \<and> disk_bytes d = disk_bytes (fs_device s) \<and> b_size d = b_size (fs_device s)"
  shows "\<exists>dev. block_write d sec buf = Some dev \<and> wrote (512 * unat sec) buf s (s\<lparr>fs_device := dev\<rparr>)"
proof -
  obtain dev where "block_write d sec buf = Some dev" "block_ok dev" "disk_bytes dev = overwrite (512 * unat sec) buf (disk_bytes d)"
    "b_size dev = b_size d" using block_write_ok [OF assms(1-3)] by blast
  then show ?thesis using assms(4) by (auto intro: wroteI)
qed

lemma write_chunk_ok:
  assumes ok: "block_ok (fs_device s)" and sec: "unat sec < unat (b_size (fs_device s))" and c: "p + length bs \<le> 512"
  shows "\<exists>r bounce' s'. write_chunk sec (int p) (int (512 - p)) (int (length bs)) bs bounce s = Some (r, bounce', s') \<and>
    (if r then wrote (512 * unat sec + p) bs s s' else calm s s' \<and> \<not> mem_fine s)"
proof (cases "p = 0 \<and> length bs = 512")
  case True
  then show ?thesis using block_write_wrote [OF ok sec, of bs s] by (auto simp: write_chunk_def BLOCK_SECTOR_SIZE_def)
next
  case False
  then have f: "\<not> (int p = 0 \<and> int (length bs) = BLOCK_SECTOR_SIZE)" by (simp add: BLOCK_SECTOR_SIZE_def)
  have g: "int p > 0 \<or> int (length bs) < int (512 - p)" using False c by linarith
  show ?thesis using ok
  proof (cases rule: get_bounce_cases [where bounce = bounce])
    case (1 s1)
    note w = wrote_simps [OF 1(2)]
    let ?old = "slice (512 * unat sec) 512 (disk_bytes (fs_device s))"
    have l: "512 * unat sec + 512 \<le> length (disk_bytes (fs_device s))" using ok sec by simp
    obtain dev where d: "block_read (fs_device s1) sec = Some (?old, dev)" "block_ok dev"
      "disk_bytes dev = disk_bytes (fs_device s1)" "b_size dev = b_size (fs_device s1)"
      using block_read_calm [OF w(1), of sec] sec w(2,3) by auto
    have "length (overwrite p bs ?old) = 512" using l c by simp
    then obtain dev' where d': "block_write dev sec (overwrite p bs ?old) = Some dev'"
      "wrote (512 * unat sec) (overwrite p bs ?old) s1 (s1\<lparr>fs_device := dev'\<rparr>)"
      using block_write_wrote [OF d(2), of sec "overwrite p bs ?old" s1] sec w(1,2) d(3,4) by auto
    have "wrote (512 * unat sec) (overwrite p bs ?old) s (s1\<lparr>fs_device := dev'\<rparr>)" by (rule calm_trans [OF 1(2) d'(2)])
    then have "wrote (512 * unat sec + p) bs s (s1\<lparr>fs_device := dev'\<rparr>)"
      unfolding wrote_def overwrite_slice [OF c l] .
    then show ?thesis using 1(1) d(1) d'(1) g
      by (intro exI [of _ True] exI [of _ "s1\<lparr>fs_device := dev'\<rparr>"])
        (simp add: write_chunk_def f del: of_nat_eq_0_iff of_nat_0_less_iff)
  next
    case (2 s1)
    then show ?thesis
      by (intro exI [of _ False] exI [of _ s1]) (simp add: write_chunk_def f del: of_nat_eq_0_iff)
  qed
qed

text \<open>Writing replaces bytes of the file from the offset on, but not beyond its end.\<close>

lemma write_loop_ok:
  assumes "block_ok (fs_device s)" "ext_ok (fs_device s) (i_data i)" "int p < 2 ^ 31" "w + n \<le> length buf"
  shows "\<exists>k s'. write_loop i buf (int n) (int p) (int w) bounce s = Some (int (w + k), s') \<and>
    wrote (512 * unat (d_start (i_data i)) + p) (slice w k buf) s s' \<and> k \<le> n \<and> k \<le> nat (d_length (i_data i)) - p \<and>
    (mem_fine s \<longrightarrow> k = min n (nat (d_length (i_data i)) - p))"
  using assms
proof (induction n arbitrary: p w bounce s rule: less_induct)
  case (less n)
  let ?d = "i_data i" and ?L = "nat (d_length (i_data i))" and ?b = "512 * unat (d_start (i_data i))"
  note ok = less.prems(1) and ext = less.prems(2)
  have calm: "wrote (?b + p) (slice w 0 buf) s s'" if "calm s s'" for s'
    using that by (simp add: wrote_def slice_def)
  consider "n = 0" | "0 < n" "?L \<le> p" | "0 < n" "p < ?L" by linarith
  then show ?case
  proof cases
    case 1
    then show ?thesis using calm [OF calm_refl [OF ok]] by (intro exI [of _ 0] exI [of _ s]) (simp add: write_loop.simps)
  next
    case 2
    have "d_length ?d \<le> int p" "0 \<le> d_length ?d" using 2 ext by (auto simp: ext_ok_def)
    from next_chunk_end [OF this less.prems(3)] obtain a b c e
      where "next_chunk i (int n) (int p) = Some (a, b, c, e)" "e \<le> 0" by blast
    then show ?thesis using calm [OF calm_refl [OF ok]] 2
      by (intro exI [of _ 0] exI [of _ s]) (simp add: write_loop.simps)
  next
    case 3
    define c where "c = min n (min (?L - p) (512 - p mod 512))"
    have pp: "int p < d_length ?d" using 3(2) by simp
    obtain sec where sec: "next_chunk i (int n) (int p) = Some (sec, int (p mod 512), int (512 - p mod 512), int c)"
      "unat sec = unat (d_start ?d) + p div 512" "unat sec < unat (b_size (fs_device s))" "0 < c"
      using next_chunk_ok [OF ext pp 3(1)] unfolding c_def by blast
    have cL: "p + c \<le> ?L" "c \<le> n" unfolding c_def using 3 by auto
    let ?bs = "slice w c buf"
    have lb: "length ?bs = c" "w + c \<le> length buf" using cL(2) less.prems(4) by auto
    have "c \<le> 512 - p mod 512" "p mod 512 < 512" unfolding c_def by simp_all
    then have "p mod 512 + length ?bs \<le> 512" unfolding lb(1) by linarith
    from write_chunk_ok [OF ok sec(3) this] obtain r bounce' s1 where r:
      "write_chunk sec (int (p mod 512)) (int (512 - p mod 512)) (int c) ?bs bounce s = Some (r, bounce', s1)"
      "if r then wrote (512 * unat sec + p mod 512) ?bs s s1 else calm s s1 \<and> \<not> mem_fine s" unfolding lb(1) by blast
    have nc: "nat (int w + int c) = w + c" by simp
    show ?thesis
    proof (cases r)
      case False
      then show ?thesis using r sec 3 calm [of s1] lb(2)
        by (intro exI [of _ 0] exI [of _ s1]) (simp add: write_loop.simps nc)
    next
      case True
      have "512 * unat sec + p mod 512 = ?b + p" unfolding sec(2) by simp
      then have w1: "wrote (?b + p) ?bs s s1" using r(2) True by simp
      note w = wrote_simps [OF w1]
      have ext1: "ext_ok (fs_device s1) ?d" using ext w(2) by (simp add: ext_ok_def)
      have pc: "int (p + c) < 2 ^ 31" using cL(1) ext unfolding ext_ok_def by linarith
      have lt: "n - c < n" "w + c + (n - c) \<le> length buf" using sec(4) 3(1) cL(2) less.prems(4) by simp_all
      from less.IH [OF lt(1) w(1) ext1 pc lt(2), of bounce'] obtain k s2 where k:
        "write_loop i buf (int (n - c)) (int (p + c)) (int (w + c)) bounce' s1 = Some (int (w + c + k), s2)"
        "wrote (?b + (p + c)) (slice (w + c) k buf) s1 s2"
        "k \<le> n - c" "k \<le> ?L - (p + c)" "mem_fine s1 \<longrightarrow> k = min (n - c) (?L - (p + c))" by blast
      have "s32_ok (int p + int c)" using pc by (simp add: s32_ok_def)
      note s32 = s32_in [OF this]
      have k1: "write_loop i buf (int n - int c) (int p + int c) (int w + int c) bounce' s1 = Some (int (w + (c + k)), s2)"
        using k(1) cL(2) by (simp add: of_nat_diff add.assoc)
      have "write_loop i buf (int n) (int p) (int w) bounce s = Some (int (w + (c + k)), s2)"
        by (subst write_loop.simps) (use 3(1) sec(1,4) r(1) True lb(2) in \<open>simp add: nc s32 k1 del: of_nat_add\<close>)
      moreover have "wrote (?b + p) (slice w (c + k) buf) s s2"
      proof -
        have lk: "length (slice (w + c) k buf) = k" using k(3) lt(2) by simp
        have "?b + p + length ?bs + length (slice (w + c) k buf) \<le> 512 * unat (b_size (fs_device s))"
          unfolding lb(1) lk using k(4) cL(1) ext_ok_bound [OF ext] by linarith
        moreover have "wrote (?b + p + length ?bs) (slice (w + c) k buf) s1 s2" using k(2) lb(1) by (simp add: add.assoc)
        ultimately have "wrote (?b + p) (?bs @ slice (w + c) k buf) s s2" by (intro wrote_trans [OF w1 _ ok])
        then show ?thesis by (simp only: slice_append)
      qed
      moreover have "mem_fine s \<longrightarrow> c + k = min n (?L - p)" using k(5) wrote_fine [OF w1] cL by (auto simp: min_def)
      ultimately show ?thesis using k(3,4) cL by (intro exI [of _ "c + k"] exI [of _ s2]) auto
    qed
  qed
qed

lemma inode_read_at_ok:
  assumes "block_ok (fs_device s)" "inodes s h = Some i" "ext_ok (fs_device s) (i_data i)" "int p < 2 ^ 31"
  shows "\<exists>k s'. inode_read_at h (int n) (int p) s = Some (slice p k (content (fs_device s) (i_data i)), s') \<and>
    calm s s' \<and> k \<le> n \<and> k \<le> nat (d_length (i_data i)) - p \<and>
    (mem_fine s \<longrightarrow> k = min n (nat (d_length (i_data i)) - p))"
  using read_loop_ok [OF assms(1,3,4)] assms(2) by (simp add: inode_read_at_def)

lemma inode_write_at_ok:
  assumes "block_ok (fs_device s)" "inodes s h = Some i" "ext_ok (fs_device s) (i_data i)" "int p < 2 ^ 31" "n \<le> length buf"
  shows "\<exists>k s'. inode_write_at h buf (int n) (int p) s = Some (int k, s') \<and>
    wrote (512 * unat (d_start (i_data i)) + p) (take k buf) s s' \<and> k \<le> n \<and> k \<le> nat (d_length (i_data i)) - p \<and>
    (mem_fine s \<and> i_deny_write_cnt i = 0 \<longrightarrow> k = min n (nat (d_length (i_data i)) - p))"
proof (cases "i_deny_write_cnt i = 0")
  case True
  have "0 + n \<le> length buf" using assms(5) by simp
  from write_loop_ok [OF assms(1,3,4) this, of False] show ?thesis
    using True assms(2) by (auto simp: inode_write_at_def slice_def)
next
  case False
  then show ?thesis using assms(1,2)
    by (intro exI [of _ 0] exI [of _ s]) (simp add: inode_write_at_def wrote_def exI [of _ "fs_device s"] exI [of _ "mallocs s"])
qed

text \<open>Two files without a common sector, and what writing into one does to both.\<close>

definition file_sectors :: "inode_disk \<Rightarrow> nat set" where
  "file_sectors d = {unat (d_start d)..<unat (d_start d) + nat ((d_length d + 511) div 512)}"

lemma wrote_content:
  assumes "wrote (512 * unat (d_start d) + p) bs s s'" "block_ok (fs_device s)" "ext_ok (fs_device s) d"
    "p + length bs \<le> nat (d_length d)"
  shows "content (fs_device s') d = overwrite p bs (content (fs_device s) d)"
  using assms ext_ok_bound [OF assms(3)] by (simp add: content_def wrote_simps [OF assms(1)] slice_overwrite_in)

lemma wrote_other:
  assumes w: "wrote (512 * unat (d_start d) + p) bs s s'" "block_ok (fs_device s)" "ext_ok (fs_device s) d"
    "p + length bs \<le> nat (d_length d)" and e: "ext_ok (fs_device s) e" "file_sectors d \<inter> file_sectors e = {}"
  shows "content (fs_device s') e = content (fs_device s) e"
proof (cases "bs = [] \<or> d_length e \<le> 0")
  case True
  then show ?thesis by (auto simp: content_def wrote_simps [OF w(1)] slice_def)
next
  case False
  have l: "0 < length bs" "0 < nat (d_length e)" using False by simp_all
  define a b where "a = nat ((d_length d + 511) div 512)" and "b = nat ((d_length e + 511) div 512)"
  have ab: "nat (d_length d) \<le> 512 * a" "nat (d_length e) \<le> 512 * b" "0 < a" "0 < b"
    using l w(4) unfolding a_def b_def by linarith+
  have "unat (d_start d) + a \<le> unat (d_start e) \<or> unat (d_start e) + b \<le> unat (d_start d)"
    using e(2) ab(3,4) unfolding file_sectors_def a_def [symmetric] b_def [symmetric]
    by (simp add: Int_atLeastLessThan) linarith
  then have "512 * unat (d_start e) + nat (d_length e) \<le> 512 * unat (d_start d) + p \<or>
      512 * unat (d_start d) + p + length bs \<le> 512 * unat (d_start e)"
    using ab(1,2) w(4) by linarith
  then show ?thesis unfolding content_def wrote_simps [OF w(1)]
    by (intro slice_overwrite_other) (use w ext_ok_bound [OF w(3)] ext_ok_bound [OF e(1)] in auto)
qed

section \<open>Property\<close>

text \<open>C8: A write to a file whose writes are not denied replaces exactly the bytes from the offset on, cut at the
  end of the file (files do not grow), reports how many it wrote, and leaves every file with other sectors alone;
  a read at any offset then returns the bytes of the new contents.\<close>

theorem inode_write_read:
  assumes "block_ok (fs_device s)" and "inodes s h = Some i" and "ext_ok (fs_device s) (i_data i)"
    and "i_deny_write_cnt i = 0" and "mem_fine s" and "int p < 2 ^ 31" and "n \<le> length buf"
  defines "c \<equiv> overwrite p (take (min n (nat (inode_length i) - p)) buf) (content (fs_device s) (i_data i))"
  shows "\<exists>s1. inode_write_at h buf (int n) (int p) s = Some (int (min n (nat (inode_length i) - p)), s1) \<and>
    content (fs_device s1) (i_data i) = c \<and>
    (\<forall>e. ext_ok (fs_device s) e \<longrightarrow> file_sectors (i_data i) \<inter> file_sectors e = {} \<longrightarrow>
       content (fs_device s1) e = content (fs_device s) e) \<and>
    (\<forall>m q. int q < 2 ^ 31 \<longrightarrow> (\<exists>s2. inode_read_at h (int m) (int q) s1 = Some (slice q m c, s2)))"
proof -
  let ?k = "min n (nat (inode_length i) - p)"
  obtain s1 where w: "inode_write_at h buf (int n) (int p) s = Some (int ?k, s1)"
    "wrote (512 * unat (d_start (i_data i)) + p) (take ?k buf) s s1"
    using inode_write_at_ok [OF assms(1-3,6,7)] assms(4,5) by (auto simp: inode_length_def)
  note W = wrote_simps [OF w(2)]
  have len: "length (content (fs_device s) (i_data i)) = nat (inode_length i)" using assms(1,3) by (simp add: inode_length_def)
  have after: "content (fs_device s1) (i_data i) = c \<and>
      (\<forall>e. ext_ok (fs_device s) e \<longrightarrow> file_sectors (i_data i) \<inter> file_sectors e = {} \<longrightarrow>
         content (fs_device s1) e = content (fs_device s) e)"
  proof (cases "p \<le> nat (inode_length i)")
    case True
    then have fit: "p + length (take ?k buf) \<le> nat (d_length (i_data i))" by (simp add: inode_length_def)
    show ?thesis using wrote_content [OF w(2) assms(1,3) fit] wrote_other [OF w(2) assms(1,3) fit] by (simp add: c_def)
  next
    case False
    then have e: "take ?k buf = []" by simp
    show ?thesis unfolding c_def content_def W(3) e by simp
  qed
  have "\<exists>s2. inode_read_at h (int m) (int q) s1 = Some (slice q m c, s2)" if q: "int q < 2 ^ 31" for m q
  proof -
    have e1: "ext_ok (fs_device s1) (i_data i)" and i1: "inodes s1 h = Some i" using assms(2,3) W by (simp_all add: ext_ok_def)
    from inode_read_at_ok [OF W(1) i1 e1 q, of m] obtain s2 where
      "inode_read_at h (int m) (int q) s1 = Some (slice q (min m (nat (d_length (i_data i)) - q)) c, s2)"
      using wrote_fine [OF w(2) assms(5)] after by auto
    moreover have "length c = nat (d_length (i_data i))" using after e1 W(1) by (metis length_content)
    then have "slice q (min m (nat (d_length (i_data i)) - q)) c = slice q m c" by (simp add: slice_def min_def)
    ultimately show ?thesis by auto
  qed
  then show ?thesis using w(1) after by blast
qed

definition demo_file_fs :: fstate where
  "demo_file_fs = \<lparr>fs_device = \<lparr>b_name = [], b_type = BLOCK_FILESYS, b_size = 4, medium = (\<lambda>_. replicate 512 0),
       read_cnt = 0, write_cnt = 0\<rparr>,
     open_inodes = [7],
     inodes = [7 \<mapsto> \<lparr>i_sector = 1, i_open_cnt = 1, i_removed = False, i_deny_write_cnt = 0,
       i_data = \<lparr>d_start = 2, d_length = 700, d_magic = INODE_MAGIC\<rparr>\<rparr>],
     files = Map.empty, dirs = Map.empty, free_map = \<lparr>bit_cnt = 0, bits = []\<rparr>, free_map_file = None,
     mallocs = 9, mem_ok = (\<lambda>_. True), uninit = []\<rparr>"

definition demo_inode :: inode where
  "demo_inode = \<lparr>i_sector = 1, i_open_cnt = 1, i_removed = False, i_deny_write_cnt = 0,
     i_data = \<lparr>d_start = 2, d_length = 700, d_magic = INODE_MAGIC\<rparr>\<rparr>"

theorem inode_write_read_witness:
  "\<exists>s1. inode_write_at 7 (replicate 300 1) (int 300) (int 500) demo_file_fs = Some (int (min 300 (nat (inode_length demo_inode) - 500)), s1) \<and>
     content (fs_device s1) (i_data demo_inode) =
       overwrite 500 (take (min 300 (nat (inode_length demo_inode) - 500)) (replicate 300 1)) (content (fs_device demo_file_fs) (i_data demo_inode))"
proof -
  have "block_ok (fs_device demo_file_fs)" by (simp add: demo_file_fs_def block_ok_def)
  moreover have "inodes demo_file_fs 7 = Some demo_inode" by (simp add: demo_file_fs_def demo_inode_def)
  moreover have "ext_ok (fs_device demo_file_fs) (i_data demo_inode)" by (simp add: ext_ok_def demo_file_fs_def demo_inode_def)
  moreover have "i_deny_write_cnt demo_inode = 0" "mem_fine demo_file_fs" by (simp_all add: demo_inode_def demo_file_fs_def mem_fine_def)
  ultimately show ?thesis using inode_write_read [of demo_file_fs 7 demo_inode 500 300 "replicate 300 1"] by force
qed

end
