(* ===== verification/Free_Map.thy ===== *)
theory Free_Map
  imports Inode Slots
begin

text \<open>
  The map of free sectors, \<^verbatim>\<open>filesys/free-map.c\<close>, with the positioned reads and writes of
  \<^verbatim>\<open>filesys/file.c\<close> and the file operations of \<^verbatim>\<open>lib/kernel/bitmap.c\<close> through which it reaches
  the disk.
\<close>

section \<open>Bitmaps in files\<close>

definition FREE_MAP_SECTOR :: u32 where
  "FREE_MAP_SECTOR = 0"

definition ROOT_DIR_SECTOR :: u32 where
  "ROOT_DIR_SECTOR = 1"

definition file_read_at :: "nat \<Rightarrow> int \<Rightarrow> int \<Rightarrow> fstate \<Rightarrow> (u8 list \<times> fstate) option" where
  "file_read_at f sz file_ofs s = do { x \<leftarrow> files s f; inode_read_at (f_inode x) sz file_ofs s }"

definition file_write_at :: "nat \<Rightarrow> u8 list \<Rightarrow> int \<Rightarrow> int \<Rightarrow> fstate \<Rightarrow> (int \<times> fstate) option" where
  "file_write_at f buffer sz file_ofs s = do { x \<leftarrow> files s f; inode_write_at (f_inode x) buffer sz file_ofs s }"

text \<open>The elements of a bitmap as the bytes that they are in memory.\<close>

definition bits_bytes :: "u32 list \<Rightarrow> u8 list" where
  "bits_bytes ws = concat (map le_bytes ws)"

fun le_words :: "u8 list \<Rightarrow> u32 list" where
  "le_words (a # b # c # d # bs) = le_word [a, b, c, d] # le_words bs" |
  "le_words _ = []"

text \<open>A size of type \<^verbatim>\<open>size_t\<close> becomes an \<^verbatim>\<open>off_t\<close>.\<close>

definition bitmap_read :: "bitmap \<Rightarrow> nat \<Rightarrow> fstate \<Rightarrow> (bool \<times> bitmap \<times> fstate) option" where
  "bitmap_read b f s =
     (if bit_cnt b > 0
      then do {
        let sz = sint (byte_cnt (bit_cnt b));
        (bytes, s) \<leftarrow> file_read_at f sz 0 s;
        let b = b\<lparr>bits := le_words (overwrite 0 bytes (bits_bytes (bits b)))\<rparr>;
        let k = unat (elem_cnt (bit_cnt b) - 1);
        chk (k < length (bits b));
        Some (int (length bytes) = sz, b\<lparr>bits := (bits b)[k := bits b ! k AND last_mask b]\<rparr>, s) }
      else Some (True, b, s))"

definition bitmap_write :: "bitmap \<Rightarrow> nat \<Rightarrow> fstate \<Rightarrow> (bool \<times> fstate) option" where
  "bitmap_write b f s = do {
     let sz = sint (byte_cnt (bit_cnt b));
     (n, s) \<leftarrow> file_write_at f (bits_bytes (bits b)) sz 0 s;
     Some (n = sz, s) }"

section \<open>The free map\<close>

text \<open>The bitmap takes a block for its structure and one for its elements.\<close>

definition free_map_init :: "fstate \<Rightarrow> fstate option" where
  "free_map_init s = do {
     let cnt = block_size (fs_device s);
     let (hdr, s) = fs_malloc s;
     let (arr, s) = (if hdr \<noteq> None then fs_malloc s else (None, s));
     r \<leftarrow> bitmap_create (hdr \<noteq> None)
       (\<lambda>n. if arr \<noteq> None then Some (replicate (unat n div 4) 0) else None) cnt;
     bm \<leftarrow> r;
     bm \<leftarrow> bitmap_mark bm FREE_MAP_SECTOR;
     bm \<leftarrow> bitmap_mark bm ROOT_DIR_SECTOR;
     Some (s\<lparr>free_map := bm\<rparr>) }"

text \<open>The result is the first sector of the run, or null when the C function returns \<^verbatim>\<open>false\<close>.\<close>

definition free_map_allocate :: "u32 \<Rightarrow> fstate \<Rightarrow> (u32 option \<times> fstate) option" where
  "free_map_allocate cnt s = do {
     (sector, bm) \<leftarrow> bitmap_scan_and_flip (free_map s) 0 cnt False;
     let s = s\<lparr>free_map := bm\<rparr>;
     (sector, s) \<leftarrow>
       (if sector \<noteq> BITMAP_ERROR
        then (case free_map_file s of
                None \<Rightarrow> Some (sector, s)
              | Some f \<Rightarrow> do {
                  (ok, s) \<leftarrow> bitmap_write (free_map s) f s;
                  if \<not> ok
                  then do {
                    bm \<leftarrow> bitmap_set_multiple (free_map s) sector cnt False;
                    Some (BITMAP_ERROR, s\<lparr>free_map := bm\<rparr>) }
                  else Some (sector, s) })
        else Some (sector, s));
     Some (if sector \<noteq> BITMAP_ERROR then Some sector else None, s) }"

definition free_map_release :: "u32 \<Rightarrow> u32 \<Rightarrow> fstate \<Rightarrow> fstate option" where
  "free_map_release sector cnt s = do {
     used \<leftarrow> bitmap_all (free_map s) sector cnt;
     chk used;
     bm \<leftarrow> bitmap_set_multiple (free_map s) sector cnt False;
     let s = s\<lparr>free_map := bm\<rparr>;
     f \<leftarrow> free_map_file s;
     (_, s) \<leftarrow> bitmap_write (free_map s) f s;
     Some s }"

section \<open>Words and bytes\<close>

lemma length_bits_bytes [simp]: "length (bits_bytes ws) = 4 * length ws"
  by (simp add: bits_bytes_def length_concat_const [where m = 4])

lemma le_words_bits_bytes [simp]: "le_words (bits_bytes ws) = ws"
proof (induction ws)
  case (Cons w ws)
  have "le_word [ucast w, ucast (drop_bit 8 w), ucast (drop_bit 16 w), ucast (drop_bit 24 w)] = w"
    using le_word_le_bytes [of w "[]"] by (simp add: le_bytes_def)
  then show ?case using Cons by (simp add: bits_bytes_def le_bytes_def)
qed (simp add: bits_bytes_def)

text \<open>A bitmap whose elements are exactly as many as it needs, and its size in bytes.\<close>

lemma bitmap_bytes_int:
  assumes "bm_ok b" "unat (bit_cnt b) + 31 < 2 ^ 32"
  shows "sint (byte_cnt (bit_cnt b)) = int (unat (byte_cnt (bit_cnt b)))"
    "unat (byte_cnt (bit_cnt b)) \<le> 4 * length (bits b)" "unat (byte_cnt (bit_cnt b)) < 2 ^ 29"
proof -
  have e: "unat (byte_cnt (bit_cnt b)) = 4 * unat (elem_cnt (bit_cnt b))" "unat (elem_cnt (bit_cnt b)) < 2 ^ 27"
    using unat_byte_cnt [OF assms(2)] elem_cnt_bounds [OF assms(2)] by simp_all
  then show lt: "unat (byte_cnt (bit_cnt b)) < 2 ^ 29" by simp
  then show "sint (byte_cnt (bit_cnt b)) = int (unat (byte_cnt (bit_cnt b)))" by (intro sint_small) simp
  have "unat (elem_cnt (bit_cnt b)) \<le> length (bits b)"
    using assms(1) unfolding unat_elem_cnt [OF assms(2)] bm_ok_def by linarith
  then show "unat (byte_cnt (bit_cnt b)) \<le> 4 * length (bits b)" using e(1) by simp
qed

section \<open>Allocation of sectors\<close>

text \<open>The bitmap has a bit for every sector of the device, and the free map file is open.\<close>

definition fm_ok :: "fstate \<Rightarrow> bool" where
  "fm_ok s \<longleftrightarrow> block_ok (fs_device s) \<and> bm_ok (free_map s) \<and> bit_cnt (free_map s) = b_size (fs_device s) \<and>
     unat (bit_cnt (free_map s)) + 31 < 2 ^ 32 \<and>
     (\<exists>f x i. free_map_file s = Some f \<and> files s f = Some x \<and> inodes s (f_inode x) = Some i \<and>
        ext_ok (fs_device s) (i_data i))"

definition used_sectors :: "fstate \<Rightarrow> nat set" where
  "used_sectors s = {k. k < unat (bit_cnt (free_map s)) \<and> bm_abs (free_map s) ! k}"

text \<open>The free map file as the inode holds it.\<close>

definition fm_data :: "fstate \<Rightarrow> inode_disk" where
  "fm_data s = (case free_map_file s of Some f \<Rightarrow> i_data (the (inodes s (f_inode (the (files s f))))))"

lemma fm_ok_wrote: "fm_ok s \<Longrightarrow> wrote k bs s s' \<Longrightarrow> fm_ok s'"
  using wrote_simps [of k bs s s'] by (auto simp: fm_ok_def ext_ok_def)

lemma bitmap_write_ok:
  assumes ok: "fm_ok s" and f: "free_map_file s = Some f"
  shows "\<exists>k s'. bitmap_write (free_map s) f s = Some (k = unat (byte_cnt (bit_cnt (free_map s))), s') \<and>
    wrote (512 * unat (d_start (fm_data s))) (take k (bits_bytes (bits (free_map s)))) s s' \<and>
    k \<le> unat (byte_cnt (bit_cnt (free_map s))) \<and> k \<le> nat (d_length (fm_data s))"
proof -
  obtain x i where x: "files s f = Some x" "inodes s (f_inode x) = Some i" "ext_ok (fs_device s) (i_data i)"
    using ok f by (auto simp: fm_ok_def)
  have ok': "block_ok (fs_device s)" "bm_ok (free_map s)" "unat (bit_cnt (free_map s)) + 31 < 2 ^ 32"
    using ok by (auto simp: fm_ok_def)
  note b = bitmap_bytes_int [OF ok'(2,3)]
  have d: "fm_data s = i_data i" using x f by (simp add: fm_data_def)
  let ?n = "unat (byte_cnt (bit_cnt (free_map s)))"
  have n: "?n \<le> length (bits_bytes (bits (free_map s)))" using b(2) by simp
  from inode_write_at_ok [OF ok'(1) x(2,3) _ n, of 0] obtain k s' where k:
    "inode_write_at (f_inode x) (bits_bytes (bits (free_map s))) (int ?n) (int 0) s = Some (int k, s')"
    "wrote (512 * unat (d_start (i_data i)) + 0) (take k (bits_bytes (bits (free_map s)))) s s'" "k \<le> ?n"
    "k \<le> nat (d_length (i_data i)) - 0" by auto
  have "bitmap_write (free_map s) f s = Some (int k = int ?n, s')"
    unfolding bitmap_write_def file_write_at_def Let_def b(1) x(1) bind.bind_lunit k(1) [unfolded int_ops(1)] prod.case ..
  then have "bitmap_write (free_map s) f s = Some (k = ?n, s')" unfolding of_nat_eq_iff .
  then show ?thesis unfolding d using k(2-4) by auto
qed

lemma used_set_multiple:
  assumes b: "bm_abs b' = take i (bm_abs b) @ replicate n v @ drop (i + n) (bm_abs b)" and i: "i + n \<le> unat (bit_cnt b)"
    and c: "bit_cnt b' = bit_cnt b"
  shows "{k. k < unat (bit_cnt b') \<and> bm_abs b' ! k} =
    (if v then {k. k < unat (bit_cnt b) \<and> bm_abs b ! k} \<union> {i..<i + n}
     else {k. k < unat (bit_cnt b) \<and> bm_abs b ! k} - {i..<i + n})"
proof -
  have "bm_abs b' ! k = (if i \<le> k \<and> k < i + n then v else bm_abs b ! k)" if "k < unat (bit_cnt b)" for k
    unfolding b using i that by (auto simp: nth_append min_def)
  then show ?thesis using i by (auto simp: c simp del: nth_bm_abs split: if_splits)
qed

lemma fm_ok_free_map:
  "fm_ok s \<Longrightarrow> bm_ok b \<Longrightarrow> bit_cnt b = bit_cnt (free_map s) \<Longrightarrow> fm_ok (s\<lparr>free_map := b\<rparr>)"
  by (auto simp: fm_ok_def)

lemma run_used:
  "is_run False (bm_abs b) i n \<Longrightarrow> {i..<i + n} \<inter> {k. k < unat (bit_cnt b) \<and> bm_abs b ! k} = {}"
proof -
  assume r: "is_run False (bm_abs b) i n"
  have "\<not> bm_abs b ! k" if "i \<le> k" "k < i + n" for k
    using r that unfolding is_run_def by (metis le_add_diff_inverse nat_add_left_cancel_less)
  then show ?thesis by (auto simp del: nth_bm_abs)
qed

text \<open>A run of free sectors is found and marked; if the map cannot be written to disk the bits are
  cleared again and the request fails.\<close>

lemma free_map_allocate_ok:
  assumes ok: "fm_ok s" and n: "0 < cnt"
  shows "\<exists>r s'. free_map_allocate cnt s = Some (r, s') \<and> fm_ok s' \<and> b_size (fs_device s') = b_size (fs_device s) \<and>
    (case r of
       None \<Rightarrow> used_sectors s' = used_sectors s
     | Some i \<Rightarrow> unat i + unat cnt \<le> unat (b_size (fs_device s)) \<and>
         {unat i..<unat i + unat cnt} \<inter> used_sectors s = {} \<and>
         used_sectors s' = used_sectors s \<union> {unat i..<unat i + unat cnt})"
proof -
  let ?b = "free_map s"
  have b: "bm_ok ?b" "bit_cnt ?b = b_size (fs_device s)" using ok by (auto simp: fm_ok_def)
  obtain r b1 where r: "bitmap_scan_and_flip ?b 0 cnt False = Some (r, b1)" "same_frame ?b b1"
    "scan_result (bm_abs ?b) 0 (unat cnt) False r"
    "bm_abs b1 = (if r = BITMAP_ERROR then bm_abs ?b
       else take (unat r) (bm_abs ?b) @ replicate (unat cnt) True @ drop (unat r + unat cnt) (bm_abs ?b))"
    using bitmap_scan_and_flip_ok [OF b(1), of 0 cnt False] by auto
  have c1: "bm_ok b1" "bit_cnt b1 = bit_cnt ?b" using r(2) by (auto simp: same_frame_def)
  let ?s1 = "s\<lparr>free_map := b1\<rparr>"
  have ok1: "fm_ok ?s1" by (rule fm_ok_free_map [OF ok c1])
  show ?thesis
  proof (cases "r = BITMAP_ERROR")
    case True
    then show ?thesis using r(1,4) ok1 c1(2) by (auto simp: free_map_allocate_def used_sectors_def)
  next
    case False
    note run = conjunct2 [OF scan_result_run [OF r(3) False]]
    have fit: "unat r + unat cnt \<le> unat (bit_cnt ?b)" using run by (simp add: is_run_def)
    note used1 = used_set_multiple [OF r(4) [unfolded if_not_P [OF False]] fit c1(2)]
    obtain f where f: "free_map_file ?s1 = Some f" using ok1 by (auto simp: fm_ok_def)
    obtain k s2 where w: "bitmap_write b1 f ?s1 = Some (k = unat (byte_cnt (bit_cnt b1)), s2)"
      "wrote (512 * unat (d_start (fm_data ?s1))) (take k (bits_bytes (bits b1))) ?s1 s2"
      using bitmap_write_ok [OF ok1 f] by auto
    note W = wrote_simps [OF w(2)]
    have ok2: "fm_ok s2" by (rule fm_ok_wrote [OF ok1 w(2)])
    show ?thesis
    proof (cases "k = unat (byte_cnt (bit_cnt b1))")
      case True
      then have "free_map_allocate cnt s = Some (Some r, s2)" using r(1) f w(1) False by (simp add: free_map_allocate_def)
      moreover have "used_sectors s2 = used_sectors s \<union> {unat r..<unat r + unat cnt}" using used1 W(8) by (simp add: used_sectors_def)
      ultimately show ?thesis using ok2 fit b(2) W(2) run_used [OF run] by (simp add: used_sectors_def)
    next
      case k: False
      obtain b3 where b3: "bitmap_set_multiple b1 r cnt False = Some b3" "same_frame b1 b3"
        "bm_abs b3 = take (unat r) (bm_abs b1) @ replicate (unat cnt) False @ drop (unat r + unat cnt) (bm_abs b1)"
        using bitmap_set_multiple_ok [OF c1(1), of r cnt False] fit c1(2) by auto
      have c3: "bm_ok b3" "bit_cnt b3 = bit_cnt b1" using b3(2) by (auto simp: same_frame_def)
      have "free_map_allocate cnt s = Some (None, s2\<lparr>free_map := b3\<rparr>)"
        using r(1) f w(1) False k b3(1) W(8) by (simp add: free_map_allocate_def)
      moreover have "used_sectors (s2\<lparr>free_map := b3\<rparr>) = used_sectors s"
        using used_set_multiple [OF b3(3) _ c3(2)] fit c1(2) used1 run_used [OF run] by (auto simp: used_sectors_def)
      moreover have "fm_ok (s2\<lparr>free_map := b3\<rparr>)" by (rule fm_ok_free_map [OF ok2]) (use c3 W(8) in simp_all)
      ultimately show ?thesis using W(2) by simp
    qed
  qed
qed

lemma free_map_release_ok:
  assumes ok: "fm_ok s" and i: "unat sector + unat cnt \<le> unat (b_size (fs_device s))"
  shows "if {unat sector..<unat sector + unat cnt} \<subseteq> used_sectors s
    then \<exists>s'. free_map_release sector cnt s = Some s' \<and> fm_ok s' \<and> b_size (fs_device s') = b_size (fs_device s) \<and>
      used_sectors s' = used_sectors s - {unat sector..<unat sector + unat cnt}
    else free_map_release sector cnt s = None"
proof -
  let ?b = "free_map s"
  have b: "bm_ok ?b" "bit_cnt ?b = b_size (fs_device s)" using ok by (auto simp: fm_ok_def)
  have fit: "unat sector + unat cnt \<le> unat (bit_cnt ?b)" using i b(2) by simp
  have all: "bitmap_all ?b sector cnt = Some (is_run True (bm_abs ?b) (unat sector) (unat cnt))"
    using bitmap_queries_ok(3) [OF b(1) fit] .
  have sub: "{unat sector..<unat sector + unat cnt} \<subseteq> used_sectors s \<longleftrightarrow> is_run True (bm_abs ?b) (unat sector) (unat cnt)"
  proof
    show "is_run True (bm_abs ?b) (unat sector) (unat cnt)" if s: "{unat sector..<unat sector + unat cnt} \<subseteq> used_sectors s"
      using subsetD [OF s] fit by (simp add: is_run_def used_sectors_def del: nth_bm_abs)
    show "{unat sector..<unat sector + unat cnt} \<subseteq> used_sectors s" if r: "is_run True (bm_abs ?b) (unat sector) (unat cnt)"
    proof
      fix k assume k: "k \<in> {unat sector..<unat sector + unat cnt}"
      then have "k = unat sector + (k - unat sector)" "k - unat sector < unat cnt" by auto
      then have "bm_abs ?b ! k" using r unfolding is_run_def by metis
      then show "k \<in> used_sectors s" using k fit by (simp add: used_sectors_def)
    qed
  qed
  show ?thesis
  proof (cases "is_run True (bm_abs ?b) (unat sector) (unat cnt)")
    case False
    then show ?thesis using all sub by (simp add: free_map_release_def)
  next
    case True
    obtain b1 where b1: "bitmap_set_multiple ?b sector cnt False = Some b1" "same_frame ?b b1"
      "bm_abs b1 = take (unat sector) (bm_abs ?b) @ replicate (unat cnt) False @ drop (unat sector + unat cnt) (bm_abs ?b)"
      using bitmap_set_multiple_ok [OF b(1), of sector cnt False] fit by auto
    have c1: "bm_ok b1" "bit_cnt b1 = bit_cnt ?b" using b1(2) by (auto simp: same_frame_def)
    have ok1: "fm_ok (s\<lparr>free_map := b1\<rparr>)" by (rule fm_ok_free_map [OF ok c1])
    obtain f where f: "free_map_file (s\<lparr>free_map := b1\<rparr>) = Some f" using ok1 by (auto simp: fm_ok_def)
    obtain k s2 where w: "bitmap_write b1 f (s\<lparr>free_map := b1\<rparr>) = Some (k = unat (byte_cnt (bit_cnt b1)), s2)"
      "wrote (512 * unat (d_start (fm_data (s\<lparr>free_map := b1\<rparr>)))) (take k (bits_bytes (bits b1))) (s\<lparr>free_map := b1\<rparr>) s2"
      using bitmap_write_ok [OF ok1 f] by auto
    note W = wrote_simps [OF w(2)]
    have "free_map_release sector cnt s = Some s2" using all True b1(1) f w(1) by (simp add: free_map_release_def)
    moreover have "used_sectors s2 = used_sectors s - {unat sector..<unat sector + unat cnt}"
      using used_set_multiple [OF b1(3) fit c1(2)] W(8) by (simp add: used_sectors_def)
    ultimately show ?thesis using sub True fm_ok_wrote [OF ok1 w(2)] W(2) by simp
  qed
qed

text \<open>The free map is an allocator of slots.\<close>

definition sector_get :: "nat \<Rightarrow> fstate \<Rightarrow> (nat option \<times> fstate) option" where
  "sector_get n s = do { (r, s) \<leftarrow> free_map_allocate (of_nat n) s; Some (map_option unat r, s) }"

definition sector_put :: "nat \<Rightarrow> nat \<Rightarrow> fstate \<Rightarrow> fstate option" where
  "sector_put i n s = free_map_release (of_nat i) (of_nat n) s"

interpretation free_sectors: slot_allocator fm_ok "\<lambda>s. unat (b_size (fs_device s))" used_sectors sector_get sector_put
proof
  fix s n assume s: "fm_ok s" "0 < n" "n < (2 :: nat) ^ 32"
  then have n: "unat (of_nat n :: u32) = n" by (simp add: unat_of_nat take_bit_nat_eq_self)
  then have "0 < (of_nat n :: u32)" using s(2) by (simp add: word_less_nat_alt)
  from free_map_allocate_ok [OF s(1) this] obtain r s' where r: "free_map_allocate (of_nat n) s = Some (r, s')" "fm_ok s'"
    "b_size (fs_device s') = b_size (fs_device s)"
    "case r of None \<Rightarrow> used_sectors s' = used_sectors s
     | Some i \<Rightarrow> unat i + n \<le> unat (b_size (fs_device s)) \<and> {unat i..<unat i + n} \<inter> used_sectors s = {} \<and>
         used_sectors s' = used_sectors s \<union> {unat i..<unat i + n}"
    unfolding n by blast
  then show "\<exists>r s'. sector_get n s = Some (r, s') \<and> fm_ok s' \<and> unat (b_size (fs_device s')) = unat (b_size (fs_device s)) \<and>
      (case r of None \<Rightarrow> used_sectors s' = used_sectors s
       | Some i \<Rightarrow> i + n \<le> unat (b_size (fs_device s)) \<and> slots (i, n) \<inter> used_sectors s = {} \<and>
           used_sectors s' = used_sectors s \<union> slots (i, n))"
    by (intro exI [of _ "map_option unat r"] exI [of _ s']) (auto simp: sector_get_def slots_def split: option.splits)
next
  fix s n i assume s: "fm_ok s" "0 < n" "i + n \<le> unat (b_size (fs_device s))" "slots (i, n) \<subseteq> used_sectors s"
  have "i + n < 2 ^ 32" using s(3) unsigned_less [of "b_size (fs_device s)", where 'a = nat] by simp
  then have e: "unat (of_nat n :: u32) = n" "unat (of_nat i :: u32) = i" by (simp_all add: unat_of_nat take_bit_nat_eq_self)
  show "\<exists>s'. sector_put i n s = Some s' \<and> fm_ok s' \<and> unat (b_size (fs_device s')) = unat (b_size (fs_device s)) \<and>
      used_sectors s' = used_sectors s - slots (i, n)"
    using free_map_release_ok [OF s(1), of "of_nat i" "of_nat n"] s(3,4) by (auto simp: e slots_def sector_put_def)
qed

section \<open>Property\<close>

text \<open>C9: Whatever sequence of requests and releases is made, with whichever of them failing because the disk is
  full or the map cannot be written, the runs of sectors that are held never overlap, never contain a sector that
  was in use at the start, and the sectors in use are those and the held ones: nothing is leaked or lost.\<close>

theorem free_map_disjoint:
  assumes "fm_ok s"
  shows "\<exists>s' L. run_slots sector_get sector_put ops s [] = Some (s', L) \<and> fm_ok s' \<and> no_overlap L \<and>
    used_sectors s \<inter> \<Union> (slots ` set L) = {} \<and> used_sectors s' = used_sectors s \<union> \<Union> (slots ` set L) \<and>
    (\<forall>r\<in>set L. fst r + snd r \<le> unat (b_size (fs_device s)))"
proof -
  have "free_sectors.ledger_ok (used_sectors s) s []"
    using assms by (simp add: free_sectors.ledger_ok_def no_overlap_def)
  from free_sectors.run_ledger [OF this, of ops] show ?thesis by (auto simp: free_sectors.ledger_ok_def)
qed

definition demo_map_fs :: fstate where
  "demo_map_fs = demo_file_fs\<lparr>free_map := \<lparr>bit_cnt = 4, bits = [3]\<rparr>, free_map_file := Some 6,
     files := [6 \<mapsto> \<lparr>f_inode = 7, f_pos = 0, f_deny_write = False\<rparr>]\<rparr>"

theorem free_map_disjoint_witness:
  "\<exists>s' L. run_slots sector_get sector_put [Get 1, Get 1, Get 1, Put 1, Get 2] demo_map_fs [] = Some (s', L) \<and> no_overlap L"
proof -
  have "fm_ok demo_map_fs" by (simp add: fm_ok_def demo_map_fs_def demo_file_fs_def block_ok_def bm_ok_def ext_ok_def)
  from free_map_disjoint [OF this, of "[Get 1, Get 1, Get 1, Put 1, Get 2]"] obtain s' L where
    "run_slots sector_get sector_put [Get 1, Get 1, Get 1, Put 1, Get 2] demo_map_fs [] = Some (s', L)" "no_overlap L" by metis
  then show ?thesis by (intro exI conjI)
qed

end
