(* ===== verification/Files.thy ===== *)
theory Files
  imports Free_Map
begin

text \<open>
  Creating and closing inodes (the part of \<^verbatim>\<open>filesys/inode.c\<close> that uses the free map), open files
  (\<^verbatim>\<open>filesys/file.c\<close>) and the free map file.  A null pointer is \<open>None\<close>; closing the last
  opener of a removed inode frees its sectors.
\<close>

section \<open>Inodes on disk\<close>

primrec zero_loop :: "nat \<Rightarrow> u32 \<Rightarrow> fstate \<Rightarrow> fstate option" where
  "zero_loop 0 sector s = Some s" |
  "zero_loop (Suc n) sector s = do {
     dev \<leftarrow> block_write (fs_device s) sector (replicate 512 0);
     zero_loop n (sector + 1) (s\<lparr>fs_device := dev\<rparr>) }"

definition inode_create :: "u32 \<Rightarrow> int \<Rightarrow> fstate \<Rightarrow> (bool \<times> fstate) option" where
  "inode_create sector len s = do {
     chk (len \<ge> 0);
     let (disk_inode, s) = fs_malloc s;
     if disk_inode \<noteq> None
     then do {
       sectors \<leftarrow> bytes_to_sectors len;
       (r, s) \<leftarrow> free_map_allocate sectors s;
       case r of
         None \<Rightarrow> Some (False, s)
       | Some start \<Rightarrow> do {
           dev \<leftarrow> block_write (fs_device s) sector
             (inode_bytes \<lparr>d_start = start, d_length = len, d_magic = INODE_MAGIC\<rparr>);
           s \<leftarrow> zero_loop (unat sectors) start (s\<lparr>fs_device := dev\<rparr>);
           Some (True, s) } }
     else Some (False, s) }"

definition inode_close :: "nat option \<Rightarrow> fstate \<Rightarrow> fstate option" where
  "inode_close inode s =
     (case inode of
        None \<Rightarrow> Some s
      | Some h \<Rightarrow> do {
          i \<leftarrow> inodes s h;
          n \<leftarrow> s32 (i_open_cnt i - 1);
          s \<leftarrow> upd_inode h (\<lambda>i. i\<lparr>i_open_cnt := n\<rparr>) s;
          if n = 0
          then do {
            chk (h \<in> set (open_inodes s));
            let s = s\<lparr>open_inodes := remove1 h (open_inodes s)\<rparr>;
            s \<leftarrow> (if i_removed i
                  then do {
                    s \<leftarrow> free_map_release (i_sector i) 1 s;
                    sectors \<leftarrow> bytes_to_sectors (d_length (i_data i));
                    free_map_release (d_start (i_data i)) sectors s }
                  else Some s);
            Some (s\<lparr>inodes := (inodes s)(h := None)\<rparr>) }
          else Some s })"

section \<open>Open files\<close>

definition file_open :: "nat option \<Rightarrow> fstate \<Rightarrow> (nat option \<times> fstate) option" where
  "file_open inode s = do {
     let (f, s) = fs_malloc s;
     case (inode, f) of
       (Some h, Some p) \<Rightarrow>
         Some (Some p, s\<lparr>files := (files s)(p \<mapsto> \<lparr>f_inode = h, f_pos = 0, f_deny_write = False\<rparr>)\<rparr>)
     | _ \<Rightarrow> do { s \<leftarrow> inode_close inode s; Some (None, s) } }"

definition file_reopen :: "nat \<Rightarrow> fstate \<Rightarrow> (nat option \<times> fstate) option" where
  "file_reopen f s = do {
     x \<leftarrow> files s f;
     (h, s) \<leftarrow> inode_reopen (Some (f_inode x)) s;
     file_open h s }"

definition upd_file :: "nat \<Rightarrow> (file_t \<Rightarrow> file_t) \<Rightarrow> fstate \<Rightarrow> fstate option" where
  "upd_file f g s = do { x \<leftarrow> files s f; Some (s\<lparr>files := (files s)(f \<mapsto> g x)\<rparr>) }"

definition file_deny_write :: "nat \<Rightarrow> fstate \<Rightarrow> fstate option" where
  "file_deny_write f s = do {
     x \<leftarrow> files s f;
     if \<not> f_deny_write x
     then do { s \<leftarrow> upd_file f (\<lambda>x. x\<lparr>f_deny_write := True\<rparr>) s; inode_deny_write (f_inode x) s }
     else Some s }"

definition file_allow_write :: "nat \<Rightarrow> fstate \<Rightarrow> fstate option" where
  "file_allow_write f s = do {
     x \<leftarrow> files s f;
     if f_deny_write x
     then do { s \<leftarrow> upd_file f (\<lambda>x. x\<lparr>f_deny_write := False\<rparr>) s; inode_allow_write (f_inode x) s }
     else Some s }"

definition file_close :: "nat option \<Rightarrow> fstate \<Rightarrow> fstate option" where
  "file_close file_p s =
     (case file_p of
        None \<Rightarrow> Some s
      | Some f \<Rightarrow> do {
          s \<leftarrow> file_allow_write f s;
          x \<leftarrow> files s f;
          s \<leftarrow> inode_close (Some (f_inode x)) s;
          Some (s\<lparr>files := (files s)(f := None)\<rparr>) })"

definition file_get_inode :: "nat \<Rightarrow> fstate \<Rightarrow> nat option" where
  "file_get_inode f s = map_option f_inode (files s f)"

definition file_read :: "nat \<Rightarrow> int \<Rightarrow> fstate \<Rightarrow> (u8 list \<times> fstate) option" where
  "file_read f sz s = do {
     x \<leftarrow> files s f;
     (bytes, s) \<leftarrow> inode_read_at (f_inode x) sz (f_pos x) s;
     pos \<leftarrow> s32 (f_pos x + int (length bytes));
     s \<leftarrow> upd_file f (\<lambda>x. x\<lparr>f_pos := pos\<rparr>) s;
     Some (bytes, s) }"

definition file_write :: "nat \<Rightarrow> u8 list \<Rightarrow> int \<Rightarrow> fstate \<Rightarrow> (int \<times> fstate) option" where
  "file_write f buffer sz s = do {
     x \<leftarrow> files s f;
     (bytes_written, s) \<leftarrow> inode_write_at (f_inode x) buffer sz (f_pos x) s;
     pos \<leftarrow> s32 (f_pos x + bytes_written);
     s \<leftarrow> upd_file f (\<lambda>x. x\<lparr>f_pos := pos\<rparr>) s;
     Some (bytes_written, s) }"

definition file_length :: "nat \<Rightarrow> fstate \<Rightarrow> int option" where
  "file_length f s = do { x \<leftarrow> files s f; i \<leftarrow> inodes s (f_inode x); Some (inode_length i) }"

definition file_seek :: "nat \<Rightarrow> int \<Rightarrow> fstate \<Rightarrow> fstate option" where
  "file_seek f new_pos s = do { chk (new_pos \<ge> 0); upd_file f (\<lambda>x. x\<lparr>f_pos := new_pos\<rparr>) s }"

definition file_tell :: "nat \<Rightarrow> fstate \<Rightarrow> int option" where
  "file_tell f s = map_option f_pos (files s f)"

section \<open>The free map file\<close>

definition free_map_open :: "fstate \<Rightarrow> fstate option" where
  "free_map_open s = do {
     (h, s) \<leftarrow> inode_open FREE_MAP_SECTOR s;
     (p, s) \<leftarrow> file_open h s;
     let s = s\<lparr>free_map_file := p\<rparr>;
     f \<leftarrow> p;
     (ok, bm, s) \<leftarrow> bitmap_read (free_map s) f s;
     chk ok;
     Some (s\<lparr>free_map := bm\<rparr>) }"

definition free_map_close :: "fstate \<Rightarrow> fstate option" where
  "free_map_close s = file_close (free_map_file s) s"

definition free_map_create :: "fstate \<Rightarrow> fstate option" where
  "free_map_create s = do {
     (ok, s) \<leftarrow> inode_create FREE_MAP_SECTOR (sint (bitmap_file_size (free_map s))) s;
     chk ok;
     (h, s) \<leftarrow> inode_open FREE_MAP_SECTOR s;
     (p, s) \<leftarrow> file_open h s;
     let s = s\<lparr>free_map_file := p\<rparr>;
     f \<leftarrow> p;
     (ok, s) \<leftarrow> bitmap_write (free_map s) f s;
     chk ok;
     Some s }"

end
