(* ===== verification/Directory.thy ===== *)
theory Directory
  imports Files
begin

text \<open>
  Directories of \<^verbatim>\<open>filesys/directory.c\<close>: a file of 20-byte entries, searched linearly.  A name
  passed by a caller is the list of its characters (none of them null), an entry's name is the array
  of 15 bytes.
\<close>

section \<open>Entries\<close>

definition NAME_MAX :: nat where
  "NAME_MAX = 14"

record dir_entry =
  e_inode_sector :: u32
  e_name :: "u8 list"
  e_in_use :: bool

text \<open>\<^verbatim>\<open>sizeof (struct dir_entry)\<close>\<close>

definition entry_size :: nat where
  "entry_size = 20"

definition entry_bytes :: "dir_entry \<Rightarrow> u8 list" where
  "entry_bytes e = le_bytes (e_inode_sector e) @ e_name e @ [if e_in_use e then 1 else 0]"

definition entry_of_bytes :: "u8 list \<Rightarrow> dir_entry" where
  "entry_of_bytes bs = \<lparr>e_inode_sector = le_word bs, e_name = slice 4 15 bs, e_in_use = bs ! 19 \<noteq> 0\<rparr>"

text \<open>\<^verbatim>\<open>!strcmp (name, e.name)\<close>; running past the array is a fault.\<close>

fun name_eq :: "u8 list \<Rightarrow> u8 list \<Rightarrow> bool option" where
  "name_eq name [] = None" |
  "name_eq [] (b # bs) = Some (b = 0)" |
  "name_eq (x # xs) (b # bs) = (if x = b then name_eq xs bs else Some False)"

text \<open>The string in an array: its bytes before the first null.\<close>

definition string_of :: "u8 list \<Rightarrow> u8 list option" where
  "string_of bs = (if 0 \<in> set bs then Some (takeWhile (\<lambda>b. b \<noteq> 0) bs) else None)"

section \<open>Opening directories\<close>

definition dir_create :: "u32 \<Rightarrow> u32 \<Rightarrow> fstate \<Rightarrow> (bool \<times> fstate) option" where
  "dir_create sector entry_cnt s = inode_create sector (sint (entry_cnt * of_nat entry_size)) s"

definition dir_open :: "nat option \<Rightarrow> fstate \<Rightarrow> (nat option \<times> fstate) option" where
  "dir_open inode s = do {
     let (d, s) = fs_malloc s;
     case (inode, d) of
       (Some h, Some p) \<Rightarrow> Some (Some p, s\<lparr>dirs := (dirs s)(p \<mapsto> \<lparr>dir_inode = h, dir_pos = 0\<rparr>)\<rparr>)
     | _ \<Rightarrow> do { s \<leftarrow> inode_close inode s; Some (None, s) } }"

definition dir_open_root :: "fstate \<Rightarrow> (nat option \<times> fstate) option" where
  "dir_open_root s = do { (h, s) \<leftarrow> inode_open ROOT_DIR_SECTOR s; dir_open h s }"

definition dir_reopen :: "nat \<Rightarrow> fstate \<Rightarrow> (nat option \<times> fstate) option" where
  "dir_reopen d s = do {
     x \<leftarrow> dirs s d;
     (h, s) \<leftarrow> inode_reopen (Some (dir_inode x)) s;
     dir_open h s }"

definition dir_close :: "nat option \<Rightarrow> fstate \<Rightarrow> fstate option" where
  "dir_close dir_p s =
     (case dir_p of
        None \<Rightarrow> Some s
      | Some d \<Rightarrow> do {
          x \<leftarrow> dirs s d;
          s \<leftarrow> inode_close (Some (dir_inode x)) s;
          Some (s\<lparr>dirs := (dirs s)(d := None)\<rparr>) })"

definition dir_get_inode :: "nat \<Rightarrow> fstate \<Rightarrow> nat option" where
  "dir_get_inode d s = map_option dir_inode (dirs s d)"

section \<open>Searching\<close>

text \<open>The loop of \<^verbatim>\<open>lookup\<close> over the inode \<open>h\<close>, from the offset \<open>ofs\<close> of type \<^verbatim>\<open>size_t\<close>.\<close>

partial_function (option) lookup_loop ::
  "nat \<Rightarrow> u8 list \<Rightarrow> u32 \<Rightarrow> fstate \<Rightarrow> ((dir_entry \<times> u32) option \<times> fstate) option" where
  [code]: "lookup_loop h name ofs s = do {
     (bs, s) \<leftarrow> inode_read_at h (int entry_size) (sint ofs) s;
     if length bs = entry_size
     then do {
       let e = entry_of_bytes bs;
       same \<leftarrow> (if e_in_use e then name_eq name (e_name e) else Some False);
       if same then Some (Some (e, ofs), s) else lookup_loop h name (ofs + of_nat entry_size) s }
     else Some (None, s) }"

definition dir_search :: "nat \<Rightarrow> u8 list \<Rightarrow> fstate \<Rightarrow> ((dir_entry \<times> u32) option \<times> fstate) option" where
  "dir_search d name s = do { x \<leftarrow> dirs s d; lookup_loop (dir_inode x) name 0 s }"

definition dir_lookup :: "nat \<Rightarrow> u8 list \<Rightarrow> fstate \<Rightarrow> (nat option \<times> fstate) option" where
  "dir_lookup d name s = do {
     (r, s) \<leftarrow> dir_search d name s;
     case r of
       Some (e, _) \<Rightarrow> inode_open (e_inode_sector e) s
     | None \<Rightarrow> Some (None, s) }"

text \<open>The search of \<^verbatim>\<open>dir_add\<close> for a free slot: the bytes left in \<^verbatim>\<open>e\<close> and the offset.\<close>

partial_function (option) slot_loop ::
  "nat \<Rightarrow> u8 list \<Rightarrow> int \<Rightarrow> fstate \<Rightarrow> (u8 list \<times> int \<times> fstate) option" where
  [code]: "slot_loop h e ofs s = do {
     (bs, s) \<leftarrow> inode_read_at h (int entry_size) ofs s;
     let e = overwrite 0 bs e;
     if length bs = entry_size \<and> e_in_use (entry_of_bytes e)
     then do { ofs \<leftarrow> s32 (ofs + int entry_size); slot_loop h e ofs s }
     else Some (e, ofs, s) }"

definition dir_add :: "nat \<Rightarrow> u8 list \<Rightarrow> u32 \<Rightarrow> fstate \<Rightarrow> (bool \<times> fstate) option" where
  "dir_add d name inode_sector s =
     (if name = [] \<or> length name > NAME_MAX then Some (False, s)
      else do {
        (r, s) \<leftarrow> dir_search d name s;
        if r \<noteq> None then Some (False, s)
        else do {
          x \<leftarrow> dirs s d;
          (buf, ofs, s) \<leftarrow> slot_loop (dir_inode x) (uninit s) 0 s;
          let e = entry_of_bytes buf;
          let e = \<lparr>e_inode_sector = inode_sector, e_name = overwrite 0 (name @ [0]) (e_name e), e_in_use = True\<rparr>;
          (n, s) \<leftarrow> inode_write_at (dir_inode x) (entry_bytes e) (int entry_size) ofs s;
          Some (n = int entry_size, s) } })"

definition dir_remove :: "nat \<Rightarrow> u8 list \<Rightarrow> fstate \<Rightarrow> (bool \<times> fstate) option" where
  "dir_remove d name s = do {
     (r, s) \<leftarrow> dir_search d name s;
     case r of
       None \<Rightarrow> Some (False, s)
     | Some (e, ofs) \<Rightarrow> do {
         (inode, s) \<leftarrow> inode_open (e_inode_sector e) s;
         case inode of
           None \<Rightarrow> Some (False, s)
         | Some h \<Rightarrow> do {
             x \<leftarrow> dirs s d;
             (n, s) \<leftarrow> inode_write_at (dir_inode x) (entry_bytes (e\<lparr>e_in_use := False\<rparr>)) (int entry_size) (sint ofs) s;
             (success, s) \<leftarrow>
               (if n \<noteq> int entry_size then Some (False, s)
                else do { s \<leftarrow> inode_remove h s; Some (True, s) });
             s \<leftarrow> inode_close inode s;
             Some (success, s) } } }"

text \<open>The name of the next entry in use, or null at the end of the directory.\<close>

partial_function (option) dir_readdir :: "nat \<Rightarrow> fstate \<Rightarrow> (u8 list option \<times> fstate) option" where
  [code]: "dir_readdir d s = do {
     x \<leftarrow> dirs s d;
     (bs, s) \<leftarrow> inode_read_at (dir_inode x) (int entry_size) (dir_pos x) s;
     if length bs = entry_size
     then do {
       pos \<leftarrow> s32 (dir_pos x + int entry_size);
       let s = s\<lparr>dirs := (dirs s)(d \<mapsto> x\<lparr>dir_pos := pos\<rparr>)\<rparr>;
       let e = entry_of_bytes bs;
       if e_in_use e
       then do { name \<leftarrow> string_of (e_name e); Some (Some name, s) }
       else dir_readdir d s }
     else Some (None, s) }"

section \<open>Directories as maps\<close>

text \<open>The entries of a directory file and the map from names to inode sectors that they represent.\<close>

definition entries :: "u8 list \<Rightarrow> dir_entry list" where
  "entries c = map (\<lambda>k. entry_of_bytes (slice (20 * k) 20 c)) [0..<length c div 20]"

definition entry_string :: "dir_entry \<Rightarrow> u8 list" where
  "entry_string e = takeWhile (\<lambda>b. b \<noteq> 0) (e_name e)"

definition is_entry :: "u8 list \<Rightarrow> dir_entry \<Rightarrow> bool" where
  "is_entry name e \<longleftrightarrow> e_in_use e \<and> entry_string e = name"

definition dir_map :: "dir_entry list \<Rightarrow> u8 list \<Rightarrow> u32 option" where
  "dir_map es name = map_option e_inode_sector (find (is_entry name) es)"

definition names_ok :: "dir_entry list \<Rightarrow> bool" where
  "names_ok es \<longleftrightarrow> (\<forall>e \<in> set es. e_in_use e \<longrightarrow> 0 \<in> set (e_name e))"

text \<open>An open directory; its file is short enough for offsets of type \<^verbatim>\<open>off_t\<close>.\<close>

definition dir_ok :: "fstate \<Rightarrow> nat \<Rightarrow> inode_disk \<Rightarrow> bool" where
  "dir_ok s h d \<longleftrightarrow> block_ok (fs_device s) \<and> map_option i_data (inodes s h) = Some d \<and> ext_ok (fs_device s) d"

lemma length_entries [simp]: "length (entries c) = length c div 20"
  by (simp add: entries_def)

lemma nth_entries [simp]: "k < length c div 20 \<Longrightarrow> entries c ! k = entry_of_bytes (slice (20 * k) 20 c)"
  by (simp add: entries_def)

lemma name_eq_ok: "0 \<notin> set name \<Longrightarrow> 0 \<in> set bs \<Longrightarrow> name_eq name bs = Some (takeWhile (\<lambda>b. b \<noteq> 0) bs = name)"
  by (induction name bs rule: name_eq.induct) auto

lemma dir_ok_wrote: "dir_ok s h d \<Longrightarrow> wrote k bs s s' \<Longrightarrow> dir_ok s' h d"
  using wrote_simps [of k bs s s'] by (simp add: dir_ok_def ext_ok_def)

lemma content_bound:
  assumes "block_ok b" "ext_ok b d" "p \<le> length (content b d)"
  shows "int p + 512 < 2 ^ 31"
proof -
  have "0 \<le> d_length d" "d_length d + 512 < 2 ^ 31" using assms(2) by (simp_all add: ext_ok_def)
  moreover have "int p \<le> int (nat (d_length d))" using assms(3) length_content [OF assms(1,2)] by (simp only: of_nat_le_iff)
  ultimately show ?thesis by linarith
qed

text \<open>Reading a whole entry, or less than one at the end or when memory is short.\<close>

lemma read_entry:
  assumes d: "dir_ok s h d" and k: "k \<le> length (content (fs_device s) d) div 20"
  defines "c \<equiv> content (fs_device s) d"
  shows "\<exists>bs s'. inode_read_at h (int entry_size) (int (20 * k)) s = Some (bs, s') \<and> calm s s' \<and> length bs \<le> 20 \<and>
    (length bs = 20 \<longrightarrow> k < length c div 20 \<and> bs = slice (20 * k) 20 c) \<and>
    (mem_fine s \<and> k < length c div 20 \<longrightarrow> length bs = 20)"
proof -
  obtain i where i: "block_ok (fs_device s)" "inodes s h = Some i" "i_data i = d" "ext_ok (fs_device s) d"
    using d by (auto simp: dir_ok_def)
  have len: "length c = nat (d_length d)" using i by (simp add: c_def)
  have "20 * k \<le> length c" using k unfolding c_def by simp
  from content_bound [OF i(1,4) this [unfolded c_def]] have p: "int (20 * k) < 2 ^ 31" by simp
  from inode_read_at_ok [OF i(1,2) _ p, of 20] obtain m s' where m:
    "inode_read_at h (int 20) (int (20 * k)) s = Some (slice (20 * k) m c, s')" "calm s s'" "m \<le> 20"
    "m \<le> length c - 20 * k" "mem_fine s \<longrightarrow> m = min 20 (length c - 20 * k)"
    using i(3,4) len unfolding c_def by auto
  have "20 * k \<le> length c" using k unfolding c_def by simp
  then have lm: "length (slice (20 * k) m c) = m" using m(4) by simp
  show ?thesis
  proof (intro exI conjI impI)
    show "inode_read_at h (int entry_size) (int (20 * k)) s = Some (slice (20 * k) m c, s')"
      using m(1) by (simp add: entry_size_def)
    show "calm s s'" by (rule m(2))
    show "length (slice (20 * k) m c) \<le> 20" using lm m(3) by simp
    assume "length (slice (20 * k) m c) = 20"
    then have "m = 20" using lm by simp
    then show "k < length c div 20" "slice (20 * k) m c = slice (20 * k) 20 c" using m(4) by auto
  next
    assume "mem_fine s \<and> k < length c div 20"
    then show "length (slice (20 * k) m c) = 20" using lm m(5) by auto
  qed
qed

definition find_index :: "u8 list \<Rightarrow> nat \<Rightarrow> dir_entry list \<Rightarrow> nat option" where
  "find_index name k es = find (\<lambda>j. is_entry name (es ! j)) [k..<length es]"

lemma find_index_step: "k < length es \<Longrightarrow>
    find_index name k es = (if is_entry name (es ! k) then Some k else find_index name (Suc k) es)"
  by (simp add: find_index_def upt_conv_Cons)

text \<open>The search returns for every outcome of the allocations, and finds the first entry with the
  name when memory is not short.\<close>

lemma lookup_loop_ok:
  assumes "dir_ok s h d" "entries (content (fs_device s) d) = es" "k \<le> length es" "0 \<notin> set name" "names_ok es"
  shows "\<exists>r s'. lookup_loop h name (of_nat (20 * k)) s = Some (r, s') \<and> calm s s' \<and>
    (mem_fine s \<longrightarrow> r = map_option (\<lambda>j. (es ! j, of_nat (20 * j))) (find_index name k es))"
  using assms(1,2,3)
proof (induction "length es - k" arbitrary: k s rule: less_induct)
  case less
  let ?c = "content (fs_device s) d"
  have n: "length es = length ?c div 20" using less.prems(2) by auto
  have ok: "block_ok (fs_device s)" "ext_ok (fs_device s) d" using less.prems(1) by (auto simp: dir_ok_def)
  have "20 * k \<le> length ?c" using less.prems(3) n by simp
  from content_bound [OF ok this] have lt: "20 * k < 2 ^ 31" by simp
  then have "unat (of_nat (20 * k) :: u32) = 20 * k" by (intro unat_of_nat_small) simp
  then have sk: "sint (of_nat (20 * k) :: u32) = int (20 * k)" using sint_small [of "of_nat (20 * k)"] lt by simp
  have "k \<le> length ?c div 20" using less.prems(3) n by simp
  from read_entry [OF less.prems(1) this] obtain bs s1 where r:
    "inode_read_at h (int entry_size) (int (20 * k)) s = Some (bs, s1)" "calm s s1" "length bs \<le> 20"
    "length bs = 20 \<longrightarrow> k < length ?c div 20 \<and> bs = slice (20 * k) 20 ?c"
    "mem_fine s \<and> k < length ?c div 20 \<longrightarrow> length bs = 20" by blast
  note step = lookup_loop.simps [of h name "of_nat (20 * k)" s, unfolded sk r(1) bind.bind_lunit prod.case]
  show ?case
  proof (cases "length bs = 20")
    case False
    then have "lookup_loop h name (of_nat (20 * k)) s = Some (None, s1)" unfolding step by (simp add: entry_size_def)
    moreover have "find_index name k es = None" if "mem_fine s"
      using r(5) that False n less.prems(3) by (simp add: find_index_def)
    ultimately show ?thesis using r(2) by auto
  next
    case True
    have k: "k < length es" and e: "entry_of_bytes bs = es ! k" using r(4) True n less.prems(2) by auto
    have same: "(if e_in_use (es ! k) then name_eq name (e_name (es ! k)) else Some False) = Some (is_entry name (es ! k))"
      using assms(4,5) k name_eq_ok [of name "e_name (es ! k)"] by (auto simp: names_ok_def is_entry_def entry_string_def)
    have go: "lookup_loop h name (of_nat (20 * k)) s =
        (if is_entry name (es ! k) then Some (Some (es ! k, of_nat (20 * k)), s1)
         else lookup_loop h name (of_nat (20 * Suc k)) s1)"
      unfolding step using True by (simp add: e same entry_size_def add.commute)
    show ?thesis
    proof (cases "is_entry name (es ! k)")
      case True
      then show ?thesis using go r(2) k by (simp add: find_index_step)
    next
      case False
      have es1: "entries (content (fs_device s1) d) = es" using less.prems(2) by (simp add: content_def wrote_simps [OF r(2)])
      have m: "length es - Suc k < length es - k" "Suc k \<le> length es" using k by simp_all
      from less.hyps [OF m(1) dir_ok_wrote [OF less.prems(1) r(2)] es1 m(2)] obtain q s2 where
        q: "lookup_loop h name (of_nat (20 * Suc k)) s1 = Some (q, s2)" "calm s1 s2"
        "mem_fine s1 \<longrightarrow> q = map_option (\<lambda>j. (es ! j, of_nat (20 * j))) (find_index name (Suc k) es)" by blast
      then show ?thesis using go False k calm_trans [OF r(2) q(2)] wrote_fine [OF r(2)] by (auto simp: find_index_step)
    qed
  qed
qed

text \<open>The slot that \<^verbatim>\<open>dir_add\<close> finds: the first entry not in use, or the end of the entries.\<close>

definition free_index :: "nat \<Rightarrow> dir_entry list \<Rightarrow> nat" where
  "free_index k es = (case find (\<lambda>j. \<not> e_in_use (es ! j)) [k..<length es] of Some j \<Rightarrow> j | None \<Rightarrow> length es)"

lemma free_index_step: "k < length es \<Longrightarrow> free_index k es = (if e_in_use (es ! k) then free_index (Suc k) es else k)"
  by (simp add: free_index_def upt_conv_Cons)

lemma free_index_cases:
  "free_index 0 es < length es \<and> \<not> e_in_use (es ! free_index 0 es) \<or> free_index 0 es = length es \<and> (\<forall>e\<in>set es. e_in_use e)"
proof (cases "find (\<lambda>j. \<not> e_in_use (es ! j)) [0..<length es]")
  case None
  then have "free_index 0 es = length es" by (simp only: free_index_def option.case)
  then show ?thesis using None by (auto simp: find_None_iff in_set_conv_nth)
next
  case (Some j)
  then have "free_index 0 es = j" by (simp only: free_index_def option.case)
  then show ?thesis using Some by (auto simp: find_Some_iff)
qed

lemma slot_loop_ok:
  assumes "dir_ok s h d" "entries (content (fs_device s) d) = es" "k \<le> length es" "mem_fine s" "length e = 20"
  shows "\<exists>e' s'. slot_loop h e (int (20 * k)) s = Some (e', int (20 * free_index k es), s') \<and> calm s s' \<and> length e' = 20"
  using assms
proof (induction "length es - k" arbitrary: k s e rule: less_induct)
  case less
  let ?c = "content (fs_device s) d"
  have n: "length es = length ?c div 20" using less.prems(2) by auto
  have "k \<le> length ?c div 20" using less.prems(3) n by simp
  from read_entry [OF less.prems(1) this] obtain bs s1 where r:
    "inode_read_at h (int entry_size) (int (20 * k)) s = Some (bs, s1)" "calm s s1" "length bs \<le> 20"
    "length bs = 20 \<longrightarrow> k < length ?c div 20 \<and> bs = slice (20 * k) 20 ?c"
    "mem_fine s \<and> k < length ?c div 20 \<longrightarrow> length bs = 20" by blast
  note step = slot_loop.simps [of h e "int (20 * k)" s, unfolded r(1) bind.bind_lunit prod.case]
  have l: "length (overwrite 0 bs e) = 20" using r(3) less.prems(5) by simp
  show ?case
  proof (cases "k < length es")
    case False
    then have "length bs \<noteq> 20" using r(4) n by auto
    then have "slot_loop h e (int (20 * k)) s = Some (overwrite 0 bs e, int (20 * k), s1)"
      unfolding step by (simp add: entry_size_def)
    moreover have "free_index k es = k" using False less.prems(3) by (simp add: free_index_def)
    ultimately show ?thesis using r(2) l by auto
  next
    case True
    then have lb: "length bs = 20" using r(5) less.prems(4) n by simp
    then have "overwrite 0 bs e = bs" using less.prems(5) by (simp add: overwrite_def)
    moreover have "entry_of_bytes bs = es ! k" using r(4) lb True n less.prems(2) by auto
    ultimately have go: "slot_loop h e (int (20 * k)) s =
        (if e_in_use (es ! k) then s32 (int (20 * k) + 20) \<bind> (\<lambda>ofs. slot_loop h bs ofs s1) else Some (bs, int (20 * k), s1))"
      unfolding step using lb by (simp add: entry_size_def)
    show ?thesis
    proof (cases "e_in_use (es ! k)")
      case False
      then show ?thesis using go r(2) True lb by (simp add: free_index_step)
    next
      case u: True
      have ok: "block_ok (fs_device s)" "ext_ok (fs_device s) d" using less.prems(1) by (auto simp: dir_ok_def)
      have "20 * Suc k \<le> length ?c" using True n by simp
      from content_bound [OF ok this] have "s32_ok (int (20 * k) + 20)" by (simp add: s32_ok_def)
      note s32 = s32_in [OF this]
      have es1: "entries (content (fs_device s1) d) = es" using less.prems(2) by (simp add: content_def wrote_simps [OF r(2)])
      have m: "length es - Suc k < length es - k" "Suc k \<le> length es" using True by simp_all
      from less.hyps [OF m(1) dir_ok_wrote [OF less.prems(1) r(2)] es1 m(2) wrote_fine [OF r(2) less.prems(4)] lb]
      obtain e' s2 where q: "slot_loop h bs (int (20 * Suc k)) s1 = Some (e', int (20 * free_index (Suc k) es), s2)"
        "calm s1 s2" "length e' = 20" by blast
      have "int (20 * k) + 20 = int (20 * Suc k)" by simp
      then have "slot_loop h e (int (20 * k)) s = Some (e', int (20 * free_index k es), s2)"
        unfolding go using u True q(1) s32 by (simp only: if_True bind.bind_lunit free_index_step)
      then show ?thesis using q(3) calm_trans [OF r(2) q(2)] by blast
    qed
  qed
qed

text \<open>Replacing an entry, and the map before and after it.\<close>

lemma entries_overwrite:
  assumes "k < length c div 20" "length bs = 20"
  shows "entries (overwrite (20 * k) bs c) = (entries c)[k := entry_of_bytes bs]"
proof (rule nth_equalityI)
  have fit: "20 * k + length bs \<le> length c" using assms by simp
  then show l: "length (entries (overwrite (20 * k) bs c)) = length ((entries c)[k := entry_of_bytes bs])" by simp
  fix j assume "j < length (entries (overwrite (20 * k) bs c))"
  then have j: "j < length c div 20" using l by simp
  then have fj: "20 * j + 20 \<le> length c" by simp
  show "entries (overwrite (20 * k) bs c) ! j = (entries c)[k := entry_of_bytes bs] ! j"
  proof (cases "j = k")
    case True
    then show ?thesis using slice_overwrite_same [OF fit] assms fit by simp
  next
    case False
    then have "20 * j + 20 \<le> 20 * k \<or> 20 * k + length bs \<le> 20 * j" using assms(2) by auto
    from slice_overwrite_other [OF fit fj this] show ?thesis using False j fit by simp
  qed
qed

lemma entries_tail:
  assumes "length c div 20 * 20 \<le> p" "p + length bs \<le> length c"
  shows "entries (overwrite p bs c) = entries c"
proof (rule nth_equalityI)
  show l: "length (entries (overwrite p bs c)) = length (entries c)" using assms(2) by simp
  fix j assume "j < length (entries (overwrite p bs c))"
  then have j: "j < length c div 20" using l by simp
  then have "20 * j + 20 \<le> length c" "20 * j + 20 \<le> p" using assms(1) by auto
  then show "entries (overwrite p bs c) ! j = entries c ! j"
    using slice_overwrite_other [OF assms(2)] j assms(2) by simp
qed

lemma find_update:
  "k < length xs \<Longrightarrow> \<not> P (xs ! k) \<Longrightarrow>
   find P (xs[k := y]) = (if P y then find P (take k xs @ [y]) else find P xs)"
proof (induction xs arbitrary: k)
  case (Cons x xs) then show ?case by (cases k) auto
qed simp

lemma find_none: "(\<And>x. x \<in> set xs \<Longrightarrow> \<not> P x) \<Longrightarrow> find P (xs @ [y]) = (if P y then Some y else None)"
  by (induction xs) auto

lemma dir_map_add:
  assumes k: "k < length es" and free: "\<not> e_in_use (es ! k)" and new: "dir_map es (entry_string e) = None" and u: "e_in_use e"
  shows "dir_map (es[k := e]) = (dir_map es)(entry_string e \<mapsto> e_inode_sector e)"
proof
  fix name
  have np: "\<not> is_entry name (es ! k)" using free by (simp add: is_entry_def)
  have no: "\<not> is_entry (entry_string e) x" if "x \<in> set (take k es)" for x
    using new in_set_takeD [OF that] by (auto simp: dir_map_def find_None_iff)
  show "dir_map (es[k := e]) name = ((dir_map es)(entry_string e \<mapsto> e_inode_sector e)) name"
    using find_update [where P = "is_entry name", OF k np, of e] find_none [of "take k es" "is_entry (entry_string e)" e] no u
    by (auto simp: dir_map_def is_entry_def)
qed

lemma find_map: "find P (map f xs) = map_option f (find (\<lambda>x. P (f x)) xs)"
  by (induction xs) auto

lemma find_index_map: "find (is_entry name) es = map_option (\<lambda>j. es ! j) (find_index name 0 es)"
  unfolding find_index_def by (subst find_map [symmetric]) (simp only: map_nth)

lemma dir_search_ok:
  assumes "dirs s d = Some x" "dir_ok s (dir_inode x) dd" "names_ok (entries (content (fs_device s) dd))" "0 \<notin> set name"
  shows "\<exists>r s'. dir_search d name s = Some (r, s') \<and> calm s s' \<and>
    (mem_fine s \<longrightarrow> map_option fst r = find (is_entry name) (entries (content (fs_device s) dd)) \<and>
      (\<forall>e ofs. r = Some (e, ofs) \<longrightarrow> (\<exists>j < length (entries (content (fs_device s) dd)).
         ofs = of_nat (20 * j) \<and> entries (content (fs_device s) dd) ! j = e)))"
proof -
  let ?es = "entries (content (fs_device s) dd)"
  from lookup_loop_ok [OF assms(2) refl le0 assms(4,3)] obtain r s' where r:
    "lookup_loop (dir_inode x) name (of_nat (20 * 0)) s = Some (r, s')" "calm s s'"
    "mem_fine s \<longrightarrow> r = map_option (\<lambda>j. (?es ! j, of_nat (20 * j))) (find_index name 0 ?es)" by blast
  have "j < length ?es" if "find_index name 0 ?es = Some j" for j
    using that by (auto simp: find_index_def find_Some_iff)
  then show ?thesis using r assms(1)
    by (intro exI [of _ r] exI [of _ s']) (auto simp: dir_search_def find_index_map option.map_comp comp_def simp del: nth_entries)
qed

lemma add_length [simp]: "length name \<le> NAME_MAX \<Longrightarrow> length bs = 20 \<Longrightarrow>
    length (entry_bytes \<lparr>e_inode_sector = sec, e_name = overwrite 0 (name @ [0]) (e_name (entry_of_bytes bs)), e_in_use = True\<rparr>) = 20"
  by (simp add: entry_bytes_def entry_of_bytes_def NAME_MAX_def)

lemma entry_bytes_inverse: "length (e_name e) = 15 \<Longrightarrow> entry_of_bytes (entry_bytes e) = e"
  by (cases e) (simp add: entry_bytes_def entry_of_bytes_def slice_def le_bytes_def [symmetric] nth_append)

lemma dir_add_ok:
  assumes x: "dirs s d = Some x" and d: "dir_ok s (dir_inode x) dd" and names: "names_ok (entries (content (fs_device s) dd))"
    and mem: "mem_fine s" "length (uninit s) = 20" and deny: "map_option i_deny_write_cnt (inodes s (dir_inode x)) = Some 0"
    and name: "0 \<notin> set name" "name \<noteq> []" "length name \<le> NAME_MAX"
  defines "es \<equiv> entries (content (fs_device s) dd)"
  shows "\<exists>ok s'. dir_add d name sec s = Some (ok, s') \<and> dir_ok s' (dir_inode x) dd \<and> dirs s' d = Some x \<and> mem_fine s' \<and>
    ok = (dir_map es name = None \<and> (\<exists>e\<in>set es. \<not> e_in_use e)) \<and> names_ok (entries (content (fs_device s') dd)) \<and>
    dir_map (entries (content (fs_device s') dd)) = (if ok then (dir_map es)(name \<mapsto> sec) else dir_map es)"
proof -
  let ?c = "content (fs_device s) dd"
  obtain r s1 where r: "dir_search d name s = Some (r, s1)" "calm s s1" "map_option fst r = find (is_entry name) es"
    using dir_search_ok [OF x d names name(1)] mem unfolding es_def by blast
  note W1 = wrote_simps [OF r(2)]
  have d1: "dir_ok s1 (dir_inode x) dd" by (rule dir_ok_wrote [OF d r(2)])
  have c1: "content (fs_device s1) dd = ?c" by (simp add: content_def W1)
  have guard: "\<not> (name = [] \<or> length name > NAME_MAX)" using name by simp
  note def = dir_add_def [of d name sec s, unfolded if_not_P [OF guard] r(1) bind.bind_lunit prod.case]
  show ?thesis
  proof (cases "r = None")
    case False
    then have "find (is_entry name) es \<noteq> None" unfolding r(3) [symmetric] by simp
    then have "dir_map es name \<noteq> None" by (simp add: dir_map_def)
    moreover have "dir_add d name sec s = Some (False, s1)" using False by (simp add: def)
    ultimately show ?thesis using d1 x W1 names wrote_fine [OF r(2) mem(1)] by (auto simp: c1 es_def)
  next
    case True
    then have new: "dir_map es name = None" using r(3) by (simp add: dir_map_def)
    let ?k = "free_index 0 es"
    have u: "length (uninit s1) = 20" using r(2) mem(2) by (auto simp: wrote_def)
    from slot_loop_ok [OF d1 _ le0 wrote_fine [OF r(2) mem(1)] u, of es] obtain e s2 where e:
      "slot_loop (dir_inode x) (uninit s1) 0 s1 = Some (e, int (20 * ?k), s2)" "calm s1 s2" "length e = 20"
      using c1 by (auto simp: es_def)
    have w2: "calm s s2" by (rule calm_trans [OF r(2) e(2)])
    note W2 = wrote_simps [OF w2]
    have d2: "dir_ok s2 (dir_inode x) dd" by (rule dir_ok_wrote [OF d w2])
    have c2: "content (fs_device s2) dd = ?c" by (simp add: content_def W2)
    obtain i where i: "block_ok (fs_device s2)" "inodes s2 (dir_inode x) = Some i" "i_data i = dd" "ext_ok (fs_device s2) dd"
      "i_deny_write_cnt i = 0" using d2 deny W2 by (auto simp: dir_ok_def)
    define new_e where "new_e = \<lparr>e_inode_sector = sec, e_name = overwrite 0 (name @ [0]) (e_name (entry_of_bytes e)), e_in_use = True\<rparr>"
    have le: "length (entry_bytes new_e) = 20" unfolding new_e_def using name(3) e(3) by (rule add_length)
    have len: "length ?c = nat (d_length dd)" using d by (simp add: dir_ok_def)
    have k: "?k \<le> length ?c div 20"
      using free_index_cases [of es] by (auto simp: es_def)
    then have k20: "20 * ?k \<le> length ?c" by simp
    then have "20 * ?k \<le> length (content (fs_device s2) dd)" using c2 by simp
    from content_bound [OF i(1,4) this] have p: "int (20 * ?k) < 2 ^ 31" by simp
    from inode_write_at_ok [OF i(1,2) _ p, of 20 "entry_bytes new_e"] obtain m s3 where m:
      "inode_write_at (dir_inode x) (entry_bytes new_e) (int 20) (int (20 * ?k)) s2 = Some (int m, s3)"
      "wrote (512 * unat (d_start dd) + 20 * ?k) (take m (entry_bytes new_e)) s2 s3" "m \<le> 20"
      "m = min 20 (length ?c - 20 * ?k)"
      using i(3,4,5) le len wrote_fine [OF w2 mem(1)] by auto
    note W3 = wrote_simps [OF m(2)]
    have add: "dir_add d name sec s = Some (m = 20, s3)"
      using m(1) True x W1(6) e(1) by (simp add: def new_e_def [symmetric] entry_size_def del: of_nat_mult)
    have lm: "length (take m (entry_bytes new_e)) = m" using le m(3) by simp
    have "20 * ?k + m \<le> nat (d_length dd)" using m(4) k20 len by auto
    then have c3: "content (fs_device s3) dd = overwrite (20 * ?k) (take m (entry_bytes new_e)) ?c"
      using wrote_content [OF m(2) i(1,4)] lm c2 by simp
    have d3: "dir_ok s3 (dir_inode x) dd" by (rule dir_ok_wrote [OF d2 m(2)])
    have frame: "dirs s3 d = Some x" "mem_fine s3" using x W3(6) W2(6) wrote_fine [OF m(2) wrote_fine [OF w2 mem(1)]] by simp_all
    show ?thesis
    proof (cases "?k < length es")
      case True
      then have m20: "m = 20" using m(4) unfolding es_def by simp
      have n15: "length (e_name new_e) = 15" using name(3) e(3) by (simp add: new_e_def entry_of_bytes_def NAME_MAX_def)
      have es3: "entries (content (fs_device s3) dd) = es[?k := new_e]"
        using entries_overwrite [of ?k ?c "entry_bytes new_e"] True le m20
        by (simp add: c3 entry_bytes_inverse [OF n15] es_def)
      have free: "\<not> e_in_use (es ! ?k)" using True free_index_cases [of es] by simp
      have str: "entry_string new_e = name"
        using name(1) by (simp add: new_e_def entry_string_def overwrite_def) (subst takeWhile_append2; auto)
      have "dir_map (es[?k := new_e]) = (dir_map es)(name \<mapsto> sec)"
        using dir_map_add [OF True free, of new_e] new by (simp add: str) (simp add: new_e_def)
      moreover have "names_ok (es[?k := new_e])"
        using names set_update_subset_insert [of es ?k new_e] by (fastforce simp: names_ok_def es_def new_e_def overwrite_def)
      moreover have "\<exists>e\<in>set es. \<not> e_in_use e" using free True nth_mem by blast
      ultimately show ?thesis using add d3 frame m20 new by (auto simp: es3)
    next
      case False
      then have full: "\<not> (\<exists>e\<in>set es. \<not> e_in_use e)" using free_index_cases [of es] by simp
      have "length ?c - 20 * ?k < 20" using False unfolding es_def by simp
      then have m20: "m \<noteq> 20" using m(4) by simp
      have "length ?c div 20 * 20 \<le> 20 * ?k" using False by (simp add: es_def)
      from entries_tail [OF this, of "take m (entry_bytes new_e)"] have "entries (content (fs_device s3) dd) = es"
        using lm m(4) k20 unfolding c3 es_def by simp
      then show ?thesis using add d3 frame m20 full names by (auto simp: es_def)
    qed
  qed
qed

section \<open>Properties\<close>

text \<open>C31: Searching a directory always comes to an end, whichever allocations fail on the way, and leaves the
  disk as it was; when memory is not short it finds the sector that the directory maps the name to.\<close>

theorem dir_search_returns:
  assumes "dirs s d = Some x" and "dir_ok s (dir_inode x) dd"
    and "names_ok (entries (content (fs_device s) dd))" and "0 \<notin> set name"
  shows "\<exists>r s'. dir_search d name s = Some (r, s') \<and> disk_bytes (fs_device s') = disk_bytes (fs_device s) \<and>
    (mem_fine s \<longrightarrow>
       map_option (\<lambda>(e, _). e_inode_sector e) r = dir_map (entries (content (fs_device s) dd)) name)"
proof -
  obtain r s' where r: "dir_search d name s = Some (r, s')" "calm s s'"
    "mem_fine s \<longrightarrow> map_option fst r = find (is_entry name) (entries (content (fs_device s) dd))"
    using dir_search_ok [OF assms] by blast
  have "map_option (\<lambda>(e, _). e_inode_sector e) r = map_option e_inode_sector (map_option fst r)"
    by (cases r) auto
  then show ?thesis using r wrote_simps(3) [OF r(2)] by (auto simp: dir_map_def)
qed

text \<open>A device of four sectors full of zeros; a directory of 50 bytes in sector 2.\<close>

definition demo_device :: block where
  "demo_device = \<lparr>b_name = [], b_type = BLOCK_FILESYS, b_size = 4, medium = (\<lambda>_. replicate 512 0), read_cnt = 0, write_cnt = 0\<rparr>"

definition demo_dir_data :: inode_disk where
  "demo_dir_data = \<lparr>d_start = 2, d_length = 50, d_magic = INODE_MAGIC\<rparr>"

definition demo_fs :: fstate where
  "demo_fs = \<lparr>fs_device = demo_device, open_inodes = [7, 5],
     inodes = [7 \<mapsto> \<lparr>i_sector = 1, i_open_cnt = 1, i_removed = False, i_deny_write_cnt = 0, i_data = demo_dir_data\<rparr>,
       5 \<mapsto> \<lparr>i_sector = 0, i_open_cnt = 1, i_removed = False, i_deny_write_cnt = 0,
         i_data = \<lparr>d_start = 3, d_length = 4, d_magic = INODE_MAGIC\<rparr>\<rparr>],
     files = [6 \<mapsto> \<lparr>f_inode = 5, f_pos = 0, f_deny_write = False\<rparr>],
     dirs = [8 \<mapsto> \<lparr>dir_inode = 7, dir_pos = 0\<rparr>],
     free_map = \<lparr>bit_cnt = 4, bits = [0xF]\<rparr>, free_map_file = Some 6,
     mallocs = 9, mem_ok = (\<lambda>_. True), uninit = replicate 20 0\<rparr>"

lemma concat_replicate_map: "concat (map (\<lambda>_. replicate m x) xs) = replicate (m * length xs) x"
  by (induction xs) (simp_all add: replicate_add)

lemma demo_device_ok:
  "block_ok demo_device" "disk_bytes demo_device = replicate 2048 0"
  by (simp_all add: block_ok_def disk_bytes_def demo_device_def concat_replicate_map)

lemma slice_replicate: "k + n \<le> m \<Longrightarrow> slice k n (replicate m x) = replicate n x"
  by (simp add: slice_def)

lemma demo_dir_ok:
  "dirs demo_fs 8 = Some \<lparr>dir_inode = 7, dir_pos = 0\<rparr>" "dir_ok demo_fs 7 demo_dir_data" "mem_fine demo_fs"
  "content (fs_device demo_fs) demo_dir_data = replicate 50 0"
  "length (uninit demo_fs) = 20" "map_option i_deny_write_cnt (inodes demo_fs 7) = Some 0"
  using demo_device_ok
  by (simp_all add: dir_ok_def demo_fs_def ext_ok_def demo_dir_data_def mem_fine_def content_def slice_replicate)
    (simp_all add: demo_device_def)

lemma demo_entries: "names_ok (entries (replicate 50 0))"
  by (auto simp: names_ok_def entries_def entry_of_bytes_def slice_replicate)

theorem dir_search_returns_witness:
  "\<exists>r s'. dir_search 8 [102] demo_fs = Some (r, s') \<and> disk_bytes (fs_device s') = disk_bytes (fs_device demo_fs)"
  using dir_search_returns [OF demo_dir_ok(1), of demo_dir_data "[102]"] demo_dir_ok demo_entries by auto

text \<open>C10: Adding a name to a directory (memory not short, writes not denied) succeeds exactly when the name is new
  and some entry is free; then the directory's map gains that name and nothing else changes in it, and otherwise
  the map stays as it was.\<close>

theorem dir_add_map:
  assumes "dirs s d = Some x" and "dir_ok s (dir_inode x) dd" and "names_ok (entries (content (fs_device s) dd))"
    and "mem_fine s" and "length (uninit s) = entry_size" and "map_option i_deny_write_cnt (inodes s (dir_inode x)) = Some 0"
    and "0 \<notin> set name" and "name \<noteq> []" and "length name \<le> NAME_MAX"
  shows "\<exists>ok s'. dir_add d name sec s = Some (ok, s') \<and>
    ok = (dir_map (entries (content (fs_device s) dd)) name = None \<and>
          (\<exists>e\<in>set (entries (content (fs_device s) dd)). \<not> e_in_use e)) \<and>
    dir_map (entries (content (fs_device s') dd)) =
      (if ok then (dir_map (entries (content (fs_device s) dd)))(name \<mapsto> sec)
       else dir_map (entries (content (fs_device s) dd))) \<and>
    dir_ok s' (dir_inode x) dd \<and> names_ok (entries (content (fs_device s') dd))"
  using dir_add_ok [OF assms(1-4) _ assms(6-9), of sec] assms(5) by (auto simp: entry_size_def)

theorem dir_add_map_witness:
  "\<exists>ok s'. dir_add 8 [102, 111] 9 demo_fs = Some (ok, s') \<and> ok = (dir_map (entries (replicate 50 0)) [102, 111] = None \<and>
     (\<exists>e\<in>set (entries (replicate 50 0)). \<not> e_in_use e))"
proof -
  have "names_ok (entries (content (fs_device demo_fs) demo_dir_data))" unfolding demo_dir_ok(4) by (rule demo_entries)
  from dir_add_map [OF demo_dir_ok(1) _ this demo_dir_ok(3), of "[102, 111]" 9] show ?thesis
    using demo_dir_ok by (auto simp: entry_size_def NAME_MAX_def)
qed

end
