(* ===== verification/Filesys.thy ===== *)
theory Filesys
  imports Directory
begin

text \<open>
  The top level of the file system, \<^verbatim>\<open>filesys/filesys.c\<close>: formatting, and files by their name in the
  root directory.
\<close>

definition do_format :: "fstate \<Rightarrow> fstate option" where
  "do_format s = do {
     s \<leftarrow> free_map_create s;
     (ok, s) \<leftarrow> dir_create ROOT_DIR_SECTOR 16 s;
     chk ok;
     free_map_close s }"

text \<open>The device with the role of the file system; there must be one.\<close>

definition filesys_init :: "bool \<Rightarrow> block_table \<Rightarrow> fstate \<Rightarrow> fstate option" where
  "filesys_init format tab s = do {
     r \<leftarrow> block_get_role BLOCK_FILESYS tab;
     b \<leftarrow> r;
     let s = inode_init (s\<lparr>fs_device := block_at tab b\<rparr>);
     s \<leftarrow> free_map_init s;
     s \<leftarrow> (if format then do_format s else Some s);
     free_map_open s }"

definition filesys_done :: "fstate \<Rightarrow> fstate option" where
  "filesys_done s = free_map_close s"

definition filesys_create :: "u8 list \<Rightarrow> int \<Rightarrow> fstate \<Rightarrow> (bool \<times> fstate) option" where
  "filesys_create name initial_size s = do {
     (dir, s) \<leftarrow> dir_open_root s;
     (success, inode_sector, s) \<leftarrow>
       (case dir of
          None \<Rightarrow> Some (False, 0, s)
        | Some d \<Rightarrow> do {
            (r, s) \<leftarrow> free_map_allocate 1 s;
            case r of
              None \<Rightarrow> Some (False, 0, s)
            | Some inode_sector \<Rightarrow> do {
                (ok, s) \<leftarrow> inode_create inode_sector initial_size s;
                (ok, s) \<leftarrow> (if ok then dir_add d name inode_sector s else Some (False, s));
                Some (ok, inode_sector, s) } });
     s \<leftarrow> (if \<not> success \<and> inode_sector \<noteq> 0 then free_map_release inode_sector 1 s else Some s);
     s \<leftarrow> dir_close dir s;
     Some (success, s) }"

definition filesys_open :: "u8 list \<Rightarrow> fstate \<Rightarrow> (nat option \<times> fstate) option" where
  "filesys_open name s = do {
     (dir, s) \<leftarrow> dir_open_root s;
     (inode, s) \<leftarrow> (case dir of Some d \<Rightarrow> dir_lookup d name s | None \<Rightarrow> Some (None, s));
     s \<leftarrow> dir_close dir s;
     file_open inode s }"

definition filesys_remove :: "u8 list \<Rightarrow> fstate \<Rightarrow> (bool \<times> fstate) option" where
  "filesys_remove name s = do {
     (dir, s) \<leftarrow> dir_open_root s;
     (success, s) \<leftarrow> (case dir of Some d \<Rightarrow> dir_remove d name s | None \<Rightarrow> Some (False, s));
     s \<leftarrow> dir_close dir s;
     Some (success, s) }"

end
