(* ===== verification/Strings.thy ===== *)
theory Strings
  imports Stdlib
begin

text \<open>
  \<^verbatim>\<open>lib/string.c\<close> on the bytes of memory.  An address that is not mapped to a byte faults when
  it is read or written, and so does a loop that never ends (\<open>None\<close>).  Pointers wrap around.
\<close>

type_synonym mem = "ptr \<rightharpoonup> u8"

definition store :: "mem \<Rightarrow> ptr \<Rightarrow> u8 \<Rightarrow> mem option" where
  "store m p v = (if m p \<noteq> None then Some (m(p \<mapsto> v)) else None)"

section \<open>Blocks of memory\<close>

primrec copy_up :: "nat \<Rightarrow> ptr \<Rightarrow> ptr \<Rightarrow> mem \<Rightarrow> mem option" where
  "copy_up 0 dst src m = Some m" |
  "copy_up (Suc n) dst src m = do { v \<leftarrow> m src; m \<leftarrow> store m dst v; copy_up n (dst + 1) (src + 1) m }"

primrec copy_down :: "nat \<Rightarrow> ptr \<Rightarrow> ptr \<Rightarrow> mem \<Rightarrow> mem option" where
  "copy_down 0 dst src m = Some m" |
  "copy_down (Suc n) dst src m = do { v \<leftarrow> m (src - 1); m \<leftarrow> store m (dst - 1) v; copy_down n (dst - 1) (src - 1) m }"

definition memcpy :: "ptr \<Rightarrow> ptr \<Rightarrow> u32 \<Rightarrow> mem \<Rightarrow> (ptr \<times> mem) option" where
  "memcpy dst src sz m = do {
     chk (dst \<noteq> NULL \<or> sz = 0);
     chk (src \<noteq> NULL \<or> sz = 0);
     m \<leftarrow> copy_up (unat sz) dst src m;
     Some (dst, m) }"

text \<open>The value returned is \<^verbatim>\<open>dst\<close> as the loops leave it.\<close>

definition memmove :: "ptr \<Rightarrow> ptr \<Rightarrow> u32 \<Rightarrow> mem \<Rightarrow> (ptr \<times> mem) option" where
  "memmove dst src sz m = do {
     chk (dst \<noteq> NULL \<or> sz = 0);
     chk (src \<noteq> NULL \<or> sz = 0);
     if dst < src
     then do { m \<leftarrow> copy_up (unat sz) dst src m; Some (dst + sz, m) }
     else do { m \<leftarrow> copy_down (unat sz) (dst + sz) (src + sz) m; Some (dst + sz - sz, m) } }"

primrec memcmp_loop :: "nat \<Rightarrow> ptr \<Rightarrow> ptr \<Rightarrow> mem \<Rightarrow> int option" where
  "memcmp_loop 0 a b m = Some 0" |
  "memcmp_loop (Suc n) a b m = do {
     x \<leftarrow> m a;
     y \<leftarrow> m b;
     if x \<noteq> y then Some (if x > y then 1 else - 1) else memcmp_loop n (a + 1) (b + 1) m }"

definition memcmp :: "ptr \<Rightarrow> ptr \<Rightarrow> u32 \<Rightarrow> mem \<Rightarrow> int option" where
  "memcmp a b sz m = do {
     chk (a \<noteq> NULL \<or> sz = 0);
     chk (b \<noteq> NULL \<or> sz = 0);
     memcmp_loop (unat sz) a b m }"

primrec memchr_loop :: "nat \<Rightarrow> ptr \<Rightarrow> u8 \<Rightarrow> mem \<Rightarrow> ptr option" where
  "memchr_loop 0 p ch m = Some NULL" |
  "memchr_loop (Suc n) p ch m = do { x \<leftarrow> m p; if x = ch then Some p else memchr_loop n (p + 1) ch m }"

definition memchr :: "ptr \<Rightarrow> u32 \<Rightarrow> u32 \<Rightarrow> mem \<Rightarrow> ptr option" where
  "memchr p ch sz m = do { chk (p \<noteq> NULL \<or> sz = 0); memchr_loop (unat sz) p (ucast ch) m }"

primrec memset_loop :: "nat \<Rightarrow> ptr \<Rightarrow> u8 \<Rightarrow> mem \<Rightarrow> mem option" where
  "memset_loop 0 p v m = Some m" |
  "memset_loop (Suc n) p v m = do { m \<leftarrow> store m p v; memset_loop n (p + 1) v m }"

definition memset :: "ptr \<Rightarrow> u32 \<Rightarrow> u32 \<Rightarrow> mem \<Rightarrow> (ptr \<times> mem) option" where
  "memset p v sz m = do {
     chk (p \<noteq> NULL \<or> sz = 0);
     m \<leftarrow> memset_loop (unat sz) p (ucast v) m;
     Some (p, m) }"

section \<open>Strings\<close>

partial_function (option) strlen_loop :: "ptr \<Rightarrow> mem \<Rightarrow> ptr option" where
  [code]: "strlen_loop p m = do { c \<leftarrow> m p; if c \<noteq> 0 then strlen_loop (p + 1) m else Some p }"

definition strlen :: "ptr \<Rightarrow> mem \<Rightarrow> u32 option" where
  "strlen s m = do { chk (s \<noteq> NULL); p \<leftarrow> strlen_loop s m; Some (p - s) }"

partial_function (option) strnlen_loop :: "ptr \<Rightarrow> u32 \<Rightarrow> u32 \<Rightarrow> mem \<Rightarrow> u32 option" where
  [code]: "strnlen_loop s len maxlen m = do {
     c \<leftarrow> m (s + len);
     if c \<noteq> 0 \<and> len < maxlen then strnlen_loop s (len + 1) maxlen m else Some len }"

definition strnlen :: "ptr \<Rightarrow> u32 \<Rightarrow> mem \<Rightarrow> u32 option" where
  "strnlen s maxlen m = strnlen_loop s 0 maxlen m"

partial_function (option) strcmp_loop :: "ptr \<Rightarrow> ptr \<Rightarrow> mem \<Rightarrow> int option" where
  [code]: "strcmp_loop a b m = do {
     x \<leftarrow> m a;
     y \<leftarrow> m b;
     if x \<noteq> 0 \<and> x = y then strcmp_loop (a + 1) (b + 1) m
     else Some (if x < y then - 1 else if x > y then 1 else 0) }"

definition strcmp :: "ptr \<Rightarrow> ptr \<Rightarrow> mem \<Rightarrow> int option" where
  "strcmp a b m = do { chk (a \<noteq> NULL); chk (b \<noteq> NULL); strcmp_loop a b m }"

partial_function (option) strchr_loop :: "ptr \<Rightarrow> u8 \<Rightarrow> mem \<Rightarrow> ptr option" where
  [code]: "strchr_loop s c m = do {
     x \<leftarrow> m s;
     if x = c then Some s else if x = 0 then Some NULL else strchr_loop (s + 1) c m }"

definition strchr :: "ptr \<Rightarrow> u8 \<Rightarrow> mem \<Rightarrow> ptr option" where
  "strchr s c m = do { chk (s \<noteq> NULL); strchr_loop s c m }"

text \<open>The common loop of \<^verbatim>\<open>strcspn\<close> and \<^verbatim>\<open>strspn\<close>: up to a byte whose presence in
  \<open>set\<close> is \<open>stop\<close>.\<close>

partial_function (option) span_loop :: "bool \<Rightarrow> ptr \<Rightarrow> ptr \<Rightarrow> u32 \<Rightarrow> mem \<Rightarrow> u32 option" where
  [code]: "span_loop stop s chars len m = do {
     c \<leftarrow> m (s + len);
     if c = 0 then Some len
     else do { f \<leftarrow> strchr chars c m; if (f \<noteq> NULL) = stop then Some len else span_loop stop s chars (len + 1) m } }"

definition strcspn :: "ptr \<Rightarrow> ptr \<Rightarrow> mem \<Rightarrow> u32 option" where
  "strcspn s stop m = span_loop True s stop 0 m"

definition strspn :: "ptr \<Rightarrow> ptr \<Rightarrow> mem \<Rightarrow> u32 option" where
  "strspn s skip m = span_loop False s skip 0 m"

partial_function (option) strpbrk :: "ptr \<Rightarrow> ptr \<Rightarrow> mem \<Rightarrow> ptr option" where
  [code]: "strpbrk s stop m = do {
     c \<leftarrow> m s;
     if c = 0 then Some NULL
     else do { f \<leftarrow> strchr stop c m; if f \<noteq> NULL then Some s else strpbrk (s + 1) stop m } }"

partial_function (option) strrchr_loop :: "ptr \<Rightarrow> u8 \<Rightarrow> ptr \<Rightarrow> mem \<Rightarrow> ptr option" where
  [code]: "strrchr_loop s c p m = do {
     x \<leftarrow> m s;
     if x = 0 then Some p else strrchr_loop (s + 1) c (if x = c then s else p) m }"

definition strrchr :: "ptr \<Rightarrow> u8 \<Rightarrow> mem \<Rightarrow> ptr option" where
  "strrchr s c m = strrchr_loop s c NULL m"

text \<open>\<open>n\<close> start positions are left, the next one being \<open>i\<close>.\<close>

primrec strstr_loop :: "nat \<Rightarrow> ptr \<Rightarrow> ptr \<Rightarrow> u32 \<Rightarrow> u32 \<Rightarrow> mem \<Rightarrow> ptr option" where
  "strstr_loop 0 hay needle needle_len i m = Some NULL" |
  "strstr_loop (Suc n) hay needle needle_len i m = do {
     c \<leftarrow> memcmp (hay + i) needle needle_len m;
     if c = 0 then Some (hay + i) else strstr_loop n hay needle needle_len (i + 1) m }"

definition strstr :: "ptr \<Rightarrow> ptr \<Rightarrow> mem \<Rightarrow> ptr option" where
  "strstr hay needle m = do {
     haystack_len \<leftarrow> strlen hay m;
     needle_len \<leftarrow> strlen needle m;
     if haystack_len \<ge> needle_len
     then strstr_loop (Suc (unat (haystack_len - needle_len))) hay needle needle_len 0 m
     else Some NULL }"

text \<open>The two loops of \<^verbatim>\<open>strtok_r\<close>: over delimiters (null at the end), over other characters.\<close>

partial_function (option) skip_delimiters :: "ptr \<Rightarrow> ptr \<Rightarrow> mem \<Rightarrow> (bool \<times> ptr) option" where
  [code]: "skip_delimiters s delims m = do {
     c \<leftarrow> m s;
     f \<leftarrow> strchr delims c m;
     if f \<noteq> NULL then (if c = 0 then Some (False, s) else skip_delimiters (s + 1) delims m) else Some (True, s) }"

partial_function (option) skip_token :: "ptr \<Rightarrow> ptr \<Rightarrow> mem \<Rightarrow> ptr option" where
  [code]: "skip_token s delims m = do {
     c \<leftarrow> m s;
     f \<leftarrow> strchr delims c m;
     if f = NULL then skip_token (s + 1) delims m else Some s }"

text \<open>\<open>saved\<close> is \<^verbatim>\<open>*save_ptr\<close>; the result is the token, the new saved position and memory.\<close>

definition strtok_r :: "ptr \<Rightarrow> ptr \<Rightarrow> ptr \<Rightarrow> mem \<Rightarrow> (ptr \<times> ptr \<times> mem) option" where
  "strtok_r s delims saved m = do {
     chk (delims \<noteq> NULL);
     let s = (if s = NULL then saved else s);
     chk (s \<noteq> NULL);
     (more, s) \<leftarrow> skip_delimiters s delims m;
     if \<not> more then Some (NULL, s, m)
     else do {
       let token = s;
       s \<leftarrow> skip_token s delims m;
       c \<leftarrow> m s;
       if c \<noteq> 0 then do { m \<leftarrow> store m s 0; Some (token, s + 1, m) }
       else Some (token, s, m) } }"

definition strlcpy :: "ptr \<Rightarrow> ptr \<Rightarrow> u32 \<Rightarrow> mem \<Rightarrow> (u32 \<times> mem) option" where
  "strlcpy dst src sz m = do {
     chk (dst \<noteq> NULL);
     chk (src \<noteq> NULL);
     src_len \<leftarrow> strlen src m;
     if sz > 0
     then do {
       let dst_len = (if src_len < sz - 1 then src_len else sz - 1);
       (_, m) \<leftarrow> memcpy dst src dst_len m;
       m \<leftarrow> store m (dst + dst_len) 0;
       Some (src_len, m) }
     else Some (src_len, m) }"

definition strlcat :: "ptr \<Rightarrow> ptr \<Rightarrow> u32 \<Rightarrow> mem \<Rightarrow> (u32 \<times> mem) option" where
  "strlcat dst src sz m = do {
     chk (dst \<noteq> NULL);
     chk (src \<noteq> NULL);
     src_len \<leftarrow> strlen src m;
     dst_len \<leftarrow> strlen dst m;
     if sz > 0 \<and> dst_len < sz
     then do {
       let copy_cnt = sz - dst_len - 1;
       let copy_cnt = (if src_len < copy_cnt then src_len else copy_cnt);
       (_, m) \<leftarrow> memcpy (dst + dst_len) src copy_cnt m;
       m \<leftarrow> store m (dst + dst_len + copy_cnt) 0;
       Some (src_len + dst_len, m) }
     else Some (src_len + dst_len, m) }"

section \<open>Copying\<close>

lemma unat_ne: "a \<noteq> d \<Longrightarrow> unat (a - d) = Suc (unat (a - (d + 1)))" for a d :: u32
proof -
  assume "a \<noteq> d"
  then have "a - d \<noteq> 0" by simp
  then have "unat (a - d - 1) = unat (a - d) - 1" "unat (a - d) \<noteq> 0" by (simp_all add: unat_minus_one unat_eq_0)
  then show ?thesis by (simp add: diff_diff_eq)
qed

text \<open>Memory after the block at \<open>src\<close> has been copied to \<open>dst\<close>.\<close>

definition copied :: "nat \<Rightarrow> ptr \<Rightarrow> ptr \<Rightarrow> mem \<Rightarrow> mem" where
  "copied n dst src m = (\<lambda>a. if unat (a - dst) < n then m (src + (a - dst)) else m a)"

definition mapped :: "mem \<Rightarrow> ptr \<Rightarrow> nat \<Rightarrow> bool" where
  "mapped m p n \<longleftrightarrow> (\<forall>i<n. m (p + of_nat i) \<noteq> None)"

lemma mapped_Suc: "mapped m p (Suc n) \<longleftrightarrow> m p \<noteq> None \<and> mapped m (p + 1) n"
  by (simp add: mapped_def All_less_Suc2 add.assoc)

lemma mapped_upd: "mapped m p n \<Longrightarrow> mapped (m(q \<mapsto> v)) p n"
  by (simp add: mapped_def)

lemma copy_up_ok:
  "n < 2 ^ 32 \<Longrightarrow> mapped m dst n \<Longrightarrow> mapped m src n \<Longrightarrow>
   (\<And>i j. i < j \<Longrightarrow> j < n \<Longrightarrow> dst + of_nat i \<noteq> src + of_nat j) \<Longrightarrow>
   copy_up n dst src m = Some (copied n dst src m)"
proof (induction n arbitrary: dst src m)
  case 0 then show ?case by (simp add: copied_def)
next
  case (Suc n)
  obtain v where v: "m src = Some v" using Suc.prems(3) by (auto simp: mapped_Suc)
  let ?m = "m(dst \<mapsto> v)"
  have sep: "dst + 1 + of_nat i \<noteq> src + 1 + of_nat j" if "i < j" "j < n" for i j
    using Suc.prems(4) [of "Suc i" "Suc j"] that by (simp add: ac_simps)
  have "copied n (dst + 1) (src + 1) ?m = copied (Suc n) dst src m"
  proof
    fix a
    show "copied n (dst + 1) (src + 1) ?m a = copied (Suc n) dst src m a"
    proof (cases "a = dst")
      case True
      have "(- 1 :: u32) = 0xFFFFFFFF" by simp
      then have "unat (- 1 :: u32) = 2 ^ 32 - 1" by (simp only:) simp
      then show ?thesis using True v Suc.prems(1) by (simp add: copied_def)
    next
      case False
      note u = unat_ne [OF False]
      have e: "src + 1 + (a - (dst + 1)) = src + (a - dst)" by simp
      have "src + (a - dst) \<noteq> dst" if "unat (a - dst) < Suc n"
        using Suc.prems(4) [of 0 "unat (a - dst)"] that u by auto
      then show ?thesis using False u unfolding copied_def e by auto
    qed
  qed
  moreover have "copy_up (Suc n) dst src m = copy_up n (dst + 1) (src + 1) ?m"
    using v Suc.prems(2) by (simp add: store_def mapped_Suc)
  moreover have "mapped ?m (dst + 1) n" "mapped ?m (src + 1) n" using Suc.prems(2,3) by (auto simp: mapped_Suc intro!: mapped_upd)
  then have "copy_up n (dst + 1) (src + 1) ?m = Some (copied n (dst + 1) (src + 1) ?m)"
    by (rule Suc.IH [OF Suc_lessD [OF Suc.prems(1)] _ _ sep])
  ultimately show ?case by simp
qed

lemma copy_down_ok:
  "n < 2 ^ 32 \<Longrightarrow> mapped m dst n \<Longrightarrow> mapped m src n \<Longrightarrow>
   (\<And>i j. i < j \<Longrightarrow> j < n \<Longrightarrow> dst + of_nat j \<noteq> src + of_nat i) \<Longrightarrow>
   copy_down n (dst + of_nat n) (src + of_nat n) m = Some (copied n dst src m)"
proof (induction n arbitrary: m)
  case 0 then show ?case by (simp add: copied_def)
next
  case (Suc n)
  have mp: "m (dst + of_nat n) \<noteq> None" "m (src + of_nat n) \<noteq> None" "mapped m dst n" "mapped m src n"
    using Suc.prems(2,3) by (simp_all add: mapped_def)
  then obtain v where v: "m (src + of_nat n) = Some v" by blast
  let ?m = "m(dst + of_nat n \<mapsto> v)"
  have un: "unat (of_nat n :: u32) = n" using Suc.prems(1) by (simp add: unat_of_nat take_bit_nat_eq_self)
  have "copied n dst src ?m = copied (Suc n) dst src m"
  proof
    fix a
    consider "unat (a - dst) < n" | "unat (a - dst) = n" | "unat (a - dst) > n" by linarith
    then show "copied n dst src ?m a = copied (Suc n) dst src m a"
    proof cases
      case 1
      then have "src + (a - dst) \<noteq> dst + of_nat n" using Suc.prems(4) [of "unat (a - dst)" n] by auto
      then show ?thesis using 1 by (simp add: copied_def)
    next
      case 2
      then have "a - dst = of_nat n" using un by (simp add: word_unat_eq_iff)
      then have "a = dst + of_nat n" by (simp add: algebra_simps)
      then show ?thesis using v un by (simp add: copied_def)
    next
      case 3
      then have "a \<noteq> dst + of_nat n" using un by auto
      then show ?thesis using 3 by (simp add: copied_def)
    qed
  qed
  moreover have "copy_down (Suc n) (dst + of_nat (Suc n)) (src + of_nat (Suc n)) m = copy_down n (dst + of_nat n) (src + of_nat n) ?m"
    using v mp by (simp add: store_def)
  moreover have "copy_down n (dst + of_nat n) (src + of_nat n) ?m = Some (copied n dst src ?m)"
    by (rule Suc.IH [OF Suc_lessD [OF Suc.prems(1)] mapped_upd [OF mp(3)] mapped_upd [OF mp(4)]]) (use Suc.prems(4) in simp)
  ultimately show ?case by simp
qed

lemma unat_offset: "unat p + n \<le> 2 ^ 32 \<Longrightarrow> i < n \<Longrightarrow> unat (p + of_nat i :: u32) = unat p + i"
  by (simp add: unat_word_ariths unat_of_nat)

lemma memmove_ok:
  assumes n: "unat dst + unat sz \<le> 2 ^ 32" "unat src + unat sz \<le> 2 ^ 32"
    and m: "mapped m dst (unat sz)" "mapped m src (unat sz)" and p: "dst \<noteq> NULL" "src \<noteq> NULL"
  shows "memmove dst src sz m = Some (if dst < src then dst + sz else dst, copied (unat sz) dst src m)"
proof (cases "dst < src")
  case True
  have "dst + of_nat i \<noteq> src + of_nat j" if "i < j" "j < unat sz" for i j
    using unat_offset [OF n(1), of i] unat_offset [OF n(2), of j] that True by (auto simp: word_less_nat_alt)
  from copy_up_ok [OF _ m this] show ?thesis using True p unsigned_less [of sz, where 'a = nat] by (simp add: memmove_def)
next
  case False
  have "dst + of_nat j \<noteq> src + of_nat i" if "i < j" "j < unat sz" for i j
    using unat_offset [OF n(1), of j] unat_offset [OF n(2), of i] that False by (auto simp: word_less_nat_alt)
  from copy_down_ok [OF _ m this] show ?thesis using False p unsigned_less [of sz, where 'a = nat] by (simp add: memmove_def)
qed

lemma memcpy_ok:
  assumes n: "unat dst + unat sz \<le> 2 ^ 32" "unat src + unat sz \<le> 2 ^ 32"
    and m: "mapped m dst (unat sz)" "mapped m src (unat sz)" and p: "dst \<noteq> NULL" "src \<noteq> NULL"
    and o: "unat dst + unat sz \<le> unat src \<or> unat src + unat sz \<le> unat dst"
  shows "memcpy dst src sz m = Some (dst, copied (unat sz) dst src m)"
proof -
  have "dst + of_nat i \<noteq> src + of_nat j" if "i < j" "j < unat sz" for i j
    using unat_offset [OF n(1), of i] unat_offset [OF n(2), of j] that o by auto
  from copy_up_ok [OF _ m this] show ?thesis using p unsigned_less [of sz, where 'a = nat] by (simp add: memcpy_def)
qed

section \<open>Strings in memory\<close>

text \<open>The string \<open>s\<close>, without null bytes, is at \<open>p\<close>, null-terminated.\<close>

definition cstr :: "mem \<Rightarrow> ptr \<Rightarrow> u8 list \<Rightarrow> bool" where
  "cstr m p s \<longleftrightarrow> 0 \<notin> set s \<and> unat p + length s < 2 ^ 32 \<and>
     (\<forall>i < length s. m (p + of_nat i) = Some (s ! i)) \<and> m (p + of_nat (length s)) = Some 0"

lemma cstr_Nil: "cstr m p [] \<longleftrightarrow> m p = Some 0"
  using unsigned_less [of p, where 'a = nat] by (simp add: cstr_def)

lemma cstr_Cons: "cstr m p (c # s) \<Longrightarrow> c \<noteq> 0 \<and> m p = Some c \<and> cstr m (p + 1) s"
proof -
  assume *: "cstr m p (c # s)"
  then have "unat p + 1 < 2 ^ 32" by (simp add: cstr_def)
  then have "unat (p + 1) = unat p + 1" by (simp add: unat_word_ariths)
  then show ?thesis using * by (auto simp: cstr_def All_less_Suc2 add.assoc)
qed

lemma strlen_loop_ok: "cstr m p s \<Longrightarrow> strlen_loop p m = Some (p + of_nat (length s))"
proof (induction s arbitrary: p)
  case Nil then show ?case by (subst strlen_loop.simps) (simp add: cstr_Nil)
next
  case (Cons c s)
  then show ?case using cstr_Cons [OF Cons.prems] by (subst strlen_loop.simps) (simp add: add.assoc)
qed

lemma strlen_ok: "cstr m p s \<Longrightarrow> p \<noteq> NULL \<Longrightarrow> strlen p m = Some (of_nat (length s))"
  by (simp add: strlen_def strlen_loop_ok)

text \<open>The order of strings by their bytes, shorter first.\<close>

fun str_order :: "u8 list \<Rightarrow> u8 list \<Rightarrow> int" where
  "str_order [] [] = 0" |
  "str_order [] (y # t) = - 1" |
  "str_order (x # s) [] = 1" |
  "str_order (x # s) (y # t) = (if x < y then - 1 else if x > y then 1 else str_order s t)"

lemma strcmp_loop_ok: "cstr m a s \<Longrightarrow> cstr m b t \<Longrightarrow> strcmp_loop a b m = Some (str_order s t)"
proof (induction s t arbitrary: a b rule: str_order.induct)
  case 1 then show ?case by (subst strcmp_loop.simps) (simp add: cstr_Nil)
next
  case (2 y t)
  then show ?case using cstr_Cons [OF 2(2)] by (subst strcmp_loop.simps) (auto simp: cstr_Nil word_neq_0_conv)
next
  case (3 x s)
  then show ?case using cstr_Cons [OF 3(1)] by (subst strcmp_loop.simps) (auto simp: cstr_Nil word_neq_0_conv)
next
  case (4 x s y t)
  note A = cstr_Cons [OF 4(2)] cstr_Cons [OF 4(3)]
  show ?case
  proof (cases "x = y")
    case True then show ?thesis using A 4(1) by (subst strcmp_loop.simps) simp
  next
    case False then show ?thesis using A by (subst strcmp_loop.simps) auto
  qed
qed

lemma str_order_neg: "str_order t s = - str_order s t"
  by (induction s t rule: str_order.induct) auto

lemma str_order_lexordp: "str_order s t < 0 \<longleftrightarrow> ord_class.lexordp s t"
  by (induction s t rule: str_order.induct) auto

lemma str_order_0: "str_order s t = 0 \<longleftrightarrow> s = t"
  by (induction s t rule: str_order.induct) auto

lemma str_order_weak: "strict_weak (\<lambda>x y. str_order x y < 0)"
proof
  fix x y :: "u8 list" assume "str_order x y < 0"
  then show "\<not> str_order y x < 0" using str_order_neg [of x y] by simp
next
  fix x y z :: "u8 list" assume "str_order x z < 0"
  then show "str_order x y < 0 \<or> str_order y z < 0"
    unfolding str_order_lexordp using lexordp_linear [of x y] lexordp_trans [of y x z] by metis
qed

interpretation strings: comparison str_order
proof (rule comparison.intro [OF str_order_weak])
  show "0 < str_order x y \<longleftrightarrow> str_order y x < 0" for x y using str_order_neg [of x y] by simp
qed

lemma strlcpy_ok:
  assumes s: "cstr m src s" and sz: "0 < sz" "unat dst + unat sz \<le> 2 ^ 32" and p: "dst \<noteq> NULL" "src \<noteq> NULL"
    and m: "mapped m dst (unat sz)" and o: "unat dst + unat sz \<le> unat src \<or> unat src + length s < unat dst"
  shows "\<exists>m'. strlcpy dst src sz m = Some (of_nat (length s), m') \<and> cstr m' dst (take (unat sz - 1) s) \<and>
    (\<forall>a. unat sz \<le> unat (a - dst) \<longrightarrow> m' a = m a)"
proof -
  have ls: "unat src + length s < 2 ^ 32" using s by (simp add: cstr_def)
  have ul: "unat (of_nat (length s) :: u32) = length s" using ls by (simp add: unat_of_nat take_bit_nat_eq_self)
  have z1: "unat (sz - 1) = unat sz - 1" using sz(1) by (simp add: unat_minus_one word_neq_0_conv)
  have zp: "0 < unat sz" using sz(1) by (simp add: word_less_nat_alt)
  define k where "k = (if (of_nat (length s) :: u32) < sz - 1 then of_nat (length s) else sz - 1)"
  have k: "unat k = min (length s) (unat sz - 1)" using ul z1 by (auto simp: k_def word_less_nat_alt)
  have ml: "mapped m src (unat k)" "mapped m dst (unat k)" using s m k by (auto simp: cstr_def mapped_def)
  let ?m = "copied (unat k) dst src m"
  have c: "memcpy dst src k m = Some (dst, ?m)"
    by (rule memcpy_ok) (use sz(2) ls ml p o k zp in auto)
  have at: "unat (dst + of_nat i - dst) = i" if "i < 2 ^ 32" for i
    using that by (simp add: unat_of_nat take_bit_nat_eq_self)
  have kk: "unat k < unat sz" using k zp by simp
  have "?m (dst + k) = m (dst + k)" by (simp add: copied_def)
  moreover have "m (dst + k) \<noteq> None" using m [unfolded mapped_def, rule_format, OF kk] by simp
  ultimately have st: "store ?m (dst + k) 0 = Some (?m(dst + k \<mapsto> 0))" by (simp add: store_def)
  let ?m' = "?m(dst + k \<mapsto> 0)"
  have e: "strlcpy dst src sz m = Some (of_nat (length s), ?m')"
    using strlen_ok [OF s p(2)] p sz(1) c st by (simp add: strlcpy_def k_def [symmetric])
  have lt: "length (take (unat sz - 1) s) = unat k" by (simp add: k min.commute)
  have "cstr ?m' dst (take (unat sz - 1) s)"
    unfolding cstr_def lt
  proof (intro conjI allI impI)
    show "0 \<notin> set (take (unat sz - 1) s)" using s by (auto simp: cstr_def dest: in_set_takeD)
    show "unat dst + unat k < 2 ^ 32" using kk sz(2) by simp
    show "?m' (dst + of_nat (unat k)) = Some 0" by simp
    fix i assume i: "i < unat k"
    have ii: "i < 2 ^ 32" "i < length s" using i k ls by auto
    have "dst + of_nat i \<noteq> dst + k" using at [OF ii(1)] i by auto
    moreover have "?m (dst + of_nat i) = m (src + of_nat i)" using at [OF ii(1)] i by (simp add: copied_def)
    ultimately show "?m' (dst + of_nat i) = Some (take (unat sz - 1) s ! i)"
      using s ii(2) i k by (simp add: cstr_def)
  qed
  moreover have "?m' a = m a" if "unat sz \<le> unat (a - dst)" for a
    using that kk by (auto simp: copied_def)
  ultimately show ?thesis using e by blast
qed

section \<open>Properties\<close>

text \<open>\<^verbatim>\<open>memmove\<close> copies a block correctly whether or not source and destination overlap, and
  in either direction; nothing else changes.  It returns the destination only when it copies
  downwards: the pointer returned after an upward copy is past the block.\<close>

theorem memmove_overlap:
  assumes "unat dst + unat sz \<le> 2 ^ 32" and "unat src + unat sz \<le> 2 ^ 32"
    and "mapped m dst (unat sz)" and "mapped m src (unat sz)" and "dst \<noteq> NULL" and "src \<noteq> NULL"
  shows "memmove dst src sz m = Some (if dst < src then dst + sz else dst,
    \<lambda>a. if unat (a - dst) < unat sz then m (src + (a - dst)) else m a)"
  using memmove_ok [OF assms] by (simp add: copied_def)

definition demo_mem :: mem where
  "demo_mem = (\<lambda>a. if a < 0x2000 then Some (ucast a) else None)"

theorem memmove_overlap_witness:
  "memmove 0x1000 0x1002 8 demo_mem = Some (0x1008,
    \<lambda>a. if unat (a - 0x1000) < 8 then demo_mem (0x1002 + (a - 0x1000)) else demo_mem a)"
proof -
  have "mapped demo_mem p 8" if "p < 0x1FF0" for p
    using that unat_offset [of p 8] by (auto simp: mapped_def demo_mem_def word_less_nat_alt)
  then have "mapped demo_mem 0x1000 8" "mapped demo_mem 0x1002 8" by simp_all
  then show ?thesis using memmove_overlap [of "0x1000" 8 "0x1002" demo_mem] by simp
qed

text \<open>\<^verbatim>\<open>strcmp\<close> on two strings in memory returns a negative, zero or positive value
  according to their lexicographic order by unsigned bytes: it is a comparison that \<^verbatim>\<open>qsort\<close>
  may use.\<close>

theorem strcmp_lexicographic:
  assumes "cstr m a s" and "cstr m b t" and "a \<noteq> NULL" and "b \<noteq> NULL"
  shows "\<exists>c. strcmp a b m = Some c \<and> (c < 0 \<longleftrightarrow> ord_class.lexordp s t) \<and> (c = 0 \<longleftrightarrow> s = t) \<and>
    strcmp b a m = Some (- c)"
  using strcmp_loop_ok [OF assms(1,2)] strcmp_loop_ok [OF assms(2,1)] assms(3,4)
    str_order_lexordp [of s t] str_order_0 [of s t] str_order_neg [of t s]
  by (simp add: strcmp_def)

theorem strcmp_lexicographic_witness:
  "\<exists>c. strcmp 1 4 [1 \<mapsto> 0x61, 2 \<mapsto> 0, 4 \<mapsto> 0x61, 5 \<mapsto> 0x62, 6 \<mapsto> 0] = Some c \<and> c < 0"
proof -
  let ?m = "[1 \<mapsto> 0x61, 2 \<mapsto> 0, 4 \<mapsto> 0x61, 5 \<mapsto> 0x62, 6 \<mapsto> 0] :: mem"
  have "cstr ?m 1 [0x61]" "cstr ?m 4 [0x61, 0x62]"
    by (simp_all add: cstr_def All_less_Suc2)
  from strcmp_lexicographic [OF this] show ?thesis by auto
qed

text \<open>\<^verbatim>\<open>strlcpy\<close> writes only within the \<open>sz\<close> bytes at the destination, leaves there the
  source cut to \<open>sz - 1\<close> characters and null-terminated, and returns the length of the source.\<close>

theorem strlcpy_bounded:
  assumes "cstr m src s" and "0 < sz" and "unat dst + unat sz \<le> 2 ^ 32" and "dst \<noteq> NULL" and "src \<noteq> NULL"
    and "mapped m dst (unat sz)" and "unat dst + unat sz \<le> unat src \<or> unat src + length s < unat dst"
  shows "\<exists>m'. strlcpy dst src sz m = Some (of_nat (length s), m') \<and> cstr m' dst (take (unat sz - 1) s) \<and>
    (\<forall>a. unat sz \<le> unat (a - dst) \<longrightarrow> m' a = m a)"
  by (rule strlcpy_ok [OF assms])

theorem strlcpy_bounded_witness:
  "\<exists>m'. strlcpy 0x10 1 3 (\<lambda>a. if a = 5 then Some 0 else if a < 0x20 then Some 0x61 else None) = Some (4, m') \<and>
    cstr m' 0x10 [0x61, 0x61]"
proof -
  let ?m = "(\<lambda>a. if a = 5 then Some 0 else if a < 0x20 then Some 0x61 else None) :: mem"
  have "cstr ?m 1 [0x61, 0x61, 0x61, 0x61]" by (simp add: cstr_def All_less_Suc2)
  moreover have "mapped ?m 0x10 3" by (simp add: mapped_def numeral_3_eq_3 All_less_Suc2)
  ultimately show ?thesis using strlcpy_bounded [of ?m 1 "[0x61, 0x61, 0x61, 0x61]" 3 "0x10"] by auto
qed

end
