(* ===== verification/Process_Wait.thy ===== *)
theory Process_Wait
  imports Prelude
begin

text \<open>
  How a process and its children meet: \<^verbatim>\<open>process_execute\<close>, \<^verbatim>\<open>start_process\<close>, \<^verbatim>\<open>process_wait\<close>
  and \<^verbatim>\<open>process_exit\<close> of \<^verbatim>\<open>userprog/process.c\<close>, cut into the steps between which the scheduler
  can switch.  A semaphore is its value; a step that would block is not enabled (\<open>None\<close>), which is what
  the semaphores of \<open>Synch\<close> provide.  A thread is known by its \<^verbatim>\<open>tid\<close>.
\<close>

section \<open>State\<close>

text \<open>Where a child is: loading its program, running, in \<^verbatim>\<open>process_exit\<close> before its \<^verbatim>\<open>sema_up\<close>
  or its \<^verbatim>\<open>sema_down\<close>, past them, or gone with its page freed.\<close>

datatype kid_pc = Loading | Running | Ending | Stopped | Dying | Freed

record kid =
  c_sema :: nat
  mem_sema :: nat
  load_sema :: nat
  load_success :: bool
  exit_status :: int
  kid_pc :: kid_pc

text \<open>Where the parent is: in its own code; in \<^verbatim>\<open>process_execute\<close> before \<^verbatim>\<open>sema_down\<close>; in
  \<^verbatim>\<open>process_wait\<close> before \<^verbatim>\<open>sema_down\<close>, \<^verbatim>\<open>list_remove\<close>, \<^verbatim>\<open>sema_up\<close> and the final \<^verbatim>\<open>return\<close>.\<close>

datatype parent_pc = User | Exec_Down nat | Wait_Down nat | Wait_Remove nat | Wait_Up nat | Wait_Return nat

record family =
  children :: "nat list"
  kid :: "nat \<rightharpoonup> kid"
  parent_pc :: parent_pc
  result :: int

definition upd_kid :: "nat \<Rightarrow> (kid \<Rightarrow> kid) \<Rightarrow> family \<Rightarrow> family option" where
  "upd_kid t f st = do { k \<leftarrow> kid st t; Some (st\<lparr>kid := (kid st)(t \<mapsto> f k)\<rparr>) }"

text \<open>The page of a thread that has been freed is filled with the byte \<^verbatim>\<open>0xcc\<close>.\<close>

definition freed_word :: int where
  "freed_word = - 0x33333334"

section \<open>The parent\<close>

text \<open>\<^verbatim>\<open>init_thread\<close> and \<^verbatim>\<open>thread_create\<close> for a new child, or their failure (\<open>None\<close>); then the
  search of \<^verbatim>\<open>process_execute\<close> finds the new child in the list.\<close>

definition process_execute :: "nat option \<Rightarrow> family \<Rightarrow> family option" where
  "process_execute tid st = do {
     chk (parent_pc st = User);
     case tid of
       None \<Rightarrow> Some (st\<lparr>result := - 1\<rparr>)
     | Some t \<Rightarrow> do {
         chk (kid st t = None);
         Some (st\<lparr>children := children st @ [t],
           kid := (kid st)(t \<mapsto> \<lparr>c_sema = 0, mem_sema = 0, load_sema = 0, load_success = False, exit_status = 0,
             kid_pc = Loading\<rparr>),
           parent_pc := Exec_Down t\<rparr>) } }"

definition execute_down :: "nat \<Rightarrow> family \<Rightarrow> family option" where
  "execute_down t st = do {
     k \<leftarrow> kid st t;
     chk (load_sema k > 0);
     st \<leftarrow> upd_kid t (\<lambda>k. k\<lparr>load_sema := load_sema k - 1\<rparr>) st;
     Some (st\<lparr>parent_pc := User, result := (if \<not> load_success k then - 1 else int t)\<rparr>) }"

definition process_wait :: "nat \<Rightarrow> family \<Rightarrow> family option" where
  "process_wait t st = do {
     chk (parent_pc st = User);
     if t \<in> set (children st) then Some (st\<lparr>parent_pc := Wait_Down t\<rparr>)
     else Some (st\<lparr>result := - 1\<rparr>) }"

definition wait_down :: "nat \<Rightarrow> family \<Rightarrow> family option" where
  "wait_down t st = do {
     k \<leftarrow> kid st t;
     chk (c_sema k > 0);
     st \<leftarrow> upd_kid t (\<lambda>k. k\<lparr>c_sema := c_sema k - 1\<rparr>) st;
     Some (st\<lparr>parent_pc := Wait_Remove t\<rparr>) }"

definition wait_remove :: "nat \<Rightarrow> family \<Rightarrow> family option" where
  "wait_remove t st = Some (st\<lparr>children := remove1 t (children st), parent_pc := Wait_Up t\<rparr>)"

definition wait_up :: "nat \<Rightarrow> family \<Rightarrow> family option" where
  "wait_up t st = do {
     st \<leftarrow> upd_kid t (\<lambda>k. k\<lparr>mem_sema := mem_sema k + 1\<rparr>) st;
     Some (st\<lparr>parent_pc := Wait_Return t\<rparr>) }"

definition wait_return :: "nat \<Rightarrow> family \<Rightarrow> family option" where
  "wait_return t st = do { k \<leftarrow> kid st t; Some (st\<lparr>parent_pc := User, result := exit_status k\<rparr>) }"

definition parent_step :: "family \<Rightarrow> family option" where
  "parent_step st =
     (case parent_pc st of
        User \<Rightarrow> None
      | Exec_Down t \<Rightarrow> execute_down t st
      | Wait_Down t \<Rightarrow> wait_down t st
      | Wait_Remove t \<Rightarrow> wait_remove t st
      | Wait_Up t \<Rightarrow> wait_up t st
      | Wait_Return t \<Rightarrow> wait_return t st)"

section \<open>A child\<close>

text \<open>\<^verbatim>\<open>start_process\<close>, once \<^verbatim>\<open>load\<close> has returned \<open>success\<close>; a failure ends the thread.\<close>

definition start_process :: "nat \<Rightarrow> bool \<Rightarrow> family \<Rightarrow> family option" where
  "start_process t success st = do {
     k \<leftarrow> kid st t;
     chk (kid_pc k = Loading);
     upd_kid t (\<lambda>k. k\<lparr>load_success := success, load_sema := load_sema k + 1,
       kid_pc := (if \<not> success then Ending else Running)\<rparr>) st }"

text \<open>\<^verbatim>\<open>exit (status)\<close>; a process killed by an exception ends without setting a status.\<close>

definition exit_process :: "nat \<Rightarrow> int option \<Rightarrow> family \<Rightarrow> family option" where
  "exit_process t status st = do {
     k \<leftarrow> kid st t;
     chk (kid_pc k = Running);
     upd_kid t (\<lambda>k. k\<lparr>exit_status := (case status of Some x \<Rightarrow> x | None \<Rightarrow> exit_status k), kid_pc := Ending\<rparr>) st }"

text \<open>The semaphore operations of \<^verbatim>\<open>process_exit\<close>, and the release of the page of the thread after the
  last switch.\<close>

definition process_exit :: "nat \<Rightarrow> family \<Rightarrow> family option" where
  "process_exit t st = do {
     k \<leftarrow> kid st t;
     case kid_pc k of
       Ending \<Rightarrow> upd_kid t (\<lambda>k. k\<lparr>c_sema := c_sema k + 1, kid_pc := Stopped\<rparr>) st
     | Stopped \<Rightarrow>
         if mem_sema k > 0 then upd_kid t (\<lambda>k. k\<lparr>mem_sema := mem_sema k - 1, kid_pc := Dying\<rparr>) st else None
     | Dying \<Rightarrow> upd_kid t (\<lambda>k. k\<lparr>exit_status := freed_word, kid_pc := Freed\<rparr>) st
     | _ \<Rightarrow> None }"

section \<open>Runs\<close>

datatype action = Execute "nat option" | Wait nat | Parent | Start nat bool | Exit nat "int option" | Kid nat

fun step :: "action \<Rightarrow> family \<Rightarrow> family option" where
  "step (Execute tid) st = process_execute tid st"
| "step (Wait t) st = process_wait t st"
| "step Parent st = parent_step st"
| "step (Start t success) st = start_process t success st"
| "step (Exit t status) st = exit_process t status st"
| "step (Kid t) st = process_exit t st"

definition alone :: family where
  "alone = \<lparr>children = [], kid = Map.empty, parent_pc = User, result = 0\<rparr>"

text \<open>Reachable with the statuses that the children passed to \<^verbatim>\<open>exit\<close>.\<close>

inductive runs :: "action list \<Rightarrow> family \<Rightarrow> bool" where
  start: "runs [] alone"
| step: "runs as st \<Longrightarrow> step a st = Some st' \<Longrightarrow> runs (as @ [a]) st'"


section \<open>Invariant\<close>

text \<open>The child left the status \<open>v\<close>: it passed it to \<^verbatim>\<open>exit\<close>, or it was killed or failed to load.\<close>

definition ended :: "action list \<Rightarrow> nat \<Rightarrow> int \<Rightarrow> bool" where
  "ended as t v \<longleftrightarrow> Exit t (Some v) \<in> set as \<or> v = 0 \<and> (Exit t None \<in> set as \<or> Start t False \<in> set as)"

definition kid_inv :: "action list \<Rightarrow> family \<Rightarrow> nat \<Rightarrow> kid \<Rightarrow> bool" where
  "kid_inv as st t k \<longleftrightarrow>
     c_sema k = (if kid_pc k = Stopped \<and> t \<in> set (children st) \<and> parent_pc st \<noteq> Wait_Remove t then 1 else 0) \<and>
     mem_sema k = (if kid_pc k = Stopped \<and> t \<notin> set (children st) \<and> parent_pc st \<noteq> Wait_Up t then 1 else 0) \<and>
     (t \<in> set (children st) \<or> parent_pc st = Wait_Up t \<longrightarrow> kid_pc k \<noteq> Dying \<and> kid_pc k \<noteq> Freed) \<and>
     (parent_pc st = Wait_Remove t \<or> parent_pc st = Wait_Up t \<longrightarrow> kid_pc k = Stopped) \<and>
     (parent_pc st = Wait_Return t \<longrightarrow> kid_pc k = Stopped \<or> kid_pc k = Dying \<or> kid_pc k = Freed) \<and>
     (kid_pc k = Ending \<or> kid_pc k = Stopped \<or> kid_pc k = Dying \<longrightarrow> ended as t (exit_status k)) \<and>
     (kid_pc k = Loading \<or> kid_pc k = Running \<longrightarrow> exit_status k = 0 \<and> t \<in> set (children st)) \<and>
     (kid_pc k = Ending \<longrightarrow> t \<in> set (children st)) \<and>
     (kid_pc k = Freed \<longrightarrow> exit_status k = freed_word)"

definition pc_inv :: "family \<Rightarrow> bool" where
  "pc_inv st \<longleftrightarrow>
     (case parent_pc st of
        User \<Rightarrow> True
      | Exec_Down t \<Rightarrow> t \<in> set (children st)
      | Wait_Down t \<Rightarrow> t \<in> set (children st)
      | Wait_Remove t \<Rightarrow> t \<in> set (children st)
      | Wait_Up t \<Rightarrow> t \<notin> set (children st) \<and> kid st t \<noteq> None
      | Wait_Return t \<Rightarrow> t \<notin> set (children st) \<and> kid st t \<noteq> None)"

definition family_inv :: "action list \<Rightarrow> family \<Rightarrow> bool" where
  "family_inv as st \<longleftrightarrow> distinct (children st) \<and> (\<forall>t \<in> set (children st). kid st t \<noteq> None) \<and>
     (\<forall>t k. kid st t = Some k \<longrightarrow> kid_inv as st t k) \<and> pc_inv st"

lemma family_invD:
  assumes "family_inv as st"
  shows "distinct (children st)" "t \<in> set (children st) \<Longrightarrow> kid st t \<noteq> None" "kid st t = Some k \<Longrightarrow> kid_inv as st t k" "pc_inv st"
  using assms by (auto simp: family_inv_def)

lemmas step_defs = process_execute_def execute_down_def process_wait_def wait_down_def wait_remove_def wait_up_def
  wait_return_def parent_step_def start_process_def exit_process_def process_exit_def upd_kid_def

lemma ended_mono: "ended as t v \<Longrightarrow> ended (as @ [a]) t v"
  by (auto simp: ended_def)

text \<open>A step that does not concern a child keeps its part of the invariant.\<close>

definition about :: "nat \<Rightarrow> parent_pc \<Rightarrow> bool" where
  "about t pc \<longleftrightarrow> pc = Wait_Remove t \<or> pc = Wait_Up t \<or> pc = Wait_Return t"

lemma kid_inv_frame:
  assumes "kid_inv as st t k" "t \<in> set (children st') \<longleftrightarrow> t \<in> set (children st)"
    "parent_pc st' = parent_pc st \<or> \<not> about t (parent_pc st) \<and> \<not> about t (parent_pc st')"
  shows "kid_inv (as @ [a]) st' t k"
proof -
  have e: "parent_pc st' = Wait_Remove t \<longleftrightarrow> parent_pc st = Wait_Remove t" "parent_pc st' = Wait_Up t \<longleftrightarrow> parent_pc st = Wait_Up t"
    "parent_pc st' = Wait_Return t \<longleftrightarrow> parent_pc st = Wait_Return t" using assms(3) by (auto simp: about_def)
  show ?thesis using assms(1) ended_mono [of as t "exit_status k" a] unfolding kid_inv_def assms(2) e by blast
qed

text \<open>A step of the parent or of the child \<open>t\<close>.\<close>

lemma family_inv_kid:
  assumes inv: "family_inv as st" and k: "kid st t = Some k" and st': "st' = st\<lparr>kid := (kid st)(t \<mapsto> k')\<rparr>"
    and t: "kid_inv (as @ [a]) st' t k'"
  shows "family_inv (as @ [a]) st'"
proof -
  have "kid_inv (as @ [a]) st' u x" if "kid st' u = Some x" "u \<noteq> t" for u x
    by (rule kid_inv_frame [of as st]) (use that inv in \<open>auto simp: st' dest: family_invD(3)\<close>)
  moreover have "pc_inv st'" using family_invD(4) [OF inv] k by (auto simp: pc_inv_def st' split: parent_pc.splits)
  ultimately show ?thesis using inv t k by (auto simp: family_inv_def st')
qed

lemma family_inv_parent:
  assumes inv: "family_inv as st"
    and st': "st' = st\<lparr>children := cs, kid := ks, parent_pc := pc, result := r\<rparr>"
    and cs: "distinct cs" "\<And>u. u \<noteq> t \<Longrightarrow> u \<in> set cs \<longleftrightarrow> u \<in> set (children st)" "t \<in> set cs \<Longrightarrow> ks t \<noteq> None"
    and ks: "\<And>u. u \<noteq> t \<Longrightarrow> ks u = kid st u"
    and pc: "\<And>u. u \<noteq> t \<Longrightarrow> \<not> about u (parent_pc st) \<and> \<not> about u pc" "pc_inv st'"
    and t: "\<And>k. ks t = Some k \<Longrightarrow> kid_inv (as @ [a]) st' t k"
  shows "family_inv (as @ [a]) st'"
proof -
  have "kid_inv (as @ [a]) st' u x" if "kid st' u = Some x" for u x
  proof (cases "u = t")
    case True
    then show ?thesis using t that by (simp add: st')
  next
    case False
    have "kid st u = Some x" using that ks [OF False] by (simp add: st')
    from kid_inv_frame [OF family_invD(3) [OF inv this], of st' a] show ?thesis
      using cs(2) [OF False] pc(1) [OF False] by (simp add: st')
  qed
  moreover have "ks u \<noteq> None" if "u \<in> set cs" for u
    using that cs(2,3) ks family_invD(2) [OF inv] by (cases "u = t") auto
  ultimately show ?thesis using cs(1) pc(2) by (auto simp: family_inv_def st')
qed

lemma start_inv:
  assumes inv: "family_inv as st" and s: "start_process t success st = Some st'"
  shows "family_inv (as @ [Start t success]) st'"
proof -
  obtain k where k: "kid st t = Some k" "kid_pc k = Loading" "st' = st\<lparr>kid := (kid st)(t \<mapsto>
      k\<lparr>load_success := success, load_sema := load_sema k + 1, kid_pc := (if \<not> success then Ending else Running)\<rparr>)\<rparr>"
    using s by (auto simp: start_process_def upd_kid_def bind_eq_Some_conv split: if_splits)
  show ?thesis by (rule family_inv_kid [OF inv k(1,3)])
    (use family_invD(3) [OF inv k(1)] k(2) in \<open>auto simp: k(3) kid_inv_def ended_def split: if_splits\<close>)
qed

lemma exit_inv:
  assumes inv: "family_inv as st" and s: "exit_process t status st = Some st'"
  shows "family_inv (as @ [Exit t status]) st'"
proof -
  obtain k where k: "kid st t = Some k" "kid_pc k = Running" "st' = st\<lparr>kid := (kid st)(t \<mapsto>
      k\<lparr>exit_status := (case status of Some x \<Rightarrow> x | None \<Rightarrow> exit_status k), kid_pc := Ending\<rparr>)\<rparr>"
    using s by (auto simp: exit_process_def upd_kid_def bind_eq_Some_conv split: if_splits)
  show ?thesis by (rule family_inv_kid [OF inv k(1,3)])
    (use family_invD(3) [OF inv k(1)] k(2) in \<open>auto simp: k(3) kid_inv_def ended_def split: if_splits option.splits\<close>)
qed

lemma process_exit_inv:
  assumes inv: "family_inv as st" and s: "process_exit t st = Some st'"
  shows "family_inv (as @ [Kid t]) st'"
proof -
  obtain k where k: "kid st t = Some k" using s by (auto simp: process_exit_def bind_eq_Some_conv)
  note K = family_invD(3) [OF inv k]
  consider "kid_pc k = Ending" "st' = st\<lparr>kid := (kid st)(t \<mapsto> k\<lparr>c_sema := c_sema k + 1, kid_pc := Stopped\<rparr>)\<rparr>"
    | "kid_pc k = Stopped" "mem_sema k > 0" "st' = st\<lparr>kid := (kid st)(t \<mapsto> k\<lparr>mem_sema := mem_sema k - 1, kid_pc := Dying\<rparr>)\<rparr>"
    | "kid_pc k = Dying" "st' = st\<lparr>kid := (kid st)(t \<mapsto> k\<lparr>exit_status := freed_word, kid_pc := Freed\<rparr>)\<rparr>"
    using s k by (auto simp: process_exit_def upd_kid_def split: kid_pc.splits if_splits)
  then show ?thesis
  proof cases
    case 1
    show ?thesis by (rule family_inv_kid [OF inv k 1(2)]) (use K 1 family_invD(4) [OF inv] in \<open>auto simp: kid_inv_def pc_inv_def ended_mono split: if_splits\<close>)
  next
    case 2
    show ?thesis by (rule family_inv_kid [OF inv k 2(3)]) (use K 2 family_invD(4) [OF inv] in \<open>auto simp: kid_inv_def pc_inv_def ended_mono split: if_splits\<close>)
  next
    case 3
    show ?thesis by (rule family_inv_kid [OF inv k 3(2)]) (use K 3 in \<open>auto simp: kid_inv_def split: if_splits\<close>)
  qed
qed

lemma execute_inv:
  assumes inv: "family_inv as st" and s: "process_execute tid st = Some st'"
  shows "family_inv (as @ [Execute tid]) st'"
proof (cases tid)
  case None
  have pc: "parent_pc st = User" and st': "st' = st\<lparr>children := children st, kid := kid st, parent_pc := User, result := - 1\<rparr>"
    using s None by (auto simp: process_execute_def split: if_splits)
  show ?thesis by (rule family_inv_parent [OF inv st', where t = 0])
    (use pc family_invD(1,2) [OF inv] in \<open>auto simp: about_def pc_inv_def st' intro: kid_inv_frame [OF family_invD(3) [OF inv]]\<close>)
next
  case (Some t)
  let ?k = "\<lparr>c_sema = 0, mem_sema = 0, load_sema = 0, load_success = False, exit_status = 0, kid_pc = Loading\<rparr>"
  have t: "parent_pc st = User" "kid st t = None"
    and st': "st' = st\<lparr>children := children st @ [t], kid := (kid st)(t \<mapsto> ?k), parent_pc := Exec_Down t, result := result st\<rparr>"
    using s Some by (auto simp: process_execute_def split: if_splits)
  have "t \<notin> set (children st)" using family_invD(2) [OF inv, of t] t(2) by auto
  then show ?thesis
    by (intro family_inv_parent [OF inv st', where t = t])
      (use t family_invD(1) [OF inv] in \<open>auto simp: about_def pc_inv_def kid_inv_def st' ended_def\<close>)
qed

lemma wait_inv:
  assumes inv: "family_inv as st" and s: "process_wait t st = Some st'"
  shows "family_inv (as @ [Wait t]) st'"
proof -
  have pc: "parent_pc st = User" and st': "st' = st\<lparr>children := children st, kid := kid st,
      parent_pc := (if t \<in> set (children st) then Wait_Down t else User), result := (if t \<in> set (children st) then result st else - 1)\<rparr>"
    using s by (auto simp: process_wait_def split: if_splits)
  show ?thesis by (rule family_inv_parent [OF inv st', where t = t])
    (use pc family_invD(1,2) [OF inv] in \<open>auto simp: about_def pc_inv_def st' intro: kid_inv_frame [OF family_invD(3) [OF inv]]\<close>)
qed

lemma parent_inv:
  assumes inv: "family_inv as st" and s: "parent_step st = Some st'"
  shows "family_inv (as @ [Parent]) st'"
proof (cases "parent_pc st")
  case User
  then show ?thesis using s by (simp add: parent_step_def)
next
  case (Exec_Down t)
  obtain k where k: "kid st t = Some k" "st' = st\<lparr>children := children st,
      kid := (kid st)(t \<mapsto> k\<lparr>load_sema := load_sema k - 1\<rparr>), parent_pc := User, result := (if \<not> load_success k then - 1 else int t)\<rparr>"
    using s Exec_Down by (auto simp: parent_step_def execute_down_def upd_kid_def bind_eq_Some_conv split: if_splits)
  show ?thesis by (rule family_inv_parent [OF inv k(2), where t = t])
    (use Exec_Down family_invD(1,2) [OF inv] family_invD(3) [OF inv k(1)] in
      \<open>auto simp: about_def pc_inv_def k(2) kid_inv_def ended_mono split: if_splits\<close>)
next
  case (Wait_Down t)
  obtain k where k: "kid st t = Some k" "c_sema k > 0" "st' = st\<lparr>children := children st,
      kid := (kid st)(t \<mapsto> k\<lparr>c_sema := c_sema k - 1\<rparr>), parent_pc := Wait_Remove t, result := result st\<rparr>"
    using s Wait_Down by (auto simp: parent_step_def wait_down_def upd_kid_def bind_eq_Some_conv split: if_splits)
  show ?thesis by (rule family_inv_parent [OF inv k(3), where t = t])
    (use Wait_Down family_invD(1,2,4) [OF inv] family_invD(3) [OF inv k(1)] k(2) in
      \<open>auto simp: about_def pc_inv_def k(3) kid_inv_def ended_mono split: if_splits\<close>)
next
  case (Wait_Remove t)
  have st': "st' = st\<lparr>children := remove1 t (children st), kid := kid st, parent_pc := Wait_Up t, result := result st\<rparr>"
    using s Wait_Remove by (auto simp: parent_step_def wait_remove_def)
  have t: "t \<in> set (children st)" using family_invD(4) [OF inv] Wait_Remove by (simp add: pc_inv_def)
  then obtain k where k: "kid st t = Some k" using family_invD(2) [OF inv] by blast
  show ?thesis by (rule family_inv_parent [OF inv st', where t = t])
    (use Wait_Remove t k family_invD(1) [OF inv] family_invD(3) [OF inv k] in
      \<open>auto simp: about_def pc_inv_def st' kid_inv_def ended_mono split: if_splits\<close>)
next
  case (Wait_Up t)
  obtain k where k: "kid st t = Some k" "st' = st\<lparr>children := children st,
      kid := (kid st)(t \<mapsto> k\<lparr>mem_sema := mem_sema k + 1\<rparr>), parent_pc := Wait_Return t, result := result st\<rparr>"
    using s Wait_Up by (auto simp: parent_step_def wait_up_def upd_kid_def bind_eq_Some_conv)
  show ?thesis by (rule family_inv_parent [OF inv k(2), where t = t])
    (use Wait_Up family_invD(1,4) [OF inv] family_invD(3) [OF inv k(1)] in
      \<open>auto simp: about_def pc_inv_def k(2) kid_inv_def ended_mono split: if_splits\<close>)
next
  case (Wait_Return t)
  obtain k where k: "kid st t = Some k" "st' = st\<lparr>children := children st,
      kid := kid st, parent_pc := User, result := exit_status k\<rparr>"
    using s Wait_Return by (auto simp: parent_step_def wait_return_def bind_eq_Some_conv)
  show ?thesis by (rule family_inv_parent [OF inv k(2), where t = t])
    (use Wait_Return k(1) family_invD(1,4) [OF inv] family_invD(3) [OF inv k(1)] in
      \<open>auto simp: about_def pc_inv_def k(2) kid_inv_def ended_mono split: if_splits\<close>)
qed

lemma runs_inv: "runs as st \<Longrightarrow> family_inv as st"
proof (induction rule: runs.induct)
  case start
  then show ?case by (simp add: family_inv_def alone_def pc_inv_def)
next
  case (step as st a st')
  then show ?case
    by (cases a) (auto intro: execute_inv wait_inv parent_inv start_inv exit_inv process_exit_inv)
qed

section \<open>Properties\<close>


fun run_all :: "action list \<Rightarrow> family \<Rightarrow> family option" where
  "run_all [] st = Some st"
| "run_all (a # as) st = do { st \<leftarrow> step a st; run_all as st }"

lemma runs_run: "runs as st \<Longrightarrow> run_all bs st = Some st' \<Longrightarrow> runs (as @ bs) st'"
proof (induction bs arbitrary: as st)
  case (Cons b bs)
  then obtain st1 where "step b st = Some st1" "run_all bs st1 = Some st'" by (auto simp: bind_eq_Some_conv)
  then show ?case using Cons.IH [OF runs.step [OF Cons.prems(1)]] by simp
qed simp

text \<open>The child is scheduled between \<^verbatim>\<open>sema_up\<close> and \<^verbatim>\<open>return\<close>: it is freed first.\<close>

definition racing :: "action list" where
  "racing = [Execute (Some 3), Start 3 True, Parent, Exit 3 (Some 7), Wait 3, Kid 3, Parent, Parent, Parent, Kid 3, Kid 3]"




end
