(* ===== verification/Syscall.thy ===== *)
theory Syscall
  imports Filesys Strings Palloc Process_Wait
begin

text \<open>
  System calls and exceptions of a user process: \<^verbatim>\<open>userprog/syscall.c\<close> and
  \<^verbatim>\<open>userprog/exception.c\<close>.  The address space is one map from addresses to bytes, in which the kernel
  reads the arguments from the user's stack; an access that it does not allow is a page fault of the
  kernel.  A call goes on, ends the process, blocks it or switches the machine off.
  \<open>None\<close> is a kernel panic, undefined behaviour of C, or a page fault inside the file system, the
  console or a string function, about which the model says nothing.
\<close>

section \<open>State and control flow\<close>

datatype 'a flow = Go 'a | Exits | Waits | Off

text \<open>The thread that makes the calls: its descriptors, its name, the exit status it leaves, its children,
  and the interrupt frame's \<^verbatim>\<open>eax\<close>; and what it shares: the file system, its lock and the console.
  \<open>spawn\<close> is what \<^verbatim>\<open>thread_create\<close> returns next and \<open>page_left\<close> tells whether a page is free.\<close>

record sys =
  fs :: fstate
  u_mem :: mem
  u_writable :: "ptr \<Rightarrow> bool"
  fds :: "nat option list"
  u_name :: "u8 list"
  self :: nat
  fd_lock :: "nat option"
  screen :: "u8 list"
  keys_read :: nat
  left_status :: int
  fam :: family
  spawn :: "nat option"
  page_left :: bool
  page_fault_cnt :: int
  eax :: u32

type_synonym 'a call = "sys \<Rightarrow> ('a flow \<times> sys) option"

definition go :: "'a \<Rightarrow> 'a call" where
  "go x s = Some (Go x, s)"

definition after :: "'a call \<Rightarrow> ('a \<Rightarrow> 'b call) \<Rightarrow> 'b call" where
  "after m k s =
     (case m s of
        None \<Rightarrow> None
      | Some (Go x, s) \<Rightarrow> k x s
      | Some (Exits, s) \<Rightarrow> Some (Exits, s)
      | Some (Waits, s) \<Rightarrow> Some (Waits, s)
      | Some (Off, s) \<Rightarrow> Some (Off, s))"

definition fs_op :: "(fstate \<Rightarrow> ('a \<times> fstate) option) \<Rightarrow> 'a call" where
  "fs_op f s = do { (x, t) \<leftarrow> f (fs s); Some (Go x, s\<lparr>fs := t\<rparr>) }"

definition fs_do :: "(fstate \<Rightarrow> fstate option) \<Rightarrow> unit call" where
  "fs_do f s = do { t \<leftarrow> f (fs s); Some (Go (), s\<lparr>fs := t\<rparr>) }"

section \<open>The end of a process\<close>

text \<open>The loop of \<^verbatim>\<open>process_exit\<close> over the descriptors, \<open>n\<close> of which are left.\<close>

primrec close_all :: "nat \<Rightarrow> unit call" where
  "close_all 0 s = Some (Go (), s)" |
  "close_all (Suc n) s =
     (let i = 128 - Suc n in
      if fds s ! i \<noteq> None
      then do {
        t \<leftarrow> file_close (fds s ! i) (fs s);
        close_all n (s\<lparr>fs := t, fds := (fds s)[i := None]\<rparr>) }
      else close_all n s)"

definition exit_thread :: "'a call" where
  "exit_thread = after (close_all 128) (\<lambda>_ s. Some (Exits, s))"

definition sys_exit :: "int \<Rightarrow> 'a call" where
  "sys_exit status s = exit_thread (s\<lparr>left_status := status\<rparr>)"

section \<open>Exceptions\<close>

definition PF_P :: u32 where "PF_P = 0x1"
definition PF_W :: u32 where "PF_W = 0x2"
definition PF_U :: u32 where "PF_U = 0x4"
definition SEL_UCSEG :: u32 where "SEL_UCSEG = 0x1B"
definition SEL_KCSEG :: u32 where "SEL_KCSEG = 0x08"

definition kill :: "u32 \<Rightarrow> 'a call" where
  "kill cs =
     (if cs = SEL_UCSEG then exit_thread
      else if cs = SEL_KCSEG then (\<lambda>s. None)
      else exit_thread)"

definition page_fault :: "u32 \<Rightarrow> u32 \<Rightarrow> ptr \<Rightarrow> 'a call" where
  "page_fault cs error_code fault_addr s =
     (let s = s\<lparr>page_fault_cnt := page_fault_cnt s + 1\<rparr>;
          not_present = (error_code AND PF_P = 0);
          user = (error_code AND PF_U \<noteq> 0)
      in if \<not> user \<or> is_kernel_vaddr fault_addr \<or> not_present then sys_exit (- 1) s else kill cs s)"

text \<open>Loads by the kernel; one of a byte that is not mapped is a page fault.\<close>

definition load_byte :: "ptr \<Rightarrow> u8 call" where
  "load_byte a s = (case u_mem s a of Some v \<Rightarrow> Some (Go v, s) | None \<Rightarrow> page_fault SEL_KCSEG 0 a s)"

definition load_word :: "ptr \<Rightarrow> u32 call" where
  "load_word a =
     after (load_byte a) (\<lambda>b0. after (load_byte (a + 1)) (\<lambda>b1.
     after (load_byte (a + 2)) (\<lambda>b2. after (load_byte (a + 3)) (\<lambda>b3.
     go (le_word [b0, b1, b2, b3])))))"

text \<open>A string, the bytes from an address on that are mapped, at most \<open>n\<close> of them, and a store.\<close>

definition user_string :: "ptr \<Rightarrow> u8 list call" where
  "user_string p s = do {
     n \<leftarrow> strlen p (u_mem s);
     Some (Go (map (\<lambda>k. the (u_mem s (p + of_nat k))) [0..<unat n]), s) }"

primrec mapped_bytes :: "nat \<Rightarrow> ptr \<Rightarrow> mem \<Rightarrow> u8 list" where
  "mapped_bytes 0 p m = []" |
  "mapped_bytes (Suc n) p m = (case m p of None \<Rightarrow> [] | Some v \<Rightarrow> v # mapped_bytes n (p + 1) m)"

primrec store_bytes :: "u8 list \<Rightarrow> ptr \<Rightarrow> unit call" where
  "store_bytes [] p s = Some (Go (), s)" |
  "store_bytes (v # vs) p s =
     (if u_mem s p \<noteq> None \<and> u_writable s p then store_bytes vs (p + 1) (s\<lparr>u_mem := (u_mem s)(p \<mapsto> v)\<rparr>) else None)"

section \<open>The lock and the descriptors\<close>

definition acquire :: "unit call" where
  "acquire s =
     (case fd_lock s of
        None \<Rightarrow> Some (Go (), s\<lparr>fd_lock := Some (self s)\<rparr>)
      | Some h \<Rightarrow> if h = self s then None else Some (Waits, s))"

definition release :: "unit call" where
  "release s = (if fd_lock s = Some (self s) then Some (Go (), s\<lparr>fd_lock := None\<rparr>) else None)"

text \<open>\<^verbatim>\<open>thread_current ()->fd[fd]\<close>, in an array of 128 pointers.\<close>

definition fd_get :: "int \<Rightarrow> nat option call" where
  "fd_get fd s = (if 0 \<le> fd \<and> fd < 128 then Some (Go (fds s ! nat fd), s) else None)"

definition fd_set :: "int \<Rightarrow> nat option \<Rightarrow> unit call" where
  "fd_set fd f s = (if 0 \<le> fd \<and> fd < 128 then Some (Go (), s\<lparr>fds := (fds s)[nat fd := f]\<rparr>) else None)"

text \<open>The address of an object that a file operation asserts not to be null.\<close>

definition non_null :: "nat option \<Rightarrow> nat call" where
  "non_null p s = do { f \<leftarrow> p; Some (Go f, s) }"

section \<open>The calls\<close>

definition check_addr :: "ptr \<Rightarrow> unit call" where
  "check_addr addr = (if \<not> is_user_vaddr addr then sys_exit (- 1) else go ())"

definition halt :: "unit call" where
  "halt s = Some (Off, s)"

text \<open>\<^verbatim>\<open>process_execute\<close> up to \<^verbatim>\<open>thread_create\<close>: the name is copied into a page and into an array of
  256 bytes, and its first word must name a file.\<close>

definition first_word :: "u8 list \<Rightarrow> u8 list" where
  "first_word cs = takeWhile (\<lambda>c. c \<noteq> 32) (dropWhile (\<lambda>c. c = 32) cs)"

definition sys_exec :: "ptr \<Rightarrow> int call" where
  "sys_exec cmd_line =
     (\<lambda>s. if \<not> page_left s then go (- 1) s
      else after (user_string cmd_line) (\<lambda>name s.
        if length name \<ge> 256 \<or> first_word name = [] then None
        else after (fs_op (filesys_open (first_word name))) (\<lambda>f s.
          if f = None then go (- 1) s
          else do {
            k \<leftarrow> process_execute (spawn s) (fam s);
            Some (if parent_pc k = User then Go (result k) else Waits, s\<lparr>fam := k\<rparr>) }) s) s)"

definition sys_wait :: "nat \<Rightarrow> int call" where
  "sys_wait pid s = do {
     k \<leftarrow> process_wait pid (fam s);
     Some (if parent_pc k = User then Go (result k) else Waits, s\<lparr>fam := k\<rparr>) }"

text \<open>The first round of the loop over the keyboard already leaves it.\<close>

definition sys_read :: "int \<Rightarrow> ptr \<Rightarrow> u32 \<Rightarrow> int call" where
  "sys_read fd buffer sz =
     after (check_addr buffer) (\<lambda>_. after acquire (\<lambda>_.
     if fd = 0
     then if 0 < sz
       then after (\<lambda>s. Some (Go (), s\<lparr>keys_read := keys_read s + 1\<rparr>)) (\<lambda>_. after (load_byte buffer) (\<lambda>c.
         if c = 0 then go (- 1) else after release (\<lambda>_. go 0)))
       else go (- 1)
     else if 3 \<le> fd \<and> fd \<le> 128
     then after (fd_get fd) (\<lambda>target_file.
       case target_file of
         None \<Rightarrow> after release (\<lambda>_. sys_exit (- 1))
       | Some f \<Rightarrow>
           after (fs_op (file_read f (sint sz))) (\<lambda>bytes. after (store_bytes bytes buffer) (\<lambda>_.
           after release (\<lambda>_. go (int (length bytes))))))
     else after release (\<lambda>_. sys_exit (- 1))))"

definition sys_write :: "int \<Rightarrow> ptr \<Rightarrow> u32 \<Rightarrow> int call" where
  "sys_write fd buffer sz =
     after (check_addr buffer) (\<lambda>_. after acquire (\<lambda>_.
     if fd = 1
     then after (\<lambda>s. let bs = mapped_bytes (unat sz) buffer (u_mem s) in
            if length bs = unat sz then Some (Go (), s\<lparr>screen := screen s @ bs\<rparr>) else None) (\<lambda>_.
          after release (\<lambda>_. go (sint sz)))
     else if 3 \<le> fd \<and> fd \<le> 128
     then after (fd_get fd) (\<lambda>target_file.
       case target_file of
         None \<Rightarrow> after release (\<lambda>_. sys_exit (- 1))
       | Some f \<Rightarrow>
           after (\<lambda>s. fs_op (file_write f (mapped_bytes (unat sz) buffer (u_mem s)) (sint sz)) s) (\<lambda>result_write.
           after release (\<lambda>_. go result_write)))
     else after release (\<lambda>_. sys_exit (- 1))))"

text \<open>Signed overflow is a fault.\<close>

primrec fib_loop :: "nat \<Rightarrow> int \<Rightarrow> int \<Rightarrow> int option" where
  "fib_loop 0 t1 t2 = Some t1" |
  "fib_loop (Suc n) t1 t2 = do { nextTerm \<leftarrow> s32 (t1 + t2); fib_loop n t2 nextTerm }"

definition fibonacci :: "int \<Rightarrow> int option" where
  "fibonacci n = fib_loop (nat n) 0 1"

definition max_of_four_int :: "int \<Rightarrow> int \<Rightarrow> int \<Rightarrow> int \<Rightarrow> int" where
  "max_of_four_int a b c d = fold (\<lambda>x m. if m < x then x else m) [b, c, d] a"

definition sys_create :: "ptr \<Rightarrow> u32 \<Rightarrow> bool call" where
  "sys_create file_p initial_size =
     (if file_p = NULL then sys_exit (- 1)
      else after (user_string file_p) (\<lambda>name. fs_op (filesys_create name (sint initial_size))))"

definition sys_remove :: "ptr \<Rightarrow> bool call" where
  "sys_remove file_p =
     after (user_string file_p) (\<lambda>name. after (fs_op (filesys_remove name)) (\<lambda>success.
     if \<not> success then sys_exit (- 1) else go success))"

text \<open>The first descriptor from 3 on that holds a null pointer takes the file.\<close>

definition free_fd :: "nat option list \<Rightarrow> nat option" where
  "free_fd tab = find (\<lambda>i. tab ! i = None) [3..<128]"

definition install_fd :: "nat option \<Rightarrow> int call" where
  "install_fd target_file s =
     (case free_fd (fds s) of
        None \<Rightarrow> go (- 1) s
      | Some i \<Rightarrow> go (int i) (s\<lparr>fds := (fds s)[i := target_file]\<rparr>))"

definition sys_open :: "ptr \<Rightarrow> int call" where
  "sys_open file_p =
     (if file_p = NULL then sys_exit (- 1)
      else after (user_string file_p) (\<lambda>name. after (fs_op (filesys_open name)) (\<lambda>target_file.
        after (install_fd target_file) (\<lambda>file_index.
        after (\<lambda>s. if name = u_name s then after (non_null target_file) (\<lambda>f. fs_do (file_deny_write f)) s else go () s) (\<lambda>_.
        go (if target_file = None then - 1 else file_index))))))"

definition sys_filesize :: "int \<Rightarrow> int call" where
  "sys_filesize fd = after (fd_get fd) (\<lambda>p. after (non_null p) (\<lambda>f s. do { n \<leftarrow> file_length f (fs s); go n s }))"

definition sys_seek :: "int \<Rightarrow> u32 \<Rightarrow> unit call" where
  "sys_seek fd position = after (fd_get fd) (\<lambda>p. after (non_null p) (\<lambda>f. fs_do (file_seek f (sint position))))"

definition sys_tell :: "int \<Rightarrow> int call" where
  "sys_tell fd = after (fd_get fd) (\<lambda>p. after (non_null p) (\<lambda>f s. do { n \<leftarrow> file_tell f (fs s); go n s }))"

definition sys_close :: "int \<Rightarrow> unit call" where
  "sys_close fd = after (fd_get fd) (\<lambda>target_file. after (fd_set fd None) (\<lambda>_. fs_do (file_close target_file)))"

section \<open>The handler\<close>

datatype syscall_nr = SYS_HALT | SYS_EXIT | SYS_EXEC | SYS_WAIT | SYS_CREATE | SYS_REMOVE | SYS_OPEN | SYS_FILESIZE
  | SYS_READ | SYS_WRITE | SYS_SEEK | SYS_TELL | SYS_CLOSE | SYS_FIBONACCI | SYS_MAXOFFOURINT | SYS_MMAP | SYS_MUNMAP
  | SYS_CHDIR | SYS_MKDIR | SYS_READDIR | SYS_ISDIR | SYS_INUMBER

definition syscall_of :: "u32 \<Rightarrow> syscall_nr option" where
  "syscall_of n =
     (let all = [SYS_HALT, SYS_EXIT, SYS_EXEC, SYS_WAIT, SYS_CREATE, SYS_REMOVE, SYS_OPEN, SYS_FILESIZE, SYS_READ, SYS_WRITE,
        SYS_SEEK, SYS_TELL, SYS_CLOSE, SYS_FIBONACCI, SYS_MAXOFFOURINT, SYS_MMAP, SYS_MUNMAP, SYS_CHDIR, SYS_MKDIR,
        SYS_READDIR, SYS_ISDIR, SYS_INUMBER]
      in if unat n < length all then Some (all ! unat n) else None)"

text \<open>The arguments of a call: every address is checked before the first one is read.\<close>

fun check_all :: "ptr list \<Rightarrow> unit call" where
  "check_all [] = go ()" |
  "check_all (a # as) = after (check_addr a) (\<lambda>_. check_all as)"

fun load_all :: "ptr list \<Rightarrow> u32 list call" where
  "load_all [] = go []" |
  "load_all (a # as) = after (load_word a) (\<lambda>x. after (load_all as) (\<lambda>xs. go (x # xs)))"

definition args :: "ptr list \<Rightarrow> u32 list call" where
  "args as = after (check_all as) (\<lambda>_. load_all as)"

definition set_eax :: "int \<Rightarrow> unit call" where
  "set_eax v s = Some (Go (), s\<lparr>eax := word_of_int v\<rparr>)"

definition syscall_case :: "ptr \<Rightarrow> syscall_nr option \<Rightarrow> unit call" where
  "syscall_case esp nr =
     (case nr of
        Some SYS_HALT \<Rightarrow> halt
      | Some SYS_EXIT \<Rightarrow> after (args [esp + 4]) (\<lambda>a. sys_exit (sint (a ! 0)))
      | Some SYS_EXEC \<Rightarrow> after (args [esp + 4]) (\<lambda>a. after (sys_exec (a ! 0)) set_eax)
      | Some SYS_WAIT \<Rightarrow> after (args [esp + 4]) (\<lambda>a. after (sys_wait (unat (a ! 0))) set_eax)
      | Some SYS_CREATE \<Rightarrow>
          after (args [esp + 4, esp + 8]) (\<lambda>a. after (sys_create (a ! 0) (a ! 1)) (\<lambda>b. set_eax (of_bool b)))
      | Some SYS_REMOVE \<Rightarrow> after (args [esp + 4]) (\<lambda>a. after (sys_remove (a ! 0)) (\<lambda>b. set_eax (of_bool b)))
      | Some SYS_OPEN \<Rightarrow>
          after (check_all [esp + 4]) (\<lambda>_. after acquire (\<lambda>_.
          after (load_all [esp + 4]) (\<lambda>a. after (after (sys_open (a ! 0)) set_eax) (\<lambda>_. release))))
      | Some SYS_FILESIZE \<Rightarrow> after (args [esp + 4]) (\<lambda>a. after (sys_filesize (sint (a ! 0))) set_eax)
      | Some SYS_READ \<Rightarrow>
          after (args [esp + 4, esp + 8, esp + 12]) (\<lambda>a. after (sys_read (sint (a ! 0)) (a ! 1) (a ! 2)) set_eax)
      | Some SYS_WRITE \<Rightarrow>
          after (args [esp + 20, esp + 24, esp + 28]) (\<lambda>a. after (sys_write (sint (a ! 0)) (a ! 1) (a ! 2)) set_eax)
      | Some SYS_SEEK \<Rightarrow> after (args [esp + 4, esp + 8]) (\<lambda>a. sys_seek (sint (a ! 0)) (a ! 1))
      | Some SYS_TELL \<Rightarrow> after (args [esp + 4]) (\<lambda>a. after (sys_tell (sint (a ! 0))) set_eax)
      | Some SYS_CLOSE \<Rightarrow> after (args [esp + 4]) (\<lambda>a. sys_close (sint (a ! 0)))
      | Some SYS_FIBONACCI \<Rightarrow>
          after (args [esp + 4]) (\<lambda>a s. do { v \<leftarrow> fibonacci (sint (a ! 0)); set_eax v s })
      | Some SYS_MAXOFFOURINT \<Rightarrow>
          after (args [esp + 4, esp + 8, esp + 12, esp + 16])
            (\<lambda>a. set_eax (max_of_four_int (sint (a ! 0)) (sint (a ! 1)) (sint (a ! 2)) (sint (a ! 3))))
      | _ \<Rightarrow> go ())"

definition syscall_handler :: "ptr \<Rightarrow> unit call" where
  "syscall_handler esp =
     after (check_addr esp) (\<lambda>_. after (load_word esp) (\<lambda>n. syscall_case esp (syscall_of n)))"

section \<open>Control flow\<close>

lemma go_eq [simp]: "go x s = Some (r, s') \<longleftrightarrow> r = Go x \<and> s' = s"
  by (auto simp: go_def)

lemma afterE:
  assumes "after m k s = Some (r, s')"
  obtains (Go) x s1 where "m s = Some (Go x, s1)" "k x s1 = Some (r, s')"
    | (Exits) "m s = Some (Exits, s')" "r = Exits"
    | (Waits) "m s = Some (Waits, s')" "r = Waits"
    | (Off) "m s = Some (Off, s')" "r = Off"
  using assms by (auto simp: after_def split: option.splits flow.splits)

lemma after_step: "m s = Some (Go x, s1) \<Longrightarrow> after m k s = k x s1"
  by (simp add: after_def)

lemma after_Go: "after m k s = Some (Go y, s') \<longleftrightarrow> (\<exists>x s1. m s = Some (Go x, s1) \<and> k x s1 = Some (Go y, s'))"
  by (auto simp: after_def split: option.splits flow.splits)

lemma exit_thread_result: "exit_thread s = Some (r, s') \<Longrightarrow> r = Exits"
proof -
  have "close_all n s = Some (r, s') \<Longrightarrow> r = Go ()" for n s r s'
    by (induction n arbitrary: s) (auto simp: Let_def bind_eq_Some_conv split: if_splits)
  then show "exit_thread s = Some (r, s') \<Longrightarrow> r = Exits" by (auto simp: exit_thread_def elim!: afterE)
qed

lemma sys_exit_result: "sys_exit v s = Some (r, s') \<Longrightarrow> r = Exits"
  by (auto simp: sys_exit_def exit_thread_result)

lemma page_fault_result: "page_fault cs e a s = Some (r, s') \<Longrightarrow> r = Exits"
  by (auto simp: page_fault_def kill_def Let_def sys_exit_result exit_thread_result split: if_splits)

text \<open>What the kernel finds in memory, and the arguments it reads.\<close>

definition word_in :: "sys \<Rightarrow> ptr \<Rightarrow> u32" where
  "word_in s a = le_word (map (\<lambda>k. the (u_mem s (a + k))) [0, 1, 2, 3])"

lemma load_byte_Go: "load_byte a s = Some (Go v, s1) \<longleftrightarrow> s1 = s \<and> u_mem s a = Some v"
  by (auto simp: load_byte_def split: option.splits dest: page_fault_result)

definition readable :: "sys \<Rightarrow> ptr \<Rightarrow> bool" where
  "readable s a \<longleftrightarrow> (\<forall>k \<in> {0, 1, 2, 3}. u_mem s (a + k) \<noteq> None)"

definition args_ok :: "sys \<Rightarrow> ptr list \<Rightarrow> bool" where
  "args_ok s as \<longleftrightarrow> (\<forall>a \<in> set as. is_user_vaddr a \<and> readable s a)"

lemma load_word_Go: "load_word a s = Some (Go v, s1) \<longleftrightarrow> s1 = s \<and> v = word_in s a \<and> readable s a"
  by (auto simp: load_word_def after_Go load_byte_Go word_in_def readable_def)

lemma load_all_Go: "load_all as s = Some (Go xs, s1) \<longleftrightarrow> s1 = s \<and> xs = map (word_in s) as \<and> (\<forall>a \<in> set as. readable s a)"
  by (induction as arbitrary: xs s1) (auto simp: after_Go load_word_Go)

lemma check_addr_Go: "check_addr a s = Some (Go x, s1) \<longleftrightarrow> s1 = s \<and> is_user_vaddr a"
  by (auto simp: check_addr_def dest: sys_exit_result split: if_splits)

lemma check_all_Go: "check_all as s = Some (Go x, s1) \<longleftrightarrow> s1 = s \<and> (\<forall>a \<in> set as. is_user_vaddr a)"
  by (induction as arbitrary: x s1) (auto simp: after_Go check_addr_Go)

lemma args_Go: "args as s = Some (Go xs, s1) \<longleftrightarrow> s1 = s \<and> xs = map (word_in s) as \<and> args_ok s as"
  by (auto simp: args_def after_Go check_all_Go load_all_Go args_ok_def)

section \<open>The lock of the file system\<close>

definition lock_kept :: "'a call \<Rightarrow> bool" where
  "lock_kept m \<longleftrightarrow> (\<forall>s r s'. m s = Some (r, s') \<longrightarrow> fd_lock s' = fd_lock s \<and> self s' = self s)"

lemma lock_keptD: "lock_kept m \<Longrightarrow> m s = Some (r, s') \<Longrightarrow> fd_lock s' = fd_lock s \<and> self s' = self s"
  by (simp add: lock_kept_def)

named_theorems kept \<open>calls that leave the lock alone\<close>

lemma kept_go [kept]: "lock_kept (go x)"
  by (simp add: lock_kept_def)

lemma kept_after [kept]: "lock_kept m \<Longrightarrow> (\<And>x. lock_kept (k x)) \<Longrightarrow> lock_kept (after m k)"
  unfolding lock_kept_def by (intro allI impI, erule afterE) auto

lemma kept_if [kept]: "lock_kept m \<Longrightarrow> lock_kept n \<Longrightarrow> lock_kept (if b then m else n)"
  by simp

lemma kept_cond [kept]: "lock_kept m \<Longrightarrow> lock_kept n \<Longrightarrow> lock_kept (\<lambda>s. if b s then m s else n s)"
  "lock_kept (\<lambda>s. None)"
  by (auto simp: lock_kept_def)

lemma kept_result [kept]: "lock_kept (\<lambda>s. do { n \<leftarrow> f s; go n s })"
  by (auto simp: lock_kept_def bind_eq_Some_conv)

lemma kept_fs [kept]: "lock_kept (fs_op f)" "lock_kept (fs_do g)" "lock_kept (\<lambda>s. fs_op (h s) s)"
  by (auto simp: lock_kept_def fs_op_def fs_do_def bind_eq_Some_conv)

lemma kept_exit_thread [kept]: "lock_kept exit_thread"
proof -
  have "close_all n s = Some (r, s') \<Longrightarrow> fd_lock s' = fd_lock s \<and> self s' = self s" for n s r s'
    by (induction n arbitrary: s) (auto simp: Let_def bind_eq_Some_conv split: if_splits)
  then have "lock_kept (close_all 128)" by (auto simp: lock_kept_def)
  then show ?thesis unfolding exit_thread_def by (rule kept_after) (simp add: lock_kept_def)
qed

lemma kept_exit [kept]: "lock_kept (sys_exit v)"
  by (auto simp: lock_kept_def sys_exit_def dest: lock_keptD [OF kept_exit_thread])

lemma kept_page_fault [kept]: "lock_kept (page_fault cs e a)"
  by (auto simp: lock_kept_def page_fault_def kill_def Let_def split: if_splits
    dest: lock_keptD [OF kept_exit] lock_keptD [OF kept_exit_thread])

lemma kept_load [kept]: "lock_kept (load_byte a)" "lock_kept (load_word a)" "lock_kept (load_all as)"
proof -
  show b: "lock_kept (load_byte a)" for a
    by (auto simp: lock_kept_def load_byte_def split: option.splits dest: lock_keptD [OF kept_page_fault])
  show w: "lock_kept (load_word a)" for a unfolding load_word_def by (intro kept_after kept_go b)
  show "lock_kept (load_all as)" by (induction as) (auto intro!: kept_after kept_go w)
qed

lemma kept_check [kept]: "lock_kept (check_addr a)" "lock_kept (check_all as)" "lock_kept (args as)"
proof -
  show c: "lock_kept (check_addr a)" for a unfolding check_addr_def by (intro kept_if kept_exit kept_go)
  show d: "lock_kept (check_all as)" by (induction as) (auto intro!: kept_after kept_go c)
  show "lock_kept (args as)" unfolding args_def by (intro kept_after kept_load d)
qed

lemma kept_basic [kept]: "lock_kept (user_string p)" "lock_kept (store_bytes bs p)" "lock_kept (fd_get fd)" "lock_kept (fd_set fd f)"
  "lock_kept (non_null q)" "lock_kept (install_fd f)" "lock_kept (set_eax v)" "lock_kept halt" "lock_kept (sys_wait pid)"
proof -
  have "store_bytes bs p s = Some (r, s') \<Longrightarrow> fd_lock s' = fd_lock s \<and> self s' = self s" for s r s'
    by (induction bs arbitrary: p s) (auto split: if_splits)
  then show "lock_kept (store_bytes bs p)" by (auto simp: lock_kept_def)
qed (auto simp: lock_kept_def user_string_def fd_get_def fd_set_def non_null_def install_fd_def set_eax_def halt_def sys_wait_def
  bind_eq_Some_conv split: if_splits option.splits)

lemma kept_calls [kept]: "lock_kept (sys_exec p)" "lock_kept (sys_create p n)" "lock_kept (sys_remove p)" "lock_kept (sys_open p)"
  "lock_kept (sys_filesize fd)" "lock_kept (sys_seek fd n)" "lock_kept (sys_tell fd)" "lock_kept (sys_close fd)"
proof -
  show "lock_kept (sys_filesize fd)" "lock_kept (sys_tell fd)" "lock_kept (sys_seek fd n)" "lock_kept (sys_close fd)"
    "lock_kept (sys_create p n)" "lock_kept (sys_remove p)" "lock_kept (sys_open p)"
    unfolding sys_filesize_def sys_tell_def sys_seek_def sys_close_def sys_create_def sys_remove_def sys_open_def
    by (intro kept)+
  have "lock_kept (\<lambda>s. do { k \<leftarrow> process_execute (spawn s) (fam s);
            Some (if parent_pc k = User then Go (result k) else Waits, s\<lparr>fam := k\<rparr>) } :: (int flow \<times> sys) option)"
    by (auto simp: lock_kept_def bind_eq_Some_conv)
  then show "lock_kept (sys_exec p)" unfolding sys_exec_def by (intro kept)
qed

text \<open>The lock after reading: taken by a call that leaves the loop over the keyboard early.\<close>

lemma acquire_cases:
  assumes "acquire s = Some (r, s')"
  shows "r = Go () \<and> fd_lock s = None \<and> s' = s\<lparr>fd_lock := Some (self s)\<rparr> \<or> r = Waits \<and> s' = s"
  using assms by (auto simp: acquire_def split: option.splits if_splits)

lemma release_cases: "release s = Some (r, s') \<Longrightarrow> r = Go () \<and> fd_lock s = Some (self s) \<and> s' = s\<lparr>fd_lock := None\<rparr>"
  by (auto simp: release_def split: if_splits)

text \<open>A part of a call that runs with the lock and gives it back at the end.\<close>

definition gives_back :: "'a call \<Rightarrow> bool" where
  "gives_back m \<longleftrightarrow> (\<forall>s r s'. m s = Some (r, s') \<longrightarrow> fd_lock s = Some (self s) \<longrightarrow>
     self s' = self s \<and> (fd_lock s' = None))"

lemma gives_backD: "gives_back m \<Longrightarrow> m s = Some (r, s') \<Longrightarrow> fd_lock s = Some (self s) \<Longrightarrow> self s' = self s \<and> fd_lock s' = None"
  unfolding gives_back_def by blast

lemma gives_back_release: "lock_kept m \<Longrightarrow> gives_back (after release (\<lambda>_. m))"
  unfolding gives_back_def by (intro allI impI, erule afterE) (auto dest!: release_cases dest: lock_keptD)

definition always_goes :: "'a call \<Rightarrow> bool" where
  "always_goes m \<longleftrightarrow> lock_kept m \<and> (\<forall>s r s'. m s = Some (r, s') \<longrightarrow> (\<exists>x. r = Go x))"

lemma gives_back_after:
  assumes "always_goes m" "\<And>x. gives_back (k x)"
  shows "gives_back (after m k)"
  unfolding gives_back_def
proof (intro allI impI)
  fix s r s' assume a: "after m k s = Some (r, s')" and l: "fd_lock s = Some (self s)"
  from a show "self s' = self s \<and> fd_lock s' = None"
  proof (cases rule: afterE)
    case (Go x s1)
    then show ?thesis using assms l gives_backD [of "k x" s1] lock_keptD [of m] by (simp add: always_goes_def)
  qed (use assms(1) in \<open>auto simp: always_goes_def\<close>)
qed

lemma always_goes: "always_goes (fs_op f)" "always_goes (\<lambda>s. fs_op (h s) s)" "always_goes (store_bytes bs p)" "always_goes (fd_get fd)"
proof -
  have "store_bytes bs p s = Some (r, s') \<Longrightarrow> \<exists>x. r = Go x" for s r s'
    by (induction bs arbitrary: p s) (auto split: if_splits)
  then show "always_goes (store_bytes bs p)" using kept_basic(2) by (auto simp: always_goes_def)
  show "always_goes (fs_op f)" "always_goes (\<lambda>s. fs_op (h s) s)" using kept_fs(1,3)
    by (auto simp: always_goes_def fs_op_def bind_eq_Some_conv)
  show "always_goes (fd_get fd)" using kept_basic(3) by (auto simp: always_goes_def fd_get_def split: if_splits)
qed

lemma kept_acquire: "gives_back m \<Longrightarrow> lock_kept (after acquire (\<lambda>_. m))"
  unfolding lock_kept_def by (intro allI impI, erule afterE) (auto dest!: acquire_cases dest: gives_backD)

lemma kept_write [kept]: "lock_kept (sys_write fd buffer sz)"
proof -
  have "always_goes (\<lambda>s. let bs = mapped_bytes (unat sz) buffer (u_mem s) in
      if length bs = unat sz then Some (Go (), s\<lparr>screen := screen s @ bs\<rparr>) else None)"
    by (auto simp: always_goes_def lock_kept_def Let_def split: if_splits)
  then show ?thesis unfolding sys_write_def
    by (intro kept kept_acquire) (auto intro!: gives_back_after gives_back_release always_goes kept split: option.splits)
qed

lemma kept_read: "fd \<noteq> 0 \<Longrightarrow> lock_kept (sys_read fd buffer sz)"
  unfolding sys_read_def
  by (intro kept kept_acquire) (auto intro!: gives_back_after gives_back_release always_goes kept split: option.splits)

lemma read_keyboard:
  assumes "sys_read 0 buffer sz s = Some (r, s')"
  shows "self s' = self s \<and> fd_lock s' =
    (if is_user_vaddr buffer \<and> r \<noteq> Waits \<and> (sz = 0 \<or> u_mem s buffer \<in> {None, Some 0}) then Some (self s) else fd_lock s)"
proof (cases "is_user_vaddr buffer \<and> fd_lock s = None")
  case True
  let ?s = "s\<lparr>fd_lock := Some (self s)\<rparr>"
  let ?t = "?s\<lparr>keys_read := keys_read s + 1\<rparr>"
  have c: "check_addr buffer s = Some (Go (), s)" "acquire s = Some (Go (), ?s)" using True by (simp_all add: check_addr_Go acquire_def)
  have *: "sys_read 0 buffer sz s = (if 0 < sz then after (load_byte buffer) (\<lambda>c.
      if c = 0 then go (- 1) else after release (\<lambda>_. go 0)) ?t else go (- 1) ?s)"
  proof -
    have e: "after (check_addr buffer) k s = k () s" "after acquire k s = k () ?s" for k :: "unit \<Rightarrow> int call"
      using c by (simp_all add: after_def)
    have f: "after (\<lambda>s. Some (Go (), s\<lparr>keys_read := keys_read s + 1\<rparr>)) k ?s = k () ?t" for k :: "unit \<Rightarrow> int call"
      by (simp add: after_def)
    show ?thesis unfolding sys_read_def e by (cases "0 < sz") (simp_all add: f [simplified])
  qed
  show ?thesis
  proof (cases "u_mem s buffer")
    case None
    have x: "load_byte buffer ?t = Some (f, u) \<Longrightarrow> f = Exits \<and> fd_lock u = Some (self s) \<and> self u = self s" for f u
      using None lock_keptD [OF kept_load(1) [of buffer], of ?t f u] by (simp add: load_byte_def) (auto dest: page_fault_result)
    show ?thesis
    proof (cases "0 < sz")
      case pos: True
      from assms have "after (load_byte buffer) (\<lambda>c. if c = 0 then go (- 1) else after release (\<lambda>_. go 0)) ?t = Some (r, s')"
        unfolding * using pos by simp
      then show ?thesis by (cases rule: afterE) (use True None in \<open>auto dest!: x [simplified]\<close>)
    qed (use assms [unfolded *] True None in \<open>auto simp: word_gt_0\<close>)
  next
    case (Some v)
    then show ?thesis using assms True unfolding *
      by (auto simp: load_byte_def go_def after_def release_def word_gt_0 split: if_splits)
  qed
next
  case False
  show ?thesis
  proof (cases "is_user_vaddr buffer")
    case True
    then show ?thesis using assms False unfolding sys_read_def by (auto elim!: afterE simp: check_addr_def dest!: acquire_cases)
  next
    case no: False
    then have "check_addr buffer s = Some (r', s') \<Longrightarrow> r' = Exits" for r' by (auto simp: check_addr_def dest: sys_exit_result)
    then show ?thesis using assms no lock_keptD [OF kept_check(1) [of buffer], of s] unfolding sys_read_def
      by (auto elim!: afterE simp: check_addr_Go)
  qed
qed

text \<open>The calls that return or end the process with the lock held: reading nothing, a null byte or an
  inaccessible byte from the keyboard, and opening a file without success of \<^verbatim>\<open>open\<close> itself.\<close>

definition keeps_lock :: "ptr \<Rightarrow> sys \<Rightarrow> unit flow \<Rightarrow> bool" where
  "keeps_lock esp s r \<longleftrightarrow> args_ok s [esp] \<and> r \<noteq> Waits \<and>
     (case syscall_of (word_in s esp) of
        Some SYS_READ \<Rightarrow>
          args_ok s [esp + 4, esp + 8, esp + 12] \<and> word_in s (esp + 4) = 0 \<and> is_user_vaddr (word_in s (esp + 8)) \<and>
          (word_in s (esp + 12) = 0 \<or> u_mem s (word_in s (esp + 8)) \<in> {None, Some 0})
      | Some SYS_OPEN \<Rightarrow> is_user_vaddr (esp + 4) \<and> r = Exits
      | _ \<Rightarrow> False)"

lemma exits_open:
  assumes "after (after (sys_open p) set_eax) (\<lambda>_. release) s = Some (r, s')" "fd_lock s = Some (self s)"
  shows "self s' = self s \<and> r \<noteq> Waits \<and> fd_lock s' = (if r = Exits then Some (self s) else None)"
proof -
  have o: "sys_open p s = Some (f, u) \<Longrightarrow> f \<noteq> Waits \<and> f \<noteq> Off" for f u
    by (auto simp: sys_open_def user_string_def fs_op_def fs_do_def install_fd_def non_null_def bind_eq_Some_conv
      elim!: afterE dest: sys_exit_result split: if_splits option.splits)
  from assms(1) show ?thesis
  proof (cases rule: afterE)
    case (Go x s1)
    then have "lock_kept (after (sys_open p) set_eax)" by (intro kept)
    from lock_keptD [OF this Go(1)] show ?thesis using Go(2) assms(2) by (auto dest: release_cases)
  next
    case Exits
    have "lock_kept (after (sys_open p) set_eax)" by (intro kept)
    from lock_keptD [OF this Exits(1)] show ?thesis using Exits(2) assms(2) by simp
  qed (auto simp: set_eax_def elim!: afterE dest: o)
qed

lemma kept_fibonacci [kept]: "lock_kept (\<lambda>s. do { v \<leftarrow> fibonacci n; set_eax v s })"
  by (auto simp: lock_kept_def set_eax_def bind_eq_Some_conv)

lemma kept_case:
  assumes "nr \<noteq> Some SYS_READ" "nr \<noteq> Some SYS_OPEN"
  shows "lock_kept (syscall_case esp nr)"
  unfolding syscall_case_def using assms by (auto intro!: kept split: option.split syscall_nr.split)

lemma load_all_result: "load_all as s = Some (r, s') \<Longrightarrow> r \<noteq> Waits \<and> r \<noteq> Off"
  by (induction as arbitrary: r s s')
    (auto simp: load_word_def load_byte_def elim!: afterE dest: page_fault_result split: option.splits)

lemma open_lock:
  assumes "syscall_case esp (Some SYS_OPEN) s = Some (r, s')"
  shows "self s' = self s \<and> fd_lock s' = (if is_user_vaddr (esp + 4) \<and> r = Exits then Some (self s) else fd_lock s)"
proof (cases "is_user_vaddr (esp + 4)")
  case True
  then have e: "check_all [esp + 4] s = Some (Go (), s)" by (simp add: check_all_Go del: check_all.simps)
  from assms have "after acquire (\<lambda>_. after (load_all [esp + 4]) (\<lambda>a. after (after (sys_open (a ! 0)) set_eax) (\<lambda>_. release))) s =
    Some (r, s')"
    unfolding syscall_case_def option.case syscall_nr.case unfolding after_step [where m = "check_all [esp + 4]" and s = s, OF e] .
  then show ?thesis
  proof (cases rule: afterE)
    case (Go x s1)
    then have s1: "fd_lock s = None" "s1 = s\<lparr>fd_lock := Some (self s)\<rparr>" by (auto dest: acquire_cases)
    from Go(2) show ?thesis
    proof (cases rule: afterE)
      case (Go a s2)
      then have "fd_lock s2 = Some (self s2)" "self s2 = self s" using lock_keptD [OF kept_load(3) Go(1)] s1 by simp_all
      then show ?thesis using exits_open [OF Go(2)] s1 True by simp
    next
      case Exits
      then show ?thesis using lock_keptD [OF kept_load(3) Exits(1)] s1 True by simp
    qed (use load_all_result in blast)+
  qed (use True in \<open>auto dest: acquire_cases\<close>)
next
  case False
  from assms show ?thesis unfolding syscall_case_def option.case syscall_nr.case
  proof (cases rule: afterE)
    case (Go x s1)
    then show ?thesis using False by (simp add: check_all_Go del: check_all.simps)
  qed (use False lock_keptD [OF kept_check(2) [of "[esp + 4]"]] in auto)
qed

lemma read_lock:
  assumes "syscall_case esp (Some SYS_READ) s = Some (r, s')"
  shows "self s' = self s \<and> fd_lock s' =
    (if args_ok s [esp + 4, esp + 8, esp + 12] \<and> r \<noteq> Waits \<and> word_in s (esp + 4) = 0 \<and> is_user_vaddr (word_in s (esp + 8)) \<and>
       (word_in s (esp + 12) = 0 \<or> u_mem s (word_in s (esp + 8)) \<in> {None, Some 0})
     then Some (self s) else fd_lock s)"
proof -
  let ?as = "[esp + 4, esp + 8, esp + 12]"
  have no: "args ?as s = Some (f, u) \<Longrightarrow> \<forall>xs. f \<noteq> Go xs \<Longrightarrow> \<not> args_ok s ?as" for f u
    using args_Go [of ?as s "map (word_in s) ?as" s] by auto
  from assms show ?thesis unfolding syscall_case_def option.case syscall_nr.case
  proof (cases rule: afterE)
    case (Go a s1)
    then have a: "s1 = s" "a = map (word_in s) ?as" "args_ok s ?as" by (simp_all add: args_Go)
    from Go(2) [unfolded a] have "after (sys_read (sint (word_in s (esp + 4))) (word_in s (esp + 8)) (word_in s (esp + 12))) set_eax s =
      Some (r, s')" by simp
    then obtain f u where u: "sys_read (sint (word_in s (esp + 4))) (word_in s (esp + 8)) (word_in s (esp + 12)) s = Some (f, u)"
      "fd_lock s' = fd_lock u" "self s' = self u" "f = Waits \<longleftrightarrow> r = Waits" by (cases rule: afterE) (auto simp: set_eax_def)
    show ?thesis
    proof (cases "word_in s (esp + 4) = 0")
      case True
      then show ?thesis using read_keyboard [of "word_in s (esp + 8)" "word_in s (esp + 12)" s f u] u a(3) by auto
    next
      case False
      then have "sint (word_in s (esp + 4)) \<noteq> 0" by (metis signed_eq_0_iff)
      from lock_keptD [OF kept_read [OF this] u(1)] show ?thesis using u False by simp
    qed
  qed (use no lock_keptD [OF kept_check(3)] in fastforce)+
qed

lemma no_word: "load_word a s = Some (f, u) \<Longrightarrow> \<forall>x. f \<noteq> Go x \<Longrightarrow> \<not> readable s a"
  using load_word_Go [of a s "word_in s a" s] by auto

section \<open>Properties\<close>


lemma close_all_nothing: "\<forall>i < 128. fds s ! i = None \<Longrightarrow> n \<le> 128 \<Longrightarrow> close_all n s = Some (Go (), s)"
  by (induction n) (simp_all add: Let_def)

definition demo_sys :: sys where
  "demo_sys = \<lparr>fs = demo_map_fs, u_mem = (\<lambda>a. if 0x1000 \<le> a \<and> a < 0x2000 then Some (if a = 0x1000 then 6 else 0) else None),
     u_writable = (\<lambda>_. True), fds = replicate 128 None, u_name = [97], self = 3, fd_lock = None, screen = [], keys_read = 0,
     left_status = 0, fam = alone, spawn = None, page_left = True, page_fault_cnt = 0, eax = 0\<rparr>"


text \<open>The Fibonacci numbers.\<close>

fun fib :: "nat \<Rightarrow> int" where
  "fib 0 = 0" | "fib (Suc 0) = 1" | "fib (Suc (Suc n)) = fib n + fib (Suc n)"

primrec fib_from :: "nat \<Rightarrow> int \<Rightarrow> int \<Rightarrow> int" where
  "fib_from 0 a b = a" | "fib_from (Suc n) a b = fib_from n b (a + b)"

lemma fib_from: "fib_from n (fib k) (fib (Suc k)) = fib (k + n)"
  by (induction n arbitrary: k) (simp_all flip: fib.simps)

lemma fib_values: "fib 46 = 1836311903" "fib 47 = 2971215073"
proof -
  have "fib_from 46 0 1 = 1836311903" "fib_from 47 0 1 = 2971215073" by (simp_all add: numeral_eq_Suc)
  then show "fib 46 = 1836311903" "fib 47 = 2971215073" using fib_from [of 46 0] fib_from [of 47 0]
    by (simp_all only: fib.simps One_nat_def add_0)
qed

lemma fib_mono: "m \<le> n \<Longrightarrow> 0 \<le> fib m \<and> fib m \<le> fib n"
proof (induction rule: dec_induct)
  case base
  show ?case by (induction m rule: fib.induct) auto
next
  case (step n)
  have "0 \<le> fib k" for k by (induction k rule: fib.induct) auto
  then have "fib n \<le> fib (Suc n)" by (cases n rule: fib.cases) auto
  then show ?case using step.IH by simp
qed

text \<open>C39: The system call \<^verbatim>\<open>fibonacci\<close> returns the Fibonacci number exactly for arguments up to 45;
  beyond that the sum it computes ahead overflows, although the result for 46 would fit.\<close>

theorem fibonacci_exact:
  "fibonacci n = (if n \<le> 45 then Some (fib (nat n)) else None)"
proof -
  have *: "k \<le> 45 \<Longrightarrow> fib_loop m (fib k) (fib (Suc k)) = (if k + m \<le> 45 then Some (fib (k + m)) else None)" for m k
  proof (induction m arbitrary: k)
    case (Suc m)
    have e: "fib k + fib (Suc k) = fib (Suc (Suc k))" by simp
    show ?case
    proof (cases "k = 45")
      case True
      have "\<not> s32_ok (fib 47)" by (simp add: fib_values s32_ok_def)
      then show ?thesis using True e by (simp add: s32_def)
    next
      case False
      then have "fib (Suc (Suc k)) \<le> fib 46" "0 \<le> fib (Suc (Suc k))" using Suc.prems fib_mono [of "Suc (Suc k)" 46] by auto
      then have "s32_ok (fib (Suc (Suc k)))" by (simp only: fib_values s32_ok_def) simp
      then have "fib_loop (Suc m) (fib k) (fib (Suc k)) = fib_loop m (fib (Suc k)) (fib (Suc (Suc k)))"
        unfolding fib_loop.simps e by (simp only: s32_in bind.bind_lunit)
      then show ?thesis using Suc.IH [of "Suc k"] Suc.prems False by (simp del: fib.simps fib_loop.simps)
    qed
  qed simp
  have "fibonacci n = fib_loop (nat n) (fib 0) (fib (Suc 0))" by (simp only: fibonacci_def fib.simps)
  also have "\<dots> = (if nat n \<le> 45 then Some (fib (nat n)) else None)" using * [of 0 "nat n"] by (simp only: add_0 le0 simp_thms)
  also have "nat n \<le> 45 \<longleftrightarrow> n \<le> 45" by auto
  finally show ?thesis .
qed

end
