(* ===== verification/Descriptors.thy ===== *)
theory Descriptors
  imports Syscall
begin

text \<open>
  The table of descriptors of a process through its system calls: which objects of the file system each operation
  can open or close, and the invariant that every descriptor refers to an open file of its own.
\<close>

section \<open>Operations that neither open nor close a file\<close>

definition keeps_files :: "fstate \<Rightarrow> fstate \<Rightarrow> bool" where
  "keeps_files s s' \<longleftrightarrow> files s' = files s \<and> mallocs s \<le> mallocs s' \<and> free_map_file s' = free_map_file s"

lemma keeps_refl [simp]: "keeps_files s s"
  by (simp add: keeps_files_def)

lemma keeps_trans: "keeps_files s t \<Longrightarrow> keeps_files t u \<Longrightarrow> keeps_files s u"
  by (auto simp: keeps_files_def)

lemma keeps_fields [simp]:
  "keeps_files s (t\<lparr>inodes := x\<rparr>) \<longleftrightarrow> keeps_files s t" "keeps_files s (t\<lparr>fs_device := d\<rparr>) \<longleftrightarrow> keeps_files s t"
  "keeps_files s (t\<lparr>open_inodes := l\<rparr>) \<longleftrightarrow> keeps_files s t" "keeps_files s (t\<lparr>dirs := m\<rparr>) \<longleftrightarrow> keeps_files s t"
  "keeps_files s (t\<lparr>free_map := b\<rparr>) \<longleftrightarrow> keeps_files s t" 
  "keeps_files (s\<lparr>inodes := x\<rparr>) t \<longleftrightarrow> keeps_files s t" "keeps_files (s\<lparr>fs_device := d\<rparr>) t \<longleftrightarrow> keeps_files s t"
  "keeps_files (s\<lparr>open_inodes := l\<rparr>) t \<longleftrightarrow> keeps_files s t" "keeps_files (s\<lparr>dirs := m\<rparr>) t \<longleftrightarrow> keeps_files s t"
  "keeps_files (s\<lparr>free_map := b\<rparr>) t \<longleftrightarrow> keeps_files s t"
  by (simp_all add: keeps_files_def)

lemma kf_malloc: "fs_malloc s = (p, t) \<Longrightarrow> keeps_files s t"
  by (auto simp: fs_malloc_def keeps_files_def)

lemma kf_upd_inode: "upd_inode h g s = Some t \<Longrightarrow> keeps_files s t"
  by (auto simp: upd_inode_def bind_eq_Some_conv)

lemma kf_inode_reopen: "inode_reopen h s = Some (p, t) \<Longrightarrow> keeps_files s t"
  by (auto simp: inode_reopen_def bind_eq_Some_conv split: option.splits dest!: kf_upd_inode)

lemma kf_inode_open: "inode_open sec s = Some (p, t) \<Longrightarrow> keeps_files s t"
  by (auto simp: inode_open_def bind_eq_Some_conv Let_def split: option.splits if_splits prod.splits
    dest!: kf_malloc kf_inode_reopen)

lemma kf_get_bounce: "get_bounce b s = (c, t) \<Longrightarrow> keeps_files s t"
  by (auto simp: get_bounce_def split: if_splits prod.splits dest!: kf_malloc)

lemma kf_read_chunk: "read_chunk a o' c b s = Some (r, b', t) \<Longrightarrow> keeps_files s t"
  by (auto simp: read_chunk_def bind_eq_Some_conv Let_def split: if_splits prod.splits dest!: kf_get_bounce)

lemma kf_read_loop: "read_loop i sz ofs b s = Some (bs, t) \<Longrightarrow> keeps_files s t"
proof (induction "nat sz" arbitrary: sz ofs b s bs t rule: less_induct)
  case less
  have step: "read_chunk k o' c b s = Some (r, b', u) \<Longrightarrow> \<not> c \<le> 0 \<Longrightarrow> 0 < sz \<Longrightarrow> read_loop i (sz - c) o2 b' u = Some (bs', t) \<Longrightarrow>
    keeps_files s t" for k o' c r b' u o2 bs' 
    by (rule keeps_trans [OF kf_read_chunk less.hyps]) auto
  from less.prems show ?case
    by (subst (asm) read_loop.simps) (auto simp: bind_eq_Some_conv split: option.splits if_splits prod.splits
      intro: step dest: kf_read_chunk)
qed

lemma kf_write_chunk: "write_chunk k o' l c bs b s = Some (r, b', t) \<Longrightarrow> keeps_files s t"
  by (auto simp: write_chunk_def bind_eq_Some_conv Let_def split: if_splits prod.splits dest!: kf_get_bounce)

lemma kf_write_loop: "write_loop i buf sz ofs n b s = Some (m, t) \<Longrightarrow> keeps_files s t"
proof (induction "nat sz" arbitrary: sz ofs n b s m t rule: less_induct)
  case less
  have step: "write_chunk k o' l c bs b s = Some (r, b', u) \<Longrightarrow> \<not> c \<le> 0 \<Longrightarrow> 0 < sz \<Longrightarrow> write_loop i buf (sz - c) o2 n' b' u = Some (m, t) \<Longrightarrow>
    keeps_files s t" for k o' l c bs r b' u o2 n' 
    by (rule keeps_trans [OF kf_write_chunk less.hyps]) auto
  from less.prems show ?case
    by (subst (asm) write_loop.simps) (auto simp: bind_eq_Some_conv split: option.splits if_splits prod.splits
      intro: step dest: kf_write_chunk)
qed

lemma kf_inode_read_at: "inode_read_at h sz ofs s = Some (bs, t) \<Longrightarrow> keeps_files s t"
  by (auto simp: inode_read_at_def bind_eq_Some_conv dest: kf_read_loop)

lemma kf_inode_write_at: "inode_write_at h buf sz ofs s = Some (n, t) \<Longrightarrow> keeps_files s t"
  by (auto simp: inode_write_at_def bind_eq_Some_conv dest: kf_write_loop split: if_splits)

lemma kf_bitmap_write: "bitmap_write b f s = Some (ok, t) \<Longrightarrow> keeps_files s t"
  by (auto simp: bitmap_write_def file_write_at_def bind_eq_Some_conv Let_def dest: kf_inode_write_at)

lemma keeps_map_eq: "s\<lparr>free_map := b\<rparr> = t\<lparr>free_map := c\<rparr> \<Longrightarrow> keeps_files s t"
  by (drule arg_cong [where f = "\<lambda>s. s\<lparr>free_map := b\<rparr>"], drule arg_cong [where f = "keeps_files s"]) simp

lemma kf_allocate: "free_map_allocate cnt s = Some (r, t) \<Longrightarrow> keeps_files s t"
  by (auto simp: free_map_allocate_def bind_eq_Some_conv Let_def keeps_files_def split: if_splits option.splits dest!: kf_bitmap_write keeps_map_eq)

lemma kf_release: "free_map_release sec cnt s = Some t \<Longrightarrow> keeps_files s t"
  by (auto simp: free_map_release_def bind_eq_Some_conv Let_def split: if_splits dest!: kf_bitmap_write)

lemma kf_zero_loop: "zero_loop n sec s = Some t \<Longrightarrow> keeps_files s t"
  by (induction n arbitrary: sec s) (auto simp: bind_eq_Some_conv, fastforce)

lemma kf_inode_create: "inode_create sec len s = Some (ok, t) \<Longrightarrow> keeps_files s t"
  by (auto simp: inode_create_def bind_eq_Some_conv Let_def split: if_splits option.splits prod.splits
    dest!: kf_malloc kf_allocate kf_zero_loop simp: keeps_files_def)

lemma kf_inode_close: "inode_close h s = Some t \<Longrightarrow> keeps_files s t"
  by (auto simp: inode_close_def bind_eq_Some_conv Let_def split: if_splits option.splits
    dest!: kf_upd_inode kf_release simp: keeps_files_def)

lemma kf_dir_open: "dir_open h s = Some (d, t) \<Longrightarrow> keeps_files s t"
  by (auto simp: dir_open_def bind_eq_Some_conv Let_def split: option.splits prod.splits
    dest!: kf_malloc kf_inode_close simp: keeps_files_def)

lemma kf_dir_open_root: "dir_open_root s = Some (d, t) \<Longrightarrow> keeps_files s t"
  by (auto simp: dir_open_root_def bind_eq_Some_conv dest!: kf_inode_open kf_dir_open simp: keeps_files_def)

lemma kf_dir_close: "dir_close d s = Some t \<Longrightarrow> keeps_files s t"
  by (auto simp: dir_close_def bind_eq_Some_conv split: option.splits dest!: kf_inode_close)

lemma kf_lookup_loop: "lookup_loop h name ofs s = Some (r, t) \<Longrightarrow> keeps_files s t"
proof -
  assume a: "lookup_loop h name ofs s = Some (r, t)"
  have "keeps_files s (snd (r, t))"
    by (rule lookup_loop.raw_induct [where P = "\<lambda>h name ofs s y. keeps_files s (snd y)", OF _ a])
      (auto simp: bind_eq_Some_conv Let_def split: if_splits prod.splits dest!: kf_inode_read_at intro: keeps_trans)
  then show ?thesis by simp
qed

lemma kf_slot_loop: "slot_loop h e ofs s = Some (e', o', t) \<Longrightarrow> keeps_files s t"
proof -
  assume a: "slot_loop h e ofs s = Some (e', o', t)"
  have "keeps_files s (snd (snd (e', o', t)))"
    by (rule slot_loop.raw_induct [where P = "\<lambda>h e ofs s y. keeps_files s (snd (snd y))", OF _ a])
      (auto simp: bind_eq_Some_conv Let_def split: if_splits prod.splits dest!: kf_inode_read_at intro: keeps_trans)
  then show ?thesis by simp
qed

lemma kf_dir_lookup: "dir_lookup d name s = Some (h, t) \<Longrightarrow> keeps_files s t"
  by (auto simp: dir_lookup_def dir_search_def bind_eq_Some_conv split: option.splits
    dest!: kf_lookup_loop kf_inode_open intro: keeps_trans)

lemma kf_dir_add: "dir_add d name sec s = Some (ok, t) \<Longrightarrow> keeps_files s t"
  by (auto simp: dir_add_def dir_search_def bind_eq_Some_conv Let_def keeps_files_def split: option.splits if_splits
    dest!: kf_lookup_loop kf_slot_loop kf_inode_write_at)

lemma kf_inode_remove: "inode_remove h s = Some t \<Longrightarrow> keeps_files s t"
  by (auto simp: inode_remove_def dest: kf_upd_inode)

lemma kf_dir_remove: "dir_remove d name s = Some (ok, t) \<Longrightarrow> keeps_files s t"
  by (auto simp: dir_remove_def dir_search_def bind_eq_Some_conv keeps_files_def split: option.splits if_splits
    dest!: kf_lookup_loop kf_inode_open kf_inode_write_at kf_inode_remove kf_inode_close)

lemma kf_filesys_create: "filesys_create name n s = Some (ok, t) \<Longrightarrow> keeps_files s t"
  by (auto simp: filesys_create_def bind_eq_Some_conv keeps_files_def split: option.splits if_splits
    dest!: kf_dir_open_root kf_allocate kf_inode_create kf_dir_add kf_release kf_dir_close)

lemma kf_filesys_remove: "filesys_remove name s = Some (ok, t) \<Longrightarrow> keeps_files s t"
  by (auto simp: filesys_remove_def bind_eq_Some_conv keeps_files_def split: option.splits if_splits
    dest!: kf_dir_open_root kf_dir_remove kf_dir_close)

section \<open>Operations on open files\<close>

definition same_open :: "fstate \<Rightarrow> fstate \<Rightarrow> bool" where
  "same_open s s' \<longleftrightarrow> dom (files s') = dom (files s) \<and> mallocs s \<le> mallocs s' \<and> free_map_file s' = free_map_file s"

lemma same_open_trans: "same_open s t \<Longrightarrow> same_open t u \<Longrightarrow> same_open s u"
  by (auto simp: same_open_def)

lemma same_keeps: "keeps_files s t \<Longrightarrow> same_open s t"
  by (simp add: same_open_def keeps_files_def)

lemma so_upd_file: "upd_file f g s = Some t \<Longrightarrow> same_open s t"
  by (auto simp: upd_file_def same_open_def bind_eq_Some_conv split: if_splits)

lemma so_file_read: "file_read f n s = Some (bs, t) \<Longrightarrow> same_open s t"
  by (auto simp: file_read_def bind_eq_Some_conv dest!: kf_inode_read_at so_upd_file intro: same_open_trans same_keeps)

lemma so_file_write: "file_write f buf n s = Some (k, t) \<Longrightarrow> same_open s t"
  by (auto simp: file_write_def bind_eq_Some_conv dest!: kf_inode_write_at so_upd_file intro: same_open_trans same_keeps)

lemma so_file_seek: "file_seek f p s = Some t \<Longrightarrow> same_open s t"
  by (auto simp: file_seek_def dest: so_upd_file split: if_splits)

lemma kf_deny: "inode_deny_write h s = Some t \<Longrightarrow> keeps_files s t" "inode_allow_write h s = Some t \<Longrightarrow> keeps_files s t"
  by (auto simp: inode_deny_write_def inode_allow_write_def bind_eq_Some_conv dest: kf_upd_inode split: if_splits)

lemma so_file_deny: "file_deny_write f s = Some t \<Longrightarrow> same_open s t"
  by (auto simp: file_deny_write_def bind_eq_Some_conv dest!: kf_deny so_upd_file intro: same_open_trans same_keeps
    split: if_splits)

lemma file_close_files:
  assumes "file_close (Some f) s = Some t"
  shows "dom (files t) = dom (files s) - {f} \<and> mallocs s \<le> mallocs t \<and> free_map_file t = free_map_file s"
proof -
  obtain u v x where u: "file_allow_write f s = Some u" "files u f = Some x" "inode_close (Some (f_inode x)) u = Some v"
    "t = v\<lparr>files := (files v)(f := None)\<rparr>" using assms by (auto simp: file_close_def bind_eq_Some_conv)
  have "same_open s u" using u(1)
    by (auto simp: file_allow_write_def bind_eq_Some_conv dest!: kf_deny so_upd_file intro: same_open_trans same_keeps
      split: if_splits)
  then show ?thesis using kf_inode_close [OF u(3)] u(4) by (auto simp: same_open_def keeps_files_def)
qed

lemma file_open_files:
  assumes "file_open h s = Some (p, t)"
  shows "case p of None \<Rightarrow> keeps_files s t | Some f \<Rightarrow> mallocs s \<le> f \<and> f < mallocs t \<and> dom (files t) = insert f (dom (files s)) \<and>
    free_map_file t = free_map_file s"
  using assms by (auto simp: file_open_def fs_malloc_def bind_eq_Some_conv keeps_files_def split: option.splits if_splits
    dest!: kf_inode_close)

lemma filesys_open_files:
  assumes "filesys_open name s = Some (p, t)"
  shows "case p of None \<Rightarrow> keeps_files s t | Some f \<Rightarrow> mallocs s \<le> f \<and> f < mallocs t \<and> dom (files t) = insert f (dom (files s)) \<and>
    free_map_file t = free_map_file s"
proof -
  from assms obtain d u1 where 1: "dir_open_root s = Some (d, u1)" "keeps_files s u1"
    by (auto simp: filesys_open_def bind_eq_Some_conv dest: kf_dir_open_root)
  obtain h u2 u3 where 2: "keeps_files u1 u2" "dir_close d u2 = Some u3" "file_open h u3 = Some (p, t)"
    using assms 1(1) by (cases d) (auto simp: filesys_open_def bind_eq_Some_conv dest: kf_dir_lookup, metis keeps_refl)
  then have "keeps_files s u3" using 1 kf_dir_close [OF 2(2)] by (auto intro: keeps_trans)
  then show ?thesis using file_open_files [OF 2(3)] by (auto simp: keeps_files_def split: option.splits)
qed

section \<open>Descriptors\<close>

definition open_fd :: "sys \<Rightarrow> nat \<Rightarrow> bool" where
  "open_fd s f \<longleftrightarrow> files (fs s) f \<noteq> None \<and> free_map_file (fs s) \<noteq> Some f"

definition fd_ok :: "sys \<Rightarrow> bool" where
  "fd_ok s \<longleftrightarrow> length (fds s) = 128 \<and> (\<forall>f. Some f \<in> set (fds s) \<longrightarrow> open_fd s f) \<and>
     (\<forall>i < 128. \<forall>j < 128. fds s ! i \<noteq> None \<longrightarrow> fds s ! i = fds s ! j \<longrightarrow> i = j) \<and>
     (\<forall>f \<in> dom (files (fs s)). f < mallocs (fs s)) \<and> (\<forall>f. free_map_file (fs s) = Some f \<longrightarrow> f < mallocs (fs s))"

definition fd_safe :: "'a call \<Rightarrow> bool" where
  "fd_safe m \<longleftrightarrow> (\<forall>s r s'. m s = Some (r, s') \<longrightarrow> fd_ok s \<longrightarrow> fd_ok s' \<and> (r = Exits \<longrightarrow> set (fds s') = {None}))"

lemma fd_safeD: "fd_safe m \<Longrightarrow> m s = Some (r, s') \<Longrightarrow> fd_ok s \<Longrightarrow> fd_ok s' \<and> (r = Exits \<longrightarrow> set (fds s') = {None})"
  by (simp add: fd_safe_def)

named_theorems safe \<open>calls that keep the descriptors in order\<close>

lemma safe_go [safe]: "fd_safe (go x)"
  by (simp add: fd_safe_def)

lemma safe_after [safe]: "fd_safe m \<Longrightarrow> (\<And>x. fd_safe (k x)) \<Longrightarrow> fd_safe (after m k)"
  unfolding fd_safe_def by (intro allI impI, erule afterE) blast+

lemma safe_if [safe]: "fd_safe m \<Longrightarrow> fd_safe n \<Longrightarrow> fd_safe (if b then m else n)"
  by simp

lemma safe_cond [safe]: "fd_safe m \<Longrightarrow> fd_safe n \<Longrightarrow> fd_safe (\<lambda>s. if b s then m s else n s)" "fd_safe (\<lambda>s. None)"
  by (auto simp: fd_safe_def)

lemma safe_result [safe]: "fd_safe (\<lambda>s. do { n \<leftarrow> f s; go n s })"
  by (auto simp: fd_safe_def bind_eq_Some_conv)

lemma fd_ok_fs: "same_open (fs s) t \<Longrightarrow> fd_ok s \<Longrightarrow> fd_ok (s\<lparr>fs := t\<rparr>)"
  unfolding fd_ok_def open_fd_def same_open_def by (auto simp: domIff) (metis (no_types, opaque_lifting) domIff less_le_trans option.distinct(1))+

lemma safe_fs_op: "(\<And>s x t. f s = Some (x, t) \<Longrightarrow> same_open s t) \<Longrightarrow> fd_safe (fs_op f)"
  by (auto simp: fd_safe_def fs_op_def bind_eq_Some_conv fd_ok_fs)

lemma safe_fs_do: "(\<And>s t. f s = Some t \<Longrightarrow> same_open s t) \<Longrightarrow> fd_safe (fs_do f)"
  by (auto simp: fd_safe_def fs_do_def bind_eq_Some_conv fd_ok_fs)

text \<open>Closing a descriptor.\<close>

lemma fd_ok_close:
  assumes "fd_ok s" "i < 128" "fds s ! i = Some f" "file_close (Some f) (fs s) = Some t"
  shows "fd_ok (s\<lparr>fs := t, fds := (fds s)[i := None]\<rparr>)"
proof -
  have t: "dom (files t) = dom (files (fs s)) - {f}" "mallocs (fs s) \<le> mallocs t" "free_map_file t = free_map_file (fs s)"
    using file_close_files [OF assms(4)] by simp_all
  have l: "length (fds s) = 128" using assms(1) by (simp add: fd_ok_def)
  have u: "j < 128 \<Longrightarrow> fds s ! j = Some f \<Longrightarrow> j = i" for j using assms(1-3) unfolding fd_ok_def by (metis option.distinct(1))
  have n: "fds s ! j = Some g \<and> j \<noteq> i" if "j < 128" "(fds s)[i := None] ! j = Some g" for j g
    using that l assms(2) by (cases "j = i") simp_all
  have "Some g \<in> set ((fds s)[i := None]) \<Longrightarrow> open_fd s g \<and> g \<noteq> f" for g
  proof -
    assume "Some g \<in> set ((fds s)[i := None])"
    then obtain j where "j < length ((fds s)[i := None])" "(fds s)[i := None] ! j = Some g" unfolding in_set_conv_nth by blast
    then have "j < 128" "fds s ! j = Some g" "j \<noteq> i" using l n [of j g] by simp_all
    moreover have "Some g \<in> set (fds s)" using \<open>j < 128\<close> \<open>fds s ! j = Some g\<close> l by (metis nth_mem)
    ultimately show ?thesis using u assms(1) unfolding fd_ok_def by metis
  qed
  then have "Some g \<in> set ((fds s)[i := None]) \<Longrightarrow> open_fd (s\<lparr>fs := t, fds := (fds s)[i := None]\<rparr>) g" for g
    using t by (auto simp: open_fd_def domIff set_eq_iff)
  moreover have "\<forall>g \<in> dom (files t). g < mallocs t" "\<forall>g. free_map_file t = Some g \<longrightarrow> g < mallocs t"
    using assms(1) t unfolding fd_ok_def by (metis DiffE less_le_trans, metis less_le_trans)
  moreover have "\<forall>a < 128. \<forall>b < 128. (fds s)[i := None] ! a \<noteq> None \<longrightarrow> (fds s)[i := None] ! a = (fds s)[i := None] ! b \<longrightarrow> a = b"
    using assms(1) n unfolding fd_ok_def by (metis option.exhaust)
  ultimately show ?thesis using l by (simp add: fd_ok_def)
qed

lemma fd_ok_status: "fd_ok (s\<lparr>left_status := v\<rparr>) = fd_ok s" "fd_ok (s\<lparr>page_fault_cnt := c\<rparr>) = fd_ok s"
  "fd_ok (s\<lparr>fd_lock := l\<rparr>) = fd_ok s" "fd_ok (s\<lparr>eax := w\<rparr>) = fd_ok s" "fd_ok (s\<lparr>fam := k\<rparr>) = fd_ok s"
  "fd_ok (s\<lparr>keys_read := n\<rparr>) = fd_ok s" "fd_ok (s\<lparr>screen := t\<rparr>) = fd_ok s" "fd_ok (s\<lparr>u_mem := m\<rparr>) = fd_ok s"
  by (simp_all add: fd_ok_def open_fd_def)

lemma close_all_ok:
  assumes "close_all n s = Some (r, s')" "fd_ok s" "n \<le> 128"
  shows "fd_ok s' \<and> (\<forall>i < 128. 128 - n \<le> i \<or> fds s ! i = None \<longrightarrow> fds s' ! i = None)"
  using assms
proof (induction n arbitrary: s)
  case (Suc n)
  let ?i = "128 - Suc n"
  have i: "?i < 128" "128 - n = Suc ?i" using Suc.prems(3) by simp_all
  have l: "length (fds s) = 128" using Suc.prems(2) by (simp add: fd_ok_def)
  show ?case
  proof (cases "fds s ! ?i")
    case None
    then have "close_all n s = Some (r, s')" using Suc.prems(1) by (simp add: Let_def)
    from Suc.IH [OF this Suc.prems(2)] Suc.prems(3) show ?thesis using None i(2) by (auto simp: not_less_eq_eq le_Suc_eq)
  next
    case (Some f)
    then obtain t where t: "file_close (Some f) (fs s) = Some t" "close_all n (s\<lparr>fs := t, fds := (fds s)[?i := None]\<rparr>) = Some (r, s')"
      using Suc.prems(1) by (auto simp: Let_def bind_eq_Some_conv)
    from Suc.IH [OF t(2) fd_ok_close [OF Suc.prems(2) i(1) Some t(1)]] Suc.prems(3) show ?thesis
      using i l by (auto simp: nth_list_update)
  qed
qed simp

lemma safe_exit_thread [safe]: "fd_safe exit_thread"
  unfolding fd_safe_def
proof (intro allI impI)
  fix s s' and r :: "'a flow" assume a: "exit_thread s = Some (r, s')" and ok: "fd_ok s"
  then obtain x where "close_all 128 s = Some (x, s')" by (auto simp: exit_thread_def elim!: afterE)
  from close_all_ok [OF this ok] have c: "fd_ok s'" "\<forall>i < 128. fds s' ! i = None" by simp_all
  then have "length (fds s') = 128" by (simp add: fd_ok_def)
  then have "fds s' = replicate 128 None" using c(2) by (simp add: list_eq_iff_nth_eq)
  then show "fd_ok s' \<and> (r = Exits \<longrightarrow> set (fds s') = {None})" using c(1) by simp
qed

lemma safe_exit [safe]: "fd_safe (sys_exit v)"
  by (auto simp: fd_safe_def sys_exit_def fd_ok_status dest!: fd_safeD [OF safe_exit_thread])

lemma safe_page_fault [safe]: "fd_safe (page_fault cs e a)"
  by (auto simp: fd_safe_def page_fault_def kill_def Let_def fd_ok_status split: if_splits
    dest!: fd_safeD [OF safe_exit] fd_safeD [OF safe_exit_thread])

lemma safe_load [safe]: "fd_safe (load_byte a)" "fd_safe (load_word a)" "fd_safe (load_all as)"
proof -
  show b: "fd_safe (load_byte a)" for a
    by (auto simp: fd_safe_def load_byte_def split: option.splits dest!: fd_safeD [OF safe_page_fault])
  show w: "fd_safe (load_word a)" for a unfolding load_word_def by (intro safe_after safe_go b)
  show "fd_safe (load_all as)" by (induction as) (auto intro!: safe_after safe_go w)
qed

lemma safe_check [safe]: "fd_safe (check_addr a)" "fd_safe (check_all as)" "fd_safe (args as)"
proof -
  show c: "fd_safe (check_addr a)" for a unfolding check_addr_def by (intro safe_if safe_exit safe_go)
  show d: "fd_safe (check_all as)" by (induction as) (auto intro!: safe_after safe_go c)
  show "fd_safe (args as)" unfolding args_def by (intro safe_after safe_load d)
qed

lemma safe_basic [safe]: "fd_safe (user_string p)" "fd_safe (store_bytes bs p)" "fd_safe (fd_get fd)"
  "fd_safe (non_null q)" "fd_safe (set_eax v)" "fd_safe halt" "fd_safe (sys_wait pid)" "fd_safe acquire" "fd_safe release"
  "fd_safe (\<lambda>s. Some (Go (), s\<lparr>keys_read := n s\<rparr>))"
  "fd_safe (\<lambda>s. let b = h s in if P b then Some (Go (), s\<lparr>screen := scr s b\<rparr>) else None)"
proof -
  have "store_bytes bs p s = Some (r, s') \<Longrightarrow> fd_ok s \<Longrightarrow> fd_ok s' \<and> r \<noteq> Exits" for s r s'
    by (induction bs arbitrary: p s) (auto simp: fd_ok_status split: if_splits)
  then show "fd_safe (store_bytes bs p)" by (auto simp: fd_safe_def)
qed (auto simp: fd_safe_def user_string_def fd_get_def non_null_def set_eax_def halt_def sys_wait_def acquire_def release_def
  Let_def bind_eq_Some_conv fd_ok_status split: if_splits option.splits)

lemma fd_ok_opened:
  assumes "fd_ok s" "filesys_open name (fs s) = Some (p, t)"
  shows "fd_ok (s\<lparr>fs := t\<rparr>) \<and> (\<forall>f. p = Some f \<longrightarrow> open_fd (s\<lparr>fs := t\<rparr>) f \<and> Some f \<notin> set (fds s))"
proof (cases p)
  case None
  then show ?thesis using filesys_open_files [OF assms(2)] fd_ok_fs [OF same_keeps assms(1)] by simp
next
  case (Some f)
  then have t: "mallocs (fs s) \<le> f" "f < mallocs t" "dom (files t) = insert f (dom (files (fs s)))" "free_map_file t = free_map_file (fs s)"
    using filesys_open_files [OF assms(2)] by simp_all
  have old: "Some g \<in> set (fds s) \<Longrightarrow> g < mallocs (fs s) \<and> g \<in> dom (files (fs s)) \<and> free_map_file (fs s) \<noteq> Some g" for g
    using assms(1) unfolding fd_ok_def open_fd_def by (metis domIff)
  have lim: "\<forall>g \<in> dom (files (fs s)). g < mallocs (fs s)" "\<forall>g. free_map_file (fs s) = Some g \<longrightarrow> g < mallocs (fs s)"
    using assms(1) unfolding fd_ok_def by blast+
  have "open_fd (s\<lparr>fs := t\<rparr>) g" if "Some g \<in> set (fds s)" for g
    using old [OF that] t(3,4) by (auto simp: open_fd_def domIff set_eq_iff)
  moreover have "\<forall>g \<in> dom (files t). g < mallocs t" "\<forall>g. free_map_file t = Some g \<longrightarrow> g < mallocs t"
  proof -
    have "mallocs (fs s) \<le> mallocs t" using t(1,2) by simp
    then show "\<forall>g \<in> dom (files t). g < mallocs t" "\<forall>g. free_map_file t = Some g \<longrightarrow> g < mallocs t"
      unfolding t(3,4) using lim t(2) by (metis insert_iff less_le_trans, metis less_le_trans)
  qed
  ultimately have "fd_ok (s\<lparr>fs := t\<rparr>)" using assms(1) unfolding fd_ok_def by (auto simp del: not_None_eq)
  moreover have "open_fd (s\<lparr>fs := t\<rparr>) f" using t lim(2) by (force simp: open_fd_def domIff set_eq_iff)
  moreover have "Some f \<notin> set (fds s)" using old t(1) by (meson not_less)
  ultimately show ?thesis using Some by simp
qed

lemma safe_open_op [safe]: "fd_safe (fs_op (filesys_open name))"
  by (auto simp: fd_safe_def fs_op_def bind_eq_Some_conv dest: fd_ok_opened)

lemma free_fd_ok: "free_fd l = Some i \<Longrightarrow> i < 128 \<and> l ! i = None"
proof -
  assume "free_fd l = Some i"
  then obtain k where k: "k < length [3..<128]" "l ! ([3..<128] ! k) = None" "i = [3..<128] ! k"
    unfolding free_fd_def find_Some_iff by blast
  have "[3..<128] ! k \<in> set [3..<128 :: nat]" using k(1) by (rule nth_mem)
  then have "[3..<128] ! k < (128 :: nat)" unfolding set_upt by simp
  then show ?thesis using k by simp
qed

text \<open>Installing a file that no descriptor holds.\<close>

lemma fd_ok_install:
  assumes "fd_ok s" "i < 128" "\<forall>f. p = Some f \<longrightarrow> open_fd s f \<and> Some f \<notin> set (fds s)"
  shows "fd_ok (s\<lparr>fds := (fds s)[i := p]\<rparr>)"
proof -
  have l: "length (fds s) = 128" using assms(1) by (simp add: fd_ok_def)
  have o: "open_fd (s\<lparr>fds := u\<rparr>) f = open_fd s f" for u f by (simp add: open_fd_def)
  have "Some f \<in> set ((fds s)[i := p]) \<Longrightarrow> open_fd s f" for f
  proof -
    assume "Some f \<in> set ((fds s)[i := p])"
    then have "Some f \<in> insert p (set (fds s))" using set_update_subset_insert by fast
    then show ?thesis using assms(1,3) unfolding fd_ok_def by auto
  qed
  moreover have pair: "a = b" if "a < 128" "b < 128" "(fds s)[i := p] ! a \<noteq> None" "(fds s)[i := p] ! a = (fds s)[i := p] ! b" for a b
  proof -
    have in_set: "fds s ! c \<in> set (fds s)" if "c < 128" for c using that l by simp
    consider "a = i" "b = i" | "a = i" "b \<noteq> i" | "a \<noteq> i" "b = i" | "a \<noteq> i" "b \<noteq> i" by blast
    then show ?thesis
    proof cases
      case 2
      then have "p = fds s ! b" "p \<noteq> None" using that l by simp_all
      then show ?thesis using in_set [OF that(2)] assms(3) by (metis option.exhaust)
    next
      case 3
      then have "p = fds s ! a" "p \<noteq> None" using that l by simp_all
      then show ?thesis using in_set [OF that(1)] assms(3) by (metis option.exhaust)
    next
      case 4
      then have "fds s ! a \<noteq> None" "fds s ! a = fds s ! b" using that by simp_all
      then show ?thesis using that(1,2) assms(1) unfolding fd_ok_def by metis
    qed simp
  qed
  moreover have "\<forall>a < 128. \<forall>b < 128. (fds s)[i := p] ! a \<noteq> None \<longrightarrow> (fds s)[i := p] ! a = (fds s)[i := p] ! b \<longrightarrow> a = b"
    using pair by blast
  ultimately show ?thesis using assms(1) l unfolding fd_ok_def o by (auto simp: o simp del: not_None_eq)
qed

lemma safe_open [safe]: "fd_safe (sys_open p)"
proof -
  have 1: "fd_safe (\<lambda>s. if name = u_name s then after (non_null t) (\<lambda>f. fs_do (file_deny_write f)) s else go () s)" for name t
    by (intro safe safe_fs_do so_file_deny)
  have 2: "fd_safe (after (fs_op (filesys_open name)) (\<lambda>t. after (install_fd t) (k t)))"
    if "\<And>t x. fd_safe (k t x)" for name and k :: "nat option \<Rightarrow> int \<Rightarrow> int call"
    unfolding fd_safe_def
  proof (intro allI impI)
    fix s s' r assume a: "after (fs_op (filesys_open name)) (\<lambda>t. after (install_fd t) (k t)) s = Some (r, s')" and ok: "fd_ok s"
    from a obtain t u where t: "filesys_open name (fs s) = Some (t, u)" "after (install_fd t) (k t) (s\<lparr>fs := u\<rparr>) = Some (r, s')"
      by (rule afterE) (auto simp: fs_op_def bind_eq_Some_conv)
    from fd_ok_opened [OF ok t(1)] have o: "fd_ok (s\<lparr>fs := u\<rparr>)" "\<forall>f. t = Some f \<longrightarrow> open_fd (s\<lparr>fs := u\<rparr>) f \<and> Some f \<notin> set (fds (s\<lparr>fs := u\<rparr>))"
      by simp_all
    have "install_fd t (s\<lparr>fs := u\<rparr>) = Some (f, v) \<Longrightarrow> fd_ok v \<and> (\<exists>x. f = Go x)" for f v
      using fd_ok_install [OF o(1) _ o(2)] o(1) by (auto simp: install_fd_def dest!: free_fd_ok split: option.splits)
    with t(2) show "fd_ok s' \<and> (r = Exits \<longrightarrow> set (fds s') = {None})"
      by (elim afterE) (auto dest: fd_safeD [OF that])
  qed
  show ?thesis unfolding sys_open_def
    by (rule safe_if, rule safe_exit, rule safe_after, rule safe_basic, rule 2, intro safe_after safe_go 1)
qed

lemma safe_close [safe]: "fd_safe (sys_close fd)"
  unfolding fd_safe_def
proof (intro allI impI)
  fix s r s' assume a: "sys_close fd s = Some (r, s')" and ok: "fd_ok s"
  from a have fd: "0 \<le> fd" "fd < 128" and s': "r = Go () \<and> (\<exists>t. file_close (fds s ! nat fd) (fs s) = Some t \<and>
      s' = s\<lparr>fds := (fds s)[nat fd := None], fs := t\<rparr>)"
    by (auto simp: sys_close_def fd_get_def fd_set_def fs_do_def bind_eq_Some_conv elim!: afterE split: if_splits)
  then obtain t where t: "file_close (fds s ! nat fd) (fs s) = Some t" "s' = s\<lparr>fds := (fds s)[nat fd := None], fs := t\<rparr>" by blast
  have i: "nat fd < 128" using fd by simp
  have "fd_ok s'"
  proof (cases "fds s ! nat fd")
    case None
    then have "t = fs s" using t(1) by (simp add: file_close_def)
    then show ?thesis using t(2) fd_ok_install [OF ok i, of None] by simp
  next
    case (Some f)
    then have "fd_ok (s\<lparr>fs := t, fds := (fds s)[nat fd := None]\<rparr>)" using fd_ok_close [OF ok i] t(1) by simp
    also have "s\<lparr>fs := t, fds := (fds s)[nat fd := None]\<rparr> = s'" unfolding t(2) by simp
    finally show ?thesis .
  qed
  then show "fd_ok s' \<and> (r = Exits \<longrightarrow> set (fds s') = {None})" using s' by simp
qed

lemma safe_calls [safe]: "fd_safe (sys_exec p)" "fd_safe (sys_create p n)" "fd_safe (sys_remove p)"
  "fd_safe (sys_filesize fd)" "fd_safe (sys_seek fd n)" "fd_safe (sys_tell fd)" "fd_safe (sys_read fd p n)" "fd_safe (sys_write fd p n)"
proof -
  have "fd_safe (\<lambda>s. do { k \<leftarrow> process_execute (spawn s) (fam s);
            Some (if parent_pc k = User then Go (result k) else Waits, s\<lparr>fam := k\<rparr>) } :: (int flow \<times> sys) option)"
    by (auto simp: fd_safe_def bind_eq_Some_conv fd_ok_status)
  then show "fd_safe (sys_exec p)" unfolding sys_exec_def by (intro safe)
  show "fd_safe (sys_create p n)" "fd_safe (sys_remove p)" unfolding sys_create_def sys_remove_def
    by (intro safe safe_fs_op; auto dest: same_keeps kf_filesys_create kf_filesys_remove)+
  show "fd_safe (sys_filesize fd)" "fd_safe (sys_tell fd)" "fd_safe (sys_seek fd n)"
    unfolding sys_filesize_def sys_tell_def sys_seek_def by (intro safe safe_fs_do so_file_seek; assumption?)+
  have r: "fd_safe (fs_op (file_read f k))" for f k by (rule safe_fs_op) (rule so_file_read)
  have w: "fd_safe (\<lambda>s. fs_op (file_write f (h s) k) s)" for f k h
    by (auto simp: fd_safe_def fs_op_def bind_eq_Some_conv intro: fd_ok_fs so_file_write)
  show "fd_safe (sys_read fd p n)" unfolding sys_read_def by (intro safe) (auto intro!: safe r split: option.splits)
  show "fd_safe (sys_write fd p n)" unfolding sys_write_def by (intro safe) (auto intro!: safe w split: option.splits)
qed

lemma safe_case: "fd_safe (syscall_case esp nr)"
proof -
  have "fd_safe (\<lambda>s. do { v \<leftarrow> fibonacci n; set_eax v s })" for n
    by (auto simp: fd_safe_def set_eax_def bind_eq_Some_conv fd_ok_status)
  then show ?thesis unfolding syscall_case_def by (auto intro!: safe split: option.split syscall_nr.split)
qed


definition closing_sys :: sys where
  "closing_sys = demo_sys\<lparr>u_mem := (\<lambda>a. if 0x1000 \<le> a \<and> a < 0x2000 then Some (if a = 0x1000 then 12 else if a = 0x1004 then 3 else 0) else None),
     fs := demo_map_fs\<lparr>files := [6 \<mapsto> \<lparr>f_inode = 7, f_pos = 0, f_deny_write = False\<rparr>, 8 \<mapsto> \<lparr>f_inode = 7, f_pos = 4, f_deny_write = False\<rparr>],
       inodes := [7 \<mapsto> \<lparr>i_sector = 0, i_open_cnt = 2, i_removed = False, i_deny_write_cnt = 0, i_data = \<lparr>d_start = 1, d_length = 4, d_magic = INODE_MAGIC\<rparr>\<rparr>],
       mallocs := 20\<rparr>,
     fds := (replicate 128 None)[3 := Some 8]\<rparr>"


end
