(* ===== verification/Pagedir.thy ===== *)
theory Pagedir
  imports Palloc
begin

text \<open>
  Page directories: the entries of \<^verbatim>\<open>threads/pte.h\<close> and the operations of
  \<^verbatim>\<open>userprog/pagedir.c\<close>, on the bytes of kernel memory that the page allocator manages.  The page
  directory base register is part of the state; an access never leaves the memory of the machine.
\<close>

section \<open>Memory and entries\<close>

definition load32 :: "(ptr \<Rightarrow> u8) \<Rightarrow> ptr \<Rightarrow> u32" where
  "load32 m a = le_word [m a, m (a + 1), m (a + 2), m (a + 3)]"

definition store32 :: "(ptr \<Rightarrow> u8) \<Rightarrow> ptr \<Rightarrow> u32 \<Rightarrow> ptr \<Rightarrow> u8" where
  "store32 m a v = m(a := le_bytes v ! 0, a + 1 := le_bytes v ! 1, a + 2 := le_bytes v ! 2, a + 3 := le_bytes v ! 3)"

record mmu =
  pal :: palloc_state
  cr3 :: u32
  init_page_dir :: ptr
  ram_pages :: u32

definition get32 :: "mmu \<Rightarrow> ptr \<Rightarrow> u32" where
  "get32 st a = load32 (bytes (pal st)) a"

definition put32 :: "ptr \<Rightarrow> u32 \<Rightarrow> mmu \<Rightarrow> mmu" where
  "put32 a v st = st\<lparr>pal := (pal st)\<lparr>bytes := store32 (bytes (pal st)) a v\<rparr>\<rparr>"

definition PTSHIFT :: nat where "PTSHIFT = PGBITS"
definition PTBITS :: nat where "PTBITS = 10"
definition PTMASK :: u32 where "PTMASK = push_bit PTSHIFT (push_bit PTBITS 1 - 1)"
definition PDSHIFT :: nat where "PDSHIFT = PTSHIFT + PTBITS"

definition pt_no :: "ptr \<Rightarrow> u32" where "pt_no va = drop_bit PTSHIFT (va AND PTMASK)"
definition pd_no :: "ptr \<Rightarrow> u32" where "pd_no va = drop_bit PDSHIFT va"

definition PTE_ADDR :: u32 where "PTE_ADDR = 0xfffff000"
definition PTE_P :: u32 where "PTE_P = 0x1"
definition PTE_W :: u32 where "PTE_W = 0x2"
definition PTE_U :: u32 where "PTE_U = 0x4"
definition PTE_A :: u32 where "PTE_A = 0x20"
definition PTE_D :: u32 where "PTE_D = 0x40"

definition pde_create :: "ptr \<Rightarrow> u32 option" where
  "pde_create pt = do { chk (pg_ofs pt = 0); p \<leftarrow> vtop pt; Some (p OR PTE_U OR PTE_P OR PTE_W) }"

definition pde_get_pt :: "u32 \<Rightarrow> ptr option" where
  "pde_get_pt pde = do { chk (pde AND PTE_P \<noteq> 0); ptov (pde AND PTE_ADDR) }"

definition pte_create_kernel :: "ptr \<Rightarrow> bool \<Rightarrow> u32 option" where
  "pte_create_kernel page writable = do {
     chk (pg_ofs page = 0);
     p \<leftarrow> vtop page;
     Some (p OR PTE_P OR (if writable then PTE_W else 0)) }"

definition pte_create_user :: "ptr \<Rightarrow> bool \<Rightarrow> u32 option" where
  "pte_create_user page writable = do { e \<leftarrow> pte_create_kernel page writable; Some (e OR PTE_U) }"

definition pte_get_page :: "u32 \<Rightarrow> ptr option" where
  "pte_get_page pte = ptov (pte AND PTE_ADDR)"

section \<open>The operations\<close>

definition active_pd :: "mmu \<Rightarrow> ptr option" where
  "active_pd st = ptov (cr3 st)"

definition pagedir_activate :: "ptr \<Rightarrow> mmu \<Rightarrow> mmu option" where
  "pagedir_activate pd st = do {
     let pd = (if pd = NULL then init_page_dir st else pd);
     p \<leftarrow> vtop pd;
     Some (st\<lparr>cr3 := p\<rparr>) }"

definition invalidate_pagedir :: "ptr \<Rightarrow> mmu \<Rightarrow> mmu option" where
  "invalidate_pagedir pd st = do {
     a \<leftarrow> active_pd st;
     if a = pd then pagedir_activate pd st else Some st }"

definition pagedir_create :: "mmu \<Rightarrow> (ptr \<times> mmu) option" where
  "pagedir_create st = do {
     (pd, al) \<leftarrow> palloc_get_page 0 (pal st);
     let al = (if pd \<noteq> NULL
       then al\<lparr>bytes := (\<lambda>a. if a - pd < PGSIZE then bytes al (init_page_dir st + (a - pd)) else bytes al a)\<rparr> else al);
     Some (pd, st\<lparr>pal := al\<rparr>) }"

text \<open>The address of an entry, or null.\<close>

definition lookup_page :: "ptr \<Rightarrow> ptr \<Rightarrow> bool \<Rightarrow> mmu \<Rightarrow> (ptr \<times> mmu) option" where
  "lookup_page pd va create st = do {
     chk (pd \<noteq> NULL);
     chk (\<not> create \<or> is_user_vaddr va);
     let pde = pd + 4 * pd_no va;
     (found, st) \<leftarrow>
       (if get32 st pde = 0
        then if create
          then do {
            (pt, al) \<leftarrow> palloc_get_page PAL_ZERO (pal st);
            let st = st\<lparr>pal := al\<rparr>;
            if pt = NULL then Some (False, st)
            else do { e \<leftarrow> pde_create pt; Some (True, put32 pde e st) } }
          else Some (False, st)
        else Some (True, st));
     if \<not> found then Some (NULL, st)
     else do { pt \<leftarrow> pde_get_pt (get32 st pde); Some (pt + 4 * pt_no va, st) } }"

definition pagedir_set_page :: "ptr \<Rightarrow> ptr \<Rightarrow> ptr \<Rightarrow> bool \<Rightarrow> mmu \<Rightarrow> (bool \<times> mmu) option" where
  "pagedir_set_page pd upage kpage writable st = do {
     chk (pg_ofs upage = 0);
     chk (pg_ofs kpage = 0);
     chk (is_user_vaddr upage);
     p \<leftarrow> vtop kpage;
     chk (drop_bit PTSHIFT p < ram_pages st);
     chk (pd \<noteq> init_page_dir st);
     (pte, st) \<leftarrow> lookup_page pd upage True st;
     if pte \<noteq> NULL
     then do {
       chk (get32 st pte AND PTE_P = 0);
       e \<leftarrow> pte_create_user kpage writable;
       Some (True, put32 pte e st) }
     else Some (False, st) }"

definition pagedir_get_page :: "ptr \<Rightarrow> ptr \<Rightarrow> mmu \<Rightarrow> (ptr \<times> mmu) option" where
  "pagedir_get_page pd uaddr st = do {
     chk (is_user_vaddr uaddr);
     (pte, st) \<leftarrow> lookup_page pd uaddr False st;
     if pte \<noteq> NULL \<and> get32 st pte AND PTE_P \<noteq> 0
     then do { p \<leftarrow> pte_get_page (get32 st pte); Some (p + pg_ofs uaddr, st) }
     else Some (NULL, st) }"

definition pagedir_clear_page :: "ptr \<Rightarrow> ptr \<Rightarrow> mmu \<Rightarrow> mmu option" where
  "pagedir_clear_page pd upage st = do {
     chk (pg_ofs upage = 0);
     chk (is_user_vaddr upage);
     (pte, st) \<leftarrow> lookup_page pd upage False st;
     if pte \<noteq> NULL \<and> get32 st pte AND PTE_P \<noteq> 0
     then invalidate_pagedir pd (put32 pte (get32 st pte AND NOT PTE_P) st)
     else Some st }"

text \<open>The four operations on the accessed and the dirty bit.\<close>

definition pagedir_is_dirty :: "ptr \<Rightarrow> ptr \<Rightarrow> mmu \<Rightarrow> (bool \<times> mmu) option" where
  "pagedir_is_dirty pd vpage st = do {
     (pte, st) \<leftarrow> lookup_page pd vpage False st;
     Some (pte \<noteq> NULL \<and> get32 st pte AND PTE_D \<noteq> 0, st) }"

definition pagedir_set_dirty :: "ptr \<Rightarrow> ptr \<Rightarrow> bool \<Rightarrow> mmu \<Rightarrow> mmu option" where
  "pagedir_set_dirty pd vpage dirty st = do {
     (pte, st) \<leftarrow> lookup_page pd vpage False st;
     if pte \<noteq> NULL
     then if dirty then Some (put32 pte (get32 st pte OR PTE_D) st)
       else invalidate_pagedir pd (put32 pte (get32 st pte AND NOT PTE_D) st)
     else Some st }"

definition pagedir_is_accessed :: "ptr \<Rightarrow> ptr \<Rightarrow> mmu \<Rightarrow> (bool \<times> mmu) option" where
  "pagedir_is_accessed pd vpage st = do {
     (pte, st) \<leftarrow> lookup_page pd vpage False st;
     Some (pte \<noteq> NULL \<and> get32 st pte AND PTE_A \<noteq> 0, st) }"

definition pagedir_set_accessed :: "ptr \<Rightarrow> ptr \<Rightarrow> bool \<Rightarrow> mmu \<Rightarrow> mmu option" where
  "pagedir_set_accessed pd vpage accessed st = do {
     (pte, st) \<leftarrow> lookup_page pd vpage False st;
     if pte \<noteq> NULL
     then if accessed then Some (put32 pte (get32 st pte OR PTE_A) st)
       else invalidate_pagedir pd (put32 pte (get32 st pte AND NOT PTE_A) st)
     else Some st }"

definition free_page :: "ptr \<Rightarrow> mmu \<Rightarrow> mmu option" where
  "free_page p st = do { al \<leftarrow> palloc_free_page p (pal st); Some (st\<lparr>pal := al\<rparr>) }"

text \<open>The loops of \<^verbatim>\<open>pagedir_destroy\<close>: \<open>n\<close> entries are left, from address \<open>a\<close> on.\<close>

primrec destroy_table :: "nat \<Rightarrow> ptr \<Rightarrow> mmu \<Rightarrow> mmu option" where
  "destroy_table 0 a st = Some st" |
  "destroy_table (Suc n) a st = do {
     st \<leftarrow> (if get32 st a AND PTE_P \<noteq> 0 then do { p \<leftarrow> pte_get_page (get32 st a); free_page p st } else Some st);
     destroy_table n (a + 4) st }"

primrec destroy_directory :: "nat \<Rightarrow> ptr \<Rightarrow> mmu \<Rightarrow> mmu option" where
  "destroy_directory 0 a st = Some st" |
  "destroy_directory (Suc n) a st = do {
     st \<leftarrow> (if get32 st a AND PTE_P \<noteq> 0
           then do { pt \<leftarrow> pde_get_pt (get32 st a); st \<leftarrow> destroy_table 1024 pt st; free_page pt st }
           else Some st);
     destroy_directory n (a + 4) st }"

definition pagedir_destroy :: "ptr \<Rightarrow> mmu \<Rightarrow> mmu option" where
  "pagedir_destroy pd st =
     (if pd = NULL then Some st
      else do {
        chk (pd \<noteq> init_page_dir st);
        st \<leftarrow> destroy_directory (unat (pd_no PHYS_BASE)) pd st;
        free_page pd st })"

section \<open>Words of memory\<close>

text \<open>A page is known by its address; \<open>word_at m p i\<close> is its \<open>i\<close>-th word.\<close>

definition page :: "ptr \<Rightarrow> bool" where
  "page p \<longleftrightarrow> unat p mod 4096 = 0"

definition word_at :: "(ptr \<Rightarrow> u8) \<Rightarrow> ptr \<Rightarrow> nat \<Rightarrow> u32" where
  "word_at m p i = load32 m (p + 4 * of_nat i)"

lemma page_bound: "page p \<Longrightarrow> unat p + 4096 \<le> 2 ^ 32"
proof -
  assume p: "page p"
  have "unat p < 2 ^ 32" using unsigned_less [of p, where 'a = nat] by simp
  then have "unat p div 4096 \<le> 1048575" by (simp add: div_less_iff_less_mult flip: less_Suc_eq_le)
  moreover have "unat p = 4096 * (unat p div 4096)" using p by (auto simp: page_def)
  ultimately show ?thesis by simp
qed

lemma unat_in_page: "page p \<Longrightarrow> k < 4096 \<Longrightarrow> unat (p + of_nat k :: u32) = unat p + k"
  using page_bound [of p] by (simp add: unat_word_ariths unat_of_nat)

lemma unat_word_addr: "page p \<Longrightarrow> i < 1024 \<Longrightarrow> unat (p + 4 * of_nat i :: u32) = unat p + 4 * i"
  using unat_in_page [of p "4 * i"] by simp

lemma aligned_step:
  assumes "unat a mod 4 = 0" "k < 4"
  shows "unat (a + of_nat k :: u32) = unat a + k"
proof -
  have "unat a < 2 ^ 32" using unsigned_less [of a, where 'a = nat] by simp
  then have "unat a div 4 \<le> 1073741823" by (simp add: div_less_iff_less_mult flip: less_Suc_eq_le)
  moreover have "unat a = 4 * (unat a div 4)" using assms(1) by auto
  ultimately have "unat a + k < 2 ^ 32" using assms(2) by simp
  then show ?thesis using assms(2) by (simp add: unat_word_ariths unat_of_nat)
qed

lemma aligned_apart:
  assumes "unat a mod 4 = 0" "unat b mod 4 = 0" "k < 4" "l < 4" "a \<noteq> b"
  shows "a + of_nat k \<noteq> b + (of_nat l :: u32)"
proof
  assume "a + of_nat k = b + (of_nat l :: u32)"
  then have "unat a + k = unat b + l" using aligned_step [OF assms(1,3)] aligned_step [OF assms(2,4)] by simp
  then have "unat a = unat b" using assms(1-4) by presburger
  then show False using assms(5) by (simp add: word_unat_eq_iff)
qed

lemma load_store:
  assumes "unat a mod 4 = 0" "unat b mod 4 = 0"
  shows "load32 (store32 m a v) b = (if a = b then v else load32 m b)"
proof (cases "a = b")
  case True
  have n: "a \<noteq> a + 1" "a \<noteq> a + 2" "a \<noteq> a + 3" "a + 1 \<noteq> a + 2" "a + 1 \<noteq> a + 3" "a + 2 \<noteq> a + 3" by simp_all
  have "le_bytes v = [le_bytes v ! 0, le_bytes v ! 1, le_bytes v ! 2, le_bytes v ! 3]" by (simp add: le_bytes_def)
  then have "load32 (store32 m a v) a = le_word (le_bytes v @ [])" using n by (simp add: load32_def store32_def)
  then show ?thesis using True by simp
next
  case False
  have "store32 m a v (b + of_nat l) = m (b + of_nat l)" if "l < 4" for l
    using aligned_apart [OF assms _ that False, of 0] aligned_apart [OF assms _ that False, of 1]
      aligned_apart [OF assms _ that False, of 2] aligned_apart [OF assms _ that False, of 3] by (simp add: store32_def)
  from this [of 0] this [of 1] this [of 2] this [of 3] show ?thesis using False by (simp add: load32_def)
qed

lemma page_index:
  assumes "a mod 4096 = 0" "b mod 4096 = 0" "i < 1024" "j < (1024 :: nat)"
  shows "a + 4 * i = b + 4 * j \<longleftrightarrow> a = b \<and> i = j"
proof -
  have "a = 4096 * ((a + 4 * i) div 4096)" if "a mod 4096 = 0" "i < 1024" for a i :: nat
    using that by (auto elim!: dvdE simp flip: dvd_eq_mod_eq_0)
  from this [OF assms(1,3)] this [OF assms(2,4)] show ?thesis by (metis add_left_cancel mult_left_cancel zero_neq_numeral)
qed

lemma word_store:
  assumes "page p" "page q" "i < 1024" "j < 1024"
  shows "word_at (store32 m (p + 4 * of_nat i) v) q j = (if p = q \<and> i = j then v else word_at m q j)"
proof -
  have u: "unat (p + 4 * of_nat i :: u32) = unat p + 4 * i" "unat (q + 4 * of_nat j :: u32) = unat q + 4 * j"
    using assms by (simp_all add: unat_word_addr)
  have pq: "unat p mod 4096 = 0" "unat q mod 4096 = 0" using assms(1,2) by (simp_all add: page_def)
  have "p + 4 * of_nat i = q + 4 * of_nat j \<longleftrightarrow> unat p + 4 * i = unat q + 4 * j" by (simp add: word_unat_eq_iff u)
  also have "\<dots> \<longleftrightarrow> unat p = unat q \<and> i = j" by (rule page_index [OF pq assms(3,4)])
  finally have e: "p + 4 * of_nat i = q + 4 * of_nat j \<longleftrightarrow> p = q \<and> i = j" by (simp add: word_unat_eq_iff)
  have "(4096 :: nat) dvd unat p" "(4096 :: nat) dvd unat q" using pq by (simp_all add: dvd_eq_mod_eq_0)
  then have "(4 :: nat) dvd unat p" "(4 :: nat) dvd unat q" by (auto elim: dvd_trans [rotated])
  then have "unat (p + 4 * of_nat i) mod 4 = 0" "unat (q + 4 * of_nat j) mod 4 = 0"
    unfolding u by (simp_all flip: dvd_eq_mod_eq_0)
  then show ?thesis by (simp add: word_at_def load_store e)
qed

lemma page_gap:
  assumes "a mod 4096 = 0" "b mod 4096 = 0" "a \<noteq> b" "a < b + (4096 :: nat)"
  shows "a + 4096 \<le> b"
proof -
  obtain x y where "a = 4096 * x" "b = 4096 * y" using assms(1,2) by (metis dvdE dvd_eq_mod_eq_0)
  then show ?thesis using assms(3,4) by simp
qed

lemma word_fill:
  assumes "page p" "page q" "j < 1024"
  shows "word_at (fill p 0 PGSIZE m) q j = (if p = q then 0 else word_at m q j)"
proof -
  have *: "q + 4 * of_nat j + of_nat l - p < PGSIZE \<longleftrightarrow> p = q" if "l < 4" for l
  proof (cases "p = q")
    case True
    have "4 * j + l < 4096" using assms(3) that by simp
    moreover have "unat (of_nat (4 * j + l) :: u32) = 4 * j + l" by (rule unat_of_nat_small) (use calculation in simp)
    ultimately have "unat (of_nat (4 * j + l) :: u32) < 4096" by (simp only:)
    moreover have "q + 4 * of_nat j + of_nat l - q = (of_nat (4 * j + l) :: u32)" by simp
    ultimately show ?thesis using True by (simp add: PGSIZE_val word_less_nat_alt)
  next
    case False
    then have ne: "unat p \<noteq> unat q" by (simp add: word_unat_eq_iff)
    have "4 * j + l < 4096" using assms(3) that by simp
    from unat_in_page [OF assms(2) this] have u: "unat (q + 4 * of_nat j + of_nat l :: u32) = unat q + (4 * j + l)"
      by (simp add: add.assoc)
    have pq: "unat p mod 4096 = 0" "unat q mod 4096 = 0" using assms(1,2) by (simp_all add: page_def)
    have "\<not> unat (q + 4 * of_nat j + of_nat l - p) < 4096"
    proof (cases "unat p \<le> unat (q + 4 * of_nat j + of_nat l)")
      case True
      then have "unat (q + 4 * of_nat j + of_nat l - p) = unat q + (4 * j + l) - unat p"
        using unat_sub [of p "q + 4 * of_nat j + of_nat l"] u by (simp add: word_le_nat_alt)
      moreover have "unat p + 4096 \<le> unat q" using True u ne pq \<open>4 * j + l < 4096\<close> by (intro page_gap) auto
      ultimately show ?thesis by linarith
    next
      case F: False
      have "unat (q + 4 * of_nat j + of_nat l - p) = unat (q + 4 * of_nat j + of_nat l) + 2 ^ 32 - unat p"
        using F by (simp add: unat_sub_if')
      moreover have "unat p + 4096 \<le> 2 ^ 32" by (rule page_bound [OF assms(1)])
      ultimately show ?thesis by linarith
    qed
    then show ?thesis using False by (simp add: PGSIZE_val word_less_nat_alt)
  qed
  from * [of 0] * [of 1] * [of 2] * [of 3] show ?thesis
    by (auto simp: word_at_def load32_def fill_def le_word_def)
qed

section \<open>Entries\<close>

lemma page_0xC: "unat PHYS_BASE = 0xC0000000" "unat (- PHYS_BASE) = 0x40000000"
  by (simp_all add: PHYS_BASE_def)

lemma below_top: "p < - PHYS_BASE \<Longrightarrow> p < PHYS_BASE \<and> p + PHYS_BASE \<noteq> 0"
proof -
  assume "p < - PHYS_BASE"
  then have "p \<noteq> - PHYS_BASE" "unat p < 0x40000000" by (auto simp: word_less_nat_alt page_0xC)
  then show ?thesis by (auto simp: word_less_nat_alt page_0xC eq_neg_iff_add_eq_0)
qed

lemma unat_pd_no: "unat (pd_no va) = unat va div 2 ^ 22"
  by (simp add: pd_no_def PDSHIFT_def PTSHIFT_def PGBITS_def PTBITS_def drop_bit_eq_div unat_div)

lemma unat_pt_no: "unat (pt_no va) = unat va div 4096 mod 1024"
proof -
  have e: "push_bit 10 1 - 1 = (mask 10 :: u32)" by (simp add: mask_eq_exp_minus_1)
  have "pt_no va = take_bit 10 (drop_bit 12 va)"
    unfolding pt_no_def PTMASK_def PTSHIFT_def PGBITS_def PTBITS_def e by (rule bit_word_eqI) (auto simp: bit_simps)
  then show ?thesis by (simp add: take_bit_eq_mod drop_bit_eq_div unat_mod unat_div)
qed

lemma vtop_page: "page p \<Longrightarrow> PHYS_BASE \<le> p \<Longrightarrow> vtop p = Some (p - PHYS_BASE) \<and> page (p - PHYS_BASE) \<and> p - PHYS_BASE < - PHYS_BASE"
proof -
  assume p: "page p" "PHYS_BASE \<le> p"
  have "unat p < 2 ^ 32" using unsigned_less [of p, where 'a = nat] by simp
  have u: "unat (p - PHYS_BASE) = unat p - 0xC0000000" using p(2) by (simp add: unat_sub word_le_nat_alt page_0xC)
  have "(4096 :: nat) dvd unat p - 0xC0000000" using p(1) by (intro dvd_diff_nat) (simp_all add: page_def dvd_eq_mod_eq_0)
  then show ?thesis using p \<open>unat p < 2 ^ 32\<close>
    by (simp add: vtop_def is_kernel_vaddr_def page_def u word_less_nat_alt page_0xC flip: dvd_eq_mod_eq_0)
qed

lemma addr_bits:
  assumes "page p" "f AND PTE_ADDR = 0"
  shows "(p OR f) AND PTE_ADDR = p"
proof -
  have "take_bit 12 p = 0" using assms(1) by (simp add: page_def take_bit_eq_mod word_unat_eq_iff unat_mod)
  then have "\<not> bit (take_bit 12 p) n" for n by simp
  then have low: "bit p n \<Longrightarrow> 12 \<le> n" for n unfolding bit_take_bit_iff by (meson not_le)
  have m: "PTE_ADDR = NOT (mask 12)" by (simp add: PTE_ADDR_def mask_eq_exp_minus_1)
  have "bit (p AND NOT (mask 12)) n = bit p n" if "n < 32" for n using low [of n] that by (auto simp: bit_simps)
  then have "p AND PTE_ADDR = p" unfolding m by (intro bit_word_eqI) simp
  moreover have "(p OR f) AND PTE_ADDR = (p AND PTE_ADDR) OR (f AND PTE_ADDR)" by (simp add: bit.conj_disj_distrib2)
  ultimately show ?thesis using assms(2) by simp
qed

lemma page_ofs: "page p \<longleftrightarrow> pg_ofs p = 0"
  by (simp add: page_def word_unat_eq_iff unat_pg_ofs)

lemma pde_ok:
  assumes "page pt" "PHYS_BASE \<le> pt"
  shows "\<exists>e. pde_create pt = Some e \<and> e \<noteq> 0 \<and> pde_get_pt e = Some pt"
proof -
  note v = vtop_page [OF assms]
  let ?e = "(pt - PHYS_BASE) OR (PTE_U OR PTE_P OR PTE_W)"
  have P: "?e AND PTE_P \<noteq> 0"
  proof -
    have "bit (?e AND PTE_P) 0" by (simp add: bit_simps PTE_P_def PTE_U_def PTE_W_def)
    then show ?thesis by auto
  qed
  then have "?e \<noteq> 0" by auto
  moreover have "?e AND PTE_ADDR = pt - PHYS_BASE" using v by (intro addr_bits) (simp_all add: PTE_U_def PTE_P_def PTE_W_def PTE_ADDR_def)
  ultimately show ?thesis using v P assms(1) below_top [of "pt - PHYS_BASE"]
    by (intro exI [of _ ?e]) (simp add: pde_create_def pde_get_pt_def page_ofs ptov_def or.assoc)
qed

lemma pte_ok:
  assumes "page kp" "PHYS_BASE \<le> kp"
  shows "\<exists>e. pte_create_user kp w = Some e \<and> e AND PTE_P \<noteq> 0 \<and> e AND PTE_ADDR < - PHYS_BASE \<and> pte_get_page e = Some kp"
proof -
  note v = vtop_page [OF assms]
  let ?e = "(kp - PHYS_BASE) OR (PTE_P OR (if w then PTE_W else 0) OR PTE_U)"
  have P: "?e AND PTE_P \<noteq> 0"
  proof -
    have "bit (?e AND PTE_P) 0" by (simp add: bit_simps PTE_P_def PTE_U_def PTE_W_def)
    then show ?thesis by auto
  qed
  moreover have "?e AND PTE_ADDR = kp - PHYS_BASE"
    using v by (intro addr_bits) (simp_all add: PTE_U_def PTE_P_def PTE_W_def PTE_ADDR_def)
  ultimately show ?thesis using v assms(1) below_top [of "kp - PHYS_BASE"]
    by (intro exI [of _ ?e]) (simp add: pte_create_user_def pte_create_kernel_def pte_get_page_def page_ofs ptov_def or.assoc)
qed

section \<open>Well-formed page directories\<close>

definition kernel_page :: "mmu \<Rightarrow> ptr \<Rightarrow> bool" where
  "kernel_page st a \<longleftrightarrow> (\<exists>i \<in> used_pages (kernel_pool (pal st)). a = base (kernel_pool (pal st)) + PGSIZE * of_nat i)"

definition pde_at :: "mmu \<Rightarrow> ptr \<Rightarrow> nat \<Rightarrow> u32" where
  "pde_at st pd i = word_at (bytes (pal st)) pd i"

definition table :: "mmu \<Rightarrow> ptr \<Rightarrow> nat \<Rightarrow> ptr option" where
  "table st pd i = (if pde_at st pd i = 0 then None else pde_get_pt (pde_at st pd i))"

text \<open>The entry for page number \<open>n\<close>.\<close>

definition entry :: "mmu \<Rightarrow> ptr \<Rightarrow> nat \<Rightarrow> u32" where
  "entry st pd n = (case table st pd (n div 1024) of None \<Rightarrow> 0 | Some pt \<Rightarrow> word_at (bytes (pal st)) pt (n mod 1024))"

definition pd_ok :: "mmu \<Rightarrow> ptr \<Rightarrow> bool" where
  "pd_ok st pd \<longleftrightarrow> pools_ok (pal st) \<and> PHYS_BASE \<le> base (kernel_pool (pal st)) \<and> kernel_page st pd \<and> pd \<noteq> init_page_dir st \<and>
     (\<forall>i<768. pde_at st pd i \<noteq> 0 \<longrightarrow> (\<exists>pt. pde_get_pt (pde_at st pd i) = Some pt \<and> kernel_page st pt \<and> pt \<noteq> pd)) \<and>
     (\<forall>i<768. \<forall>j<768. table st pd i \<noteq> None \<longrightarrow> table st pd i = table st pd j \<longrightarrow> i = j) \<and>
     (\<forall>n<786432. entry st pd n AND PTE_P \<noteq> 0 \<longrightarrow> entry st pd n AND PTE_ADDR < - PHYS_BASE)"

lemma kernel_page_ok:
  assumes "pools_ok (pal st)" "PHYS_BASE \<le> base (kernel_pool (pal st))" "kernel_page st a"
  shows "page a" "PHYS_BASE \<le> a" "a \<noteq> NULL"
proof -
  obtain i where i: "i < page_count (kernel_pool (pal st))" "a = base (kernel_pool (pal st)) + PGSIZE * of_nat i"
    using assms(3) by (auto simp: kernel_page_def used_pages_def)
  have k: "pool_ok (kernel_pool (pal st))" using assms(1) by (simp add: pools_ok_def)
  have "page_count (kernel_pool (pal st)) < 2 ^ 32"
    using unsigned_less [of "bit_cnt (used_map (kernel_pool (pal st)))", where 'a = nat] by (simp add: page_count_def)
  then have u: "unat (of_nat i :: u32) = i" using i(1) by (intro unat_of_nat_small) simp
  note A = page_address [OF k, of "of_nat i", unfolded u]
  show "a \<noteq> NULL" "page a" using A(2,3) i by (simp_all add: page_ofs)
  show "PHYS_BASE \<le> a" using A(1) i assms(2) by (simp add: word_le_nat_alt)
qed

lemma user_page_number:
  assumes "is_user_vaddr va"
  shows "unat (pg_no va) < 786432" "unat (pd_no va) = unat (pg_no va) div 1024" "unat (pt_no va) = unat (pg_no va) mod 1024"
    "unat (pd_no va) < 768"
proof -
  have "unat va < 786432 * 4096" using assms by (simp add: is_user_vaddr_def word_less_nat_alt page_0xC)
  then show n: "unat (pg_no va) < 786432" unfolding unat_pg_no by (subst div_less_iff_less_mult) simp_all
  show d: "unat (pd_no va) = unat (pg_no va) div 1024"
    unfolding unat_pd_no unat_pg_no using div_mult2_eq [of "unat va" 4096 1024] by simp
  show "unat (pt_no va) = unat (pg_no va) mod 1024" unfolding unat_pt_no unat_pg_no ..
  show "unat (pd_no va) < 768" unfolding d using n by (subst div_less_iff_less_mult) simp_all
qed

lemma unat_eq_iff: "unat a = unat b \<longleftrightarrow> a = b" for a b :: u32
  by (simp add: word_unat_eq_iff)

lemma of_nat_unat_word: "(of_nat (unat w) :: u32) = w" for w :: u32
  by simp

lemma table_page:
  assumes "pd_ok st pd" "i < 768" "table st pd i = Some pt"
  shows "page pt" "PHYS_BASE \<le> pt" "pt \<noteq> NULL" "kernel_page st pt" "pt \<noteq> pd"
proof -
  have k: "kernel_page st pt" "pt \<noteq> pd" using assms by (auto simp: pd_ok_def table_def split: if_splits)
  moreover have "pools_ok (pal st)" "PHYS_BASE \<le> base (kernel_pool (pal st))" using assms(1) by (simp_all add: pd_ok_def)
  ultimately show "page pt" "PHYS_BASE \<le> pt" "pt \<noteq> NULL" "kernel_page st pt" "pt \<noteq> pd" using kernel_page_ok by blast+
qed

lemma lookup_existing:
  assumes ok: "pd_ok st pd" and va: "is_user_vaddr va" and t: "create \<longrightarrow> table st pd (unat (pd_no va)) \<noteq> None"
  shows "lookup_page pd va create st =
    Some (case table st pd (unat (pd_no va)) of None \<Rightarrow> NULL | Some pt \<Rightarrow> pt + 4 * of_nat (unat (pg_no va) mod 1024), st)"
proof -
  have pd: "pd \<noteq> NULL" using kernel_page_ok(3) [of st pd] ok by (auto simp: pd_ok_def)
  have g: "get32 st (pd + 4 * pd_no va) = pde_at st pd (unat (pd_no va))" by (simp add: get32_def pde_at_def word_at_def)
  have n: "(of_nat (unat (pg_no va) mod 1024) :: u32) = pt_no va" using user_page_number(3) [OF va] by (metis of_nat_unat_word)
  show ?thesis
  proof (cases "table st pd (unat (pd_no va))")
    case None
    then have "pde_at st pd (unat (pd_no va)) = 0" using ok user_page_number(4) [OF va] by (auto simp: table_def pd_ok_def split: if_splits)
    then show ?thesis using None pd va t by (simp add: lookup_page_def g)
  next
    case (Some pt)
    then have "pde_at st pd (unat (pd_no va)) \<noteq> 0" "pde_get_pt (pde_at st pd (unat (pd_no va))) = Some pt"
      by (simp_all add: table_def split: if_splits)
    then show ?thesis using Some pd va by (simp add: lookup_page_def g n)
  qed
qed

lemma entry_get32:
  "table st pd (unat (pg_no va) div 1024) = Some pt \<Longrightarrow>
   get32 st (pt + 4 * of_nat (unat (pg_no va) mod 1024)) = entry st pd (unat (pg_no va))"
  by (simp add: entry_def get32_def word_at_def)

lemma word_addr_nonnull: "page pt \<Longrightarrow> pt \<noteq> NULL \<Longrightarrow> i < 1024 \<Longrightarrow> pt + 4 * of_nat i \<noteq> NULL"
proof -
  assume p: "page pt" "pt \<noteq> NULL" "i < 1024"
  have "unat pt \<noteq> 0" using p(2) by (simp add: unat_eq_0)
  then have "unat (pt + 4 * of_nat i) \<noteq> 0" unfolding unat_word_addr [OF p(1,3)] by simp
  then show ?thesis by auto
qed

definition mapped_page :: "mmu \<Rightarrow> ptr \<Rightarrow> ptr \<Rightarrow> ptr" where
  "mapped_page st pd va =
     (if entry st pd (unat (pg_no va)) AND PTE_P \<noteq> 0
      then (entry st pd (unat (pg_no va)) AND PTE_ADDR) + PHYS_BASE + pg_ofs va else NULL)"

lemma get_page_ok:
  assumes ok: "pd_ok st pd" and va: "is_user_vaddr va"
  shows "pagedir_get_page pd va st = Some (mapped_page st pd va, st)"
proof -
  note L = lookup_existing [OF ok va, of False]
  note n = user_page_number [OF va]
  show ?thesis
  proof (cases "table st pd (unat (pd_no va))")
    case None
    then show ?thesis using L va n(2) by (simp add: pagedir_get_page_def mapped_page_def entry_def)
  next
    case (Some pt)
    note T = table_page [OF ok n(4) Some]
    have a: "pt + 4 * of_nat (unat (pg_no va) mod 1024) \<noteq> NULL" by (rule word_addr_nonnull [OF T(1,3)]) simp
    have e: "get32 st (pt + 4 * of_nat (unat (pg_no va) mod 1024)) = entry st pd (unat (pg_no va))"
      using entry_get32 Some n(2) by simp
    have "entry st pd (unat (pg_no va)) AND PTE_ADDR < - PHYS_BASE" if "entry st pd (unat (pg_no va)) AND PTE_P \<noteq> 0"
      using ok that n(1) by (auto simp: pd_ok_def)
    then show ?thesis using L Some va a below_top [of "entry st pd (unat (pg_no va)) AND PTE_ADDR"]
      by (auto simp: pagedir_get_page_def mapped_page_def e pte_get_page_def ptov_def)
  qed
qed

section \<open>Creating tables and entries\<close>

text \<open>A state that differs from \<open>st\<close> by words of kernel pages only: what it takes to keep \<open>pd_ok\<close>.\<close>

lemma pd_okI:
  assumes ok: "pd_ok st pd" and p: "pools_ok (pal st')" "base (kernel_pool (pal st')) = base (kernel_pool (pal st))"
    "init_page_dir st' = init_page_dir st" and k: "\<And>a. kernel_page st a \<Longrightarrow> kernel_page st' a"
    and i: "i < 768" "table st' pd i = Some pt" "kernel_page st' pt" "pt \<noteq> pd" "\<And>j. j < 768 \<Longrightarrow> j \<noteq> i \<Longrightarrow> table st pd j \<noteq> Some pt"
    and d: "\<And>j. j < 768 \<Longrightarrow> j \<noteq> i \<Longrightarrow> pde_at st' pd j = pde_at st pd j"
    and e: "\<And>n. n < 786432 \<Longrightarrow> entry st' pd n AND PTE_P \<noteq> 0 \<Longrightarrow> entry st' pd n AND PTE_ADDR < - PHYS_BASE"
  shows "pd_ok st' pd"
proof -
  have t: "table st' pd j = table st pd j" if "j < 768" "j \<noteq> i" for j using d [OF that] by (simp add: table_def)
  have pde: "\<exists>q. pde_get_pt (pde_at st' pd j) = Some q \<and> kernel_page st' q \<and> q \<noteq> pd" if "j < 768" "pde_at st' pd j \<noteq> 0" for j
  proof (cases "j = i")
    case True
    then show ?thesis using i(2,3,4) by (auto simp: table_def split: if_splits)
  next
    case False
    then show ?thesis using ok that k unfolding pd_ok_def d [OF that(1) False] by metis
  qed
  have inj: "a = b" if "a < 768" "b < 768" "table st' pd a \<noteq> None" "table st' pd a = table st' pd b" for a b
  proof (cases "a = i \<or> b = i")
    case True
    then show ?thesis using that i(2,5) t by metis
  next
    case False
    then show ?thesis using that t ok unfolding pd_ok_def by metis
  qed
  have old: "PHYS_BASE \<le> base (kernel_pool (pal st))" "kernel_page st pd" "pd \<noteq> init_page_dir st"
    using ok by (simp_all add: pd_ok_def)
  show ?thesis unfolding pd_ok_def p(2,3) using p(1) old k pde inj e by blast
qed

lemma palloc_zero_page:
  assumes ok: "pd_ok st pd" and room: "\<not> no_room (kernel_pool (pal st)) 1"
  shows "\<exists>pt al. palloc_get_page PAL_ZERO (pal st) = Some (pt, al) \<and> pools_ok al \<and> page pt \<and> PHYS_BASE \<le> pt \<and> pt \<noteq> NULL \<and>
    base (kernel_pool al) = base (kernel_pool (pal st)) \<and> bytes al = fill pt 0 PGSIZE (bytes (pal st)) \<and>
    (\<forall>a. kernel_page st a \<longrightarrow> a \<noteq> pt) \<and> (\<forall>f a. (kernel_page st a \<or> a = pt) \<longrightarrow> kernel_page (st\<lparr>pal := al\<lparr>bytes := f\<rparr>\<rparr>) a)"
proof -
  let ?k = "kernel_pool (pal st)"
  have p: "pools_ok (pal st)" "PHYS_BASE \<le> base ?k" using ok by (simp_all add: pd_ok_def)
  then have pk: "pool_ok ?k" by (simp add: pools_ok_def)
  have pool: "the_pool PAL_ZERO a = kernel_pool a" for a by (simp add: the_pool_def PAL_ZERO_def PAL_USER_def)
  have z: "PAL_ZERO AND PAL_ZERO \<noteq> 0" by (simp add: PAL_ZERO_def)
  obtain i al where al: "palloc_get_multiple PAL_ZERO 1 (pal st) = Some (base ?k + PGSIZE * i, al)"
    "unat i + 1 \<le> page_count ?k" "{unat i..<unat i + 1} \<inter> used_pages ?k = {}"
    "pool_change PAL_ZERO (pal st) al (used_pages ?k \<union> {unat i..<unat i + 1})"
    "bytes al = fill (base ?k + PGSIZE * i) 0 (PGSIZE * 1) (bytes (pal st))"
    using palloc_get_ok [OF p(1), of 1 PAL_ZERO] room z by (auto simp: pool)
  have ch: "pools_ok al" "used_pages (kernel_pool al) = used_pages ?k \<union> {unat i}" "base (kernel_pool al) = base ?k"
    using al(4) by (simp_all add: pool_change_def pool)
  note A = page_address [OF pk, of i]
  have le: "unat i \<le> page_count ?k" using al(2) by simp
  have sep: "a \<noteq> base ?k + PGSIZE * i" if a: "kernel_page st a" for a
  proof
    assume e: "a = base ?k + PGSIZE * i"
    obtain j where j: "j \<in> used_pages ?k" "a = base ?k + PGSIZE * of_nat j" using a by (auto simp: kernel_page_def)
    then have "j < page_count ?k" by (simp add: used_pages_def)
    moreover have "page_count ?k < 2 ^ 32"
      using unsigned_less [of "bit_cnt (used_map ?k)", where 'a = nat] by (simp add: page_count_def)
    ultimately have "unat (of_nat j :: u32) = j" "j \<le> page_count ?k" by (simp_all add: unat_of_nat_small)
    then have "j = unat i" using page_address(1) [OF pk, of "of_nat j"] A(1) [OF le] j(2) e by simp
    then show False using al(3) j(1) by auto
  qed
  have b: "PHYS_BASE \<le> base ?k + PGSIZE * i" using A(1) [OF le] p(2) by (simp add: word_le_nat_alt)
  have "kernel_page (st\<lparr>pal := al\<lparr>bytes := f\<rparr>\<rparr>) a" if "kernel_page st a \<or> a = base ?k + PGSIZE * i" for f a
    using that ch(2,3) by (auto simp: kernel_page_def)
  then show ?thesis using al(1,5) ch(1,3) A(2,3) [OF le] b sep
    by (intro exI [of _ "base ?k + PGSIZE * i"] exI [of _ al]) (simp add: palloc_get_page_def page_ofs)
qed

lemma create_table_ok:
  assumes ok: "pd_ok st pd" and va: "is_user_vaddr va" and t: "table st pd (unat (pd_no va)) = None"
  shows "if no_room (kernel_pool (pal st)) 1 then lookup_page pd va True st = Some (NULL, st)
    else \<exists>pt st'. lookup_page pd va True st = Some (pt + 4 * of_nat (unat (pg_no va) mod 1024), st') \<and>
      table st' pd (unat (pd_no va)) = Some pt \<and> pd_ok st' pd \<and> (\<forall>n<786432. entry st' pd n = entry st pd n) \<and>
      init_page_dir st' = init_page_dir st \<and> ram_pages st' = ram_pages st"
proof -
  let ?i = "unat (pd_no va)" and ?m = "bytes (pal st)"
  note n = user_page_number [OF va]
  have pd: "page pd" "pd \<noteq> NULL" "kernel_page st pd" using kernel_page_ok [of st pd] ok by (auto simp: pd_ok_def)
  have zero: "get32 st (pd + 4 * pd_no va) = 0"
    using t n(4) ok by (auto simp: table_def pd_ok_def pde_at_def word_at_def get32_def split: if_splits)
  show ?thesis
  proof (cases "no_room (kernel_pool (pal st)) 1")
    case True
    then have "palloc_get_page PAL_ZERO (pal st) = Some (NULL, pal st)"
      using palloc_get_ok [of "pal st" 1 PAL_ZERO] ok
      by (simp add: palloc_get_page_def pd_ok_def the_pool_def PAL_ZERO_def PAL_USER_def PAL_ASSERT_def)
    then show ?thesis using True va pd(2) zero by (simp add: lookup_page_def)
  next
    case False
    from palloc_zero_page [OF ok False] obtain pt al where a: "palloc_get_page PAL_ZERO (pal st) = Some (pt, al)" "pools_ok al"
      "page pt" "PHYS_BASE \<le> pt" "pt \<noteq> NULL" "base (kernel_pool al) = base (kernel_pool (pal st))"
      "bytes al = fill pt 0 PGSIZE ?m" "\<forall>a. kernel_page st a \<longrightarrow> a \<noteq> pt"
      "\<forall>f a. (kernel_page st a \<or> a = pt) \<longrightarrow> kernel_page (st\<lparr>pal := al\<lparr>bytes := f\<rparr>\<rparr>) a" by blast
    obtain e where e: "pde_create pt = Some e" "e \<noteq> 0" "pde_get_pt e = Some pt" using pde_ok [OF a(3,4)] by blast
    define st' where "st' = put32 (pd + 4 * pd_no va) e (st\<lparr>pal := al\<rparr>)"
    have w: "word_at (bytes (pal st')) q j = (if q = pd \<and> j = ?i then e else if q = pt then 0 else word_at ?m q j)"
      if "page q" "j < 1024" for q j
      using word_store [OF pd(1) that(1) _ that(2), of ?i "fill pt 0 PGSIZE ?m" e] word_fill [OF a(3) that, of ?m] n(4)
      by (auto simp: st'_def put32_def a(7))
    have ptpd: "pt \<noteq> pd" using a(8) pd(3) by blast
    have pde: "pde_at st' pd j = (if j = ?i then e else pde_at st pd j)" if "j < 768" for j
      using w [OF pd(1), of j] that ptpd by (simp add: pde_at_def)
    have ti: "table st' pd ?i = Some pt" using pde [OF n(4)] e by (simp add: table_def)
    have tj: "table st' pd j = table st pd j" if "j < 768" "j \<noteq> ?i" for j using pde [OF that(1)] that(2) by (simp add: table_def)
    have ent: "entry st' pd k = entry st pd k" if k: "k < 786432" for k
    proof -
      have k768: "k div 1024 < 768" using k by (subst div_less_iff_less_mult) simp_all
      show ?thesis
      proof (cases "k div 1024 = ?i")
        case True
        then show ?thesis using t ti w [OF a(3), of "k mod 1024"] ptpd by (simp add: entry_def)
      next
        case F: False
        show ?thesis
        proof (cases "table st pd (k div 1024)")
          case None
          then show ?thesis using tj [OF k768 F] by (simp add: entry_def)
        next
          case (Some q)
          note Q = table_page [OF ok k768 Some]
          have "q \<noteq> pt" using a(8) Q(4) by blast
          then show ?thesis using Some tj [OF k768 F] w [OF Q(1), of "k mod 1024"] Q(5) by (simp add: entry_def)
        qed
      qed
    qed
    have kp: "kernel_page st' x" if "kernel_page st x \<or> x = pt" for x
      using a(9) [rule_format, OF that] by (simp add: st'_def put32_def)
    have "pd_ok st' pd"
    proof (rule pd_okI [OF ok, where i = ?i and pt = pt])
      show "pools_ok (pal st')" using a(2) by (simp add: st'_def put32_def pools_ok_def)
      show "table st pd j \<noteq> Some pt" if "j < 768" "j \<noteq> ?i" for j using table_page(4) [OF ok that(1)] a(8) by blast
      show "entry st' pd k AND PTE_ADDR < - PHYS_BASE" if "k < 786432" "entry st' pd k AND PTE_P \<noteq> 0" for k
        using ok that ent [OF that(1)] by (simp add: pd_ok_def)
    qed (use a(6) n(4) ti kp ptpd pde in \<open>simp_all add: st'_def put32_def\<close>)
    moreover have "lookup_page pd va True st = Some (pt + 4 * of_nat (unat (pg_no va) mod 1024), st')"
    proof -
      have "get32 st' (pd + 4 * pd_no va) = e" using pde [OF n(4)] by (simp add: get32_def pde_at_def word_at_def)
      moreover have "(of_nat (unat (pg_no va) mod 1024) :: u32) = pt_no va" using n(3) by (metis of_nat_unat_word)
      ultimately show ?thesis using va pd(2) zero a(1,5) e by (simp add: lookup_page_def st'_def)
    qed
    ultimately show ?thesis using False ti ent by (auto simp: st'_def put32_def)
  qed
qed

lemma store_entry:
  assumes ok: "pd_ok st pd" and va: "is_user_vaddr va" and t: "table st pd (unat (pd_no va)) = Some pt"
    and e: "e AND PTE_P \<noteq> 0 \<Longrightarrow> e AND PTE_ADDR < - PHYS_BASE"
  defines "st' \<equiv> put32 (pt + 4 * of_nat (unat (pg_no va) mod 1024)) e st"
  shows "pd_ok st' pd" "n < 786432 \<Longrightarrow> entry st' pd n = (if n = unat (pg_no va) then e else entry st pd n)"
proof -
  note N = user_page_number [OF va]
  note T = table_page [OF ok N(4) t]
  have pd: "page pd" using kernel_page_ok [of st pd] ok by (auto simp: pd_ok_def)
  have w: "word_at (bytes (pal st')) q j = (if pt = q \<and> unat (pg_no va) mod 1024 = j then e else word_at (bytes (pal st)) q j)"
    if "page q" "j < 1024" for q j
    using word_store [OF T(1) that(1) _ that(2), of "unat (pg_no va) mod 1024" "bytes (pal st)" e] by (simp add: st'_def put32_def)
  have pde: "pde_at st' pd j = pde_at st pd j" if "j < 768" for j
    using w [OF pd, of j] that T(5) by (simp add: pde_at_def)
  have tab: "table st' pd j = table st pd j" if "j < 768" for j using pde [OF that] by (simp add: table_def)
  have ent: "entry st' pd n = (if n = unat (pg_no va) then e else entry st pd n)" if n: "n < 786432" for n
  proof -
    have k: "n div 1024 < 768" using n by (subst div_less_iff_less_mult) simp_all
    show ?thesis
    proof (cases "table st pd (n div 1024)")
      case None
      then have "n \<noteq> unat (pg_no va)" using t N(2) by auto
      then show ?thesis using None tab [OF k] by (simp add: entry_def)
    next
      case (Some q)
      note Q = table_page [OF ok k Some]
      have inj: "\<forall>a<768. \<forall>b<768. table st pd a \<noteq> None \<longrightarrow> table st pd a = table st pd b \<longrightarrow> a = b"
        using ok unfolding pd_ok_def by blast
      have "pt = q \<Longrightarrow> n div 1024 = unat (pd_no va)"
        using inj [rule_format, OF k N(4)] Some t by simp
      then have "pt = q \<longleftrightarrow> n div 1024 = unat (pg_no va) div 1024" using Some t N(2) by auto
      then have "pt = q \<and> unat (pg_no va) mod 1024 = n mod 1024 \<longleftrightarrow> n = unat (pg_no va)" by (metis mult_div_mod_eq)
      then show ?thesis using Some tab [OF k] w [OF Q(1), of "n mod 1024"] by (simp add: entry_def)
    qed
  qed
  then show "n < 786432 \<Longrightarrow> entry st' pd n = (if n = unat (pg_no va) then e else entry st pd n)" .
  show "pd_ok st' pd"
  proof (rule pd_okI [OF ok, where i = "unat (pd_no va)" and pt = pt])
    show "pools_ok (pal st')" using ok by (simp add: st'_def put32_def pools_ok_def pd_ok_def)
    show "kernel_page st' a" if "kernel_page st a" for a using that by (simp add: st'_def put32_def kernel_page_def)
    then show "kernel_page st' pt" using T(4) .
    show "table st pd j \<noteq> Some pt" if j: "j < 768" "j \<noteq> unat (pd_no va)" for j
    proof
      assume "table st pd j = Some pt"
      then have "table st pd j = table st pd (unat (pd_no va))" "table st pd j \<noteq> None" using t by simp_all
      then show False using ok j N(4) unfolding pd_ok_def by blast
    qed
    show "entry st' pd k AND PTE_ADDR < - PHYS_BASE" if "k < 786432" "entry st' pd k AND PTE_P \<noteq> 0" for k
      using ok that ent [OF that(1)] e by (auto simp: pd_ok_def split: if_splits)
  qed (use N(4) t T(5) tab pde in \<open>simp_all add: st'_def put32_def\<close>)
qed

section \<open>Property\<close>

text \<open>C7: A page directory is a map from user pages to frames.  Mapping an unmapped page succeeds unless no page is
  free for a new page table; afterwards looking up any address of that page yields the frame's address, and every
  other user address yields what it did before.  Mapping a page that is already mapped stops the kernel.\<close>

theorem pagedir_maps:
  assumes "pd_ok st pd" and "pg_ofs upage = 0" and "is_user_vaddr upage" and "pg_ofs kp = 0" and "PHYS_BASE \<le> kp"
    and "drop_bit PTSHIFT (kp - PHYS_BASE) < ram_pages st"
  shows "if mapped_page st pd upage \<noteq> NULL then pagedir_set_page pd upage kp w st = None
    else \<exists>ok st'. pagedir_set_page pd upage kp w st = Some (ok, st') \<and> pd_ok st' pd \<and>
      (ok \<or> no_room (kernel_pool (pal st)) 1) \<and>
      (\<forall>va. is_user_vaddr va \<longrightarrow> (\<exists>a. pagedir_get_page pd va st = Some (a, st) \<and>
         pagedir_get_page pd va st' = Some (if ok \<and> pg_no va = pg_no upage then kp + pg_ofs va else a, st')))"
proof -
  let ?n = "unat (pg_no upage)"
  note N = user_page_number [OF assms(3)]
  have kp: "page kp" using assms(4) by (simp add: page_ofs)
  note V = vtop_page [OF kp assms(5)]
  obtain e where e: "pte_create_user kp w = Some e" "e AND PTE_P \<noteq> 0" "e AND PTE_ADDR < - PHYS_BASE" "pte_get_page e = Some kp"
    using pte_ok [OF kp assms(5)] by blast
  have addr: "(e AND PTE_ADDR) + PHYS_BASE = kp" using e(3,4) below_top by (auto simp: pte_get_page_def ptov_def)
  have init: "pd \<noteq> init_page_dir st" using assms(1) by (simp add: pd_ok_def)
  have set_def: "pagedir_set_page pd upage kp w st =
      (case lookup_page pd upage True st of None \<Rightarrow> None
       | Some (pte, s) \<Rightarrow> if pte \<noteq> NULL then (if get32 s pte AND PTE_P = 0 then Some (True, put32 pte e s) else None) else Some (False, s))"
    using assms(2-4,6) V init e(1) by (simp add: pagedir_set_page_def split: option.split)
  have "entry st pd ?n AND PTE_P \<noteq> 0 \<Longrightarrow> (entry st pd ?n AND PTE_ADDR) + PHYS_BASE \<noteq> 0"
    using assms(1) N(1) below_top [of "entry st pd ?n AND PTE_ADDR"] unfolding pd_ok_def by blast
  then have mapped: "mapped_page st pd upage \<noteq> NULL \<longleftrightarrow> entry st pd ?n AND PTE_P \<noteq> 0"
    using assms(2) by (simp add: mapped_page_def)
  have finish: "\<exists>ok st'. pagedir_set_page pd upage kp w st = Some (ok, st') \<and> pd_ok st' pd \<and> (ok \<or> no_room (kernel_pool (pal st)) 1) \<and>
      (\<forall>va. is_user_vaddr va \<longrightarrow> (\<exists>a. pagedir_get_page pd va st = Some (a, st) \<and>
         pagedir_get_page pd va st' = Some (if ok \<and> pg_no va = pg_no upage then kp + pg_ofs va else a, st')))"
    if s1: "lookup_page pd upage True st = Some (pt + 4 * of_nat (?n mod 1024), s1)" "table s1 pd (unat (pd_no upage)) = Some pt"
      "pd_ok s1 pd" "\<forall>n<786432. entry s1 pd n = entry st pd n" and free: "entry st pd ?n AND PTE_P = 0" for pt s1
  proof -
    let ?st = "put32 (pt + 4 * of_nat (?n mod 1024)) e s1"
    note T = table_page [OF s1(3) N(4) s1(2)]
    have a: "pt + 4 * of_nat (?n mod 1024) \<noteq> NULL" by (rule word_addr_nonnull [OF T(1,3)]) simp
    have g: "get32 s1 (pt + 4 * of_nat (?n mod 1024)) = entry st pd ?n" using entry_get32 s1(2,4) N(1,2) by simp
    have set: "pagedir_set_page pd upage kp w st = Some (True, ?st)" unfolding set_def s1(1) using a g free by simp
    note S = store_entry [OF s1(3) assms(3) s1(2) e(3)]
    have ent: "entry ?st pd (unat (pg_no va)) = (if pg_no va = pg_no upage then e else entry st pd (unat (pg_no va)))"
      if "is_user_vaddr va" for va
      using S(2) [OF user_page_number(1) [OF that]] s1(4) [rule_format, OF user_page_number(1) [OF that]]
      by (simp add: unat_eq_iff)
    have "mapped_page ?st pd va = (if pg_no va = pg_no upage then kp + pg_ofs va else mapped_page st pd va)" if "is_user_vaddr va" for va
      unfolding mapped_page_def ent [OF that] using e(2) addr by simp
    then show ?thesis using set S(1) get_page_ok [OF assms(1)] get_page_ok [OF S(1)] by auto
  qed
  show ?thesis
  proof (cases "table st pd (unat (pd_no upage))")
    case (Some pt)
    then have l: "lookup_page pd upage True st = Some (pt + 4 * of_nat (?n mod 1024), st)"
      using lookup_existing [OF assms(1,3), of True] by simp
    note T = table_page [OF assms(1) N(4) Some]
    have a: "pt + 4 * of_nat (?n mod 1024) \<noteq> NULL" by (rule word_addr_nonnull [OF T(1,3)]) simp
    have g: "get32 st (pt + 4 * of_nat (?n mod 1024)) = entry st pd ?n" using entry_get32 Some N(2) by simp
    show ?thesis
    proof (cases "entry st pd ?n AND PTE_P = 0")
      case True
      then show ?thesis using finish [OF l Some assms(1) _ True] mapped by simp
    next
      case False
      then show ?thesis using set_def l a g mapped by simp
    qed
  next
    case None
    then have free: "entry st pd ?n AND PTE_P = 0" using N(2) by (simp add: entry_def)
    note C = create_table_ok [OF assms(1,3) None]
    show ?thesis
    proof (cases "no_room (kernel_pool (pal st)) 1")
      case True
      then have "pagedir_set_page pd upage kp w st = Some (False, st)" using C set_def by simp
      moreover have "\<not> mapped_page st pd upage \<noteq> NULL" using mapped free by simp
      ultimately show ?thesis
        by (simp only: if_False, intro exI [of _ False] exI [of _ st]) (use True assms(1) get_page_ok [OF assms(1)] in simp)
    next
      case False
      then obtain pt s1 where "lookup_page pd upage True st = Some (pt + 4 * of_nat (?n mod 1024), s1)"
        "table s1 pd (unat (pd_no upage)) = Some pt" "pd_ok s1 pd" "\<forall>n<786432. entry s1 pd n = entry st pd n" using C by auto
      from finish [OF this free] show ?thesis using mapped free by simp
    qed
  qed
qed

text \<open>A machine whose page directory is the first page of the kernel pool and empty.\<close>

definition demo_mmu :: mmu where
  "demo_mmu = \<lparr>pal = \<lparr>kernel_pool = \<lparr>used_map = \<lparr>bit_cnt = 4, bits = [1]\<rparr>, base = 0xC0100000\<rparr>,
       user_pool = \<lparr>used_map = \<lparr>bit_cnt = 4, bits = [0]\<rparr>, base = 0xC0200000\<rparr>, bytes = (\<lambda>_. 0)\<rparr>,
     cr3 = 0, init_page_dir = 0xC0001000, ram_pages = 1024\<rparr>"

lemma demo_mmu_ok: "pd_ok demo_mmu 0xC0100000" "mapped_page demo_mmu 0xC0100000 va = NULL"
proof -
  have z: "word_at (\<lambda>_. 0) p i = 0" for p i by (simp add: word_at_def load32_def le_word_def)
  have t: "table demo_mmu 0xC0100000 i = None" for i by (simp add: table_def pde_at_def demo_mmu_def z)
  then have e: "entry demo_mmu 0xC0100000 n = 0" for n by (simp add: entry_def)
  have "kernel_page demo_mmu 0xC0100000"
    unfolding kernel_page_def
    by (rule bexI [of _ 0]) (simp_all add: demo_mmu_def used_pages_def page_count_def bm_abs_def bit_at_def)
  then show "pd_ok demo_mmu 0xC0100000" using t e
    by (simp add: pd_ok_def pde_at_def demo_mmu_def z pools_ok_def pool_ok_def bm_ok_def page_count_def PHYS_BASE_def)
  show "mapped_page demo_mmu 0xC0100000 va = NULL" using e by (simp add: mapped_page_def)
qed

theorem pagedir_maps_witness:
  "\<exists>ok st'. pagedir_set_page 0xC0100000 0x8048000 0xC0200000 True demo_mmu = Some (ok, st') \<and>
    (ok \<or> no_room (kernel_pool (pal demo_mmu)) 1) \<and>
    pagedir_get_page 0xC0100000 0x8048123 st' = Some (if ok then 0xC0200123 else NULL, st')"
proof -
  have p: "pg_no 0x8048123 = pg_no 0x8048000" "pg_ofs 0x8048123 = 0x123" "pg_ofs 0x8048000 = 0" "pg_ofs 0xC0200000 = 0"
    by (simp_all add: pg_no_def pg_ofs_def PGMASK_def PGBITS_def)
  have u: "is_user_vaddr 0x8048000" "is_user_vaddr 0x8048123" by (simp_all add: is_user_vaddr_def PHYS_BASE_def)
  have b: "PHYS_BASE \<le> 0xC0200000" "drop_bit PTSHIFT (0xC0200000 - PHYS_BASE) < ram_pages demo_mmu"
    by (simp_all add: PHYS_BASE_def PTSHIFT_def PGBITS_def demo_mmu_def)
  obtain ok st' where 1: "pagedir_set_page 0xC0100000 0x8048000 0xC0200000 True demo_mmu = Some (ok, st')"
    "ok \<or> no_room (kernel_pool (pal demo_mmu)) 1"
    "\<forall>va. is_user_vaddr va \<longrightarrow> (\<exists>a. pagedir_get_page 0xC0100000 va demo_mmu = Some (a, demo_mmu) \<and>
       pagedir_get_page 0xC0100000 va st' = Some (if ok \<and> pg_no va = pg_no 0x8048000 then 0xC0200000 + pg_ofs va else a, st'))"
    using pagedir_maps [OF demo_mmu_ok(1) p(3) u(1) p(4) b, of True] demo_mmu_ok(2) by auto
  from 1(3) u(2) obtain a where a: "pagedir_get_page 0xC0100000 0x8048123 demo_mmu = Some (a, demo_mmu)"
    "pagedir_get_page 0xC0100000 0x8048123 st' = Some (if ok \<and> pg_no 0x8048123 = pg_no 0x8048000 then 0xC0200000 + pg_ofs 0x8048123 else a, st')"
    by blast
  then have "a = NULL" using get_page_ok [OF demo_mmu_ok(1) u(2)] demo_mmu_ok(2) by simp
  then show ?thesis using 1(1,2) a(2) p by auto
qed

end
