(* ===== verification/Process_Load.thy ===== *)
theory Process_Load
  imports Pagedir Vm_Page Filesys Strings
begin

text \<open>
  Loading a program: \<^verbatim>\<open>load\<close> of \<^verbatim>\<open>userprog/process.c\<close>, from the words of the command line to
  the ELF headers, the segments, which become entries of the supplemental page table, and the initial stack.
  \<open>user_mem\<close> is the part of the user's address space that the kernel writes through its page directory, here
  the page of the stack.
\<close>

section \<open>Data\<close>

record Elf32_Ehdr =
  e_ident :: "u8 list"
  e_type :: u16
  e_machine :: u16
  e_version :: u32
  e_entry :: u32
  e_phoff :: u32
  e_shoff :: u32
  e_flags :: u32
  e_ehsize :: u16
  e_phentsize :: u16
  e_phnum :: u16
  e_shentsize :: u16
  e_shnum :: u16
  e_shstrndx :: u16

record Elf32_Phdr =
  p_type :: u32
  p_offset :: u32
  p_vaddr :: u32
  p_paddr :: u32
  p_filesz :: u32
  p_memsz :: u32
  p_flags :: u32
  p_align :: u32

definition half_at :: "u8 list \<Rightarrow> nat \<Rightarrow> u16" where
  "half_at bs k = ucast (bs ! k) OR push_bit 8 (ucast (bs ! (k + 1)))"

definition ehdr_of_bytes :: "u8 list \<Rightarrow> Elf32_Ehdr" where
  "ehdr_of_bytes bs =
     \<lparr>e_ident = take 16 bs, e_type = half_at bs 16, e_machine = half_at bs 18, e_version = le_word (drop 20 bs),
      e_entry = le_word (drop 24 bs), e_phoff = le_word (drop 28 bs), e_shoff = le_word (drop 32 bs),
      e_flags = le_word (drop 36 bs), e_ehsize = half_at bs 40, e_phentsize = half_at bs 42, e_phnum = half_at bs 44,
      e_shentsize = half_at bs 46, e_shnum = half_at bs 48, e_shstrndx = half_at bs 50\<rparr>"

definition phdr_of_bytes :: "u8 list \<Rightarrow> Elf32_Phdr" where
  "phdr_of_bytes bs =
     \<lparr>p_type = le_word bs, p_offset = le_word (drop 4 bs), p_vaddr = le_word (drop 8 bs), p_paddr = le_word (drop 12 bs),
      p_filesz = le_word (drop 16 bs), p_memsz = le_word (drop 20 bs), p_flags = le_word (drop 24 bs),
      p_align = le_word (drop 28 bs)\<rparr>"

definition PT_LOAD :: u32 where "PT_LOAD = 1"
definition PT_DYNAMIC :: u32 where "PT_DYNAMIC = 2"
definition PT_INTERP :: u32 where "PT_INTERP = 3"
definition PT_SHLIB :: u32 where "PT_SHLIB = 5"
definition PF_write :: u32 where "PF_write = 2"

text \<open>The process that is being loaded.  Call number \<open>k\<close> of \<^verbatim>\<open>malloc\<close> for an entry returns
  \<open>new_entry k\<close>, with the contents \<open>raw_entry\<close>; \<open>table_mem\<close> tells which tables of the hash table can be
  allocated, and \<open>argv_left\<close> whether the array of arguments can.\<close>

record proc =
  p_fs :: fstate
  p_mmu :: mmu
  pagedir :: ptr
  p_vm :: "vme hash"
  user_mem :: mem
  new_entry :: "nat \<Rightarrow> ptr"
  entries_made :: nat
  raw_entry :: vm_entry
  table_mem :: "u32 \<Rightarrow> bool"
  argv_left :: bool

section \<open>Segments\<close>

text \<open>\<open>len\<close> is the length of the file.\<close>

definition validate_segment :: "Elf32_Phdr \<Rightarrow> int \<Rightarrow> bool" where
  "validate_segment phdr len =
     (if p_offset phdr AND PGMASK \<noteq> p_vaddr phdr AND PGMASK then False
      else if p_offset phdr > word_of_int len then False
      else if p_memsz phdr < p_filesz phdr then False
      else if p_memsz phdr = 0 then False
      else if \<not> is_user_vaddr (p_vaddr phdr) then False
      else if \<not> is_user_vaddr (p_vaddr phdr + p_memsz phdr) then False
      else if p_vaddr phdr + p_memsz phdr < p_vaddr phdr then False
      else if p_vaddr phdr < PGSIZE then False
      else True)"

text \<open>The loop of \<^verbatim>\<open>load_segment\<close>: an entry per page, all of them keyed by the number of buckets.\<close>

partial_function (option) segment_loop ::
  "nat \<Rightarrow> int \<Rightarrow> u32 \<Rightarrow> u32 \<Rightarrow> bool \<Rightarrow> proc \<Rightarrow> proc option" where
  [code]: "segment_loop file_p ofs rb zb wr st =
     (if rb > 0 \<or> zb > 0
      then do {
        let page_read_bytes = (if rb < PGSIZE then rb else PGSIZE);
        let page_zero_bytes = PGSIZE - page_read_bytes;
        let a = new_entry st (entries_made st);
        chk (a \<noteq> NULL);
        let vme = (raw_entry st)\<lparr>vm_type := 1, vaddr := bucket_cnt (p_vm st), writable := wr, vm_file := of_nat file_p,
          offset := word_of_int ofs, read_bytes := page_read_bytes, zero_bytes := page_zero_bytes\<rparr>;
        let ofs = sint (word_of_int (ofs + uint page_read_bytes) :: u32);
        (_, vm) \<leftarrow> insert_vme (table_mem st) (p_vm st) (a, vme);
        segment_loop file_p ofs (rb - page_read_bytes) (zb - page_zero_bytes) wr
          (st\<lparr>p_vm := vm, entries_made := entries_made st + 1\<rparr>) }
      else Some st)"

definition load_segment :: "nat \<Rightarrow> int \<Rightarrow> ptr \<Rightarrow> u32 \<Rightarrow> u32 \<Rightarrow> bool \<Rightarrow> proc \<Rightarrow> (bool \<times> proc) option" where
  "load_segment file_p ofs upage rb zb wr st = do {
     chk ((rb + zb) mod PGSIZE = 0);
     chk (pg_ofs upage = 0);
     chk ((word_of_int ofs :: u32) mod PGSIZE = 0);
     s \<leftarrow> file_seek file_p ofs (p_fs st);
     st \<leftarrow> segment_loop file_p ofs rb zb wr (st\<lparr>p_fs := s\<rparr>);
     Some (True, st) }"

text \<open>The bytes of a segment that are read and zeroed.\<close>

definition segment_bytes :: "Elf32_Phdr \<Rightarrow> u32 \<times> u32" where
  "segment_bytes phdr =
     (let page_offset = p_vaddr phdr AND PGMASK in
      if p_filesz phdr > 0
      then (let rb = page_offset + p_filesz phdr in (rb, ROUND_UP (page_offset + p_memsz phdr) PGSIZE - rb))
      else (0, ROUND_UP (page_offset + p_memsz phdr) PGSIZE))"

definition load_phdr :: "nat \<Rightarrow> Elf32_Phdr \<Rightarrow> proc \<Rightarrow> (bool \<times> proc) option" where
  "load_phdr file_p phdr st =
     (if p_type phdr = PT_DYNAMIC \<or> p_type phdr = PT_INTERP \<or> p_type phdr = PT_SHLIB then Some (False, st)
      else if p_type phdr = PT_LOAD
      then do {
        len \<leftarrow> file_length file_p (p_fs st);
        if validate_segment phdr len
        then do {
          let wr = (p_flags phdr AND PF_write \<noteq> 0);
          let file_page = p_offset phdr AND NOT PGMASK;
          let mem_page = p_vaddr phdr AND NOT PGMASK;
          let (rb, zb) = segment_bytes phdr;
          load_segment file_p (sint file_page) mem_page rb zb wr st }
        else Some (False, st) }
      else Some (True, st))"

text \<open>The loop over the program headers, \<open>n\<close> of which are left.  A sum of type \<^verbatim>\<open>off_t\<close> and
  \<^verbatim>\<open>size_t\<close> is unsigned.\<close>

primrec load_phdrs :: "nat \<Rightarrow> int \<Rightarrow> nat \<Rightarrow> proc \<Rightarrow> (bool \<times> proc) option" where
  "load_phdrs 0 file_ofs file_p st = Some (True, st)" |
  "load_phdrs (Suc n) file_ofs file_p st = do {
     len \<leftarrow> file_length file_p (p_fs st);
     if file_ofs < 0 \<or> file_ofs > len then Some (False, st)
     else do {
       s \<leftarrow> file_seek file_p file_ofs (p_fs st);
       (bs, s) \<leftarrow> file_read file_p 32 s;
       let st = st\<lparr>p_fs := s\<rparr>;
       if length bs \<noteq> 32 then Some (False, st)
       else do {
         (ok, st) \<leftarrow> load_phdr file_p (phdr_of_bytes bs) st;
         if ok then load_phdrs n (sint (word_of_int (file_ofs + 32) :: u32)) file_p st else Some (False, st) } } }"

section \<open>The stack\<close>

definition install_page :: "ptr \<Rightarrow> ptr \<Rightarrow> bool \<Rightarrow> proc \<Rightarrow> (bool \<times> proc) option" where
  "install_page upage kpage wr st = do {
     (a, m) \<leftarrow> pagedir_get_page (pagedir st) upage (p_mmu st);
     if a = NULL
     then do { (ok, m) \<leftarrow> pagedir_set_page (pagedir st) upage kpage wr m; Some (ok, st\<lparr>p_mmu := m\<rparr>) }
     else Some (False, st\<lparr>p_mmu := m\<rparr>) }"

text \<open>On success the zeroed page appears at the top of the user's memory.\<close>

definition setup_stack :: "proc \<Rightarrow> (bool \<times> ptr \<times> proc) option" where
  "setup_stack st = do {
     (kpage, al) \<leftarrow> palloc_get_page (PAL_USER OR PAL_ZERO) (pal (p_mmu st));
     let st = st\<lparr>p_mmu := (p_mmu st)\<lparr>pal := al\<rparr>\<rparr>;
     if kpage \<noteq> NULL
     then do {
       (success, st) \<leftarrow> install_page (PHYS_BASE - PGSIZE) kpage True st;
       if success
       then Some (True, PHYS_BASE,
         st\<lparr>user_mem := (\<lambda>a. if a - (PHYS_BASE - PGSIZE) < PGSIZE then Some 0 else user_mem st a)\<rparr>)
       else do {
         al \<leftarrow> palloc_free_page kpage (pal (p_mmu st));
         Some (False, 0, st\<lparr>p_mmu := (p_mmu st)\<lparr>pal := al\<rparr>\<rparr>) } }
     else Some (False, 0, st) }"

text \<open>The words that \<^verbatim>\<open>strtok_r\<close> cuts out of the command line.\<close>

function words_of :: "u8 list \<Rightarrow> u8 list list" where
  "words_of cs =
     (case dropWhile (\<lambda>c. c = 32) cs of
        [] \<Rightarrow> []
      | c # ds \<Rightarrow> takeWhile (\<lambda>c. c \<noteq> 32) (c # ds) # words_of (dropWhile (\<lambda>c. c \<noteq> 32) (c # ds)))"
  by pat_completeness auto
termination
proof (relation "measure length")
  fix cs :: "u8 list" and c ds
  assume a: "dropWhile (\<lambda>c. c = 32) cs = c # ds"
  then have "c \<noteq> 32" by (metis (mono_tags, lifting) hd_dropWhile list.sel(1) list.simps(3))
  then have "length (dropWhile (\<lambda>c. c \<noteq> 32) (c # ds)) \<le> length ds" by (simp add: length_dropWhile_le)
  also have "length ds < length cs" using a length_dropWhile_le [of "\<lambda>c. c = 32" cs] by simp
  finally show "(dropWhile (\<lambda>c. c \<noteq> 32) (c # ds), cs) \<in> measure length" by simp
qed simp

declare words_of.simps [simp del]

text \<open>\<^verbatim>\<open>memcpy\<close> to the user's stack, and a word.\<close>

primrec store_all :: "ptr \<Rightarrow> u8 list \<Rightarrow> mem \<Rightarrow> mem option" where
  "store_all p [] m = Some m" |
  "store_all p (v # vs) m = do { m \<leftarrow> store m p v; store_all (p + 1) vs m }"

definition push_word :: "u32 \<Rightarrow> ptr \<Rightarrow> mem \<Rightarrow> (ptr \<times> mem) option" where
  "push_word v esp m = do { m \<leftarrow> store_all (esp - 4) (le_bytes v) m; Some (esp - 4, m) }"

text \<open>The first loop over the arguments, last one first: the addresses of the strings, in the order of the loop, and the
  8-bit total length.\<close>

primrec push_strings :: "u8 list list \<Rightarrow> ptr \<Rightarrow> u8 \<Rightarrow> mem \<Rightarrow> (ptr list \<times> ptr \<times> u8 \<times> mem) option" where
  "push_strings [] esp total_len m = Some ([], esp, total_len, m)" |
  "push_strings (t # ts) esp total_len m = do {
     let n = of_nat (length t) + 1;
     let esp = esp - n;
     m \<leftarrow> store_all esp (t @ [0]) m;
     (as, esp', total_len, m) \<leftarrow> push_strings ts esp (ucast (ucast total_len + n)) m;
     Some (esp # as, esp', total_len, m) }"

primrec push_words :: "u32 list \<Rightarrow> ptr \<Rightarrow> mem \<Rightarrow> (ptr \<times> mem) option" where
  "push_words [] esp m = Some (esp, m)" |
  "push_words (v # vs) esp m = do { (esp, m) \<leftarrow> push_word v esp m; push_words vs esp m }"

definition push_arguments :: "u8 list list \<Rightarrow> ptr \<Rightarrow> mem \<Rightarrow> (ptr \<times> mem) option" where
  "push_arguments argv esp m = do {
     (addrs, esp, total_len, m) \<leftarrow> push_strings (rev argv) esp 0 m;
     let esp = (if total_len mod 4 \<noteq> 0 then esp - (4 - ucast (total_len mod 4)) else esp);
     (esp, m) \<leftarrow> push_word 0 esp m;
     (esp, m) \<leftarrow> push_words addrs esp m;
     (esp, m) \<leftarrow> push_word esp esp m;
     (esp, m) \<leftarrow> push_word (of_nat (length argv)) esp m;
     push_word 0 esp m }"

section \<open>Loading\<close>

definition elf_ok :: "Elf32_Ehdr \<Rightarrow> bool" where
  "elf_ok ehdr \<longleftrightarrow> take 7 (e_ident ehdr) = [0x7f, 0x45, 0x4c, 0x46, 1, 1, 1] \<and> e_type ehdr = 2 \<and> e_machine ehdr = 3 \<and>
     e_version ehdr = 1 \<and> e_phentsize ehdr = 32 \<and> e_phnum ehdr \<le> 1024"

text \<open>The result is the entry point and the stack pointer, or null when \<^verbatim>\<open>load\<close> returns \<^verbatim>\<open>false\<close>.  The copy
  of the command line overflows its array of 256 bytes when it is longer.\<close>

definition load_file :: "nat \<Rightarrow> u8 list list \<Rightarrow> proc \<Rightarrow> ((ptr \<times> ptr) option \<times> proc) option" where
  "load_file file_p argv st = do {
     (bs, s) \<leftarrow> file_read file_p 52 (p_fs st);
     let st = st\<lparr>p_fs := s\<rparr>;
     let ehdr = ehdr_of_bytes bs;
     if length bs \<noteq> 52 \<or> \<not> elf_ok ehdr then Some (None, st)
     else do {
       (ok, st) \<leftarrow> load_phdrs (unat (e_phnum ehdr)) (sint (e_phoff ehdr)) file_p st;
       if \<not> ok then Some (None, st)
       else do {
         (ok, esp, st) \<leftarrow> setup_stack st;
         if \<not> ok then Some (None, st)
         else do {
           (esp, m) \<leftarrow> push_arguments argv esp (user_mem st);
           Some (Some (e_entry ehdr, esp), st\<lparr>user_mem := m\<rparr>) } } } }"

definition load :: "u8 list \<Rightarrow> proc \<Rightarrow> ((ptr \<times> ptr) option \<times> proc) option" where
  "load file_name st = do {
     (pd, m) \<leftarrow> pagedir_create (p_mmu st);
     let st = st\<lparr>p_mmu := m, pagedir := pd\<rparr>;
     if pd = NULL then Some (None, st)
     else do {
       m \<leftarrow> pagedir_activate pd (p_mmu st);
       let st = st\<lparr>p_mmu := m\<rparr>;
       chk (length file_name < 256);
       let argv = words_of file_name;
       chk (argv \<noteq> [] \<and> argv_left st);
       (f, s) \<leftarrow> filesys_open (hd argv) (p_fs st);
       let st = st\<lparr>p_fs := s\<rparr>;
       case f of
         None \<Rightarrow> Some (None, st)
       | Some file_p \<Rightarrow> do {
           (r, st) \<leftarrow> load_file file_p argv st;
           s \<leftarrow> file_close (Some file_p) (p_fs st);
           Some (r, st\<lparr>p_fs := s\<rparr>) } } }"

section \<open>Segments in the address space\<close>

lemma unat_ofs: "unat (x AND PGMASK) = unat x mod 4096"
  using unat_pg_ofs [of x] by (simp add: pg_ofs_def)

lemma unat_down: "unat (x AND NOT PGMASK) = unat x div 4096 * 4096"
proof -
  have "PGMASK = mask 12" by (simp add: PGMASK_def PGBITS_def mask_eq_exp_minus_1)
  moreover have "x AND NOT (mask 12) = push_bit 12 (drop_bit 12 x)" by (auto intro!: bit_word_eqI simp: bit_simps)
  ultimately have "x AND NOT PGMASK = push_bit 12 (drop_bit 12 x)" by simp
  moreover have "unat x div 4096 * 4096 < 2 ^ 32" using unsigned_less [of x, where 'a = nat] by simp
  ultimately show ?thesis by (simp add: push_bit_eq_mult drop_bit_eq_div unat_word_ariths unat_div)
qed

lemma round_up_bounds: "(a :: nat) \<le> (a + 4095) div 4096 * 4096" "(a + 4095) div 4096 * 4096 < a + 4096"
proof -
  have "(a + 4095) mod 4096 < 4096" "(a + 4095) div 4096 * 4096 + (a + 4095) mod 4096 = a + 4095" by simp_all
  then show "a \<le> (a + 4095) div 4096 * 4096" "(a + 4095) div 4096 * 4096 < a + 4096" by linarith+
qed

text \<open>What \<^verbatim>\<open>validate_segment\<close> guarantees, in numbers.\<close>

lemma validate_unat:
  assumes "validate_segment ph len" "0 \<le> len" "len < 2 ^ 31"
  shows "unat (p_offset ph) mod 4096 = unat (p_vaddr ph) mod 4096" "int (unat (p_offset ph)) \<le> len"
    "unat (p_filesz ph) \<le> unat (p_memsz ph)" "0 < unat (p_memsz ph)" "4096 \<le> unat (p_vaddr ph)"
    "unat (p_vaddr ph) + unat (p_memsz ph) < 0xC0000000"
proof -
  note v = assms(1) [unfolded validate_segment_def]
  have a: "p_offset ph AND PGMASK = p_vaddr ph AND PGMASK" "\<not> p_offset ph > word_of_int len" "\<not> p_memsz ph < p_filesz ph"
    "p_memsz ph \<noteq> 0" "is_user_vaddr (p_vaddr ph + p_memsz ph)" "\<not> p_vaddr ph + p_memsz ph < p_vaddr ph" "\<not> p_vaddr ph < PGSIZE"
    using v by (simp_all split: if_splits)
  show "unat (p_offset ph) mod 4096 = unat (p_vaddr ph) mod 4096" using a(1) by (metis unat_ofs)
  have "uint (word_of_int len :: u32) = len" using assms(2,3) by (simp add: uint_word_of_int)
  then show "int (unat (p_offset ph)) \<le> len" using a(2) by (simp add: word_less_def not_less)
  show "unat (p_filesz ph) \<le> unat (p_memsz ph)" "0 < unat (p_memsz ph)" "4096 \<le> unat (p_vaddr ph)"
    using a(3,4,7) by (simp_all add: word_less_nat_alt not_less PGSIZE_val unat_gt_0)
  have "unat (p_vaddr ph + p_memsz ph) = unat (p_vaddr ph) + unat (p_memsz ph)"
    using a(6) by (metis not_less unat_plus_simple)
  then show "unat (p_vaddr ph) + unat (p_memsz ph) < 0xC0000000"
    using a(5) by (simp add: is_user_vaddr_def PHYS_BASE_def word_less_nat_alt)
qed

lemma segment_bytes_unat:
  assumes "validate_segment ph len" "0 \<le> len" "len < 2 ^ 31" "segment_bytes ph = (rb, zb)"
  defines "po \<equiv> unat (p_vaddr ph) mod 4096"
  shows "unat rb = (if p_filesz ph > 0 then po + unat (p_filesz ph) else 0)"
    "unat rb + unat zb = (po + unat (p_memsz ph) + 4095) div 4096 * 4096"
proof -
  note v = validate_unat [OF assms(1-3)]
  have po: "unat (p_vaddr ph AND PGMASK) = po" "po \<le> unat (p_vaddr ph)" by (simp_all add: po_def unat_ofs)
  have m: "unat ((p_vaddr ph AND PGMASK) + p_memsz ph) = po + unat (p_memsz ph)" using v(6) po by (simp add: unat_word_ariths)
  have f: "unat ((p_vaddr ph AND PGMASK) + p_filesz ph) = po + unat (p_filesz ph)" using v(3,6) po by (simp add: unat_word_ariths)
  let ?R = "(po + unat (p_memsz ph) + 4095) div 4096 * 4096"
  have "?R < 2 ^ 32" using round_up_bounds(2) [of "po + unat (p_memsz ph)"] v(6) po by simp
  then have R: "unat (ROUND_UP ((p_vaddr ph AND PGMASK) + p_memsz ph) PGSIZE) = ?R"
    using v(6) po m by (simp add: ROUND_UP_def PGSIZE_val unat_word_ariths unat_div flip: add.assoc)
  have le: "po + unat (p_filesz ph) \<le> ?R" using round_up_bounds(1) [of "po + unat (p_memsz ph)"] v(3) by simp
  show "unat rb = (if p_filesz ph > 0 then po + unat (p_filesz ph) else 0)"
    using assms(4) f by (auto simp: segment_bytes_def Let_def split: if_splits)
  show "unat rb + unat zb = ?R"
  proof (cases "p_filesz ph > 0")
    case True
    then have e: "rb = (p_vaddr ph AND PGMASK) + p_filesz ph" "zb = ROUND_UP ((p_vaddr ph AND PGMASK) + p_memsz ph) PGSIZE - rb"
      using assms(4) by (auto simp: segment_bytes_def Let_def)
    then have "rb \<le> ROUND_UP ((p_vaddr ph AND PGMASK) + p_memsz ph) PGSIZE" using le f R by (simp add: word_le_nat_alt)
    then show ?thesis using e R le f by (simp add: unat_sub)
  next
    case False
    then show ?thesis using assms(4) R by (auto simp: segment_bytes_def Let_def)
  qed
qed

text \<open>C15: The segment of a program header that the kernel accepts lies in the user's part of the address space, above
  the first page, without wrapping around; and the numbers with which it is loaded satisfy every assertion of
  \<^verbatim>\<open>load_segment\<close>, do not overflow, cover the segment with whole pages, and take the file's bytes for its start.\<close>

theorem segment_in_user_space:
  assumes "validate_segment ph len" "0 \<le> len" "len < 2 ^ 31" "segment_bytes ph = (rb, zb)"
  defines "upage \<equiv> p_vaddr ph AND NOT PGMASK" and "ofs \<equiv> p_offset ph AND NOT PGMASK"
  shows "(rb + zb) mod PGSIZE = 0 \<and> pg_ofs upage = 0 \<and> ofs mod PGSIZE = 0 \<and> 0 \<le> sint ofs \<and> sint ofs \<le> len \<and>
    PGSIZE \<le> upage \<and> unat upage + unat rb + unat zb \<le> unat PHYS_BASE \<and> upage \<le> p_vaddr ph \<and>
    unat (p_vaddr ph) + unat (p_memsz ph) \<le> unat upage + unat rb + unat zb \<and>
    (p_filesz ph > 0 \<longrightarrow> unat upage + unat rb = unat (p_vaddr ph) + unat (p_filesz ph) \<and>
       unat (p_vaddr ph) - unat upage = unat (p_offset ph) - unat ofs)"
proof -
  note v = validate_unat [OF assms(1-3)] and s = segment_bytes_unat [OF assms(1-4)]
  let ?v = "unat (p_vaddr ph)"
  have d: "?v div 4096 * 4096 + ?v mod 4096 = ?v" by simp
  have u: "unat upage = ?v div 4096 * 4096" "unat ofs = unat (p_offset ph) div 4096 * 4096"
    by (simp_all add: upage_def ofs_def unat_down)
  obtain q where q: "unat rb + unat zb = q * 4096" using s(2) by blast
  have R: "?v mod 4096 + unat (p_memsz ph) \<le> q * 4096" "q * 4096 < ?v mod 4096 + unat (p_memsz ph) + 4096"
    using round_up_bounds [of "?v mod 4096 + unat (p_memsz ph)"] q s(2) by simp_all
  have up: "unat upage + q * 4096 \<le> 0xC0000000"
  proof -
    have "n * 4096 < b + m + 4096 \<Longrightarrow> x + m < 0xC0000000 \<Longrightarrow> a * 4096 + b = x \<Longrightarrow> (a + n) * 4096 < 0xC0000000 + 4096"
      for a b m n x :: nat by (simp add: add_mult_distrib)
    from this [OF R(2) v(6) d] have "(?v div 4096 + q) * 4096 < 0xC0000000 + 4096" .
    then have "?v div 4096 + q < 0xC0000 + 1" by simp
    then show ?thesis using u(1) by (simp add: algebra_simps)
  qed
  have "unat (rb + zb) = q * 4096" using up q by (simp add: unat_word_ariths)
  then have 1: "(rb + zb) mod PGSIZE = 0" by (simp add: word_unat_eq_iff unat_mod PGSIZE_val)
  have 2: "pg_ofs upage = 0" "ofs mod PGSIZE = 0" using u by (simp_all add: word_unat_eq_iff unat_pg_ofs unat_mod PGSIZE_val)
  have o: "unat ofs \<le> unat (p_offset ph)" using u(2) by simp
  then have o2: "int (unat ofs) \<le> len" using v(2) by linarith
  then have "int (unat ofs) < int 2147483648" using assms(3) by simp
  then have "unat ofs < 2 ^ 31" unfolding of_nat_less_iff by simp
  then have 3: "sint ofs = int (unat ofs)" by (intro sint_small) simp
  have 4: "PGSIZE \<le> upage" using u(1) v(5) by (simp add: word_le_nat_alt PGSIZE_val)
  have 5: "upage \<le> p_vaddr ph" using u(1) by (simp add: word_le_nat_alt)
  have 6: "?v + unat (p_memsz ph) \<le> unat upage + unat rb + unat zb" using u(1) q R(1) d by linarith
  have 7: "unat upage + unat rb = ?v + unat (p_filesz ph)" if "p_filesz ph > 0" using that s(1) u(1) d by simp
  have 8: "?v - unat upage = unat (p_offset ph) - unat ofs" using u v(1) by (simp add: minus_div_mult_eq_mod)
  show ?thesis using 1 2 3 4 5 6 7 8 up q o2 by (simp add: PHYS_BASE_def add.assoc)
qed

definition demo_phdr :: Elf32_Phdr where
  "demo_phdr = \<lparr>p_type = PT_LOAD, p_offset = 0x1074, p_vaddr = 0x8048074, p_paddr = 0x8048074, p_filesz = 5000, p_memsz = 9000,
     p_flags = 6, p_align = 0x1000\<rparr>"

lemma demo_phdr_ok: "validate_segment demo_phdr 20000" "segment_bytes demo_phdr = (0x13FC, 0x1C04)"
proof -
  have m: "PGMASK = 0xFFF" by (simp add: PGMASK_def PGBITS_def)
  show "validate_segment demo_phdr 20000"
    by (simp add: validate_segment_def demo_phdr_def m PGSIZE_val is_user_vaddr_def PHYS_BASE_def)
  show "segment_bytes demo_phdr = (0x13FC, 0x1C04)"
    by (simp add: segment_bytes_def demo_phdr_def m PGSIZE_val ROUND_UP_def)
qed

theorem segment_in_user_space_witness:
  "unat (p_vaddr demo_phdr AND NOT PGMASK) + 0x13FC + 0x1C04 \<le> unat PHYS_BASE"
  using segment_in_user_space [OF demo_phdr_ok(1) _ _ demo_phdr_ok(2)] by simp

section \<open>Loading a segment\<close>

text \<open>A page table of four buckets that holds at most one entry, for the address 4.\<close>

definition only_four :: "vme hash \<Rightarrow> bool" where
  "only_four h \<longleftrightarrow> vm_ok h \<and> bucket_cnt h = 4 \<and> length (elems h) \<le> 1 \<and> (\<forall>e \<in> set (elems h). vaddr (snd e) = 4)"

lemma rehash_small:
  assumes "bucket_cnt h = 4" "elem_count h \<in> {0, 1}"
  shows "rehash mem h = Some h"
proof -
  have "pow2_loop 4 = Some 4" by (simp add: pow2_loop.simps is_power_of_2_def turn_off_least_1bit_def)
  then have "new_bucket_count (elem_count h) = Some 4" using assms(2)
    by (auto simp: new_bucket_count_def BEST_ELEMS_PER_BUCKET_def Let_def)
  then show ?thesis using assms(1) by (simp add: rehash_def)
qed

lemma insert_only_four:
  assumes h: "only_four h" and e: "vaddr (snd e) = 4"
  shows "\<exists>b h'. insert_vme mem h e = Some (b, h') \<and> only_four h' \<and> elems h' = (if elems h = [] then [e] else elems h)"
proof -
  have ok: "hash_ok h" "vm.fits h" and b4: "bucket_cnt h = 4" and l: "length (elems h) \<le> 1" "\<forall>x \<in> set (elems h). vaddr (snd x) = 4"
    using h by (auto simp: only_four_def vm_ok_fits)
  show ?thesis
  proof (cases "elems h")
    case Nil
    then have new: "lookup h e = None" by (simp add: lookup_def)
    obtain h1 where h1: "insert_elem h (find_bucket h e) e = Some h1" "hash_ok h1" "same_shape h h1" "bucket_cnt h1 = bucket_cnt h"
      "mset (elems h1) = add_mset e (mset (elems h))" using vm.insert_elem_ok [OF ok new] by blast
    have e1: "elems h1 = [e]" using h1(5) Nil by simp
    then have "elem_count h1 = 1" using h1(2) by (simp add: hash_ok_def)
    then have "rehash mem h1 = Some h1" using b4 h1(4) by (simp add: rehash_small)
    then have "insert_vme mem h e = Some (False, h1)" using vm.find_elem_ok [OF ok, of e] new h1(1)
      by (simp add: insert_vme_def hash_insert_def)
    moreover have "only_four h1" using h1 e1 e b4 vm.fits_shape [OF h1(3) ok(2)] by (simp add: only_four_def vm_ok_fits)
    ultimately show ?thesis using Nil e1 by (intro exI [of _ False] exI [of _ h1]) simp
  next
    case (Cons x xs)
    then have x: "elems h = [x]" "vaddr (snd x) = 4" using l by auto
    then have old: "lookup h e = Some x" using ok e by (simp add: lookup_def vm.fits_def same_vme)
    have "elem_count h = 1" using ok(1) x(1) by (simp add: hash_ok_def)
    then have "rehash mem h = Some h" using b4 by (simp add: rehash_small)
    then have "insert_vme mem h e = Some (True, h)" using vm.find_elem_ok [OF ok, of e] old
      by (simp add: insert_vme_def hash_insert_def)
    then show ?thesis using h x by (intro exI [of _ True] exI [of _ h]) simp
  qed
qed

text \<open>The entry for the first page of a segment.\<close>

definition first_entry :: "nat \<Rightarrow> int \<Rightarrow> u32 \<Rightarrow> bool \<Rightarrow> proc \<Rightarrow> vme" where
  "first_entry file_p ofs rb wr st =
     (let n = (if rb < PGSIZE then rb else PGSIZE) in
      (new_entry st (entries_made st), (raw_entry st)\<lparr>vm_type := 1, vaddr := 4, writable := wr, vm_file := of_nat file_p,
        offset := word_of_int ofs, read_bytes := n, zero_bytes := PGSIZE - n\<rparr>))"

lemma segment_loop_ok:
  assumes "\<forall>k. new_entry st k \<noteq> NULL" "only_four (p_vm st)" "unat rb + unat zb = n * 4096"
  shows "\<exists>h. segment_loop file_p ofs rb zb wr st = Some (st\<lparr>p_vm := h, entries_made := entries_made st + n\<rparr>) \<and> only_four h \<and>
    elems h = (if elems (p_vm st) = [] \<and> 0 < n then [first_entry file_p ofs rb wr st] else elems (p_vm st))"
  using assms
proof (induction n arbitrary: rb zb ofs st)
  case 0
  then have "rb = 0" "zb = 0" by (simp_all add: word_unat_eq_iff)
  then show ?case using 0 by (subst segment_loop.simps) (simp, intro exI [of _ "p_vm st"], simp)
next
  case (Suc n)
  let ?p = "if rb < PGSIZE then rb else PGSIZE"
  let ?e = "first_entry file_p ofs rb wr st"
  have pos: "rb > 0 \<or> zb > 0" using Suc.prems(3) by (auto simp: word_gt_0 word_unat_eq_iff)
  have b4: "bucket_cnt (p_vm st) = 4" using Suc.prems(2) by (simp add: only_four_def)
  have e: "vaddr (snd ?e) = 4" by (simp add: first_entry_def Let_def)
  obtain b h1 where h1: "insert_vme (table_mem st) (p_vm st) ?e = Some (b, h1)" "only_four h1"
    "elems h1 = (if elems (p_vm st) = [] then [?e] else elems (p_vm st))"
    using insert_only_four [OF Suc.prems(2) e] by blast
  let ?s = "st\<lparr>p_vm := h1, entries_made := entries_made st + 1\<rparr>"
  let ?o = "sint (word_of_int (ofs + uint ?p) :: u32)"
  have P: "unat PGSIZE = 4096" by (simp add: PGSIZE_val)
  have up: "unat ?p = min (unat rb) 4096" using P by (auto simp: word_less_nat_alt)
  have z: "unat (PGSIZE - ?p) = 4096 - unat ?p" using P up by (simp add: unat_sub word_le_nat_alt)
  have r: "unat (rb - ?p) = unat rb - unat ?p" using up by (subst unat_sub) (simp_all add: word_le_nat_alt)
  have "4096 - unat ?p \<le> unat zb" using Suc.prems(3) up by auto
  then have "unat (zb - (PGSIZE - ?p)) = unat zb - (4096 - unat ?p)" using z by (subst unat_sub) (simp_all add: word_le_nat_alt)
  then have sum: "unat (rb - ?p) + unat (zb - (PGSIZE - ?p)) = n * 4096" using r up Suc.prems(3) by auto
  have n: "new_entry st (entries_made st) \<noteq> NULL" using Suc.prems(1) by blast
  have loop: "segment_loop file_p ofs rb zb wr st = segment_loop file_p ?o (rb - ?p) (zb - (PGSIZE - ?p)) wr ?s"
  proof -
    have "(new_entry st (entries_made st), (raw_entry st)\<lparr>vm_type := 1, vaddr := bucket_cnt (p_vm st), writable := wr,
        vm_file := of_nat file_p, offset := word_of_int ofs, read_bytes := ?p, zero_bytes := PGSIZE - ?p\<rparr>) = ?e"
      by (simp add: first_entry_def b4 Let_def)
    then show ?thesis using n pos h1(1) by (subst segment_loop.simps) (simp add: Let_def)
  qed
  obtain h where h: "segment_loop file_p ?o (rb - ?p) (zb - (PGSIZE - ?p)) wr ?s = Some (?s\<lparr>p_vm := h, entries_made := entries_made ?s + n\<rparr>)"
    "only_four h" "elems h = (if elems (p_vm ?s) = [] \<and> 0 < n then [first_entry file_p ?o (rb - ?p) wr ?s] else elems (p_vm ?s))"
    using Suc.IH [of ?s "rb - ?p" "zb - (PGSIZE - ?p)" ?o] Suc.prems(1) h1(2) sum by auto
  have "elems h = (if elems (p_vm st) = [] then [?e] else elems (p_vm st))" using h(3) h1(3) by (auto split: if_splits)
  then show ?case unfolding loop h(1) using h(2) by (intro exI [of _ h]) simp
qed


definition demo_proc :: proc where
  "demo_proc = \<lparr>p_fs = demo_file_fs\<lparr>files := [6 \<mapsto> \<lparr>f_inode = 7, f_pos = 0, f_deny_write = False\<rparr>],
       inodes := [7 \<mapsto> \<lparr>i_sector = 0, i_open_cnt = 1, i_removed = False, i_deny_write_cnt = 0,
         i_data = \<lparr>d_start = 1, d_length = 20000, d_magic = INODE_MAGIC\<rparr>\<rparr>]\<rparr>,
     p_mmu = demo_mmu, pagedir = 0, p_vm = vm_init (\<lambda>_. True), user_mem = Map.empty, new_entry = (\<lambda>k. 0xC0200000 + of_nat k * 64 OR 1),
     entries_made = 0, raw_entry = demo_entry, table_mem = (\<lambda>_. True), argv_left = True\<rparr>"


section \<open>The initial stack\<close>

text \<open>Address \<open>k\<close> of the stack page; the page is mapped; memory has not changed from there on.\<close>

definition stk :: "nat \<Rightarrow> ptr" where
  "stk k = PHYS_BASE - PGSIZE + of_nat k"

definition stack_mapped :: "mem \<Rightarrow> bool" where
  "stack_mapped m \<longleftrightarrow> (\<forall>k < 4096. m (stk k) \<noteq> None)"

definition kept_above :: "nat \<Rightarrow> mem \<Rightarrow> mem \<Rightarrow> bool" where
  "kept_above e m m' \<longleftrightarrow> (\<forall>k < 4096. e \<le> k \<longrightarrow> m' (stk k) = m (stk k))"

definition holds_word :: "mem \<Rightarrow> ptr \<Rightarrow> u32 \<Rightarrow> bool" where
  "holds_word m a v \<longleftrightarrow> (\<forall>i < 4. m (a + of_nat i) = Some (le_bytes v ! i))"

lemma stk_add: "stk k + of_nat i = stk (k + i)"
  by (simp add: stk_def add.assoc)

lemma stk_sub: "n \<le> e \<Longrightarrow> stk e - of_nat n = stk (e - n)"
  by (simp add: stk_def of_nat_diff)

lemma stk_top: "stk 4096 = PHYS_BASE"
  by (simp add: stk_def PGSIZE_val)

lemma unat_stk: "k \<le> 4096 \<Longrightarrow> unat (stk k) = 0xBFFFF000 + k"
  by (simp add: stk_def PHYS_BASE_def PGSIZE_val unat_word_ariths unat_of_nat)

lemma stk_eq: "j < 4096 \<Longrightarrow> k < 4096 \<Longrightarrow> stk j = stk k \<longleftrightarrow> j = k"
  using unat_stk [of j] unat_stk [of k] by (metis add_left_cancel less_imp_le)

lemma kept_above_trans: "kept_above e m m1 \<Longrightarrow> kept_above f m1 m2 \<Longrightarrow> f \<le> e \<Longrightarrow> kept_above e m m2"
  by (simp add: kept_above_def)

lemma kept_above_mono: "kept_above e m m' \<Longrightarrow> e \<le> f \<Longrightarrow> kept_above f m m'"
  by (simp add: kept_above_def)

lemma store_all_ok:
  assumes "stack_mapped m" "k + length bs \<le> 4096"
  shows "\<exists>m'. store_all (stk k) bs m = Some m' \<and> stack_mapped m' \<and>
    (\<forall>j < 4096. m' (stk j) = (if k \<le> j \<and> j < k + length bs then Some (bs ! (j - k)) else m (stk j)))"
  using assms
proof (induction bs arbitrary: k m)
  case (Cons v vs)
  let ?m = "m(stk k \<mapsto> v)"
  have k: "k < 4096" using Cons.prems(2) by simp
  have s: "store m (stk k) v = Some ?m" using Cons.prems(1) k by (simp add: store_def stack_mapped_def)
  have "stack_mapped ?m" using Cons.prems(1) by (simp add: stack_mapped_def)
  moreover have "Suc k + length vs \<le> 4096" using Cons.prems(2) by simp
  ultimately obtain m' where m': "store_all (stk (Suc k)) vs ?m = Some m'" "stack_mapped m'"
    "\<forall>j < 4096. m' (stk j) = (if Suc k \<le> j \<and> j < Suc k + length vs then Some (vs ! (j - Suc k)) else ?m (stk j))"
    using Cons.IH by blast
  have n: "stk k + 1 = stk (Suc k)" using stk_add [of k 1] by simp
  have "m' (stk j) = (if k \<le> j \<and> j < k + length (v # vs) then Some ((v # vs) ! (j - k)) else m (stk j))" if "j < 4096" for j
    using m'(3) that k by (cases "j = k") (auto simp: stk_eq nth_Cons')
  then show ?case using s m'(1,2) n by simp
qed auto

lemma push_word_ok:
  assumes "stack_mapped m" "4 \<le> e" "e \<le> 4096"
  shows "\<exists>m'. push_word v (stk e) m = Some (stk (e - 4), m') \<and> stack_mapped m' \<and> kept_above e m m' \<and>
    (\<forall>m''. kept_above (e - 4) m' m'' \<longrightarrow> holds_word m'' (stk (e - 4)) v)"
proof -
  have l: "length (le_bytes v) = 4" by (simp add: le_bytes_def)
  obtain m' where m': "store_all (stk (e - 4)) (le_bytes v) m = Some m'" "stack_mapped m'"
    "\<forall>j < 4096. m' (stk j) = (if e - 4 \<le> j \<and> j < e - 4 + 4 then Some (le_bytes v ! (j - (e - 4))) else m (stk j))"
    using store_all_ok [of m "e - 4" "le_bytes v"] assms l by auto
  have "stk e - 4 = stk (e - 4)" using stk_sub [OF assms(2)] by simp
  moreover have "kept_above e m m'" using m'(3) assms(2) by (simp add: kept_above_def)
  moreover have "holds_word m'' (stk (e - 4)) v" if "kept_above (e - 4) m' m''" for m''
    unfolding holds_word_def stk_add
  proof (intro allI impI)
    fix i :: nat assume i: "i < 4"
    then have "e - 4 + i < 4096" using assms by simp
    then show "m'' (stk (e - 4 + i)) = Some (le_bytes v ! i)" using that m'(3) i by (simp add: kept_above_def)
  qed
  ultimately show ?thesis using m'(1,2) by (simp add: push_word_def)
qed

abbreviation strings_size :: "u8 list list \<Rightarrow> nat" where
  "strings_size ts \<equiv> sum_list (map (\<lambda>t. length t + 1) ts)"

lemma push_strings_ok:
  assumes "stack_mapped m" "strings_size ts \<le> e" "e \<le> 4096" "\<forall>t \<in> set ts. 0 \<notin> set t"
  shows "\<exists>as m'. push_strings ts (stk e) c m = Some (as, stk (e - strings_size ts), c + of_nat (strings_size ts), m') \<and>
    stack_mapped m' \<and> kept_above e m m' \<and> length as = length ts \<and>
    (\<forall>m''. kept_above (e - strings_size ts) m' m'' \<longrightarrow> (\<forall>i < length ts. cstr m'' (as ! i) (ts ! i)))"
  using assms
proof (induction ts arbitrary: e c m)
  case Nil
  then show ?case by (simp add: kept_above_def)
next
  case (Cons t ts)
  let ?f = "e - (length t + 1)" and ?n = "of_nat (length t) + 1 :: u32"
  have f: "length t + 1 \<le> e" "?f + length (t @ [0]) \<le> 4096" "strings_size ts \<le> ?f" "?f \<le> 4096" using Cons.prems(2,3) by simp_all
  obtain m1 where m1: "store_all (stk ?f) (t @ [0]) m = Some m1" "stack_mapped m1"
    "\<forall>j < 4096. m1 (stk j) = (if ?f \<le> j \<and> j < ?f + length (t @ [0]) then Some ((t @ [0]) ! (j - ?f)) else m (stk j))"
    using store_all_ok [OF Cons.prems(1) f(2)] by blast
  have a1: "kept_above e m m1" using m1(3) f(1) by (simp add: kept_above_def)
  have esp: "stk e - ?n = stk ?f" using stk_sub [OF f(1)] by (simp add: add.commute)
  let ?c = "c + of_nat (length t + 1)"
  have tot: "ucast (ucast c + ?n) = ?c"
  proof -
    have "unat c < 256" using unsigned_less [of c, where 'a = nat] by simp
    then have "(unat c mod 4294967296 + (length t + 1)) mod 4294967296 mod 256 = (unat c + (length t + 1)) mod 256"
      by (simp add: mod_mod_cancel)
    then show ?thesis
      by (simp add: word_unat_eq_iff unsigned_ucast_eq unat_word_ariths unat_of_nat take_bit_eq_mod mod_simps)
  qed
  obtain as m2 where m2: "push_strings ts (stk ?f) ?c m1 = Some (as, stk (?f - strings_size ts), ?c + of_nat (strings_size ts), m2)"
    "stack_mapped m2" "kept_above ?f m1 m2" "length as = length ts"
    "\<forall>m''. kept_above (?f - strings_size ts) m2 m'' \<longrightarrow> (\<forall>i < length ts. cstr m'' (as ! i) (ts ! i))"
    using Cons.IH [OF m1(2) f(3,4)] Cons.prems(4) by (metis list.set_intros(2))
  have e: "e - strings_size (t # ts) = ?f - strings_size ts" "?c + of_nat (strings_size ts) = c + of_nat (strings_size (t # ts))"
    by simp_all
  have "push_strings (t # ts) (stk e) c m = Some (stk ?f # as, stk (?f - strings_size ts), ?c + of_nat (strings_size ts), m2)"
    unfolding push_strings.simps Let_def esp tot using m1(1) m2(1) by simp
  moreover have "kept_above e m m2" using kept_above_trans [OF a1 m2(3)] f(1) by simp
  moreover have "cstr m'' ((stk ?f # as) ! i) ((t # ts) ! i)" if m'': "kept_above (?f - strings_size ts) m2 m''" and i: "i < length (t # ts)" for m'' i
  proof (cases i)
    case 0
    have b: "m'' (stk (?f + j)) = Some ((t @ [0]) ! j)" if "j \<le> length t" for j
    proof -
      have "?f + j < 4096" using that f(1) Cons.prems(3) by simp
      then have "m'' (stk (?f + j)) = m1 (stk (?f + j))" using m'' m2(3) by (simp add: kept_above_def)
      then show ?thesis using m1(3) \<open>?f + j < 4096\<close> that by simp
    qed
    have "unat (stk ?f) + length t < 2 ^ 32" using unat_stk [OF f(4)] f(1) Cons.prems(3) by simp
    moreover have "m'' (stk ?f + of_nat j) = Some (t ! j)" if "j < length t" for j
      using b [of j] that by (simp add: stk_add nth_append)
    moreover have "m'' (stk ?f + of_nat (length t)) = Some 0" using b [of "length t"] by (simp add: stk_add)
    ultimately show ?thesis using 0 Cons.prems(4) by (simp add: cstr_def)
  next
    case (Suc k)
    then show ?thesis using m2(5) m'' i by simp
  qed
  ultimately show ?case using m2(2,4) unfolding e by (intro exI [of _ "stk ?f # as"] exI [of _ m2]) simp
qed

lemma push_words_ok:
  assumes "stack_mapped m" "4 * length vs \<le> e" "e \<le> 4096"
  shows "\<exists>m'. push_words vs (stk e) m = Some (stk (e - 4 * length vs), m') \<and> stack_mapped m' \<and> kept_above e m m' \<and>
    (\<forall>m''. kept_above (e - 4 * length vs) m' m'' \<longrightarrow> (\<forall>i < length vs. holds_word m'' (stk (e - 4 * (i + 1))) (vs ! i)))"
  using assms
proof (induction vs arbitrary: e m)
  case Nil
  then show ?case by (simp add: kept_above_def)
next
  case (Cons v vs)
  have f: "4 \<le> e" "4 * length vs \<le> e - 4" "e - 4 \<le> 4096" using Cons.prems by simp_all
  obtain m1 where m1: "push_word v (stk e) m = Some (stk (e - 4), m1)" "stack_mapped m1" "kept_above e m m1"
    "\<forall>m''. kept_above (e - 4) m1 m'' \<longrightarrow> holds_word m'' (stk (e - 4)) v" using push_word_ok [OF Cons.prems(1) f(1) Cons.prems(3)] by blast
  obtain m2 where m2: "push_words vs (stk (e - 4)) m1 = Some (stk (e - 4 - 4 * length vs), m2)" "stack_mapped m2" "kept_above (e - 4) m1 m2"
    "\<forall>m''. kept_above (e - 4 - 4 * length vs) m2 m'' \<longrightarrow> (\<forall>i < length vs. holds_word m'' (stk (e - 4 - 4 * (i + 1))) (vs ! i))"
    using Cons.IH [OF m1(2) f(2,3)] by blast
  have l: "e - 4 * length (v # vs) = e - 4 - 4 * length vs" by simp
  have "holds_word m'' (stk (e - 4 * (i + 1))) ((v # vs) ! i)" if a: "kept_above (e - 4 - 4 * length vs) m2 m''" and i: "i < length (v # vs)" for m'' i
  proof (cases i)
    case 0
    have "kept_above (e - 4) m1 m''" using kept_above_trans [OF m2(3) a] by simp
    then show ?thesis using m1(4) 0 by simp
  next
    case (Suc k)
    then have "e - 4 * (i + 1) = e - 4 - 4 * (k + 1)" by simp
    then show ?thesis using m2(4) a i Suc by simp
  qed
  then show ?case using m1(1) m2(1,2) kept_above_trans [OF m1(3) m2(3)] unfolding l by (intro exI [of _ m2]) simp
qed

lemma words_of_size: "strings_size (words_of cs) \<le> (if dropWhile (\<lambda>c. c = 32) cs = [] then 0 else length (dropWhile (\<lambda>c. c = 32) cs) + 1)"
proof (induction cs rule: words_of.induct)
  case (1 cs)
  show ?case
  proof (cases "dropWhile (\<lambda>c. c = 32) cs")
    case (Cons c ds)
    let ?w = "takeWhile (\<lambda>c. c \<noteq> 32) (c # ds)" and ?r = "dropWhile (\<lambda>c. c \<noteq> 32) (c # ds)"
    have len: "length ?w + length ?r = length (c # ds)" by (metis length_append takeWhile_dropWhile_id)
    have "strings_size (words_of ?r) \<le> length ?r"
    proof (cases ?r)
      case Nil
      then show ?thesis by (simp add: words_of.simps)
    next
      case (Cons b r)
      then have "b = 32" using hd_dropWhile [of "\<lambda>c. c \<noteq> 32" "c # ds"] by simp
      then have "dropWhile (\<lambda>c. c = 32) ?r = dropWhile (\<lambda>c. c = 32) r" using Cons by simp
      moreover have "length (dropWhile (\<lambda>c. c = 32) r) + 1 \<le> length ?r" using Cons length_dropWhile_le [of "\<lambda>c. c = 32" r] by simp
      moreover note "1.IH" [OF \<open>dropWhile (\<lambda>c. c = 32) cs = c # ds\<close>]
      ultimately show ?thesis by (simp split: if_splits)
    qed
    moreover have "words_of cs = ?w # words_of ?r" using Cons by (simp add: words_of.simps [of cs])
    ultimately show ?thesis using Cons len by simp
  next
    case Nil
    then have "words_of cs = []" by (subst words_of.simps) (simp only: list.case)
    then show ?thesis by simp
  qed
qed

lemma words_of_bytes: "t \<in> set (words_of cs) \<Longrightarrow> set t \<subseteq> set cs"
proof (induction cs rule: words_of.induct)
  case (1 cs)
  show ?case
  proof (cases "dropWhile (\<lambda>c. c = 32) cs")
    case (Cons c ds)
    have sub: "set (c # ds) \<subseteq> set cs" using Cons by (metis set_dropWhileD subsetI)
    consider "t = takeWhile (\<lambda>c. c \<noteq> 32) (c # ds)" | "t \<in> set (words_of (dropWhile (\<lambda>c. c \<noteq> 32) (c # ds)))"
      using "1.prems" Cons by (auto simp: words_of.simps [of cs])
    then show ?thesis
    proof cases
      case 1
      then show ?thesis using sub by (metis set_takeWhileD subset_iff)
    next
      case 2
      from "1.IH" [OF Cons this] show ?thesis using sub by (meson set_dropWhileD subset_iff)
    qed
  next
    case Nil
    then have "words_of cs = []" by (subst words_of.simps) (simp only: list.case)
    then show ?thesis using "1.prems" by simp
  qed
qed

lemma push_arguments_ok:
  assumes "stack_mapped m" "strings_size argv \<le> 256" "\<forall>t \<in> set argv. 0 \<notin> set t"
  shows "\<exists>e m'. push_arguments argv PHYS_BASE m = Some (stk e, m') \<and> e mod 4 = 0 \<and> e + 4 * length argv + 16 \<le> 4096 \<and>
    holds_word m' (stk e) 0 \<and> holds_word m' (stk (e + 4)) (of_nat (length argv)) \<and> holds_word m' (stk (e + 8)) (stk (e + 12)) \<and>
    (\<forall>i < length argv. \<exists>a. holds_word m' (stk (e + 12 + 4 * i)) a \<and> cstr m' a (argv ! i)) \<and>
    holds_word m' (stk (e + 12 + 4 * length argv)) 0"
proof -
  define T where "T = strings_size argv"
  define n where "n = length argv"
  have size_rev: "strings_size (rev argv) = T" unfolding T_def rev_map [symmetric] by (rule sum_list_rev)
  have nT: "n \<le> T" unfolding n_def T_def by (induction argv) simp_all
  have T: "T \<le> 256" using assms(2) by (simp add: T_def)
  obtain as m1 where m1: "push_strings (rev argv) PHYS_BASE 0 m = Some (as, stk (4096 - T), of_nat T, m1)" "stack_mapped m1"
    "length as = n" "\<forall>m''. kept_above (4096 - T) m1 m'' \<longrightarrow> (\<forall>i < n. cstr m'' (as ! i) (rev argv ! i))"
    using push_strings_ok [of m "rev argv" 4096 0] assms(1,3) T size_rev stk_top n_def by auto
  define p where "p = (if T mod 4 \<noteq> 0 then 4 - T mod 4 else 0)"
  define e1 where "e1 = 4096 - T - p"
  have p: "p < 4" "(T + p) mod 4 = 0" by (simp_all add: p_def) presburger
  have e1: "e1 + T + p = 4096" using T p(1) by (simp add: e1_def)
  then have e1m: "e1 mod 4 = 0" using p(2) by presburger
  have ux: "unat ((of_nat T :: u8) mod 4) = T mod 4" by (simp add: unat_mod unat_of_nat mod_mod_cancel)
  have u: "(of_nat T :: u8) mod 4 \<noteq> 0 \<longleftrightarrow> T mod 4 \<noteq> 0" by (metis ux unat_eq_zero)
  have "ucast ((of_nat T :: u8) mod 4) = (of_nat (unat ((of_nat T :: u8) mod 4)) :: u32)" by (rule of_nat_unat [symmetric])
  then have uc: "ucast ((of_nat T :: u8) mod 4) = (of_nat (T mod 4) :: u32)" unfolding ux .
  have al: "(if (of_nat T :: u8) mod 4 \<noteq> 0 then stk (4096 - T) - (4 - ucast ((of_nat T :: u8) mod 4)) else stk (4096 - T)) = stk e1"
  proof (cases "T mod 4 = 0")
    case False
    have "4 - of_nat (T mod 4) = (of_nat p :: u32)" using False by (simp add: p_def of_nat_diff)
    moreover have "stk (4096 - T) - of_nat p = stk e1" using T p(1) unfolding e1_def by (intro stk_sub) simp
    ultimately show ?thesis using False unfolding u uc by simp
  next
    case True
    then show ?thesis unfolding u by (simp add: e1_def p_def)
  qed
  have b: "4 \<le> e1" "e1 \<le> 4096" "4 * n + 16 \<le> e1" using e1 T p(1) nT by simp_all
  obtain m2 where m2: "push_word 0 (stk e1) m1 = Some (stk (e1 - 4), m2)" "stack_mapped m2" "kept_above e1 m1 m2"
    "\<forall>m''. kept_above (e1 - 4) m2 m'' \<longrightarrow> holds_word m'' (stk (e1 - 4)) 0" using push_word_ok [OF m1(2) b(1,2)] by blast
  define e3 where "e3 = e1 - 4 - 4 * n"
  have e3: "e1 = e3 + 4 * n + 4" "12 \<le> e3" using b(3) by (simp_all add: e3_def)
  have pw: "4 * length as \<le> e1 - 4" "e1 - 4 \<le> 4096" using b m1(3) by simp_all
  obtain m3 where m3: "push_words as (stk (e1 - 4)) m2 = Some (stk e3, m3)" "stack_mapped m3" "kept_above (e1 - 4) m2 m3"
    "\<forall>m''. kept_above e3 m3 m'' \<longrightarrow> (\<forall>i < n. holds_word m'' (stk (e1 - 4 - 4 * (i + 1))) (as ! i))"
    using push_words_ok [OF m2(2) pw] unfolding m1(3) e3_def [symmetric] by blast
  have b3: "4 \<le> e3" "e3 \<le> 4096" "4 \<le> e3 - 4" "e3 - 4 \<le> 4096" "4 \<le> e3 - 8" "e3 - 8 \<le> 4096" using e3 b by simp_all
  obtain m4 where m4: "push_word (stk e3) (stk e3) m3 = Some (stk (e3 - 4), m4)" "stack_mapped m4" "kept_above e3 m3 m4"
    "\<forall>m''. kept_above (e3 - 4) m4 m'' \<longrightarrow> holds_word m'' (stk (e3 - 4)) (stk e3)" using push_word_ok [OF m3(2) b3(1,2)] by blast
  obtain m5 where m5: "push_word (of_nat n) (stk (e3 - 4)) m4 = Some (stk (e3 - 8), m5)" "stack_mapped m5" "kept_above (e3 - 4) m4 m5"
    "\<forall>m''. kept_above (e3 - 8) m5 m'' \<longrightarrow> holds_word m'' (stk (e3 - 8)) (of_nat n)"
    using push_word_ok [OF m4(2) b3(3,4)] by auto
  obtain m6 where m6: "push_word 0 (stk (e3 - 8)) m5 = Some (stk (e3 - 12), m6)" "kept_above (e3 - 8) m5 m6"
    "\<forall>m''. kept_above (e3 - 12) m6 m'' \<longrightarrow> holds_word m'' (stk (e3 - 12)) 0"
    using push_word_ok [OF m5(2) b3(5,6)] by auto
  have ag: "kept_above (e3 - 4) m4 m6" "kept_above e3 m3 m6" "kept_above (e1 - 4) m2 m6" "kept_above (4096 - T) m1 m6" "kept_above (e3 - 12) m6 m6"
  proof -
    show 1: "kept_above (e3 - 4) m4 m6" by (rule kept_above_trans [OF m5(3) m6(2)]) simp
    show 2: "kept_above e3 m3 m6" by (rule kept_above_trans [OF m4(3) 1]) simp
    show 3: "kept_above (e1 - 4) m2 m6" by (rule kept_above_trans [OF m3(3) 2]) (simp add: e3)
    show "kept_above (4096 - T) m1 m6" by (rule kept_above_mono [OF kept_above_trans [OF m2(3) 3]]) (simp_all add: e1_def)
    show "kept_above (e3 - 12) m6 m6" by (simp add: kept_above_def)
  qed
  define e where "e = e3 - 12"
  have e: "e3 = e + 12" "e1 = e + 4 * n + 16" using e3 by (simp_all add: e_def)
  have run: "push_arguments argv PHYS_BASE m = Some (stk e, m6)"
    unfolding push_arguments_def using m1(1) m2(1) m3(1) m4(1) m5(1) m6(1) al
    by (simp add: Let_def n_def [symmetric] e_def del: push_strings.simps push_words.simps)
  have args: "\<exists>a. holds_word m6 (stk (e + 12 + 4 * i)) a \<and> cstr m6 a (argv ! i)" if i: "i < n" for i
  proof -
    let ?j = "n - 1 - i"
    have j: "?j < n" "rev argv ! ?j = argv ! i" using i by (simp_all add: n_def rev_nth)
    have "e1 - 4 - 4 * (?j + 1) = e + 12 + 4 * i" using i e by simp
    moreover have "holds_word m6 (stk (e1 - 4 - 4 * (?j + 1))) (as ! ?j)" using m3(4) ag(2) j(1) by blast
    moreover have "cstr m6 (as ! ?j) (rev argv ! ?j)" using m1(4) ag(4) j(1) by blast
    ultimately show ?thesis using j(2) by auto
  qed
  have idx: "e3 - 8 = e + 4" "e3 - 4 = e + 8" "e1 - 4 = e + 12 + 4 * n" using e by simp_all
  have "e mod 4 = 0" using e1m e(2) by presburger
  moreover have "holds_word m6 (stk e) 0" using m6(3) ag(5) by (simp add: e_def)
  moreover have "holds_word m6 (stk (e + 4)) (of_nat n)" using mp [OF spec [OF m5(4)] m6(2)] unfolding idx .
  moreover have "holds_word m6 (stk (e + 8)) (stk (e + 12))" using mp [OF spec [OF m4(4)] ag(1)] unfolding idx unfolding e(1) .
  moreover have "holds_word m6 (stk (e + 12 + 4 * n)) 0" using mp [OF spec [OF m2(4)] ag(3)] unfolding idx .
  moreover have "e + 4 * n + 16 \<le> 4096" using e(2) b(2) by simp
  ultimately show ?thesis using run args unfolding n_def by (intro exI [of _ e] exI [of _ m6] conjI) simp_all
qed

text \<open>C14: A program starts with its command line on the stack: for every command line that fits its buffer, the kernel
  leaves at the aligned stack pointer a null return address, the number of words, and a pointer to an array with the
  address of each word, null-terminated and in order, that ends with a null pointer; all of it in the one stack page.\<close>

theorem argument_passing:
  assumes "length file_name < 256" "0 \<notin> set file_name" "stack_mapped m"
  defines "argv \<equiv> words_of file_name"
  shows "\<exists>esp m'. push_arguments argv PHYS_BASE m = Some (esp, m') \<and> unat esp mod 4 = 0 \<and>
    PHYS_BASE - PGSIZE \<le> esp \<and> unat esp + 4 * length argv + 16 \<le> unat PHYS_BASE \<and>
    holds_word m' esp 0 \<and> holds_word m' (esp + 4) (of_nat (length argv)) \<and> holds_word m' (esp + 8) (esp + 12) \<and>
    (\<forall>i < length argv. \<exists>a. holds_word m' (esp + 12 + 4 * of_nat i) a \<and> cstr m' a (argv ! i)) \<and>
    holds_word m' (esp + 12 + 4 * of_nat (length argv)) 0"
proof -
  have sz: "strings_size argv \<le> 256"
    using words_of_size [of file_name] length_dropWhile_le [of "\<lambda>c. c = 32" file_name] assms(1) by (simp add: argv_def split: if_splits)
  have by0: "\<forall>t \<in> set argv. 0 \<notin> set t" using words_of_bytes assms(2) unfolding argv_def by blast
  obtain e m' where e: "push_arguments argv PHYS_BASE m = Some (stk e, m')" "e mod 4 = 0" "e + 4 * length argv + 16 \<le> 4096"
    "holds_word m' (stk e) 0" "holds_word m' (stk (e + 4)) (of_nat (length argv))" "holds_word m' (stk (e + 8)) (stk (e + 12))"
    "\<forall>i < length argv. \<exists>a. holds_word m' (stk (e + 12 + 4 * i)) a \<and> cstr m' a (argv ! i)"
    "holds_word m' (stk (e + 12 + 4 * length argv)) 0"
    using push_arguments_ok [OF assms(3) sz by0] by (elim exE conjE) (rule that)
  have s: "stk (e + k) = stk e + of_nat k" for k by (simp add: stk_add)
  have s4: "stk (e + 12 + 4 * k) = stk e + 12 + 4 * of_nat k" for k using s [of "12 + 4 * k"] by (simp add: add.assoc)
  have u: "unat (stk e) = 0xBFFFF000 + e" using e(3) by (intro unat_stk) simp
  have "(0xBFFFF000 + e) mod 4 = (0 :: nat)" using e(2) by presburger
  then show ?thesis using e(1,3-8) s [of 4] s [of 8] s [of 12] u unfolding s4
    by (intro exI [of _ "stk e"] exI [of _ m']) (simp add: word_le_nat_alt PHYS_BASE_def PGSIZE_val)
qed

theorem argument_passing_witness:
  "\<exists>esp m'. push_arguments [[108, 115], [45, 108]] PHYS_BASE (\<lambda>a. Some 0) = Some (esp, m') \<and> unat esp mod 4 = 0 \<and>
    holds_word m' (esp + 4) 2 \<and> (\<exists>a. holds_word m' (esp + 16) a \<and> cstr m' a [45, 108])"
proof -
  have w: "words_of [108, 115, 32, 45, 108] = [[108, 115], [45, 108]]" by (simp add: words_of.simps)
  have "stack_mapped (\<lambda>a. Some 0)" by (simp add: stack_mapped_def)
  from argument_passing [OF _ _ this, of "[108, 115, 32, 45, 108]", unfolded w] obtain esp m' where e:
    "push_arguments [[108, 115], [45, 108]] PHYS_BASE (\<lambda>a. Some 0) = Some (esp, m')" "unat esp mod 4 = 0"
    "holds_word m' (esp + 4) 2"
    "\<forall>i < 2. \<exists>a. holds_word m' (esp + 12 + 4 * of_nat i) a \<and> cstr m' a ([[108, 115], [45, 108]] ! i)" by auto
  from e(4) have "\<exists>a. holds_word m' (esp + 12 + 4 * of_nat 1) a \<and> cstr m' a ([[108, 115], [45, 108]] ! 1)" by (rule allE [of _ 1]) simp
  then have "\<exists>a. holds_word m' (esp + 16) a \<and> cstr m' a [45, 108]" by (simp add: add.assoc)
  then show ?thesis using e(1-3) by (rule_tac x = esp in exI, rule_tac x = m' in exI) simp
qed

end
