(* ===== verification/Malloc.thy ===== *)
theory Malloc
  imports Palloc
begin

text \<open>
  The block allocator \<^verbatim>\<open>threads/malloc.c\<close> above the page allocator: seven descriptors for blocks of 16 to
  1024 bytes, whose blocks are cut from one-page arenas, and runs of pages for larger blocks.  The header of an
  arena is an entry of a map from page addresses, which is gone when the page is freed, and the list of the free
  blocks of a descriptor is the list of their addresses; \<^verbatim>\<open>bytes\<close> is the memory that the clients see.  The locks
  of the descriptors serialize the calls and are not part of the state.
\<close>

section \<open>Operations\<close>

record desc =
  bsize :: u32
  blocks_per_arena :: u32
  free_list :: "ptr list"

record arena =
  magic :: u32
  owner :: "nat option"
  free_cnt :: u32

record malloc_state =
  pages :: palloc_state
  descs :: "desc list"
  arenas :: "ptr \<Rightarrow> arena option"

definition ARENA_MAGIC :: u32 where
  "ARENA_MAGIC = 0x9a548eed"

definition sizeof_arena :: u32 where
  "sizeof_arena = 12"

partial_function (option) init_descs :: "u32 \<Rightarrow> desc list \<Rightarrow> desc list option" where
  "init_descs sz ds =
     (if sz < PGSIZE div 2
      then do {
        chk (length ds + 1 \<le> 10);
        init_descs (sz * 2)
          (ds @ [\<lparr>bsize = sz, blocks_per_arena = (PGSIZE - sizeof_arena) div sz, free_list = []\<rparr>]) }
      else Some ds)"

definition malloc_init :: "palloc_state \<Rightarrow> malloc_state option" where
  "malloc_init pg = do { ds \<leftarrow> init_descs 16 []; Some \<lparr>pages = pg, descs = ds, arenas = (\<lambda>_. None)\<rparr> }"

text \<open>Arenas and blocks.\<close>

definition block_to_arena :: "ptr \<Rightarrow> malloc_state \<Rightarrow> (ptr \<times> arena) option" where
  "block_to_arena b st = do {
     let a = pg_round_down b;
     chk (a \<noteq> NULL);
     A \<leftarrow> arenas st a;
     chk (magic A = ARENA_MAGIC);
     chk (case owner A of None \<Rightarrow> True | Some k \<Rightarrow> (pg_ofs b - sizeof_arena) mod bsize (descs st ! k) = 0);
     chk (owner A \<noteq> None \<or> pg_ofs b = sizeof_arena);
     Some (a, A) }"

definition arena_to_block :: "ptr \<Rightarrow> nat \<Rightarrow> malloc_state \<Rightarrow> ptr option" where
  "arena_to_block a idx st = do {
     chk (a \<noteq> NULL);
     A \<leftarrow> arenas st a;
     chk (magic A = ARENA_MAGIC);
     k \<leftarrow> owner A;
     chk (idx < unat (blocks_per_arena (descs st ! k)));
     Some (a + sizeof_arena + of_nat idx * bsize (descs st ! k)) }"

definition set_free_list :: "nat \<Rightarrow> ptr list \<Rightarrow> malloc_state \<Rightarrow> malloc_state" where
  "set_free_list k l st = st\<lparr>descs := (descs st)[k := (descs st ! k)\<lparr>free_list := l\<rparr>]\<rparr>"

definition set_arena :: "ptr \<Rightarrow> arena \<Rightarrow> malloc_state \<Rightarrow> malloc_state" where
  "set_arena a A st = st\<lparr>arenas := (arenas st)(a \<mapsto> A)\<rparr>"

text \<open>The smallest descriptor for a size.\<close>

fun find_desc :: "u32 \<Rightarrow> desc list \<Rightarrow> nat option" where
  "find_desc sz [] = None"
| "find_desc sz (d # ds) = (if bsize d \<ge> sz then Some 0 else map_option Suc (find_desc sz ds))"

text \<open>The two loops over the blocks of an arena, up to block \<open>n\<close>.\<close>

primrec push_blocks :: "nat \<Rightarrow> ptr \<Rightarrow> nat \<Rightarrow> malloc_state \<Rightarrow> malloc_state option" where
  "push_blocks 0 a k st = Some st"
| "push_blocks (Suc n) a k st = do {
     st \<leftarrow> push_blocks n a k st;
     b \<leftarrow> arena_to_block a n st;
     Some (set_free_list k (free_list (descs st ! k) @ [b]) st) }"

primrec remove_blocks :: "nat \<Rightarrow> ptr \<Rightarrow> nat \<Rightarrow> malloc_state \<Rightarrow> malloc_state option" where
  "remove_blocks 0 a k st = Some st"
| "remove_blocks (Suc n) a k st = do {
     st \<leftarrow> remove_blocks n a k st;
     b \<leftarrow> arena_to_block a n st;
     chk (b \<in> set (free_list (descs st ! k)));
     Some (set_free_list k (remove1 b (free_list (descs st ! k))) st) }"

text \<open>A block of more than half a page; a new arena when the free list is empty; and the first free block.\<close>

definition malloc_big :: "u32 \<Rightarrow> malloc_state \<Rightarrow> (ptr \<times> malloc_state) option" where
  "malloc_big sz st = do {
     let page_cnt = DIV_ROUND_UP (sz + sizeof_arena) PGSIZE;
     (a, pg) \<leftarrow> palloc_get_multiple 0 page_cnt (pages st);
     let st = st\<lparr>pages := pg\<rparr>;
     if a = NULL then Some (NULL, st)
     else Some (a + sizeof_arena, set_arena a \<lparr>magic = ARENA_MAGIC, owner = None, free_cnt = page_cnt\<rparr> st) }"

definition new_arena :: "nat \<Rightarrow> malloc_state \<Rightarrow> (bool \<times> malloc_state) option" where
  "new_arena k st = do {
     (a, pg) \<leftarrow> palloc_get_page 0 (pages st);
     let st = st\<lparr>pages := pg\<rparr>;
     if a = NULL then Some (False, st)
     else do {
       let n = blocks_per_arena (descs st ! k);
       st \<leftarrow> push_blocks (unat n) a k (set_arena a \<lparr>magic = ARENA_MAGIC, owner = Some k, free_cnt = n\<rparr> st);
       Some (True, st) } }"

definition pop_block :: "nat \<Rightarrow> malloc_state \<Rightarrow> (ptr \<times> malloc_state) option" where
  "pop_block k st =
     (case free_list (descs st ! k) of
        [] \<Rightarrow> None
      | b # bs \<Rightarrow> do {
          let st = set_free_list k bs st;
          (a, A) \<leftarrow> block_to_arena b st;
          Some (b, set_arena a (A\<lparr>free_cnt := free_cnt A - 1\<rparr>) st) })"

definition malloc :: "u32 \<Rightarrow> malloc_state \<Rightarrow> (ptr \<times> malloc_state) option" where
  "malloc sz st =
     (if sz = 0 then Some (NULL, st)
      else case find_desc sz (descs st) of
        None \<Rightarrow> malloc_big sz st
      | Some k \<Rightarrow> do {
          (got, st) \<leftarrow> (if free_list (descs st ! k) = [] then new_arena k st else Some (True, st));
          if got then pop_block k st else Some (NULL, st) })"

definition malloc_fill :: "ptr \<Rightarrow> u8 \<Rightarrow> u32 \<Rightarrow> malloc_state \<Rightarrow> malloc_state" where
  "malloc_fill p c n st = st\<lparr>pages := (pages st)\<lparr>bytes := fill p c n (bytes (pages st))\<rparr>\<rparr>"

definition calloc :: "u32 \<Rightarrow> u32 \<Rightarrow> malloc_state \<Rightarrow> (ptr \<times> malloc_state) option" where
  "calloc a b st = do {
     let sz = a * b;
     if sz < a \<or> sz < b then Some (NULL, st)
     else do {
       (p, st) \<leftarrow> malloc sz st;
       Some (p, if p \<noteq> NULL then malloc_fill p 0 sz st else st) } }"

definition block_bytes :: "ptr \<Rightarrow> malloc_state \<Rightarrow> u32 option" where
  "block_bytes block st = do {
     (a, A) \<leftarrow> block_to_arena block st;
     Some (case owner A of Some k \<Rightarrow> bsize (descs st ! k) | None \<Rightarrow> PGSIZE * free_cnt A - pg_ofs block) }"

text \<open>\<^verbatim>\<open>free\<close> of a small block: the last block of an arena gives the page back.\<close>

definition free_small :: "ptr \<Rightarrow> nat \<Rightarrow> ptr \<Rightarrow> malloc_state \<Rightarrow> malloc_state option" where
  "free_small a k b st = do {
     let d = descs st ! k;
     let st = malloc_fill b 0xCC (bsize d) st;
     let st = set_free_list k (b # free_list d) st;
     A \<leftarrow> arenas st a;
     let n = free_cnt A + 1;
     let st = set_arena a (A\<lparr>free_cnt := n\<rparr>) st;
     if n \<ge> blocks_per_arena d
     then do {
       chk (n = blocks_per_arena d);
       st \<leftarrow> remove_blocks (unat (blocks_per_arena d)) a k st;
       pg \<leftarrow> palloc_free_page a (pages st);
       Some (st\<lparr>pages := pg, arenas := (arenas st)(a := None)\<rparr>) }
     else Some st }"

definition free :: "ptr \<Rightarrow> malloc_state \<Rightarrow> malloc_state option" where
  "free p st =
     (if p = NULL then Some st
      else do {
        (a, A) \<leftarrow> block_to_arena p st;
        case owner A of
          Some k \<Rightarrow> free_small a k p st
        | None \<Rightarrow> do {
            pg \<leftarrow> palloc_free_multiple a (free_cnt A) (pages st);
            Some (st\<lparr>pages := pg, arenas := (arenas st)(a := None)\<rparr>) } })"

definition malloc_copy :: "ptr \<Rightarrow> ptr \<Rightarrow> u32 \<Rightarrow> malloc_state \<Rightarrow> malloc_state" where
  "malloc_copy dst src n st = (let m = bytes (pages st) in
     st\<lparr>pages := (pages st)\<lparr>bytes := (\<lambda>x. if x - dst < n then m (src + (x - dst)) else m x)\<rparr>\<rparr>)"

definition realloc :: "ptr \<Rightarrow> u32 \<Rightarrow> malloc_state \<Rightarrow> (ptr \<times> malloc_state) option" where
  "realloc old_block new_size st =
     (if new_size = 0 then do { st \<leftarrow> free old_block st; Some (NULL, st) }
      else do {
        (new_block, st) \<leftarrow> malloc new_size st;
        if old_block \<noteq> NULL \<and> new_block \<noteq> NULL
        then do {
          old_size \<leftarrow> block_bytes old_block st;
          let min_size = (if new_size < old_size then new_size else old_size);
          st \<leftarrow> free old_block (malloc_copy new_block old_block min_size st);
          Some (new_block, st) }
        else Some (new_block, st) })"

section \<open>Pages by their number\<close>

text \<open>The pages of a group, and those of the kernel pool that are in use.\<close>

definition frames :: "ptr \<Rightarrow> u32 \<Rightarrow> nat set" where
  "frames a n = {unat a div 4096..<unat a div 4096 + unat n}"

definition used_frames :: "palloc_state \<Rightarrow> nat set" where
  "used_frames pg = (\<lambda>i. unat (base (kernel_pool pg)) div 4096 + i) ` used_pages (kernel_pool pg)"

definition page_run :: "ptr \<Rightarrow> u32 \<Rightarrow> bool" where
  "page_run a n \<longleftrightarrow> n \<noteq> 0 \<and> a \<noteq> NULL \<and> unat a mod 4096 = 0 \<and> unat a + 4096 * unat n < 2 ^ 32"

lemma get_frames:
  assumes ok: "pools_ok s" and n: "n \<noteq> 0"
  shows "palloc_get_multiple 0 n s = Some (NULL, s) \<and> no_room (kernel_pool s) (unat n) \<or>
    (\<exists>a s'. palloc_get_multiple 0 n s = Some (a, s') \<and> page_run a n \<and> pools_ok s' \<and> bytes s' = bytes s \<and>
       frames a n \<inter> used_frames s = {} \<and> used_frames s' = used_frames s \<union> frames a n)"
proof -
  have k: "the_pool 0 st = kernel_pool st" for st by (simp add: the_pool_def)
  show ?thesis
  proof (cases "no_room (kernel_pool s) (unat n)")
    case True
    then show ?thesis using palloc_get_ok [OF ok n, of 0] by (simp add: k)
  next
    case False
    then obtain i s' where g: "palloc_get_multiple 0 n s = Some (base (kernel_pool s) + PGSIZE * i, s')"
      "unat i + unat n \<le> page_count (kernel_pool s)" "{unat i..<unat i + unat n} \<inter> used_pages (kernel_pool s) = {}"
      "pool_change 0 s s' (used_pages (kernel_pool s) \<union> {unat i..<unat i + unat n})" "bytes s' = bytes s"
      using palloc_get_ok [OF ok n, of 0] by (auto simp: k)
    let ?p = "kernel_pool s" let ?a = "base ?p + PGSIZE * i"
    have p: "pool_ok ?p" using ok by (simp add: pools_ok_def)
    have i: "unat i \<le> page_count ?p" using g(2) by simp
    note A = page_address [OF p i]
    have b: "unat (base ?p) mod 4096 = 0" "unat (base ?p) + 4096 * page_count ?p < 2 ^ 32" using p by (simp_all add: pool_ok_def)
    have a: "unat ?a mod 4096 = 0" "unat ?a div 4096 = unat (base ?p) div 4096 + unat i" using A(1) b(1) by simp_all
    have "unat ?a + 4096 * unat n < 2 ^ 32" using A(1) b(2) g(2) by linarith
    then have run: "page_run ?a n" using A(2) a(1) n by (simp add: page_run_def)
    have f: "frames ?a n = (\<lambda>i. unat (base ?p) div 4096 + i) ` {unat i..<unat i + unat n}"
      unfolding frames_def a(2) by (simp add: ac_simps)
    have s': "pools_ok s'" "used_pages (kernel_pool s') = used_pages ?p \<union> {unat i..<unat i + unat n}"
      "base (kernel_pool s') = base ?p" using g(4) by (simp_all add: pool_change_def k)
    have "frames ?a n \<inter> used_frames s = {}" unfolding f used_frames_def using g(3) by auto
    moreover have "used_frames s' = used_frames s \<union> frames ?a n" by (simp add: f used_frames_def s' image_Un)
    ultimately show ?thesis using g(1,5) run s'(1) by blast
  qed
qed

lemma palloc_free_bytes:
  "palloc_free_multiple a n s = Some s' \<Longrightarrow> a \<noteq> NULL \<Longrightarrow> n \<noteq> 0 \<Longrightarrow> bytes s' = fill a 0xCC (PGSIZE * n) (bytes s)"
  unfolding palloc_free_multiple_def
  by (auto simp: put_pool_def Let_def split: bind_splits if_split_asm simp del: chk_bind)

lemma free_frames:
  assumes ok: "pools_ok s" and r: "page_run a n" and u: "frames a n \<subseteq> used_frames s"
  shows "\<exists>s'. palloc_free_multiple a n s = Some s' \<and> pools_ok s' \<and> bytes s' = fill a 0xCC (PGSIZE * n) (bytes s) \<and>
    used_frames s' = used_frames s - frames a n"
proof -
  have k: "the_pool 0 st = kernel_pool st" for st by (simp add: the_pool_def)
  let ?p = "kernel_pool s" let ?B = "unat (base ?p) div 4096"
  have p: "pool_ok ?p" using ok by (simp add: pools_ok_def)
  have b: "unat (base ?p) mod 4096 = 0" "unat (base ?p) + 4096 * page_count ?p < 2 ^ 32" using p by (simp_all add: pool_ok_def)
  have n: "0 < unat n" using r by (simp add: page_run_def unat_gt_0)
  have "unat a div 4096 \<in> frames a n" "unat a div 4096 + unat n - 1 \<in> frames a n" using n by (auto simp: frames_def)
  then have "unat a div 4096 \<in> used_frames s" "unat a div 4096 + unat n - 1 \<in> used_frames s" using u by blast+
  then obtain j l where j: "unat a div 4096 = ?B + j" "j \<in> used_pages ?p" and l: "unat a div 4096 + unat n - 1 = ?B + l" "l \<in> used_pages ?p"
    by (auto simp: used_frames_def)
  have jl: "j < page_count ?p" "l < page_count ?p" using j(2) l(2) used_pages_le by blast+
  have jn: "j + unat n \<le> page_count ?p" using j(1) l(1) jl n by linarith
  have ua: "unat a = unat (base ?p) + 4096 * j" 
    using j(1) b(1) r div_mult_mod_eq [of "unat a" 4096] div_mult_mod_eq [of "unat (base ?p)" 4096] by (simp add: page_run_def)
  have j32: "j < 2 ^ 32" using jl(1) b(2) by simp
  define i :: u32 where "i = of_nat j"
  have ui: "unat i = j" using unat_small [OF j32] by (simp add: i_def)
  have "unat i \<le> page_count ?p" using ui jl by simp
  from page_address(1) [OF p this] have a: "a = base ?p + PGSIZE * i" using ua ui by (simp add: word_unat_eq_iff)
  have f: "frames a n = (\<lambda>i. ?B + i) ` {unat i..<unat i + unat n}"
    unfolding frames_def j(1) ui by (simp add: ac_simps)
  have sub: "{unat i..<unat i + unat n} \<subseteq> used_pages ?p" 
    using u unfolding f used_frames_def by (subst (asm) inj_image_subset_iff) (rule inj_on_add)
  obtain s' where s: "palloc_free_multiple a n s = Some s'" "pool_change 0 s s' (used_pages ?p - {unat i..<unat i + unat n})"
    using palloc_free_ok [OF ok n, of i 0] sub jn ui unfolding k a by auto
  have "bytes s' = fill a 0xCC (PGSIZE * n) (bytes s)" using palloc_free_bytes [OF s(1)] r by (simp add: page_run_def)
  moreover have "used_frames s' = used_frames s - frames a n"
    using s(2) unfolding f by (simp add: used_frames_def pool_change_def k image_set_diff)
  moreover have "pools_ok s'" using s(2) by (simp add: pool_change_def)
  ultimately show ?thesis using s(1) by blast
qed


section \<open>Blocks within an arena\<close>

definition desc_ok :: "desc \<Rightarrow> bool" where
  "desc_ok d \<longleftrightarrow> 16 \<le> unat (bsize d) \<and> 0 < unat (blocks_per_arena d) \<and>
     12 + unat (blocks_per_arena d) * unat (bsize d) \<le> 4096"

definition arena_block :: "ptr \<Rightarrow> desc \<Rightarrow> nat \<Rightarrow> ptr" where
  "arena_block a d i = a + sizeof_arena + of_nat i * bsize d"

definition blocks :: "ptr \<Rightarrow> desc \<Rightarrow> ptr set" where
  "blocks a d = arena_block a d ` {..<unat (blocks_per_arena d)}"

lemma pg_round_down_sub: "pg_round_down va = va - pg_ofs va"
proof -
  have "pg_round_down va + pg_ofs va = va"
    unfolding pg_round_down_def pg_ofs_def
    by (subst disjunctive_add) (auto simp: bit_simps intro: bit_word_eqI)
  then show ?thesis by (simp add: eq_diff_eq)
qed

lemma unat_pg_round_down: "unat (pg_round_down va) = 4096 * (unat va div 4096)"
proof -
  have "unat (pg_ofs va) \<le> unat va" by (simp add: unat_pg_ofs)
  then have "unat (pg_round_down va) = unat va - unat va mod 4096"
    by (simp add: pg_round_down_sub unat_sub word_le_nat_alt unat_pg_ofs)
  then show ?thesis by (simp add: minus_mod_eq_mult_div)
qed

text \<open>An address within a page.\<close>

lemma within_page:
  assumes "page_run a n" "unat a \<le> unat x" "unat x < unat a + 4096"
  shows "pg_round_down x = a" "unat (pg_ofs x) = unat x - unat a"
proof -
  have a: "unat a = 4096 * (unat a div 4096)" using assms(1) by (auto simp: page_run_def)
  have q: "unat x div 4096 = unat a div 4096" using assms(2,3) a by (intro div_nat_eqI) simp_all
  show "pg_round_down x = a" using a q by (simp add: word_unat_eq_iff unat_pg_round_down)
  show "unat (pg_ofs x) = unat x - unat a" using a q by (simp add: unat_pg_ofs modulo_nat_def)
qed

lemma behind_header:
  assumes "page_run a n"
  shows "unat (a + sizeof_arena) = unat a + 12" "pg_round_down (a + sizeof_arena) = a" "pg_ofs (a + sizeof_arena) = sizeof_arena"
proof -
  have "0 < unat n" using assms by (simp add: page_run_def unat_gt_0)
  then have "unat a + 12 < 2 ^ 32" using assms by (simp add: page_run_def)
  then show u: "unat (a + sizeof_arena) = unat a + 12" by (simp add: sizeof_arena_def unat_word_ariths)
  show "pg_round_down (a + sizeof_arena) = a" by (rule within_page(1) [OF assms]) (use u in simp_all)
  have "unat (pg_ofs (a + sizeof_arena)) = 12" using within_page(2) [OF assms, of "a + sizeof_arena"] u by simp
  then show "pg_ofs (a + sizeof_arena) = sizeof_arena" by (simp add: word_unat_eq_iff sizeof_arena_def)
qed

lemma arena_block_nat:
  assumes a: "page_run a n" and d: "desc_ok d" and i: "i < unat (blocks_per_arena d)"
  shows "unat (arena_block a d i) = unat a + 12 + i * unat (bsize d)"
    and "unat (arena_block a d i) + unat (bsize d) \<le> unat a + 4096"
    and "pg_round_down (arena_block a d i) = a"
    and "(pg_ofs (arena_block a d i) - sizeof_arena) mod bsize d = 0"
proof -
  have "(i + 1) * unat (bsize d) \<le> unat (blocks_per_arena d) * unat (bsize d)" using i by (intro mult_right_mono) simp_all
  then have le: "12 + (i + 1) * unat (bsize d) \<le> 4096" using d by (simp add: desc_ok_def)
  have "unat a + 4096 \<le> unat a + 4096 * unat n" using a by (simp add: page_run_def unat_gt_0 Suc_leI)
  then have top: "unat a + 4096 < 2 ^ 32" using a by (simp add: page_run_def)
  have bs: "16 \<le> unat (bsize d)" using d by (simp add: desc_ok_def)
  have "i * 1 \<le> i * unat (bsize d)" using bs by (intro mult_le_mono2) simp
  moreover have "i * unat (bsize d) \<le> 4096" using le by (simp add: distrib_right)
  ultimately have "i \<le> 4096" by linarith
  then have i32: "i < 2 ^ 32" by simp
  have m: "unat (of_nat i * bsize d) = i * unat (bsize d)" using le unat_small [OF i32] by (simp add: unat_word_ariths)
  note p = behind_header(1) [OF a]
  show u: "unat (arena_block a d i) = unat a + 12 + i * unat (bsize d)"
    using p m le top by (simp add: arena_block_def unat_word_ariths)
  show e: "unat (arena_block a d i) + unat (bsize d) \<le> unat a + 4096" using u le by simp
  have "unat a \<le> unat (arena_block a d i)" "unat (arena_block a d i) < unat a + 4096" using u e bs by simp_all
  note W = within_page [OF a this]
  show "pg_round_down (arena_block a d i) = a" by (rule W(1))
  have "unat (pg_ofs (arena_block a d i) - sizeof_arena) = i * unat (bsize d)"
    using W(2) u by (simp add: unat_sub word_le_nat_alt sizeof_arena_def)
  then show "(pg_ofs (arena_block a d i) - sizeof_arena) mod bsize d = 0"
    by (simp add: word_unat_eq_iff unat_mod)
qed

lemma arena_block_inj:
  assumes "page_run a n" "desc_ok d" "i < unat (blocks_per_arena d)" "j < unat (blocks_per_arena d)"
  shows "arena_block a d i = arena_block a d j \<longleftrightarrow> i = j"
proof
  assume "arena_block a d i = arena_block a d j"
  then have "unat a + 12 + i * unat (bsize d) = unat a + 12 + j * unat (bsize d)"
    using arena_block_nat(1) assms by metis
  then show "i = j" using assms(2) by (simp add: desc_ok_def)
qed simp

lemma card_blocks: "page_run a n \<Longrightarrow> desc_ok d \<Longrightarrow> card (blocks a d) = unat (blocks_per_arena d)"
  unfolding blocks_def by (subst card_image) (auto simp: inj_on_def arena_block_inj)

lemma finite_blocks [simp]: "finite (blocks a d)"
  by (simp add: blocks_def)

lemma blocks_arena: "page_run a n \<Longrightarrow> desc_ok d \<Longrightarrow> b \<in> blocks a d \<Longrightarrow> pg_round_down b = a"
  by (auto simp: blocks_def arena_block_nat)

lemma blocks_apart:
  assumes "page_run a n" "desc_ok d" "p \<in> blocks a d" "q \<in> blocks a d" "p \<noteq> q"
  shows "{unat p..<unat p + unat (bsize d)} \<inter> {unat q..<unat q + unat (bsize d)} = {}"
proof -
  obtain i j where i: "p = arena_block a d i" "i < unat (blocks_per_arena d)" and j: "q = arena_block a d j" "j < unat (blocks_per_arena d)"
    using assms(3,4) by (auto simp: blocks_def)
  have u: "unat p = unat a + 12 + i * unat (bsize d)" "unat q = unat a + 12 + j * unat (bsize d)"
    using arena_block_nat(1) [OF assms(1,2)] i j by simp_all
  have *: "(x + 1) * s \<le> y * s" if "x < y" for x y s :: nat using that by (intro mult_right_mono) simp_all
  have "i < j \<or> j < i" using assms(5) i j by (cases i j rule: linorder_cases) auto
  then show ?thesis using u * [of i j "unat (bsize d)"] * [of j i "unat (bsize d)"] by auto
qed

section \<open>The invariant\<close>

definition run_len :: "arena \<Rightarrow> u32" where
  "run_len A = (case owner A of None \<Rightarrow> free_cnt A | Some k \<Rightarrow> 1)"

definition arena_frames :: "malloc_state \<Rightarrow> nat set" where
  "arena_frames st = (\<Union>(a, A) \<in> {(a, A). arenas st a = Some A}. frames a (run_len A))"

definition free_blocks :: "malloc_state \<Rightarrow> nat \<Rightarrow> ptr list" where
  "free_blocks st k = free_list (descs st ! k)"

text \<open>An arena of \<open>F\<close> may have all its blocks free, as it has for a moment within an operation.\<close>

definition arena_ok :: "ptr set \<Rightarrow> malloc_state \<Rightarrow> ptr \<Rightarrow> arena \<Rightarrow> bool" where
  "arena_ok F st a A \<longleftrightarrow> magic A = ARENA_MAGIC \<and> page_run a (run_len A) \<and>
     (\<forall>k. owner A = Some k \<longrightarrow> k < length (descs st) \<and>
        unat (free_cnt A) = card (blocks a (descs st ! k) \<inter> set (free_blocks st k)) \<and>
        (a \<notin> F \<longrightarrow> free_cnt A < blocks_per_arena (descs st ! k)))"

definition lists_ok :: "malloc_state \<Rightarrow> bool" where
  "lists_ok st \<longleftrightarrow> (\<forall>d \<in> set (descs st). desc_ok d) \<and>
     (\<forall>k < length (descs st). distinct (free_blocks st k) \<and>
        (\<forall>b \<in> set (free_blocks st k). \<exists>a A. arenas st a = Some A \<and> owner A = Some k \<and> b \<in> blocks a (descs st ! k)))"

text \<open>\<open>R\<close> are the pages of the kernel pool that belong to others.\<close>

definition heap_inv :: "ptr set \<Rightarrow> nat set \<Rightarrow> malloc_state \<Rightarrow> bool" where
  "heap_inv F R st \<longleftrightarrow> pools_ok (pages st) \<and> lists_ok st \<and>
     (\<forall>a A. arenas st a = Some A \<longrightarrow> arena_ok F st a A) \<and>
     (\<forall>a b A B. arenas st a = Some A \<and> arenas st b = Some B \<and> a \<noteq> b \<longrightarrow> frames a (run_len A) \<inter> frames b (run_len B) = {}) \<and>
     used_frames (pages st) = R \<union> arena_frames st \<and> R \<inter> arena_frames st = {}"

definition heap_ok :: "nat set \<Rightarrow> malloc_state \<Rightarrow> bool" where
  "heap_ok R st = heap_inv {} R st"

text \<open>The blocks that clients hold, with their sizes.\<close>

definition held :: "malloc_state \<Rightarrow> ptr \<Rightarrow> nat option" where
  "held st p = (let a = pg_round_down p in
     case arenas st a of
       None \<Rightarrow> None
     | Some A \<Rightarrow> (case owner A of
         None \<Rightarrow> if p = a + sizeof_arena then Some (4096 * unat (free_cnt A) - 12) else None
       | Some k \<Rightarrow> if p \<in> blocks a (descs st ! k) \<and> p \<notin> set (free_blocks st k) then Some (unat (bsize (descs st ! k))) else None))"

definition extent :: "ptr \<Rightarrow> nat \<Rightarrow> nat set" where
  "extent p n = {unat p..<unat p + n}"

lemma arena_frames_iff: "x \<in> arena_frames st \<longleftrightarrow> (\<exists>a A. arenas st a = Some A \<and> x \<in> frames a (run_len A))"
  by (auto simp: arena_frames_def)

lemma arena_frames_cong:
  assumes "\<And>a. map_option run_len (arenas st' a) = map_option run_len (arenas st a)"
  shows "arena_frames st' = arena_frames st"
proof -
  have "x \<in> arena_frames s \<longleftrightarrow> (\<exists>a n. map_option run_len (arenas s a) = Some n \<and> x \<in> frames a n)" for x s
    by (auto simp: arena_frames_iff)
  then show ?thesis unfolding set_eq_iff using assms by presburger
qed

lemma heap_invD:
  assumes "heap_inv F R st"
  shows "pools_ok (pages st)" "lists_ok st" "arenas st a = Some A \<Longrightarrow> arena_ok F st a A"
    "arenas st a = Some A \<Longrightarrow> arenas st b = Some B \<Longrightarrow> a \<noteq> b \<Longrightarrow> frames a (run_len A) \<inter> frames b (run_len B) = {}"
    "used_frames (pages st) = R \<union> arena_frames st" "R \<inter> arena_frames st = {}"
  using assms by (simp_all add: heap_inv_def)

lemma desc_okD: "lists_ok st \<Longrightarrow> k < length (descs st) \<Longrightarrow> desc_ok (descs st ! k)"
  by (simp add: lists_ok_def)

text \<open>A held block lies behind the header of its arena and within the pages of the arena.\<close>

lemma held_extent:
  assumes inv: "heap_inv F R st" and h: "held st p = Some n" and A: "arenas st (pg_round_down p) = Some A"
  shows "unat (pg_round_down p) + 12 \<le> unat p \<and> unat p + n \<le> unat (pg_round_down p) + 4096 * unat (run_len A)"
proof -
  let ?a = "pg_round_down p"
  have ok: "arena_ok F st ?a A" by (rule heap_invD(3) [OF inv A])
  then have r: "page_run ?a (run_len A)" by (simp add: arena_ok_def)
  show ?thesis
  proof (cases "owner A")
    case None
    have l: "run_len A = free_cnt A" "0 < unat (free_cnt A)" using None r by (simp_all add: run_len_def page_run_def unat_gt_0)
    have p: "p = ?a + sizeof_arena" "n = 4096 * unat (free_cnt A) - 12" using h A None by (simp_all add: held_def Let_def split: if_splits)
    have "unat p = unat ?a + 12" using p(1) behind_header(1) [OF r] by metis
    then show ?thesis using p(2) l by simp
  next
    case (Some k)
    have k: "k < length (descs st)" using ok Some by (simp add: arena_ok_def)
    have d: "desc_ok (descs st ! k)" using desc_okD [OF heap_invD(2) [OF inv] k] .
    obtain i where i: "p = arena_block ?a (descs st ! k) i" "i < unat (blocks_per_arena (descs st ! k))" "n = unat (bsize (descs st ! k))"
      using h A Some by (auto simp: held_def Let_def blocks_def split: if_splits)
    show ?thesis using arena_block_nat(1,2) [OF r d i(2)] i(1,3) Some by (simp add: run_len_def)
  qed
qed

lemma held_arena: "held st p = Some n \<Longrightarrow> \<exists>A. arenas st (pg_round_down p) = Some A"
  by (auto simp: held_def Let_def split: option.splits)

lemma page_frames: "page_run a n \<Longrightarrow> {x. x div 4096 \<in> frames a n} = {unat a..<unat a + 4096 * unat n}"
proof -
  assume r: "page_run a n"
  then have a: "unat a = 4096 * (unat a div 4096)" by (auto simp: page_run_def)
  have "x div 4096 \<in> frames a n \<longleftrightarrow> unat a \<le> x \<and> x < unat a + 4096 * unat n" for x
  proof -
    have "unat a div 4096 \<le> x div 4096 \<longleftrightarrow> 4096 * (unat a div 4096) \<le> x"
      by (simp add: less_eq_div_iff_mult_less_eq mult.commute)
    moreover have "x div 4096 < unat a div 4096 + unat n \<longleftrightarrow> x < 4096 * (unat a div 4096 + unat n)"
      by (simp add: div_less_iff_less_mult mult.commute)
    ultimately show ?thesis using a by (simp add: frames_def distrib_left)
  qed
  then show ?thesis by (intro set_eqI) (simp only: mem_Collect_eq atLeastLessThan_iff)
qed

text \<open>Held blocks do not overlap each other, the header of an arena, or a page that belongs to others.\<close>

lemma held_apart:
  assumes inv: "heap_inv F R st" and p: "held st p = Some n" and q: "held st q = Some m" and ne: "p \<noteq> q"
  shows "extent p n \<inter> extent q m = {}"
proof -
  let ?a = "pg_round_down p" and ?b = "pg_round_down q"
  obtain A B where A: "arenas st ?a = Some A" and B: "arenas st ?b = Some B" using held_arena p q by blast
  have r: "page_run ?a (run_len A)" "page_run ?b (run_len B)" using heap_invD(3) [OF inv] A B by (simp_all add: arena_ok_def)
  note e = held_extent [OF inv p A] held_extent [OF inv q B]
  show ?thesis
  proof (cases "?a = ?b")
    case False
    have *: "x div 4096 \<in> frames ?a (run_len A)" if "x \<in> extent p n" for x
      using page_frames [OF r(1)] that e(1) by (auto simp: extent_def set_eq_iff)
    have "x div 4096 \<in> frames ?b (run_len B)" if "x \<in> extent q m" for x
      using page_frames [OF r(2)] that e(2) by (auto simp: extent_def set_eq_iff)
    then show ?thesis using * heap_invD(4) [OF inv A B False] by blast
  next
    case True
    then have AB: "A = B" using A B by simp
    show ?thesis
    proof (cases "owner A")
      case None
      then show ?thesis using p q A True ne by (auto simp: held_def Let_def split: if_splits)
    next
      case (Some k)
      have k: "k < length (descs st)" using heap_invD(3) [OF inv A] Some by (simp add: arena_ok_def)
      have d: "desc_ok (descs st ! k)" using desc_okD [OF heap_invD(2) [OF inv] k] .
      have "p \<in> blocks ?a (descs st ! k)" "q \<in> blocks ?a (descs st ! k)" "n = unat (bsize (descs st ! k))" "m = n"
        using p q A Some True by (auto simp: held_def Let_def split: if_splits)
      then show ?thesis using blocks_apart [OF r(1) d _ _ ne] by (simp add: extent_def)
    qed
  qed
qed

lemma held_headers:
  assumes inv: "heap_inv F R st" and p: "held st p = Some n" and b: "arenas st b = Some B"
  shows "extent p n \<inter> extent b 12 = {}"
proof -
  let ?a = "pg_round_down p"
  obtain A where A: "arenas st ?a = Some A" using held_arena p by blast
  have r: "page_run ?a (run_len A)" "page_run b (run_len B)" using heap_invD(3) [OF inv] A b by (simp_all add: arena_ok_def)
  note e = held_extent [OF inv p A]
  show ?thesis
  proof (cases "?a = b")
    case True
    then show ?thesis using e by (auto simp: extent_def)
  next
    case False
    have *: "x div 4096 \<in> frames ?a (run_len A)" if "x \<in> extent p n" for x
      using page_frames [OF r(1)] that e by (auto simp: extent_def set_eq_iff)
    have "0 < unat (run_len B)" using r(2) by (simp add: page_run_def unat_gt_0)
    then have "x div 4096 \<in> frames b (run_len B)" if "x \<in> extent b 12" for x
      using page_frames [OF r(2)] that by (auto simp: extent_def set_eq_iff)
    then show ?thesis using * heap_invD(4) [OF inv A b False] by blast
  qed
qed

lemma held_others:
  assumes inv: "heap_inv F R st" and p: "held st p = Some n" and x: "x \<in> extent p n"
  shows "x div 4096 \<notin> R"
proof -
  let ?a = "pg_round_down p"
  obtain A where A: "arenas st ?a = Some A" using held_arena p by blast
  have r: "page_run ?a (run_len A)" using heap_invD(3) [OF inv A] by (simp add: arena_ok_def)
  have "x div 4096 \<in> frames ?a (run_len A)"
    using page_frames [OF r] held_extent [OF inv p A] x by (auto simp: extent_def set_eq_iff)
  then have "x div 4096 \<in> arena_frames st" using A by (auto simp: arena_frames_iff)
  then show ?thesis using heap_invD(6) [OF inv] by blast
qed


section \<open>Changing one arena\<close>

lemma set_free_list_beyond: "\<not> k < length (descs st) \<Longrightarrow> set_free_list k l st = st"
  by (simp add: set_free_list_def list_update_beyond)

lemma set_free_list_nth:
  "k < length (descs st) \<Longrightarrow>
    descs (set_free_list k l st) ! j = (if j = k then (descs st ! k)\<lparr>free_list := l\<rparr> else descs st ! j)"
  by (auto simp: set_free_list_def nth_list_update)

lemma set_free_list_simps [simp]:
  "length (descs (set_free_list k l st)) = length (descs st)"
  "arenas (set_free_list k l st) = arenas st" "pages (set_free_list k l st) = pages st"
  "k < length (descs st) \<Longrightarrow> free_list (descs (set_free_list k l st) ! j) = (if j = k then l else free_list (descs st ! j))"
  "k < length (descs st) \<Longrightarrow> free_blocks (set_free_list k l st) j = (if j = k then l else free_blocks st j)"
  by (simp_all add: set_free_list_nth free_blocks_def) (simp_all add: set_free_list_def)

lemma set_free_list_shape [simp]:
  "bsize (descs (set_free_list k l st) ! j) = bsize (descs st ! j)"
  "blocks_per_arena (descs (set_free_list k l st) ! j) = blocks_per_arena (descs st ! j)"
  by (cases "k < length (descs st)"; simp add: set_free_list_nth set_free_list_beyond)+

lemma set_free_list_twice [simp]: "set_free_list k l (set_free_list k l' st) = set_free_list k l st"
  by (cases "k < length (descs st)") (simp_all add: set_free_list_beyond, simp add: set_free_list_def)

lemma set_free_list_same: "set_free_list k (free_list (descs st ! k)) st = st"
  by (simp add: set_free_list_def)

lemma set_arena_simps [simp]:
  "descs (set_arena a A st) = descs st" "pages (set_arena a A st) = pages st" "free_blocks (set_arena a A st) j = free_blocks st j"
  "arenas (set_arena a A st) = (arenas st)(a \<mapsto> A)"
  by (simp_all add: set_arena_def free_blocks_def)

lemma malloc_fill_simps [simp]:
  "descs (malloc_fill b c n st) = descs st" "arenas (malloc_fill b c n st) = arenas st"
  "free_blocks (malloc_fill b c n st) j = free_blocks st j"
  by (simp_all add: malloc_fill_def free_blocks_def)

lemma blocks_cong: "bsize d = bsize e \<Longrightarrow> blocks_per_arena d = blocks_per_arena e \<Longrightarrow> blocks a d = blocks a e"
  by (simp add: blocks_def arena_block_def)

lemma blocks_set_free_list [simp]: "blocks a (descs (set_free_list k l st) ! j) = blocks a (descs st ! j)"
  by (rule blocks_cong) simp_all

definition changes :: "ptr \<Rightarrow> malloc_state \<Rightarrow> malloc_state \<Rightarrow> bool" where
  "changes a st st' \<longleftrightarrow> length (descs st') = length (descs st) \<and>
     (\<forall>j. bsize (descs st' ! j) = bsize (descs st ! j) \<and> blocks_per_arena (descs st' ! j) = blocks_per_arena (descs st ! j)) \<and>
     (\<forall>b. b \<noteq> a \<longrightarrow> arenas st' b = arenas st b) \<and>
     (\<forall>j < length (descs st). distinct (free_blocks st' j) \<and>
        set (free_blocks st' j) - blocks a (descs st ! j) = set (free_blocks st j) - blocks a (descs st ! j) \<and>
        (\<forall>x \<in> set (free_blocks st' j) \<inter> blocks a (descs st ! j). \<exists>A. arenas st' a = Some A \<and> owner A = Some j))"

lemma changesD:
  assumes "changes a st st'"
  shows "length (descs st') = length (descs st)" "bsize (descs st' ! j) = bsize (descs st ! j)"
    "blocks_per_arena (descs st' ! j) = blocks_per_arena (descs st ! j)" "blocks b (descs st' ! j) = blocks b (descs st ! j)"
    "b \<noteq> a \<Longrightarrow> arenas st' b = arenas st b"
    "j < length (descs st) \<Longrightarrow> distinct (free_blocks st' j)"
    "j < length (descs st) \<Longrightarrow> x \<notin> blocks a (descs st ! j) \<Longrightarrow> x \<in> set (free_blocks st' j) \<longleftrightarrow> x \<in> set (free_blocks st j)"
    "j < length (descs st) \<Longrightarrow> x \<in> set (free_blocks st' j) \<Longrightarrow> x \<in> blocks a (descs st ! j) \<Longrightarrow>
      \<exists>A. arenas st' a = Some A \<and> owner A = Some j"
  using assms by (auto simp: changes_def intro!: blocks_cong)

lemma desc_ok_cong: "bsize d = bsize e \<Longrightarrow> blocks_per_arena d = blocks_per_arena e \<Longrightarrow> desc_ok d = desc_ok e"
  by (simp add: desc_ok_def)

lemma changed_lists:
  assumes inv: "heap_inv F R st" and c: "changes a st st'" and r: "page_run a n"
  shows "lists_ok st'"
proof -
  note L = heap_invD(2) [OF inv]
  have d: "desc_ok e" if e: "e \<in> set (descs st')" for e
  proof -
    obtain j where j: "j < length (descs st')" "e = descs st' ! j" using e by (auto simp: in_set_conv_nth)
    then have "desc_ok (descs st ! j)" using desc_okD [OF L] changesD(1) [OF c] by simp
    then show ?thesis unfolding j(2) using desc_ok_cong [OF changesD(2,3) [OF c]] by simp
  qed
  have "\<exists>b B. arenas st' b = Some B \<and> owner B = Some j \<and> x \<in> blocks b (descs st' ! j)"
    if j: "j < length (descs st')" and x: "x \<in> set (free_blocks st' j)" for j x
  proof (cases "x \<in> blocks a (descs st ! j)")
    case True
    then show ?thesis using changesD(8) [OF c _ x True] j changesD(1,4) [OF c] by auto
  next
    case False
    then have "x \<in> set (free_blocks st j)" using changesD(7) [OF c _ False] x j changesD(1) [OF c] by simp
    then obtain b B where b: "arenas st b = Some B" "owner B = Some j" "x \<in> blocks b (descs st ! j)"
      using L j changesD(1) [OF c] unfolding lists_ok_def by metis
    then have "b \<noteq> a" using False by auto
    then have "arenas st' b = Some B" using b(1) changesD(5) [OF c] by simp
    then show ?thesis using b(2,3) changesD(4) [OF c] by auto
  qed
  then show ?thesis using d changesD(1,6) [OF c] by (auto simp: lists_ok_def)
qed

lemma changed_arena:
  assumes inv: "heap_inv F R st" and c: "changes a st st'" and r: "page_run a n" and F: "F - {a} \<subseteq> F'"
    and b: "b \<noteq> a" "arenas st b = Some B"
  shows "arena_ok F' st' b B"
proof -
  have ok: "arena_ok F st b B" by (rule heap_invD(3) [OF inv b(2)])
  have "blocks b (descs st ! k) \<inter> set (free_blocks st' k) = blocks b (descs st ! k) \<inter> set (free_blocks st k)"
    if k: "owner B = Some k" for k
  proof -
    have kl: "k < length (descs st)" using ok k by (simp add: arena_ok_def)
    have rb: "page_run b 1" using ok k by (simp add: arena_ok_def run_len_def)
    have d: "desc_ok (descs st ! k)" by (rule desc_okD [OF heap_invD(2) [OF inv] kl])
    have "x \<notin> blocks a (descs st ! k)" if "x \<in> blocks b (descs st ! k)" for x
      using blocks_arena [OF r d] blocks_arena [OF rb d that] b(1) by auto
    then show ?thesis using changesD(7) [OF c kl] by blast
  qed
  then show ?thesis using ok F b(1) unfolding arena_ok_def changesD(1,3,4) [OF c] by auto
qed

lemma change_arena:
  assumes inv: "heap_inv F R st" and c: "changes a st st'" and r: "page_run a n" and F: "F - {a} \<subseteq> F'"
    and new: "\<And>A. arenas st' a = Some A \<Longrightarrow> arena_ok F' st' a A"
    and pg: "pools_ok (pages st')" "used_frames (pages st') = R \<union> arena_frames st'" "R \<inter> arena_frames st' = {}"
    and disj: "\<And>A b B. arenas st' a = Some A \<Longrightarrow> arenas st b = Some B \<Longrightarrow> b \<noteq> a \<Longrightarrow>
      frames a (run_len A) \<inter> frames b (run_len B) = {}"
  shows "heap_inv F' R st'"
proof -
  have old: "arenas st b = Some B" if "arenas st' b = Some B" "b \<noteq> a" for b B using that changesD(5) [OF c] by simp
  have "arena_ok F' st' b B" if "arenas st' b = Some B" for b B
    using new changed_arena [OF inv c r F] old that by (cases "b = a") auto
  moreover have "frames b (run_len B) \<inter> frames e (run_len E) = {}"
    if two: "arenas st' b = Some B" "arenas st' e = Some E" "b \<noteq> e" for b e B E
  proof -
    consider "b = a" "e \<noteq> a" | "e = a" "b \<noteq> a" | "b \<noteq> a" "e \<noteq> a" using two(3) by auto
    then show ?thesis
    proof cases
      case 1 then show ?thesis using disj old two by blast
    next
      case 2
      then have "frames e (run_len E) \<inter> frames b (run_len B) = {}" using disj old two by blast
      then show ?thesis by (simp only: Int_commute)
    next
      case 3 then show ?thesis using heap_invD(4) [OF inv] old two by blast
    qed
  qed
  ultimately show ?thesis using changed_lists [OF inv c r] pg unfolding heap_inv_def by blast
qed

lemma held_changed:
  assumes inv: "heap_inv F R st" and c: "changes a st st'" and r: "page_run a n" and p: "pg_round_down p \<noteq> a"
  shows "held st' p = held st p"
proof (cases "arenas st (pg_round_down p)")
  case None
  then show ?thesis using changesD(5) [OF c p] by (simp add: held_def)
next
  case (Some A)
  have ok: "arena_ok F st (pg_round_down p) A" by (rule heap_invD(3) [OF inv Some])
  have "p \<in> set (free_blocks st' k) \<longleftrightarrow> p \<in> set (free_blocks st k)" if k: "owner A = Some k" for k
  proof -
    have kl: "k < length (descs st)" using ok k by (simp add: arena_ok_def)
    have "p \<notin> blocks a (descs st ! k)" using blocks_arena [OF r desc_okD [OF heap_invD(2) [OF inv] kl]] p by blast
    then show ?thesis by (rule changesD(7) [OF c kl])
  qed
  then show ?thesis using Some changesD(2,4,5) [OF c] p by (auto simp: held_def Let_def split: option.splits)
qed


lemma arena_run:
  assumes "heap_inv F R st" "arenas st a = Some A"
  shows "page_run a (run_len A)" "owner A = Some k \<Longrightarrow> page_run a 1" "owner A = Some k \<Longrightarrow> k < length (descs st)"
    "owner A = Some k \<Longrightarrow> desc_ok (descs st ! k)" "magic A = ARENA_MAGIC"
proof -
  have ok: "arena_ok F st a A" by (rule heap_invD(3) [OF assms])
  then show "page_run a (run_len A)" "magic A = ARENA_MAGIC" by (simp_all add: arena_ok_def)
  then show "page_run a 1" if "owner A = Some k" using that by (simp add: run_len_def)
  show k: "k < length (descs st)" if "owner A = Some k" using ok that by (simp add: arena_ok_def)
  show "desc_ok (descs st ! k)" if "owner A = Some k" using desc_okD [OF heap_invD(2) [OF assms(1)] k [OF that]] .
qed

lemma free_block_arena:
  assumes inv: "heap_inv F R st" and j: "j < length (descs st)" and x: "x \<in> set (free_blocks st j)"
  shows "\<exists>A. arenas st (pg_round_down x) = Some A \<and> owner A = Some j \<and> x \<in> blocks (pg_round_down x) (descs st ! j)"
proof -
  obtain b B where b: "arenas st b = Some B" "owner B = Some j" "x \<in> blocks b (descs st ! j)"
    using heap_invD(2) [OF inv] j x unfolding lists_ok_def by metis
  then have "pg_round_down x = b" using arena_run [OF inv b(1)] by (intro blocks_arena) auto
  then show ?thesis using b by blast
qed

lemma free_distinct: "heap_inv F R st \<Longrightarrow> j < length (descs st) \<Longrightarrow> distinct (free_blocks st j)"
  by (simp add: heap_inv_def lists_ok_def)

lemma held_None: "arenas st (pg_round_down p) = None \<Longrightarrow> held st p = None"
  by (simp add: held_def)

text \<open>A new free list for the owner of an arena, which changes only as to the blocks of the arena.\<close>

lemma relist:
  assumes inv: "heap_inv F R st" and A: "arenas st a = Some A" and own: "owner A = Some k"
    and l: "distinct l" "set l - blocks a (descs st ! k) = set (free_blocks st k) - blocks a (descs st ! k)"
    and m: "unat m = card (blocks a (descs st ! k) \<inter> set l)"
    and F: "F - {a} \<subseteq> F'" "a \<notin> F' \<Longrightarrow> m < blocks_per_arena (descs st ! k)"
  defines "st' \<equiv> set_arena a (A\<lparr>free_cnt := m\<rparr>) (set_free_list k l st)"
  shows "heap_inv F' R st'"
    and "held st' p = (if pg_round_down p = a
      then if p \<in> blocks a (descs st ! k) \<and> p \<notin> set l then Some (unat (bsize (descs st ! k))) else None else held st p)"
proof -
  let ?A = "A\<lparr>free_cnt := m\<rparr>"
  note r = arena_run(1,2,3,4,5) [OF inv A]
  have k: "k < length (descs st)" by (rule r(3) [OF own])
  have j: "\<exists>B. arenas st' a = Some B \<and> owner B = Some j"
    if x: "j < length (descs st)" "x \<in> set (free_blocks st' j)" "x \<in> blocks a (descs st ! j)" for j x
  proof (cases "j = k")
    case True then show ?thesis using own by (simp add: st'_def)
  next
    case False
    then have "x \<in> set (free_blocks st j)" using x(2) k by (simp add: st'_def)
    from free_block_arena [OF inv x(1) this] obtain B where B: "arenas st (pg_round_down x) = Some B" "owner B = Some j" by blast
    have "pg_round_down x = a"
      using blocks_arena [OF r(2) [OF own] desc_okD [OF heap_invD(2) [OF inv] x(1)] x(3)] .
    then show ?thesis using B A own by (simp add: st'_def)
  qed
  have c: "changes a st st'"
    using l k j free_distinct [OF inv] by (auto simp: changes_def st'_def set_eq_iff)
  have rl: "run_len ?A = run_len A" by (simp add: run_len_def own)
  have fr: "arena_frames st' = arena_frames st"
    by (rule arena_frames_cong) (use A rl in \<open>auto simp: st'_def\<close>)
  show "heap_inv F' R st'"
  proof (rule change_arena [OF inv c r(1) F(1)])
    show "arena_ok F' st' a B" if "arenas st' a = Some B" for B
      using that r(1,5) rl m k own F(2) by (auto simp: st'_def arena_ok_def)
    show "pools_ok (pages st')" "used_frames (pages st') = R \<union> arena_frames st'" "R \<inter> arena_frames st' = {}"
      using heap_invD(1,5,6) [OF inv] unfolding fr by (simp_all add: st'_def)
    show "frames a (run_len C) \<inter> frames b (run_len B) = {}"
      if "arenas st' a = Some C" "arenas st b = Some B" "b \<noteq> a" for C b B
      using heap_invD(4) [OF inv A that(2)] that rl by (auto simp: st'_def)
  qed
  show "held st' p = (if pg_round_down p = a
      then if p \<in> blocks a (descs st ! k) \<and> p \<notin> set l then Some (unat (bsize (descs st ! k))) else None else held st p)"
    using held_changed [OF inv c r(1), of p] k own by (simp add: held_def st'_def)
qed

section \<open>Taking a block\<close>

lemma block_to_arena_ok:
  assumes inv: "heap_inv F R st" and A: "arenas st a = Some A" and own: "owner A = Some k" and b: "b \<in> blocks a (descs st ! k)"
  shows "block_to_arena b (set_free_list k l st) = Some (a, A)" "block_to_arena b st = Some (a, A)"
proof -
  note r = arena_run(2,3,4,5) [OF inv A]
  obtain i where i: "b = arena_block a (descs st ! k) i" "i < unat (blocks_per_arena (descs st ! k))" using b by (auto simp: blocks_def)
  have "a \<noteq> NULL" using r(1) [OF own] by (simp add: page_run_def)
  then show "block_to_arena b (set_free_list k l st) = Some (a, A)" "block_to_arena b st = Some (a, A)"
    using A r own arena_block_nat(3,4) [OF r(1) [OF own] r(3) [OF own] i(2)] i(1) by (simp_all add: block_to_arena_def Let_def)
qed

lemma pop_block_ok:
  assumes inv: "heap_inv F R st" and k: "k < length (descs st)" and l: "free_blocks st k = b # bs"
    and F: "F \<subseteq> {pg_round_down b}"
  shows "\<exists>st'. pop_block k st = Some (b, st') \<and> heap_inv {} R st' \<and> held st b = None \<and> pages st' = pages st \<and>
    held st' = (held st)(b \<mapsto> unat (bsize (descs st ! k)))"
proof -
  let ?a = "pg_round_down b" let ?d = "descs st ! k"
  obtain A where A: "arenas st ?a = Some A" "owner A = Some k" "b \<in> blocks ?a ?d"
    using free_block_arena [OF inv k, of b] l by auto
  have ok: "arena_ok F st ?a A" by (rule heap_invD(3) [OF inv A(1)])
  note r = arena_run [OF inv A(1)]
  have dist: "distinct (b # bs)" using free_distinct [OF inv k] l by simp
  have "unat (free_cnt A) = card (blocks ?a ?d \<inter> set (b # bs))" using ok A(2) l by (simp add: arena_ok_def)
  also have "blocks ?a ?d \<inter> set (b # bs) = insert b (blocks ?a ?d \<inter> set bs)" using A(3) by auto
  also have "card \<dots> = Suc (card (blocks ?a ?d \<inter> set bs))" using dist by simp
  finally have cnt: "unat (free_cnt A) = Suc (card (blocks ?a ?d \<inter> set bs))" .
  then have m: "unat (free_cnt A - 1) = card (blocks ?a ?d \<inter> set bs)" by (simp add: unat_sub word_le_nat_alt)
  have "blocks ?a ?d \<inter> set bs \<subset> blocks ?a ?d" using A(3) dist by auto
  then have "card (blocks ?a ?d \<inter> set bs) < card (blocks ?a ?d)" by (intro psubset_card_mono) simp_all
  then have lt: "free_cnt A - 1 < blocks_per_arena ?d"
    using m card_blocks [OF r(2) r(4), OF A(2) A(2)] by (simp add: word_less_nat_alt)
  have S: "set bs - blocks ?a ?d = set (free_blocks st k) - blocks ?a ?d" using l A(3) by auto
  have dbs: "distinct bs" using dist by simp
  note R = relist [OF inv A(1,2) dbs S m, of "{}"]
  let ?st = "set_arena ?a (A\<lparr>free_cnt := free_cnt A - 1\<rparr>) (set_free_list k bs st)"
  have pop: "pop_block k st = Some (b, ?st)"
    using l block_to_arena_ok(1) [OF inv A] by (simp add: pop_block_def free_blocks_def)
  have hb: "held st b = None" using A(1,2) l by (simp add: held_def)
  have "heap_inv {} R ?st" by (rule R(1)) (use F lt in auto)
  moreover have "held ?st p = ((held st)(b \<mapsto> unat (bsize ?d))) p" for p
  proof -
    have "held ?st p = (if pg_round_down p = ?a then if p \<in> blocks ?a ?d \<and> p \<notin> set bs then Some (unat (bsize ?d)) else None else held st p)"
      by (rule R(2)) (use F lt in auto)
    moreover have "held st p = (if p \<in> blocks ?a ?d \<and> p \<notin> set (b # bs) then Some (unat (bsize ?d)) else None)" if "pg_round_down p = ?a"
      using that A(1,2) l by (simp add: held_def)
    ultimately show ?thesis using A(3) dist by auto
  qed
  ultimately show ?thesis using pop hb by auto
qed

text \<open>The two loops.\<close>

lemma arena_to_block_ok:
  "arenas st a = Some A \<Longrightarrow> magic A = ARENA_MAGIC \<Longrightarrow> owner A = Some k \<Longrightarrow> a \<noteq> NULL \<Longrightarrow>
    i < unat (blocks_per_arena (descs st ! k)) \<Longrightarrow> arena_to_block a i st = Some (arena_block a (descs st ! k) i)"
  by (simp add: arena_to_block_def arena_block_def)

lemma arena_block_set_free_list [simp]: "arena_block a (descs (set_free_list k l st) ! j) i = arena_block a (descs st ! j) i"
  by (simp add: arena_block_def)

lemma push_blocks_ok:
  assumes A: "arenas st a = Some A" "magic A = ARENA_MAGIC" "owner A = Some k" "a \<noteq> NULL" and k: "k < length (descs st)"
  shows "n \<le> unat (blocks_per_arena (descs st ! k)) \<Longrightarrow>
    push_blocks n a k st = Some (set_free_list k (free_blocks st k @ map (arena_block a (descs st ! k)) [0..<n]) st)"
proof (induction n)
  case 0
  then show ?case by (simp add: free_blocks_def set_free_list_same)
next
  case (Suc n)
  let ?st = "set_free_list k (free_blocks st k @ map (arena_block a (descs st ! k)) [0..<n]) st"
  have "arena_to_block a n ?st = Some (arena_block a (descs ?st ! k) n)"
    using A Suc.prems by (intro arena_to_block_ok) simp_all
  then show ?case using Suc k by simp
qed

lemma remove_blocks_ok:
  assumes A: "arenas st a = Some A" "magic A = ARENA_MAGIC" "owner A = Some k" and r: "page_run a 1"
    and k: "k < length (descs st)" and d: "desc_ok (descs st ! k)" and dist: "distinct (free_blocks st k)"
    and sub: "blocks a (descs st ! k) \<subseteq> set (free_blocks st k)"
  shows "n \<le> unat (blocks_per_arena (descs st ! k)) \<Longrightarrow>
    \<exists>l. remove_blocks n a k st = Some (set_free_list k l st) \<and> distinct l \<and>
      set l = set (free_blocks st k) - arena_block a (descs st ! k) ` {..<n}"
proof (induction n)
  case 0
  show ?case using dist by (intro exI [of _ "free_blocks st k"]) (simp add: free_blocks_def set_free_list_same)
next
  case (Suc n)
  then obtain l where l: "remove_blocks n a k st = Some (set_free_list k l st)" "distinct l"
    "set l = set (free_blocks st k) - arena_block a (descs st ! k) ` {..<n}" by auto
  let ?b = "arena_block a (descs st ! k) n"
  have "arena_to_block a n (set_free_list k l st) = Some (arena_block a (descs (set_free_list k l st) ! k) n)"
    using A r Suc.prems by (intro arena_to_block_ok) (simp_all add: page_run_def)
  moreover have "?b \<notin> arena_block a (descs st ! k) ` {..<n}" using arena_block_inj [OF r d] Suc.prems by auto
  moreover have "?b \<in> set (free_blocks st k)" using sub Suc.prems by (auto simp: blocks_def)
  ultimately have "remove_blocks (Suc n) a k st = Some (set_free_list k (remove1 ?b l) st)" using l k by simp
  moreover have "set (remove1 ?b l) = set (free_blocks st k) - arena_block a (descs st ! k) ` {..<Suc n}"
    unfolding set_remove1_eq [OF l(2)] l(3) lessThan_Suc image_insert by blast
  ultimately show ?case using distinct_remove1 [OF l(2)] by (intro exI conjI)
qed


section \<open>Entering and removing an arena\<close>

lemma run_frames: "page_run a n \<Longrightarrow> frames a n \<noteq> {}"
  by (simp add: frames_def page_run_def unat_gt_0)

lemma fresh_arena:
  assumes inv: "heap_inv F R st" and fresh: "frames a n \<inter> used_frames (pages st) = {}" and r: "page_run a n"
  shows "arenas st a = None"
proof (rule ccontr)
  assume "arenas st a \<noteq> None"
  then obtain A where A: "arenas st a = Some A" by blast
  have "0 < unat n" "0 < unat (run_len A)" using r arena_run(1) [OF inv A] by (simp_all add: page_run_def unat_gt_0)
  then have "unat a div 4096 \<in> frames a n" "unat a div 4096 \<in> frames a (run_len A)" by (simp_all add: frames_def)
  then show False using fresh heap_invD(5) [OF inv] A by (auto simp: arena_frames_iff)
qed

lemma add_arena:
  assumes inv: "heap_inv F R st" and r: "page_run a (run_len A)" and fresh: "frames a (run_len A) \<inter> used_frames (pages st) = {}"
    and c: "changes a st st'" and st': "arenas st' = (arenas st)(a \<mapsto> A)" "pools_ok (pages st')"
      "used_frames (pages st') = used_frames (pages st) \<union> frames a (run_len A)"
    and ok: "arena_ok F' st' a A" and F: "F - {a} \<subseteq> F'"
  shows "heap_inv F' R st'"
proof -
  have n: "arenas st a = None" by (rule fresh_arena [OF inv fresh r])
  have fr: "arena_frames st' = arena_frames st \<union> frames a (run_len A)"
    unfolding set_eq_iff Un_iff arena_frames_iff st'(1) using n by (metis fun_upd_apply option.distinct(1) option.inject)
  show ?thesis
  proof (rule change_arena [OF inv c r F])
    show "arena_ok F' st' a B" if "arenas st' a = Some B" for B using that ok st'(1) by simp
    show "pools_ok (pages st')" by (rule st'(2))
    show "used_frames (pages st') = R \<union> arena_frames st'" "R \<inter> arena_frames st' = {}"
      using heap_invD(5,6) [OF inv] fresh unfolding st'(3) fr by blast+
    show "frames a (run_len C) \<inter> frames b (run_len B) = {}"
      if "arenas st' a = Some C" "arenas st b = Some B" "b \<noteq> a" for C b B
    proof -
      have "frames b (run_len B) \<subseteq> used_frames (pages st)" using that(2) heap_invD(5) [OF inv] by (auto simp: arena_frames_iff)
      then show ?thesis using fresh that(1) st'(1) by auto
    qed
  qed
qed

lemma del_arena:
  assumes inv: "heap_inv F R st" and A: "arenas st a = Some A"
    and c: "changes a st st'" and st': "arenas st' = (arenas st)(a := None)" "pools_ok (pages st')"
      "used_frames (pages st') = used_frames (pages st) - frames a (run_len A)"
    and F: "F - {a} \<subseteq> F'"
  shows "heap_inv F' R st'"
proof -
  have other: "frames b (run_len B) \<inter> frames a (run_len A) = {}" if "arenas st b = Some B" "b \<noteq> a" for b B
    by (rule heap_invD(4) [OF inv that(1) A that(2)])
  have "x \<in> arena_frames st' \<longleftrightarrow> x \<in> arena_frames st \<and> x \<notin> frames a (run_len A)" for x
  proof
    assume "x \<in> arena_frames st'"
    then obtain b B where b: "arenas st b = Some B" "b \<noteq> a" "x \<in> frames b (run_len B)"
      by (auto simp: arena_frames_iff st'(1) split: if_splits)
    then show "x \<in> arena_frames st \<and> x \<notin> frames a (run_len A)" using other [OF b(1,2)] by (auto simp: arena_frames_iff)
  next
    assume x: "x \<in> arena_frames st \<and> x \<notin> frames a (run_len A)"
    then obtain b B where b: "arenas st b = Some B" "x \<in> frames b (run_len B)" by (auto simp: arena_frames_iff)
    then have "b \<noteq> a" using x A by auto
    then show "x \<in> arena_frames st'" using b by (auto simp: arena_frames_iff st'(1))
  qed
  then have fr: "arena_frames st' = arena_frames st - frames a (run_len A)" by blast
  have "frames a (run_len A) \<subseteq> arena_frames st" unfolding subset_iff arena_frames_iff using A by blast
  then have "used_frames (pages st') = R \<union> arena_frames st'" "R \<inter> arena_frames st' = {}"
    using heap_invD(5,6) [OF inv] unfolding st'(3) fr by blast+
  then show ?thesis using st'(1,2) by (intro change_arena [OF inv c arena_run(1) [OF inv A] F]) simp_all
qed

lemma new_arena_ok:
  assumes inv: "heap_inv {} R st" and k: "k < length (descs st)" and e: "free_blocks st k = []"
  shows "new_arena k st = Some (False, st) \<and> no_room (kernel_pool (pages st)) 1 \<or>
    (\<exists>a st'. new_arena k st = Some (True, st') \<and> heap_inv {a} R st' \<and> held st' = held st \<and> bytes (pages st') = bytes (pages st) \<and>
       length (descs st') = length (descs st) \<and> bsize (descs st' ! k) = bsize (descs st ! k) \<and>
       free_blocks st' k \<noteq> [] \<and> (\<forall>b \<in> set (free_blocks st' k). pg_round_down b = a))"
proof -
  let ?d = "descs st ! k"
  have d: "desc_ok ?d" by (rule desc_okD [OF heap_invD(2) [OF inv] k])
  consider (none) "palloc_get_multiple 0 1 (pages st) = Some (NULL, pages st)" "no_room (kernel_pool (pages st)) 1"
    | (some) a pg where "palloc_get_multiple 0 1 (pages st) = Some (a, pg)" "page_run a 1" "pools_ok pg" "bytes pg = bytes (pages st)"
      "frames a 1 \<inter> used_frames (pages st) = {}" "used_frames pg = used_frames (pages st) \<union> frames a 1"
    using get_frames [OF heap_invD(1) [OF inv], of 1] by fastforce
  then show ?thesis
  proof cases
    case none
    then show ?thesis by (simp add: new_arena_def palloc_get_page_def)
  next
    case some
    let ?A = "\<lparr>magic = ARENA_MAGIC, owner = Some k, free_cnt = blocks_per_arena ?d\<rparr>"
    let ?l = "map (arena_block a ?d) [0..<unat (blocks_per_arena ?d)]"
    let ?s1 = "set_arena a ?A (st\<lparr>pages := pg\<rparr>)" let ?st = "set_free_list k ?l ?s1"
    have a0: "a \<noteq> NULL" using some(2) by (simp add: page_run_def)
    have fb: "free_blocks (st\<lparr>pages := pg\<rparr>) j = free_blocks st j" for j by (simp add: free_blocks_def)
    have push: "push_blocks (unat (blocks_per_arena ?d)) a k ?s1 = Some ?st"
      using push_blocks_ok [of ?s1 a ?A k "unat (blocks_per_arena ?d)"] a0 k e by (simp add: fb)
    have new: "new_arena k st = Some (True, ?st)"
      using some(1) a0 push by (simp add: new_arena_def palloc_get_page_def Let_def)
    have set_l: "set ?l = blocks a ?d" by (simp add: blocks_def atLeast0LessThan)
    have dist: "distinct ?l" using arena_block_inj [OF some(2) d] by (auto simp: distinct_map inj_on_def)
    have nn: "arenas st a = None" by (rule fresh_arena [OF inv some(5,2)])
    have fl: "free_blocks ?st j = (if j = k then ?l else free_blocks st j)" for j using k by (simp add: fb)
    have j: "x \<notin> blocks a (descs st ! j)" if x: "j < length (descs st)" "x \<in> set (free_blocks st j)" for j x
    proof
      assume "x \<in> blocks a (descs st ! j)"
      then have "pg_round_down x = a" by (rule blocks_arena [OF some(2) desc_okD [OF heap_invD(2) [OF inv] x(1)]])
      then show False using free_block_arena [OF inv x] nn by auto
    qed
    have c: "changes a st ?st"
      unfolding changes_def fl using dist set_l e j free_distinct [OF inv] by (auto simp: fun_upd_def)
    have ok: "arena_ok {a} ?st a ?A"
      using some(2) k card_blocks [OF some(2) d] set_l unfolding arena_ok_def fl by (simp add: run_len_def)
    have run: "run_len ?A = 1" by (simp add: run_len_def)
    have "heap_inv {a} R ?st"
      by (rule add_arena [OF inv _ _ c, of ?A]) (use some ok run in simp_all)
    moreover have "held ?st p = held st p" for p
    proof (cases "pg_round_down p = a")
      case True
      then show ?thesis using nn set_l fl [of k] by (simp add: held_def)
    next
      case False
      then show ?thesis by (rule held_changed [OF inv c some(2)])
    qed
    moreover have "?l \<noteq> []" using d by (simp add: desc_ok_def)
    moreover have "\<forall>b \<in> set ?l. pg_round_down b = a" unfolding set_l using blocks_arena [OF some(2) d] by blast
    ultimately show ?thesis using new some(4) fl [of k] by (auto simp: fun_eq_iff simp del: map_is_Nil_conv)
  qed
qed


section \<open>Allocating\<close>

lemma find_desc_ok: "find_desc sz ds = Some k \<Longrightarrow> k < length ds \<and> sz \<le> bsize (ds ! k)"
  by (induction ds arbitrary: k) (auto split: if_splits)

lemma block_nonnull: "heap_inv F R st \<Longrightarrow> held st p = Some n \<Longrightarrow> p \<noteq> NULL"
  using held_extent [of F R st p n] held_arena [of st p n] by fastforce

lemma page_round: "unat (w + PGSIZE - 1) = (unat w + 4095) mod 2 ^ 32"
proof -
  have e: "w + PGSIZE - 1 = w + 4095" by (simp add: PGSIZE_val)
  show ?thesis unfolding e by (simp add: unat_word_ariths)
qed

text \<open>The pages that a request needs when no free block serves it, and when these are not to be had.\<close>

definition malloc_pages :: "u32 \<Rightarrow> malloc_state \<Rightarrow> nat" where
  "malloc_pages sz st =
     (if find_desc sz (descs st) = None then unat (DIV_ROUND_UP (sz + sizeof_arena) PGSIZE) else 1)"

definition no_memory :: "u32 \<Rightarrow> malloc_state \<Rightarrow> bool" where
  "no_memory sz st \<longleftrightarrow> sz = 0 \<or> malloc_pages sz st = 0 \<or> no_room (kernel_pool (pages st)) (malloc_pages sz st)"

lemma malloc_big_ok:
  assumes inv: "heap_inv {} R st" and big: "find_desc sz (descs st) = None"
  shows "malloc_big sz st = Some (NULL, st) \<and> no_memory sz st \<or>
    (\<exists>p n st'. malloc_big sz st = Some (p, st') \<and> heap_inv {} R st' \<and> p \<noteq> NULL \<and> held st p = None \<and> held st' = (held st)(p \<mapsto> n) \<and>
       bytes (pages st') = bytes (pages st) \<and> (unat sz \<le> n \<or> 2 ^ 32 - 12 < unat sz \<and> n = 4084))"
proof -
  define cnt where "cnt = DIV_ROUND_UP (sz + sizeof_arena) PGSIZE"
  have pal: "palloc_get_multiple 0 0 (pages st) = Some (NULL, pages st)" by (simp add: palloc_get_multiple_def)
  consider (none) "palloc_get_multiple 0 cnt (pages st) = Some (NULL, pages st)" "cnt = 0 \<or> no_room (kernel_pool (pages st)) (unat cnt)"
    | (some) a pg where "cnt \<noteq> 0" "palloc_get_multiple 0 cnt (pages st) = Some (a, pg)" "page_run a cnt" "pools_ok pg" "bytes pg = bytes (pages st)"
      "frames a cnt \<inter> used_frames (pages st) = {}" "used_frames pg = used_frames (pages st) \<union> frames a cnt"
    using get_frames [OF heap_invD(1) [OF inv], of cnt] pal by (cases "cnt = 0") fastforce+
  then show ?thesis
  proof cases
    case none
    then show ?thesis using big
      by (auto simp: malloc_big_def no_memory_def malloc_pages_def cnt_def [symmetric])
  next
    case some
    let ?A = "\<lparr>magic = ARENA_MAGIC, owner = None, free_cnt = cnt\<rparr>"
    let ?st = "set_arena a ?A (st\<lparr>pages := pg\<rparr>)" let ?p = "a + sizeof_arena" let ?n = "4096 * unat cnt - 12"
    have a0: "a \<noteq> NULL" using some(3) by (simp add: page_run_def)
    have big: "malloc_big sz st = Some (?p, ?st)" using some(2) a0 by (simp add: malloc_big_def cnt_def [symmetric] Let_def)
    have nn: "arenas st a = None" by (rule fresh_arena [OF inv some(6,3)])
    have fl: "free_blocks ?st j = free_blocks st j" for j by (simp add: free_blocks_def)
    have j: "x \<notin> blocks a (descs st ! j)" if x: "j < length (descs st)" "x \<in> set (free_blocks st j)" for j x
    proof
      assume "x \<in> blocks a (descs st ! j)"
      then have "pg_round_down x = a" by (rule blocks_arena [OF some(3) desc_okD [OF heap_invD(2) [OF inv] x(1)]])
      then show False using free_block_arena [OF inv x] nn by auto
    qed
    have c: "changes a st ?st" unfolding changes_def fl using j free_distinct [OF inv] by auto
    have run: "run_len ?A = cnt" by (simp add: run_len_def)
    have ok: "arena_ok {} ?st a ?A" using some(3) by (simp add: arena_ok_def run_len_def)
    have inv': "heap_inv {} R ?st" by (rule add_arena [OF inv _ _ c, of ?A]) (use some ok run in simp_all)
    have c1: "0 < unat cnt" using some(1) by (simp add: unat_gt_0)
    note up = behind_header(1) [OF some(3)] and ap = behind_header(2) [OF some(3)]
    have hp: "held st ?p = None" using nn ap by (intro held_None) simp
    have "held ?st q = ((held st)(?p \<mapsto> ?n)) q" for q
    proof (cases "pg_round_down q = a")
      case True
      then show ?thesis using held_None [of st q] nn ap by (auto simp: held_def)
    next
      case False
      then show ?thesis using held_changed [OF inv c some(3) False] ap by auto
    qed
    moreover have "unat sz \<le> ?n \<or> 2 ^ 32 - 12 < unat sz \<and> ?n = 4084"
    proof (cases "unat sz + 12 < 2 ^ 32")
      case True
      then have s: "unat (sz + sizeof_arena) = unat sz + 12" by (simp add: sizeof_arena_def unat_word_ariths)
      have "unat cnt = unat (sz + sizeof_arena + PGSIZE - 1) div 4096" by (simp add: cnt_def DIV_ROUND_UP_def PGSIZE_val unat_div)
      moreover have "unat (sz + sizeof_arena + PGSIZE - 1) = (unat sz + 12 + 4095) mod 2 ^ 32"
        using page_round [of "sz + sizeof_arena"] s by simp
      ultimately have c: "unat cnt = (unat sz + 12 + 4095) mod 2 ^ 32 div 4096" by simp
      have "unat sz + 12 + 4095 < 2 ^ 32"
      proof (rule ccontr)
        assume "\<not> unat sz + 12 + 4095 < 2 ^ 32"
        then have "(unat sz + 12 + 4095) mod 2 ^ 32 = unat sz + 4107 - 2 ^ 32" using True by (simp add: mod_if)
        moreover have "unat sz + 4107 - 2 ^ 32 < 4096" using True by linarith
        ultimately have "(unat sz + 12 + 4095) mod 2 ^ 32 < 4096" by simp
        then show False using c c1 by simp
      qed
      then have "unat cnt = (unat sz + 12 + 4095) div 4096" using c by simp
      then show ?thesis by linarith
    next
      case False
      have lt: "unat sz < 2 ^ 32" using unsigned_less [of sz, where 'a = nat] by simp
      then have s: "unat (sz + sizeof_arena) = unat sz + 12 - 2 ^ 32" using False
        by (simp add: sizeof_arena_def unat_word_ariths mod_if)
      then have "unat (sz + sizeof_arena + PGSIZE - 1) = unat sz + 12 - 2 ^ 32 + 4095" using lt page_round [of "sz + sizeof_arena"]
        by simp
      then have c: "unat cnt = (unat sz + 12 - 2 ^ 32 + 4095) div 4096" by (simp add: cnt_def DIV_ROUND_UP_def PGSIZE_val unat_div)
      have "unat sz \<noteq> 2 ^ 32 - 12" using c c1 by auto
      moreover have "unat cnt < 2" unfolding c using lt by (simp add: div_less_iff_less_mult)
      then have "unat cnt = 1" using c1 by simp
      ultimately show ?thesis using False by simp
    qed
    moreover have "?p \<noteq> NULL" using up by (metis add_is_0 unat_0 zero_neq_numeral)
    ultimately show ?thesis using big inv' hp some(5) by (auto simp: fun_eq_iff)
  qed
qed

lemma malloc_ok:
  assumes inv: "heap_ok R st"
  shows "malloc sz st = Some (NULL, st) \<and> no_memory sz st \<or>
    (\<exists>p n st'. malloc sz st = Some (p, st') \<and> heap_ok R st' \<and> p \<noteq> NULL \<and> held st p = None \<and> held st' = (held st)(p \<mapsto> n) \<and>
       bytes (pages st') = bytes (pages st) \<and> (unat sz \<le> n \<or> 2 ^ 32 - 12 < unat sz \<and> n = 4084))"
proof (cases "sz = 0")
  case True
  then show ?thesis by (simp add: malloc_def no_memory_def)
next
  case sz: False
  note h = inv [unfolded heap_ok_def]
  show ?thesis
  proof (cases "find_desc sz (descs st)")
    case None
    then show ?thesis using malloc_big_ok [OF h None] sz by (simp add: malloc_def heap_ok_def)
  next
    case (Some k)
    have k: "k < length (descs st)" "sz \<le> bsize (descs st ! k)" using find_desc_ok [OF Some] by simp_all
    define got where "got = (if free_list (descs st ! k) = [] then new_arena k st else Some (True, st))"
    have m: "malloc sz st = do { (got, st) \<leftarrow> got; if got then pop_block k st else Some (NULL, st) }"
      using sz Some by (simp add: malloc_def got_def)
    consider (none) "got = Some (False, st)" "no_room (kernel_pool (pages st)) 1"
      | (some) F s b bs where "got = Some (True, s)" "heap_inv F R s" "held s = held st" "bytes (pages s) = bytes (pages st)"
        "length (descs s) = length (descs st)" "bsize (descs s ! k) = bsize (descs st ! k)" "free_blocks s k = b # bs" "F \<subseteq> {pg_round_down b}"
    proof (cases "free_list (descs st ! k) = []")
      case True
      then have "free_blocks st k = []" by (simp add: free_blocks_def)
      from new_arena_ok [OF h k(1) this] show ?thesis
      proof
        assume "new_arena k st = Some (False, st) \<and> no_room (kernel_pool (pages st)) 1"
        then show ?thesis using none True by (simp add: got_def)
      next
        assume "\<exists>a st'. new_arena k st = Some (True, st') \<and> heap_inv {a} R st' \<and> held st' = held st \<and> bytes (pages st') = bytes (pages st) \<and>
          length (descs st') = length (descs st) \<and> bsize (descs st' ! k) = bsize (descs st ! k) \<and>
          free_blocks st' k \<noteq> [] \<and> (\<forall>b \<in> set (free_blocks st' k). pg_round_down b = a)"
        then obtain a s where s: "new_arena k st = Some (True, s)" "heap_inv {a} R s" "held s = held st" "bytes (pages s) = bytes (pages st)"
          "length (descs s) = length (descs st)" "bsize (descs s ! k) = bsize (descs st ! k)"
          "free_blocks s k \<noteq> []" "\<forall>b \<in> set (free_blocks s k). pg_round_down b = a" by blast
        then obtain b bs where "free_blocks s k = b # bs" by (cases "free_blocks s k") auto
        then show ?thesis using some [of s "{a}" b bs] s True by (simp add: got_def)
      qed
    next
      case False
      then obtain b bs where "free_blocks st k = b # bs" by (cases "free_list (descs st ! k)") (auto simp: free_blocks_def)
      then show ?thesis using some [of st "{}" b bs] h False by (simp add: got_def)
    qed
    then show ?thesis
    proof cases
      case none
      then show ?thesis using Some by (simp add: m no_memory_def malloc_pages_def)
    next
      case some
      have "k < length (descs s)" using k some(5) by simp
      from pop_block_ok [OF some(2) this some(7,8)] obtain st' where p: "pop_block k s = Some (b, st')" "heap_inv {} R st'"
        "held s b = None" "pages st' = pages s" "held st' = (held s)(b \<mapsto> unat (bsize (descs s ! k)))" by blast
      have "malloc sz st = Some (b, st')" using m some(1) p(1) by simp
      moreover have "b \<noteq> NULL" using block_nonnull [OF p(2)] p(5) by simp
      moreover have "unat sz \<le> unat (bsize (descs s ! k))" using k(2) some(6) by (simp add: word_le_nat_alt)
      ultimately show ?thesis using p some(3,4) by (auto simp: heap_ok_def)
    qed
  qed
qed

section \<open>Freeing\<close>

lemma outside:
  assumes "unat p + unat n \<le> 2 ^ 32" "unat x \<notin> extent p (unat n)"
  shows "\<not> x - p < n"
proof
  assume lt: "x - p < n"
  then have "unat p + unat (x - p) < 2 ^ 32" using assms(1) by (simp add: word_less_nat_alt)
  then have "unat (p + (x - p)) = unat p + unat (x - p)" by (subst unat_word_ariths(1)) simp
  then have "unat x = unat p + unat (x - p)" by simp
  then show False using assms(2) lt by (simp add: extent_def word_less_nat_alt)
qed

lemma fill_outside: "unat p + unat n \<le> 2 ^ 32 \<Longrightarrow> unat x \<notin> extent p (unat n) \<Longrightarrow> fill p c n m x = m x"
  using outside by (simp add: fill_def)

lemma run_bytes: "page_run a n \<Longrightarrow> unat (PGSIZE * n) = 4096 * unat n \<and> unat a + unat (PGSIZE * n) \<le> 2 ^ 32"
  by (simp add: page_run_def PGSIZE_val unat_word_ariths)

lemma heap_inv_fill [simp]: "heap_inv F R (malloc_fill b c n st) = heap_inv F R st" "held (malloc_fill b c n st) = held st"
proof -
  have "used_frames (pages (malloc_fill b c n st)) = used_frames (pages st)" "pools_ok (pages (malloc_fill b c n st)) = pools_ok (pages st)"
    "arena_frames (malloc_fill b c n st) = arena_frames st" "lists_ok (malloc_fill b c n st) = lists_ok st"
    "arena_ok F (malloc_fill b c n st) = arena_ok F st"
    by (auto simp: malloc_fill_def used_frames_def pools_ok_def arena_frames_def lists_ok_def arena_ok_def free_blocks_def fun_eq_iff)
  then show "heap_inv F R (malloc_fill b c n st) = heap_inv F R st" by (simp add: heap_inv_def)
  show "held (malloc_fill b c n st) = held st" unfolding held_def malloc_fill_simps ..
qed

text \<open>After an arena is gone, the bytes of its pages are no held block's.\<close>

lemma gone_arena_bytes:
  assumes inv: "heap_inv F R st" and A: "arenas st a = None" and r: "page_run a n"
    and other: "\<And>b B. arenas st b = Some B \<Longrightarrow> frames b (run_len B) \<inter> frames a n = {}"
    and q: "held st q = Some m" "unat x \<in> extent q m"
  shows "fill a c (PGSIZE * n) f x = f x"
proof (rule fill_outside)
  show "unat a + unat (PGSIZE * n) \<le> 2 ^ 32" using run_bytes [OF r] by simp
  obtain B where B: "arenas st (pg_round_down q) = Some B" using held_arena [OF q(1)] by blast
  have "unat x div 4096 \<in> frames (pg_round_down q) (run_len B)"
    using page_frames [OF arena_run(1) [OF inv B]] held_extent [OF inv q(1) B] q(2) by (auto simp: extent_def set_eq_iff)
  then have "unat x div 4096 \<notin> frames a n" using other [OF B] by blast
  then show "unat x \<notin> extent a (unat (PGSIZE * n))"
    using page_frames [OF r] run_bytes [OF r] by (auto simp: extent_def set_eq_iff)
qed


text \<open>The blocks of an arena on the free lists belong to its owner.\<close>

lemma free_in_arena:
  assumes inv: "heap_inv F R st" and A: "arenas st a = Some A" and r: "page_run a n"
    and x: "j < length (descs st)" "x \<in> set (free_blocks st j)" "x \<in> blocks a (descs st ! j)"
  shows "owner A = Some j"
proof -
  have "pg_round_down x = a" by (rule blocks_arena [OF r desc_okD [OF heap_invD(2) [OF inv] x(1)] x(3)])
  then show ?thesis using free_block_arena [OF inv x(1,2)] A by auto
qed

lemma held_all_free:
  "arenas st (pg_round_down p) = Some A \<Longrightarrow> owner A = Some k \<Longrightarrow>
    blocks (pg_round_down p) (descs st ! k) \<subseteq> set (free_blocks st k) \<Longrightarrow> held st p = None"
  by (auto simp: held_def Let_def)

lemma free_big_ok:
  assumes inv: "heap_inv {} R st" and h: "held st p = Some n" and A: "arenas st (pg_round_down p) = Some A" and own: "owner A = None"
  shows "\<exists>st'. free p st = Some st' \<and> heap_inv {} R st' \<and> held st' = (held st)(p := None) \<and>
    (\<forall>q m x. held st' q = Some m \<and> unat x \<in> extent q m \<longrightarrow> bytes (pages st') x = bytes (pages st) x)"
proof -
  let ?a = "pg_round_down p"
  have p: "p = ?a + sizeof_arena" using h A own by (simp add: held_def split: if_splits)
  note r = arena_run(1,5) [OF inv A]
  have rl: "run_len A = free_cnt A" by (simp add: run_len_def own)
  have ofs: "pg_ofs p = sizeof_arena" using behind_header(3) [OF r(1)] p by metis
  have a0: "?a \<noteq> NULL" using r(1) by (simp add: page_run_def)
  have arena: "block_to_arena p st = Some (?a, A)" using A own ofs r(2) a0 by (simp add: block_to_arena_def Let_def)
  have sub: "frames ?a (run_len A) \<subseteq> used_frames (pages st)"
    unfolding heap_invD(5) [OF inv] subset_iff Un_iff arena_frames_iff using A by blast
  from free_frames [OF heap_invD(1) [OF inv] r(1) sub] obtain pg where pg: "palloc_free_multiple ?a (free_cnt A) (pages st) = Some pg"
    "pools_ok pg" "bytes pg = fill ?a 0xCC (PGSIZE * run_len A) (bytes (pages st))"
    "used_frames pg = used_frames (pages st) - frames ?a (run_len A)" unfolding rl by blast
  let ?st = "st\<lparr>pages := pg, arenas := (arenas st)(?a := None)\<rparr>"
  have free: "free p st = Some ?st" using block_nonnull [OF inv h] arena own pg(1) by (simp add: free_def)
  have fl: "free_blocks ?st j = free_blocks st j" for j by (simp add: free_blocks_def)
  have c: "changes ?a st ?st"
    unfolding changes_def fl using free_in_arena [OF inv A r(1)] own free_distinct [OF inv] by auto
  have inv': "heap_inv {} R ?st" by (rule del_arena [OF inv A c]) (use pg in simp_all)
  have held': "held ?st q = ((held st)(p := None)) q" for q
  proof (cases "pg_round_down q = ?a")
    case True
    then show ?thesis using A own p by (simp add: held_def)
  next
    case False
    then show ?thesis using held_changed [OF inv c r(1) False] by auto
  qed
  have "fill ?a 0xCC (PGSIZE * run_len A) (bytes (pages st)) x = bytes (pages st) x"
    if q: "held ?st q = Some m" "unat x \<in> extent q m" for q m x
  proof (rule gone_arena_bytes [OF inv' _ r(1) _ q])
    show "frames b (run_len B) \<inter> frames ?a (run_len A) = {}" if "arenas ?st b = Some B" for b B
      using heap_invD(4) [OF inv _ A] that by (auto split: if_splits)
  qed simp
  moreover have e: "bytes (pages ?st) = fill ?a 0xCC (PGSIZE * run_len A) (bytes (pages st))" using pg(3) by simp
  ultimately have "\<forall>q m x. held ?st q = Some m \<and> unat x \<in> extent q m \<longrightarrow> bytes (pages ?st) x = bytes (pages st) x"
    unfolding e by blast
  then show ?thesis using free inv' ext [of "held ?st", OF held'] by blast
qed

lemma free_small_ok:
  assumes inv: "heap_inv {} R st" and h: "held st p = Some n" and A: "arenas st (pg_round_down p) = Some A" and own: "owner A = Some k"
  shows "\<exists>st'. free p st = Some st' \<and> heap_inv {} R st' \<and> held st' = (held st)(p := None) \<and>
    (\<forall>q m x. held st' q = Some m \<and> unat x \<in> extent q m \<longrightarrow> bytes (pages st') x = bytes (pages st) x)"
proof -
  let ?a = "pg_round_down p" let ?d = "descs st ! k" let ?l = "p # free_blocks st k"
  let ?s1 = "malloc_fill p 0xCC (bsize ?d) st" let ?n = "free_cnt A + 1"
  let ?s2 = "set_arena ?a (A\<lparr>free_cnt := ?n\<rparr>) (set_free_list k ?l ?s1)"
  note r = arena_run [OF inv A] note r1 = r(2) [OF own] and k = r(3) [OF own] and d = r(4) [OF own]
  have p: "p \<in> blocks ?a ?d" "p \<notin> set (free_blocks st k)" "n = unat (bsize ?d)"
    using h A own by (simp_all add: held_def split: if_splits)
  have inv1: "heap_inv {} R ?s1" using inv by simp
  have A1: "arenas ?s1 ?a = Some A" using A by simp
  have cnt0: "unat (free_cnt A) = card (blocks ?a ?d \<inter> set (free_blocks st k))" "free_cnt A < blocks_per_arena ?d"
    using heap_invD(3) [OF inv A] own by (simp_all add: arena_ok_def)
  have "blocks ?a ?d \<inter> set ?l = insert p (blocks ?a ?d \<inter> set (free_blocks st k))" using p(1) by auto
  then have card_l: "card (blocks ?a ?d \<inter> set ?l) = Suc (unat (free_cnt A))" using p(2) cnt0(1) by simp
  have "unat (free_cnt A) < unat (blocks_per_arena ?d)" using cnt0(2) by (simp add: word_less_nat_alt)
  then have "Suc (unat (free_cnt A)) < 2 ^ 32"
    using unsigned_less [of "blocks_per_arena ?d", where 'a = nat] by simp
  then have un: "unat ?n = Suc (unat (free_cnt A))" by (simp add: unat_word_ariths)
  have S: "distinct ?l" "set ?l - blocks ?a (descs ?s1 ! k) = set (free_blocks ?s1 k) - blocks ?a (descs ?s1 ! k)"
    "unat ?n = card (blocks ?a (descs ?s1 ! k) \<inter> set ?l)"
    using p free_distinct [OF inv k] card_l un by auto
  note R = relist [OF inv1 A1 own S]
  have held2: "held ?s2 = (held st)(p := None)"
  proof
    fix q
    have "held ?s2 q = (if pg_round_down q = ?a
      then if q \<in> blocks ?a ?d \<and> q \<notin> set ?l then Some (unat (bsize ?d)) else None else held st q)"
      using R(2) [of "{?a}" q] by simp
    then show "held ?s2 q = ((held st)(p := None)) q" using A own by (auto simp: held_def)
  qed
  have arena: "block_to_arena p st = Some (?a, A)" by (rule block_to_arena_ok(2) [OF inv A own p(1)])
  have p0: "p \<noteq> NULL" by (rule block_nonnull [OF inv h])
  have low: "bytes (pages ?s1) x = bytes (pages st) x" if q: "held ?s2 q = Some m" "unat x \<in> extent q m" for q m x
  proof -
    have "held st q = Some m" "q \<noteq> p" using q(1) unfolding held2 by (simp_all split: if_splits)
    then have "unat x \<notin> extent p n" using held_apart [OF inv h, of q m] q(2) by auto
    moreover have "unat p + n \<le> 2 ^ 32" using held_extent [OF inv h A] r(1) by (simp add: page_run_def)
    ultimately show ?thesis unfolding p(3) by (simp add: malloc_fill_def fill_outside)
  qed
  have pgs: "pages ?s2 = pages ?s1" by simp
  show ?thesis
  proof (cases "?n \<ge> blocks_per_arena ?d")
    case False
    then have lt: "?n < blocks_per_arena (descs ?s1 ! k)" by simp
    have "heap_inv {} R ?s2" by (rule R(1)) (use lt in simp_all)
    moreover have "free p st = Some ?s2" using p0 arena own A False by (simp add: free_def free_small_def free_blocks_def Let_def)
    moreover have "\<forall>q m x. held ?s2 q = Some m \<and> unat x \<in> extent q m \<longrightarrow> bytes (pages ?s2) x = bytes (pages st) x"
      unfolding pgs using low by blast
    ultimately show ?thesis using held2 by blast
  next
    case True
    have inv2: "heap_inv {?a} R ?s2" by (rule R(1)) simp_all
    have n: "?n = blocks_per_arena ?d" using True cnt0(2) un by (simp add: word_le_nat_alt word_less_nat_alt word_unat_eq_iff)
    have "blocks ?a ?d \<inter> set ?l = blocks ?a ?d"
      by (rule card_subset_eq) (use card_l un n card_blocks [OF r1 d] in auto)
    then have sub: "blocks ?a ?d \<subseteq> set ?l" by blast
    have fb2: "free_blocks ?s2 j = (if j = k then ?l else free_blocks st j)" for j using k by simp
    have A2: "arenas ?s2 ?a = Some (A\<lparr>free_cnt := ?n\<rparr>)" by simp
    obtain l where l: "remove_blocks (unat (blocks_per_arena ?d)) ?a k ?s2 = Some (set_free_list k l ?s2)" "distinct l"
      "set l = set ?l - blocks ?a ?d"
      using remove_blocks_ok [OF A2 _ _ r1, of k "unat (blocks_per_arena ?d)"] r(5) own k d S(1) sub
      by (auto simp: fb2 blocks_def desc_ok_def)
    let ?s3 = "set_free_list k l ?s2"
    have sub_fr: "frames ?a 1 \<subseteq> used_frames (pages ?s2)"
      unfolding heap_invD(5) [OF inv2] subset_iff Un_iff arena_frames_iff using A2 own by (auto simp: run_len_def)
    from free_frames [OF heap_invD(1) [OF inv2] r1 sub_fr] obtain pg where pg: "palloc_free_multiple ?a 1 (pages ?s2) = Some pg"
      "pools_ok pg" "bytes pg = fill ?a 0xCC (PGSIZE * 1) (bytes (pages ?s2))"
      "used_frames pg = used_frames (pages ?s2) - frames ?a 1" by blast
    let ?st = "?s3\<lparr>pages := pg, arenas := (arenas ?s3)(?a := None)\<rparr>"
    have free: "free p st = Some ?st"
      using p0 arena own A n l(1) pg(1) by (simp add: free_def free_small_def free_blocks_def Let_def palloc_free_page_def)
    have fl: "free_blocks ?st j = (if j = k then l else free_blocks ?s2 j)" for j
    proof -
      have "free_blocks ?st j = free_blocks ?s3 j" by (simp add: free_blocks_def)
      then show ?thesis using k by simp
    qed
    have sh: "descs ?st = descs ?s3" by simp
    have own_j: "j = k" if "j < length (descs ?s2)" "x \<in> set (free_blocks ?s2 j)" "x \<in> blocks ?a (descs ?s2 ! j)" for j x
      using free_in_arena [OF inv2 A2 r1 that] own by simp
    have c: "changes ?a ?s2 ?st"
      unfolding changes_def fl sh using l(2,3) own_j free_distinct [OF inv2] by (auto simp: fb2)
    have inv': "heap_inv {} R ?st" by (rule del_arena [OF inv2 A2 c]) (use pg own in \<open>simp_all add: run_len_def\<close>)
    have held': "held ?st q = held ?s2 q" for q
    proof (cases "pg_round_down q = ?a")
      case True
      have "blocks ?a (descs ?s2 ! k) \<subseteq> set (free_blocks ?s2 k)" using sub fb2 [of k] by simp
      then have "held ?s2 q = None"
        using True A2 own held_all_free [of ?s2 q "A\<lparr>free_cnt := ?n\<rparr>" k] by simp
      moreover have "held ?st q = None" using True by (intro held_None) simp
      ultimately show ?thesis by simp
    next
      case False
      then show ?thesis by (rule held_changed [OF inv2 c r1])
    qed
    have "bytes pg x = bytes (pages st) x" if q: "held ?st q = Some m" "unat x \<in> extent q m" for q m x
    proof -
      have "fill ?a 0xCC (PGSIZE * 1) (bytes (pages ?s2)) x = bytes (pages ?s2) x"
      proof (rule gone_arena_bytes [OF inv' _ r1 _ q])
        show "frames b (run_len B) \<inter> frames ?a 1 = {}" if "arenas ?st b = Some B" for b B
          using heap_invD(4) [OF inv2 _ A2] that own by (auto simp: run_len_def split: if_splits)
      qed simp
      also have "bytes (pages ?s2) x = bytes (pages st) x" unfolding pgs by (rule low) (use q held' in auto)
      finally show ?thesis unfolding pg(3) .
    qed
    moreover have e: "bytes (pages ?st) = bytes pg" by simp
    ultimately have "\<forall>q m x. held ?st q = Some m \<and> unat x \<in> extent q m \<longrightarrow> bytes (pages ?st) x = bytes (pages st) x"
      unfolding e by blast
    moreover have "held ?st = (held st)(p := None)" using held' held2 by (simp add: fun_eq_iff)
    ultimately show ?thesis using free inv' by blast
  qed
qed

lemma free_ok:
  assumes inv: "heap_ok R st" and h: "held st p = Some n"
  shows "\<exists>st'. free p st = Some st' \<and> heap_ok R st' \<and> held st' = (held st)(p := None) \<and>
    (\<forall>q m x. held st' q = Some m \<and> unat x \<in> extent q m \<longrightarrow> bytes (pages st') x = bytes (pages st) x)"
proof -
  obtain A where A: "arenas st (pg_round_down p) = Some A" using held_arena [OF h] by blast
  show ?thesis using free_small_ok [OF inv [unfolded heap_ok_def] h A] free_big_ok [OF inv [unfolded heap_ok_def] h A]
    unfolding heap_ok_def by (cases "owner A") simp_all
qed


section \<open>Start and end\<close>

lemma init_descs_step:
  "sz < 2048 \<Longrightarrow> length ds < 10 \<Longrightarrow> init_descs sz ds =
    init_descs (sz * 2) (ds @ [\<lparr>bsize = sz, blocks_per_arena = 4084 div sz, free_list = []\<rparr>])"
  "\<not> sz < 2048 \<Longrightarrow> init_descs sz ds = Some ds"
  by (simp_all add: init_descs.simps [of sz] PGSIZE_val sizeof_arena_def)

definition first_descs :: "desc list" where
  "first_descs = map (\<lambda>(b, n). \<lparr>bsize = b, blocks_per_arena = n, free_list = []\<rparr>)
     [(16, 255), (32, 127), (64, 63), (128, 31), (256, 15), (512, 7), (1024, 3)]"

lemma malloc_init_ok: "malloc_init pg = Some \<lparr>pages = pg, descs = first_descs, arenas = (\<lambda>_. None)\<rparr>"
  by (simp add: malloc_init_def init_descs_step first_descs_def)

lemma first_heap:
  assumes "pools_ok pg"
  shows "heap_ok (used_frames pg) \<lparr>pages = pg, descs = first_descs, arenas = (\<lambda>_. None)\<rparr>"
    and "held \<lparr>pages = pg, descs = first_descs, arenas = (\<lambda>_. None)\<rparr> = Map.empty"
proof -
  let ?st = "\<lparr>pages = pg, descs = first_descs, arenas = (\<lambda>_. None)\<rparr>"
  have e: "free_list d = []" "desc_ok d" if "d \<in> set first_descs" for d
    using that by (auto simp: first_descs_def desc_ok_def)
  then have "free_blocks ?st k = []" if "k < length first_descs" for k using that by (simp add: free_blocks_def)
  then have "lists_ok ?st" using e(2) by (simp add: lists_ok_def)
  then show "heap_ok (used_frames pg) ?st" using assms by (simp add: heap_ok_def heap_inv_def arena_frames_def)
  show "held ?st = Map.empty" by (simp add: held_def fun_eq_iff)
qed

text \<open>When no block is held, no page is kept.\<close>

lemma nothing_held:
  assumes inv: "heap_ok R st" and none: "held st = Map.empty"
  shows "arenas st = Map.empty \<and> used_frames (pages st) = R"
proof -
  have "arenas st a = None" for a
  proof (rule ccontr)
    assume "arenas st a \<noteq> None"
    then obtain A where A: "arenas st a = Some A" by blast
    note r = arena_run [OF inv [unfolded heap_ok_def] A]
    have ok: "arena_ok {} st a A" by (rule heap_invD(3) [OF inv [unfolded heap_ok_def] A])
    show False
    proof (cases "owner A")
      case None
      then have "held st (a + sizeof_arena) \<noteq> None" using A behind_header(2) [OF r(1)] by (simp add: held_def)
      then show False using none by simp
    next
      case (Some k)
      let ?d = "descs st ! k"
      have "card (blocks a ?d \<inter> set (free_blocks st k)) < card (blocks a ?d)"
        using ok Some card_blocks [OF r(2,4), OF Some Some] by (simp add: arena_ok_def word_less_nat_alt)
      then have "\<not> blocks a ?d \<subseteq> set (free_blocks st k)" by (auto simp: Int_absorb2)
      then obtain p where p: "p \<in> blocks a ?d" "p \<notin> set (free_blocks st k)" by blast
      then have "held st p \<noteq> None" using A Some blocks_arena [OF r(2,4) p(1), OF Some Some] by (simp add: held_def)
      then show False using none by simp
    qed
  qed
  then have e: "arenas st = Map.empty" by auto
  then show ?thesis using heap_invD(5) [OF inv [unfolded heap_ok_def]] by (simp add: arena_frames_def)
qed

section \<open>A client\<close>

text \<open>A client asks for blocks and frees them in any order: \<open>Free i\<close> frees the \<open>i\<close>-th of the blocks it holds.\<close>

datatype malloc_op = Malloc u32 | Free nat

primrec run_malloc :: "malloc_op list \<Rightarrow> malloc_state \<Rightarrow> ptr list \<Rightarrow> (malloc_state \<times> ptr list) option" where
  "run_malloc [] st L = Some (st, L)"
| "run_malloc (x # xs) st L =
     (case x of
        Malloc sz \<Rightarrow> do { (p, st) \<leftarrow> malloc sz st; run_malloc xs st (if p = NULL then L else p # L) }
      | Free i \<Rightarrow>
          if i < length L
          then do { st \<leftarrow> free (L ! i) st; run_malloc xs st (take i L @ drop (Suc i) L) }
          else run_malloc xs st L)"

lemma distinct_drop_nth:
  assumes "distinct L" "i < length L"
  shows "distinct (take i L @ drop (Suc i) L)" "set (take i L @ drop (Suc i) L) = set L - {L ! i}"
proof -
  have L: "L = take i L @ L ! i # drop (Suc i) L" using assms(2) by (simp add: id_take_nth_drop)
  then have "distinct (take i L @ L ! i # drop (Suc i) L)" using assms(1) by simp
  moreover have "set L = insert (L ! i) (set (take i L @ drop (Suc i) L))" by (subst L) simp
  ultimately show "distinct (take i L @ drop (Suc i) L)" "set (take i L @ drop (Suc i) L) = set L - {L ! i}" by auto
qed

lemma run_malloc_ok:
  "heap_ok R st \<Longrightarrow> distinct L \<Longrightarrow> dom (held st) = set L \<Longrightarrow>
    \<exists>st' L'. run_malloc xs st L = Some (st', L') \<and> heap_ok R st' \<and> distinct L' \<and> dom (held st') = set L'"
proof (induction xs arbitrary: st L)
  case (Cons x xs)
  show ?case
  proof (cases x)
    case (Malloc sz)
    from malloc_ok [OF Cons.prems(1), of sz] show ?thesis
    proof
      assume "malloc sz st = Some (NULL, st) \<and> no_memory sz st"
      then show ?thesis using Cons Malloc by simp
    next
      assume "\<exists>p n st'. malloc sz st = Some (p, st') \<and> heap_ok R st' \<and> p \<noteq> NULL \<and> held st p = None \<and> held st' = (held st)(p \<mapsto> n) \<and>
        bytes (pages st') = bytes (pages st) \<and> (unat sz \<le> n \<or> 2 ^ 32 - 12 < unat sz \<and> n = 4084)"
      then obtain p n st' where p: "malloc sz st = Some (p, st')" "heap_ok R st'" "p \<noteq> NULL" "held st p = None" "held st' = (held st)(p \<mapsto> n)"
        by blast
      have "p \<notin> set L" using p(4) Cons.prems(3) by (metis domIff)
      then have "distinct (p # L)" "dom (held st') = set (p # L)" using Cons.prems p(5) by simp_all
      from Cons.IH [OF p(2) this] show ?thesis using Malloc p(1,3) by simp
    qed
  next
    case (Free i)
    show ?thesis
    proof (cases "i < length L")
      case False then show ?thesis using Cons Free by simp
    next
      case True
      then have "L ! i \<in> dom (held st)" using Cons.prems(3) by simp
      then obtain n where "held st (L ! i) = Some n" by blast
      from free_ok [OF Cons.prems(1) this] obtain st' where f: "free (L ! i) st = Some st'" "heap_ok R st'" "held st' = (held st)(L ! i := None)"
        by blast
      note D = distinct_drop_nth [OF Cons.prems(2) True]
      have "dom (held st') = set (take i L @ drop (Suc i) L)" unfolding D(2) f(3) using Cons.prems(3) by auto
      from Cons.IH [OF f(2) D(1) this] show ?thesis using Free True f(1) by simp
    qed
  qed
qed simp

text \<open>A copy between two blocks, and the release of the first.\<close>

lemma heap_inv_copy [simp]: "heap_inv F R (malloc_copy q p n st) = heap_inv F R st" "held (malloc_copy q p n st) = held st"
proof -
  let ?st = "malloc_copy q p n st"
  have s: "descs ?st = descs st" "arenas ?st = arenas st" "free_blocks ?st = free_blocks st"
    by (simp_all add: malloc_copy_def free_blocks_def fun_eq_iff Let_def)
  have "used_frames (pages ?st) = used_frames (pages st)" "pools_ok (pages ?st) = pools_ok (pages st)"
    by (simp_all add: malloc_copy_def used_frames_def pools_ok_def Let_def)
  then show "heap_inv F R ?st = heap_inv F R st" by (simp add: heap_inv_def lists_ok_def arena_ok_def arena_frames_def s)
  show "held ?st = held st" unfolding held_def s ..
qed

lemma block_bytes_ok:
  assumes inv: "heap_inv F R st" and h: "held st p = Some n"
  shows "\<exists>w. block_bytes p st = Some w \<and> unat w = n"
proof -
  obtain A where A: "arenas st (pg_round_down p) = Some A" using held_arena [OF h] by blast
  let ?a = "pg_round_down p"
  note r = arena_run [OF inv A]
  show ?thesis
  proof (cases "owner A")
    case None
    have p: "p = ?a + sizeof_arena" "n = 4096 * unat (free_cnt A) - 12" using h A None by (simp_all add: held_def split: if_splits)
    have rl: "run_len A = free_cnt A" by (simp add: run_len_def None)
    have c: "0 < unat (free_cnt A)" using r(1) rl by (simp add: page_run_def unat_gt_0)
    have ofs: "pg_ofs p = 12" using behind_header(3) [OF r(1)] p(1) by (metis sizeof_arena_def)
    have "block_to_arena p st = Some (?a, A)"
      using A None ofs r(1,5) by (simp add: block_to_arena_def Let_def page_run_def sizeof_arena_def)
    moreover have "unat (PGSIZE * free_cnt A - 12) = 4096 * unat (free_cnt A) - 12"
      using run_bytes [OF r(1)] rl c by (simp add: unat_sub word_le_nat_alt)
    ultimately show ?thesis using None ofs p(2) by (simp add: block_bytes_def)
  next
    case (Some k)
    then have "p \<in> blocks ?a (descs st ! k)" "n = unat (bsize (descs st ! k))" using h A by (simp_all add: held_def split: if_splits)
    then show ?thesis using block_to_arena_ok(2) [OF inv A Some] Some by (simp add: block_bytes_def)
  qed
qed


lemma held_bound: "heap_inv F R st \<Longrightarrow> held st p = Some n \<Longrightarrow> unat p + n \<le> 2 ^ 32"
  using held_arena [of st p n] held_extent [of F R st p n] arena_run(1) [of F R st "pg_round_down p"]
  by (fastforce simp: page_run_def)

text \<open>\<^verbatim>\<open>calloc\<close> zeroes what it returns; its test lets products pass that wrap to a larger number than
  both factors, and then the block is smaller than the product.\<close>

lemma calloc_ok:
  assumes ok: "heap_ok R st" and n: "unat a * unat b \<le> 2 ^ 32 - 12"
  shows "calloc a b st = Some (NULL, st) \<or>
    (\<exists>p n st'. calloc a b st = Some (p, st') \<and> heap_ok R st' \<and> held st p = None \<and> held st' = (held st)(p \<mapsto> n) \<and>
       unat a * unat b \<le> n \<and> (\<forall>i < unat a * unat b. bytes (pages st') (p + of_nat i) = 0))"
proof -
  have u: "unat (a * b) = unat a * unat b" using n by (simp add: unat_word_ariths)
  consider (none) "malloc (a * b) st = Some (NULL, st)"
    | (some) p m s1 where "malloc (a * b) st = Some (p, s1)" "heap_ok R s1" "p \<noteq> NULL" "held st p = None" "held s1 = (held st)(p \<mapsto> m)"
      "unat a * unat b \<le> m"
    using malloc_ok [OF ok, of "a * b"] n u by auto
  then show ?thesis
  proof cases
    case none then show ?thesis by (simp add: calloc_def Let_def)
  next
    case some
    let ?st = "malloc_fill p 0 (a * b) s1"
    show ?thesis
    proof (cases "a * b < a \<or> a * b < b")
      case True then show ?thesis by (simp add: calloc_def Let_def)
    next
      case False
      then have "calloc a b st = Some (p, ?st)" using some(1,3) by (simp add: calloc_def Let_def)
      moreover have "bytes (pages ?st) (p + of_nat i) = 0" if "i < unat a * unat b" for i
      proof -
        have "i < 2 ^ 32" using that n by simp
        then show ?thesis using that u by (simp add: malloc_fill_def fill_def word_less_nat_alt unat_small)
      qed
      ultimately show ?thesis using some by (auto simp: heap_ok_def)
    qed
  qed
qed

lemma calloc_too_small:
  assumes ok: "heap_ok R st" and n: "2 ^ 32 \<le> unat a * unat b" and r: "calloc a b st = Some (p, st')" and p: "p \<noteq> NULL"
  shows "\<exists>n. held st' p = Some n \<and> n < unat a * unat b"
proof -
  obtain s1 where s1: "malloc (a * b) st = Some (p, s1)" "st' = malloc_fill p 0 (a * b) s1"
    using r p by (auto simp: calloc_def Let_def bind_eq_Some_conv split: if_splits)
  then obtain m where m: "heap_ok R s1" "held s1 = (held st)(p \<mapsto> m)" using malloc_ok [OF ok, of "a * b"] p by auto
  have h: "held st' p = Some m" using m(2) s1(2) by simp
  have "heap_inv {} R st'" using m(1) s1(2) by (simp add: heap_ok_def)
  from held_bound [OF this h] p have "m < 2 ^ 32" using unat_gt_0 [of p] by linarith
  then show ?thesis using h n by auto
qed

lemma copied_bytes:
  "bytes (pages (malloc_copy q p n st)) x = (if x - q < n then bytes (pages st) (p + (x - q)) else bytes (pages st) x)"
  by (simp add: malloc_copy_def Let_def)

section \<open>Properties\<close>

text \<open>C6: malloc refines an allocator of blocks with sizes.  It returns the null pointer and changes nothing, which
  happens only when the size is 0, the number of pages wraps to 0, or the page allocator has no such run; or it returns
  a block that was not held and is now held, with at least the size that was asked for, except for the eleven
  largest sizes: for these \<open>size + sizeof (struct arena)\<close> wraps and the block has 4084 bytes.  free of a held block
  never panics and takes exactly this block away.  Neither writes a byte of a block that is held afterwards and
  was held before.\<close>

theorem malloc_refines:
  assumes "heap_ok R st"
  shows "(malloc sz st = Some (NULL, st) \<and> no_memory sz st \<or>
      (\<exists>p n st'. malloc sz st = Some (p, st') \<and> heap_ok R st' \<and> p \<noteq> NULL \<and> held st p = None \<and> held st' = (held st)(p \<mapsto> n) \<and>
         bytes (pages st') = bytes (pages st) \<and> (unat sz \<le> n \<or> 2 ^ 32 - 12 < unat sz \<and> n = 4084))) \<and>
    (\<forall>p n. held st p = Some n \<longrightarrow> (\<exists>st'. free p st = Some st' \<and> heap_ok R st' \<and> held st' = (held st)(p := None) \<and>
        (\<forall>q m x. held st' q = Some m \<and> unat x \<in> extent q m \<longrightarrow> bytes (pages st') x = bytes (pages st) x)))"
  using malloc_ok [OF assms, of sz] free_ok [OF assms] by blast

text \<open>Pools of eight pages each, all free.\<close>

definition demo_blocks :: malloc_state where
  "demo_blocks = \<lparr>pages = \<lparr>kernel_pool = \<lparr>used_map = \<lparr>bit_cnt = 8, bits = [0]\<rparr>, base = 0xC0200000\<rparr>,
     user_pool = \<lparr>used_map = \<lparr>bit_cnt = 8, bits = [0]\<rparr>, base = 0xC0300000\<rparr>, bytes = (\<lambda>_. 0)\<rparr>,
     descs = first_descs, arenas = (\<lambda>_. None)\<rparr>"

lemma demo_blocks_ok: "heap_ok (used_frames (pages demo_blocks)) demo_blocks" "held demo_blocks = Map.empty"
proof -
  have "pools_ok (pages demo_blocks)"
    by (simp add: demo_blocks_def pools_ok_def pool_ok_def bm_ok_def page_count_def)
  from first_heap [OF this] show "heap_ok (used_frames (pages demo_blocks)) demo_blocks" "held demo_blocks = Map.empty"
    by (simp_all add: demo_blocks_def)
qed


lemma demo_memory: "\<not> no_memory 20 demo_blocks"
proof -
  have "find_desc 20 (descs demo_blocks) = Some 1" by (simp add: demo_blocks_def first_descs_def)
  moreover have "\<not> no_room (kernel_pool (pages demo_blocks)) 1"
    by (auto simp: no_room_def demo_blocks_def page_count_def used_pages_def bm_abs_def bit_at_def intro!: exI [of _ 0])
  ultimately show ?thesis by (simp add: no_memory_def malloc_pages_def)
qed

theorem malloc_refines_witness:
  "\<exists>p n s1 s2. malloc 20 demo_blocks = Some (p, s1) \<and> p \<noteq> NULL \<and> held s1 = [p \<mapsto> n] \<and> 20 \<le> n \<and>
    free p s1 = Some s2 \<and> held s2 = Map.empty"
proof -
  from malloc_refines [OF demo_blocks_ok(1), of 20] obtain p n s1 where m: "malloc 20 demo_blocks = Some (p, s1)" "p \<noteq> NULL"
    "heap_ok (used_frames (pages demo_blocks)) s1" "held s1 = [p \<mapsto> n]" "20 \<le> n"
    using demo_memory by (auto simp: demo_blocks_ok(2))
  from m(4) have "held s1 p = Some n" by simp
  with malloc_refines [OF m(3)] obtain s2 where "free p s1 = Some s2" "held s2 = (held s1)(p := None)" by blast
  then have "free p s1 = Some s2" "held s2 = Map.empty" using m(4) by auto
  then show ?thesis using m by blast
qed

text \<open>C5: The memory that malloc hands out is never shared.  From \<open>malloc_init\<close> on any page allocator, whatever
  blocks a client asks for and frees in whatever order, no call panics, and the blocks it holds are the blocks in
  use; they overlap neither each other, nor the header of an arena, nor a page that was in use before; and when
  the client holds no block, every page has gone back to the page allocator.\<close>

theorem malloc_disjoint:
  assumes "pools_ok pg"
  shows "\<exists>s0 st L. malloc_init pg = Some s0 \<and> run_malloc xs s0 [] = Some (st, L) \<and> distinct L \<and> dom (held st) = set L \<and>
    (\<forall>p q n m. p \<noteq> q \<and> held st p = Some n \<and> held st q = Some m \<longrightarrow> extent p n \<inter> extent q m = {}) \<and>
    (\<forall>p n a A. held st p = Some n \<and> arenas st a = Some A \<longrightarrow> extent p n \<inter> extent a 12 = {}) \<and>
    (\<forall>p n x. held st p = Some n \<and> x \<in> extent p n \<longrightarrow> x div 4096 \<notin> used_frames pg) \<and>
    (L = [] \<longrightarrow> used_frames (pages st) = used_frames pg)"
proof -
  let ?s0 = "\<lparr>pages = pg, descs = first_descs, arenas = (\<lambda>_. None)\<rparr>"
  note F = first_heap [OF assms]
  have e: "distinct ([] :: ptr list)" "dom (held ?s0) = set []" using F(2) by simp_all
  from run_malloc_ok [OF F(1) e, of xs] obtain st L where
    r: "run_malloc xs ?s0 [] = Some (st, L)" "heap_ok (used_frames pg) st" "distinct L" "dom (held st) = set L" by auto
  note inv = r(2) [unfolded heap_ok_def]
  have "used_frames (pages st) = used_frames pg" if "L = []" using nothing_held [OF r(2)] r(4) that by simp
  moreover have "malloc_init pg = Some ?s0" by (rule malloc_init_ok)
  ultimately show ?thesis using r(1,3,4) held_apart [OF inv] held_headers [OF inv] held_others [OF inv]
    by - (rule exI [of _ ?s0], rule exI [of _ st], rule exI [of _ L], simp, blast)
qed

theorem malloc_disjoint_witness:
  "\<exists>s0 st L. malloc_init (pages demo_blocks) = Some s0 \<and>
    run_malloc [Malloc 20, Malloc 5000, Malloc 20, Free 1, Malloc 1, Free 0, Free 0, Free 0] s0 [] = Some (st, L) \<and>
    distinct L \<and> dom (held st) = set L"
  using malloc_disjoint [OF heap_invD(1) [OF demo_blocks_ok(1) [unfolded heap_ok_def]],
    of "[Malloc 20, Malloc 5000, Malloc 20, Free 1, Malloc 1, Free 0, Free 0, Free 0]"] by blast

text \<open>C26: realloc of a held block to a size that does not wrap fails and changes nothing, or frees the block and
  returns another that was not held, of at least the new size, whose bytes begin with those of the old block as
  far as both sizes reach; the bytes of every other held block stay as they are.\<close>

theorem realloc_contents:
  assumes ok: "heap_ok R st" and h: "held st p = Some n" and sz: "sz \<noteq> 0" "unat sz \<le> 2 ^ 32 - 12"
  shows "realloc p sz st = Some (NULL, st) \<and> no_memory sz st \<or>
    (\<exists>q m st'. realloc p sz st = Some (q, st') \<and> heap_ok R st' \<and> held st q = None \<and> unat sz \<le> m \<and>
       held st' = (held st)(p := None, q \<mapsto> m) \<and>
       (\<forall>i < min (unat sz) n. bytes (pages st') (q + of_nat i) = bytes (pages st) (p + of_nat i)) \<and>
       (\<forall>r k x. r \<noteq> p \<and> held st r = Some k \<and> unat x \<in> extent r k \<longrightarrow> bytes (pages st') x = bytes (pages st) x))"
proof -
  consider (none) "malloc sz st = Some (NULL, st)" "no_memory sz st"
    | (some) q m s1 where "malloc sz st = Some (q, s1)" "heap_ok R s1" "q \<noteq> NULL" "held st q = None" "held s1 = (held st)(q \<mapsto> m)"
      "bytes (pages s1) = bytes (pages st)" "unat sz \<le> m"
    using malloc_ok [OF ok, of sz] sz(2) by auto
  then show ?thesis
  proof cases
    case none
    then show ?thesis using sz by (simp add: realloc_def)
  next
    case some
    note inv1 = some(2) [unfolded heap_ok_def]
    have pq: "p \<noteq> q" using h some(4) by auto
    have h1: "held s1 p = Some n" "held s1 q = Some m" using h some(5) pq by simp_all
    obtain w where w: "block_bytes p s1 = Some w" "unat w = n" using block_bytes_ok [OF inv1 h1(1)] by blast
    define l where "l = (if sz < w then sz else w)"
    have l: "unat l = min (unat sz) n" using w(2) by (auto simp: l_def word_less_nat_alt)
    let ?s2 = "malloc_copy q p l s1"
    have ok2: "heap_ok R ?s2" "held ?s2 p = Some n" using some(2) h1 by (simp_all add: heap_ok_def)
    from free_ok [OF ok2] obtain s3 where f: "free p ?s2 = Some s3" "heap_ok R s3" "held s3 = (held ?s2)(p := None)"
      "\<And>r k x. held s3 r = Some k \<Longrightarrow> unat x \<in> extent r k \<Longrightarrow> bytes (pages s3) x = bytes (pages ?s2) x" by blast
    have p0: "p \<noteq> NULL" by (rule block_nonnull [OF ok [unfolded heap_ok_def] h])
    have re: "realloc p sz st = Some (q, s3)"
      using sz(1) some(1,3) p0 w(1) f(1) by (simp add: realloc_def l_def Let_def)
    have held3: "held s3 = (held st)(p := None, q \<mapsto> m)" using f(3) some(5) pq by (simp add: fun_upd_twist)
    note qb = held_bound [OF inv1 h1(2)]
    have "bytes (pages s3) (q + of_nat i) = bytes (pages st) (p + of_nat i)" if i: "i < min (unat sz) n" for i
    proof -
      have im: "i < m" using i some(7) by simp
      have i32: "i < 2 ^ 32" using im qb by simp
      note ui = unat_small [OF i32]
      have "unat (q + of_nat i) = unat q + i" using im qb ui by (simp add: unat_word_ariths)
      then have "unat (q + of_nat i) \<in> extent q m" using im by (simp add: extent_def)
      then have "bytes (pages s3) (q + of_nat i) = bytes (pages ?s2) (q + of_nat i)" by (intro f(4)) (simp_all add: held3)
      also have "\<dots> = bytes (pages st) (p + of_nat i)" using i ui l some(6) by (simp add: copied_bytes word_less_nat_alt)
      finally show ?thesis .
    qed
    moreover have "bytes (pages s3) x = bytes (pages st) x" if r: "r \<noteq> p" "held st r = Some k" "unat x \<in> extent r k" for r k x
    proof -
      have rq: "r \<noteq> q" using r(2) some(4) by auto
      then have hr: "held s1 r = Some k" "held s3 r = Some k" using r some(5) held3 by simp_all
      have "unat x \<notin> extent q m" using held_apart [OF inv1 hr(1) h1(2) rq] r(3) by blast
      then have "unat x \<notin> extent q (unat l)" using l some(7) by (auto simp: extent_def)
      then have "\<not> x - q < l" using qb l some(7) by (intro outside) simp_all
      then show ?thesis using f(4) [OF hr(2) r(3)] some(6) by (simp add: copied_bytes)
    qed
    ultimately show ?thesis using re f(2) some(4,7) held3 by blast
  qed
qed

theorem realloc_contents_witness:
  "\<exists>p st. malloc 20 demo_blocks = Some (p, st) \<and> p \<noteq> NULL \<and> (realloc p 100 st = Some (NULL, st) \<and> no_memory 100 st \<or>
    (\<exists>q st'. realloc p 100 st = Some (q, st') \<and>
      (\<forall>i < 20. bytes (pages st') (q + of_nat i) = bytes (pages st) (p + of_nat i))))"
proof -
  from malloc_ok [OF demo_blocks_ok(1), of 20] obtain p n st where m: "malloc 20 demo_blocks = Some (p, st)" "p \<noteq> NULL"
    "heap_ok (used_frames (pages demo_blocks)) st" "held st = [p \<mapsto> n]" "20 \<le> n"
    using demo_memory by (auto simp: demo_blocks_ok(2))
  have "held st p = Some n" using m(4) by simp
  from realloc_contents [OF m(3) this, of 100] m(5) show ?thesis using m(1,2) by fastforce
qed

end
