(* ===== verification/Intq.thy ===== *)
theory Intq
  imports Prelude
begin

text \<open>
  Interrupt queues, \<^verbatim>\<open>devices/intq.c\<close>: a ring buffer of bytes between threads and interrupt handlers, with at
  most one thread registered as waiting for each of its two conditions; and the keyboard buffer of
  \<^verbatim>\<open>devices/input.c\<close> above it.  Interrupts are off in every operation.  A call that has to wait is cut where
  the thread blocks: in \<^verbatim>\<open>lock_acquire\<close> (\<open>Wait_lock\<close>) or in \<^verbatim>\<open>wait\<close> (\<open>Wait_cond\<close>); the resume operations
  say how it goes on from there.
\<close>

section \<open>Operations\<close>

definition INTQ_BUFSIZE :: int where
  "INTQ_BUFSIZE = 64"

record intq =
  q_lock :: "nat option"
  not_full :: "nat option"
  not_empty :: "nat option"
  q_buf :: "u8 list"
  q_head :: int
  q_tail :: int

datatype 'a outcome = Done 'a | Wait_lock | Wait_cond

definition intq_init :: "u8 list \<Rightarrow> intq" where
  "intq_init junk = \<lparr>q_lock = None, not_full = None, not_empty = None, q_buf = junk, q_head = 0, q_tail = 0\<rparr>"

definition next_pos :: "int \<Rightarrow> int" where
  "next_pos pos = (pos + 1) mod INTQ_BUFSIZE"

definition intq_empty :: "intq \<Rightarrow> bool" where
  "intq_empty q \<longleftrightarrow> q_head q = q_tail q"

definition intq_full :: "intq \<Rightarrow> bool" where
  "intq_full q \<longleftrightarrow> next_pos (q_head q) = q_tail q"

text \<open>\<^verbatim>\<open>wait\<close> with the address of each of the two members: thread \<open>t\<close> registers itself and blocks.\<close>

definition wait_not_empty :: "bool \<Rightarrow> nat \<Rightarrow> intq \<Rightarrow> intq option" where
  "wait_not_empty intr t q = do { chk (\<not> intr); chk (intq_empty q); Some (q\<lparr>not_empty := Some t\<rparr>) }"

definition wait_not_full :: "bool \<Rightarrow> nat \<Rightarrow> intq \<Rightarrow> intq option" where
  "wait_not_full intr t q = do { chk (\<not> intr); chk (intq_full q); Some (q\<lparr>not_full := Some t\<rparr>) }"

text \<open>The bodies of the two loops up to the point where the thread blocks.\<close>

definition sleep_not_empty :: "bool \<Rightarrow> nat \<Rightarrow> intq \<Rightarrow> ('a outcome \<times> intq) option" where
  "sleep_not_empty intr t q = do {
     chk (\<not> intr);
     chk (q_lock q \<noteq> Some t);
     if q_lock q \<noteq> None then Some (Wait_lock, q)
     else do { q \<leftarrow> wait_not_empty intr t (q\<lparr>q_lock := Some t\<rparr>); Some (Wait_cond, q) } }"

definition sleep_not_full :: "bool \<Rightarrow> nat \<Rightarrow> intq \<Rightarrow> ('a outcome \<times> intq) option" where
  "sleep_not_full intr t q = do {
     chk (\<not> intr);
     chk (q_lock q \<noteq> Some t);
     if q_lock q \<noteq> None then Some (Wait_lock, q)
     else do { q \<leftarrow> wait_not_full intr t (q\<lparr>q_lock := Some t\<rparr>); Some (Wait_cond, q) } }"

text \<open>The thread that \<^verbatim>\<open>signal\<close> unblocks, if any.\<close>

definition signal_not_empty :: "intq \<Rightarrow> (nat option \<times> intq) option" where
  "signal_not_empty q = do { chk (\<not> intq_empty q); Some (not_empty q, q\<lparr>not_empty := None\<rparr>) }"

definition signal_not_full :: "intq \<Rightarrow> (nat option \<times> intq) option" where
  "signal_not_full q = do { chk (\<not> intq_full q); Some (not_full q, q\<lparr>not_full := None\<rparr>) }"

definition intq_getc :: "bool \<Rightarrow> nat \<Rightarrow> intq \<Rightarrow> ((u8 \<times> nat option) outcome \<times> intq) option" where
  "intq_getc intr t q =
     (if intq_empty q then sleep_not_empty intr t q
      else do {
        chk (0 \<le> q_tail q \<and> nat (q_tail q) < length (q_buf q));
        let byte = q_buf q ! nat (q_tail q);
        (woken, q) \<leftarrow> signal_not_full (q\<lparr>q_tail := next_pos (q_tail q)\<rparr>);
        Some (Done (byte, woken), q) })"

definition intq_putc :: "bool \<Rightarrow> nat \<Rightarrow> u8 \<Rightarrow> intq \<Rightarrow> (nat option outcome \<times> intq) option" where
  "intq_putc intr t byte q =
     (if intq_full q then sleep_not_full intr t q
      else do {
        chk (0 \<le> q_head q \<and> nat (q_head q) < length (q_buf q));
        let q = q\<lparr>q_buf := (q_buf q)[nat (q_head q) := byte], q_head := next_pos (q_head q)\<rparr>;
        (woken, q) \<leftarrow> signal_not_empty q;
        Some (Done woken, q) })"

text \<open>How a blocked call goes on.  A thread that slept for the lock and gets it calls \<^verbatim>\<open>wait\<close>; a thread that was
  unblocked by \<^verbatim>\<open>signal\<close> releases the lock and runs the loop again.\<close>

definition locked_getc :: "nat \<Rightarrow> intq \<Rightarrow> ((u8 \<times> nat option) outcome \<times> intq) option" where
  "locked_getc t q = do {
     chk (q_lock q = None);
     q \<leftarrow> wait_not_empty False t (q\<lparr>q_lock := Some t\<rparr>);
     Some (Wait_cond, q) }"

definition locked_putc :: "nat \<Rightarrow> intq \<Rightarrow> (nat option outcome \<times> intq) option" where
  "locked_putc t q = do {
     chk (q_lock q = None);
     q \<leftarrow> wait_not_full False t (q\<lparr>q_lock := Some t\<rparr>);
     Some (Wait_cond, q) }"

definition woken_getc :: "nat \<Rightarrow> intq \<Rightarrow> ((u8 \<times> nat option) outcome \<times> intq) option" where
  "woken_getc t q = do { chk (q_lock q = Some t); intq_getc False t (q\<lparr>q_lock := None\<rparr>) }"

definition woken_putc :: "nat \<Rightarrow> u8 \<Rightarrow> intq \<Rightarrow> (nat option outcome \<times> intq) option" where
  "woken_putc t byte q = do { chk (q_lock q = Some t); intq_putc False t byte (q\<lparr>q_lock := None\<rparr>) }"

text \<open>\<^verbatim>\<open>devices/input.c\<close>; the notification of the serial port is left out.\<close>

definition input_putc :: "u8 \<Rightarrow> nat \<Rightarrow> intq \<Rightarrow> (nat option outcome \<times> intq) option" where
  "input_putc key t q = do { chk (\<not> intq_full q); intq_putc True t key q }"

definition input_getc :: "nat \<Rightarrow> intq \<Rightarrow> ((u8 \<times> nat option) outcome \<times> intq) option" where
  "input_getc t q = intq_getc False t q"

definition input_full :: "intq \<Rightarrow> bool" where
  "input_full q = intq_full q"

section \<open>The queue as a list of bytes\<close>

definition queue_len :: "intq \<Rightarrow> nat" where
  "queue_len q = nat ((q_head q - q_tail q) mod 64)"

definition contents_of :: "intq \<Rightarrow> u8 list" where
  "contents_of q = map (\<lambda>i. q_buf q ! nat ((q_tail q + int i) mod 64)) [0..<queue_len q]"

text \<open>A thread is registered only while the condition that it waits for is false.\<close>

definition intq_ok :: "intq \<Rightarrow> bool" where
  "intq_ok q \<longleftrightarrow> length (q_buf q) = 64 \<and> 0 \<le> q_head q \<and> q_head q < 64 \<and> 0 \<le> q_tail q \<and> q_tail q < 64 \<and>
     (not_empty q \<noteq> None \<longrightarrow> contents_of q = []) \<and> (not_full q \<noteq> None \<longrightarrow> length (contents_of q) = 63)"

lemma contents_fields [simp]:
  "contents_of (q\<lparr>q_lock := l\<rparr>) = contents_of q" "contents_of (q\<lparr>not_full := w\<rparr>) = contents_of q"
  "contents_of (q\<lparr>not_empty := w\<rparr>) = contents_of q"
  by (simp_all add: contents_of_def queue_len_def)

lemma length_contents [simp]: "length (contents_of q) = queue_len q"
  by (simp add: contents_of_def)

lemma ring_diff: "0 \<le> h \<Longrightarrow> h < 64 \<Longrightarrow> 0 \<le> t \<Longrightarrow> t < 64 \<Longrightarrow> (h - t) mod 64 = (if t \<le> h then h - t else h - t + 64)" for h t :: int
  by (smt (verit, ccfv_threshold) mod_add_self2 mod_pos_pos_trivial)

lemma ring_next: "0 \<le> p \<Longrightarrow> p < 64 \<Longrightarrow> next_pos p = (if p = 63 then 0 else p + 1)"
  by (simp add: next_pos_def INTQ_BUFSIZE_def)

definition ring_ok :: "intq \<Rightarrow> bool" where
  "ring_ok q \<longleftrightarrow> length (q_buf q) = 64 \<and> 0 \<le> q_head q \<and> q_head q < 64 \<and> 0 \<le> q_tail q \<and> q_tail q < 64"

lemma intq_ok_ring: "intq_ok q \<longleftrightarrow> ring_ok q \<and> (not_empty q \<noteq> None \<longrightarrow> contents_of q = []) \<and>
    (not_full q \<noteq> None \<longrightarrow> length (contents_of q) = 63)"
  by (simp add: intq_ok_def ring_ok_def)

lemma queue_len_ring: "ring_ok q \<Longrightarrow> int (queue_len q) = (if q_tail q \<le> q_head q then q_head q - q_tail q else q_head q - q_tail q + 64)"
  by (simp add: queue_len_def ring_diff ring_ok_def)

lemma queue_empty: "ring_ok q \<Longrightarrow> intq_empty q \<longleftrightarrow> queue_len q = 0"
  using queue_len_ring [of q] by (auto simp: intq_empty_def ring_ok_def split: if_splits)

lemma queue_full: "ring_ok q \<Longrightarrow> intq_full q \<longleftrightarrow> queue_len q = 63"
  using queue_len_ring [of q] ring_next [of "q_head q"] by (auto simp: intq_full_def ring_ok_def split: if_splits)

lemma queue_len_lt: "ring_ok q \<Longrightarrow> queue_len q < 64"
  using queue_len_ring [of q] by (simp add: ring_ok_def split: if_splits)

lemma contents_Nil: "contents_of q = [] \<longleftrightarrow> queue_len q = 0"
  by (simp add: contents_of_def)

text \<open>Taking the first byte and adding a last one.\<close>

lemma contents_take:
  assumes ok: "ring_ok q" and pos: "0 < queue_len q"
  defines "q' \<equiv> q\<lparr>q_tail := next_pos (q_tail q)\<rparr>"
  shows "ring_ok q' \<and> contents_of q = q_buf q ! nat (q_tail q) # contents_of q' \<and> queue_len q' = queue_len q - 1"
proof -
  have r: "0 \<le> q_tail q" "q_tail q < 64" using ok by (simp_all add: ring_ok_def)
  have ok': "ring_ok q'" using ok ring_next [OF r] by (simp add: q'_def ring_ok_def)
  have l: "queue_len q' = queue_len q - 1"
    using queue_len_ring [OF ok] queue_len_ring [OF ok'] ring_next [OF r] pos ok by (auto simp: q'_def ring_ok_def split: if_splits)
  have nth: "(q_tail q' + int i) mod 64 = (q_tail q + int (Suc i)) mod 64" for i
    by (simp add: q'_def next_pos_def INTQ_BUFSIZE_def mod_simps algebra_simps)
  obtain n where n: "queue_len q = Suc n" using pos by (cases "queue_len q") auto
  have "contents_of q = q_buf q ! nat (q_tail q) # map (\<lambda>i. q_buf q ! nat ((q_tail q + int (Suc i)) mod 64)) [0..<n]"
    using r unfolding contents_of_def n by (subst upt_conv_Cons) (simp_all add: map_Suc_upt [symmetric] del: upt_Suc of_nat_Suc)
  also have "map (\<lambda>i. q_buf q ! nat ((q_tail q + int (Suc i)) mod 64)) [0..<n] = contents_of q'"
    unfolding contents_of_def l n nth by (simp add: q'_def)
  finally show ?thesis using ok' l by simp
qed

lemma contents_add:
  fixes q :: intq and b :: u8
  assumes ok: "ring_ok q" and room: "queue_len q < 63"
  defines "q' \<equiv> q\<lparr>q_buf := (q_buf q)[nat (q_head q) := b], q_head := next_pos (q_head q)\<rparr>"
  shows "ring_ok q' \<and> contents_of q' = contents_of q @ [b] \<and> queue_len q' = queue_len q + 1"
proof -
  have r: "0 \<le> q_head q" "q_head q < 64" using ok by (simp_all add: ring_ok_def)
  have ok': "ring_ok q'" using ok ring_next [OF r] by (simp add: q'_def ring_ok_def)
  have l: "queue_len q' = queue_len q + 1"
    using queue_len_ring [OF ok] queue_len_ring [OF ok'] ring_next [OF r] room ok by (auto simp: q'_def ring_ok_def split: if_splits)
  have head: "(q_tail q + int (queue_len q)) mod 64 = q_head q"
    using queue_len_ring [OF ok] ok by (simp add: ring_ok_def)
  have other: "(q_tail q + int i) mod 64 \<noteq> q_head q" if "i < queue_len q" for i
  proof
    assume "(q_tail q + int i) mod 64 = q_head q"
    with head have "(q_tail q + int (queue_len q)) mod 64 = (q_tail q + int i) mod 64" by simp
    then have "64 dvd (q_tail q + int (queue_len q)) - (q_tail q + int i)" by (simp only: mod_eq_dvd_iff)
    then have "64 dvd int (queue_len q - i)" using that by (simp add: of_nat_diff)
    then have "64 \<le> queue_len q - i" using that by (auto dest: zdvd_imp_le)
    then show False using room by simp
  qed
  have "q_buf q' ! nat ((q_tail q + int i) mod 64) = q_buf q ! nat ((q_tail q + int i) mod 64)" if "i < queue_len q" for i
  proof -
    have "nat ((q_tail q + int i) mod 64) \<noteq> nat (q_head q)" using other [OF that] r by (simp add: eq_nat_nat_iff)
    then show ?thesis by (simp add: q'_def)
  qed
  moreover have "q_buf q' ! nat (q_head q) = b" using ok r by (simp add: q'_def ring_ok_def)
  moreover have tail: "q_tail q' = q_tail q" by (simp add: q'_def)
  ultimately have "contents_of q' = contents_of q @ [b]"
    using tail unfolding contents_of_def l by (simp add: head)
  then show ?thesis using ok' l by simp
qed


lemma intq_ok_ring_ok [simp]: "intq_ok q \<Longrightarrow> ring_ok q"
  by (simp add: intq_ok_ring)

lemma ring_ok_fields [simp]:
  "ring_ok (q\<lparr>q_lock := l\<rparr>) = ring_ok q" "ring_ok (q\<lparr>not_full := w\<rparr>) = ring_ok q" "ring_ok (q\<lparr>not_empty := w\<rparr>) = ring_ok q"
  by (simp_all add: ring_ok_def)

lemma intq_ok_lock [simp]: "intq_ok (q\<lparr>q_lock := l\<rparr>) = intq_ok q"
  by (simp add: intq_ok_ring)

lemma queue_len_fields [simp]:
  "queue_len (q\<lparr>q_lock := l\<rparr>) = queue_len q" "queue_len (q\<lparr>not_full := w\<rparr>) = queue_len q" "queue_len (q\<lparr>not_empty := w\<rparr>) = queue_len q"
  by (simp_all add: queue_len_def)

section \<open>Every branch of the operations\<close>

lemma sleep_not_empty_cases:
  assumes ok: "intq_ok q" and e: "contents_of q = []" and some: "sleep_not_empty intr t q = Some (r, q')"
  shows "intq_ok q' \<and> contents_of q' = [] \<and> (r = Wait_lock \<or> r = Wait_cond)"
  using assms by (auto simp: sleep_not_empty_def wait_not_empty_def intq_ok_ring split: if_splits)

lemma sleep_not_full_cases:
  assumes ok: "intq_ok q" and e: "length (contents_of q) = 63" and some: "sleep_not_full intr t q = Some (r, q')"
  shows "intq_ok q' \<and> contents_of q' = contents_of q \<and> (r = Wait_lock \<or> r = Wait_cond)"
  using assms by (auto simp: sleep_not_full_def wait_not_full_def intq_ok_ring split: if_splits)

lemma getc_some:
  assumes ok: "intq_ok q" and c: "contents_of q = b # bs"
  shows "\<exists>q'. intq_getc intr t q = Some (Done (b, not_full q), q') \<and> intq_ok q' \<and> contents_of q' = bs \<and>
    not_full q' = None \<and> not_empty q' = not_empty q \<and> q_lock q' = q_lock q"
proof -
  have len: "0 < queue_len q" using arg_cong [OF c, of length] by simp
  have r: "ring_ok q" using ok by simp
  let ?q = "q\<lparr>q_tail := next_pos (q_tail q)\<rparr>"
  have take: "ring_ok ?q" "contents_of q = q_buf q ! nat (q_tail q) # contents_of ?q" "queue_len ?q = queue_len q - 1"
    using contents_take [OF r len] by simp_all
  have full: "\<not> intq_full ?q" using queue_full [OF take(1)] take(3) queue_len_lt [OF r] len by linarith
  have "\<not> intq_empty q" using queue_empty [OF r] len by simp
  moreover have "not_empty q = None" using ok c by (auto simp: intq_ok_ring)
  ultimately show ?thesis using take c full r
    by (auto simp: intq_getc_def signal_not_full_def intq_ok_ring ring_ok_def)
qed

lemma putc_some:
  assumes ok: "intq_ok q" and room: "length (contents_of q) < 63"
  shows "\<exists>q'. intq_putc intr t b q = Some (Done (not_empty q), q') \<and> intq_ok q' \<and> contents_of q' = contents_of q @ [b] \<and>
    not_empty q' = None \<and> not_full q' = not_full q \<and> q_lock q' = q_lock q"
proof -
  have r: "ring_ok q" using ok by simp
  let ?q = "q\<lparr>q_buf := (q_buf q)[nat (q_head q) := b], q_head := next_pos (q_head q)\<rparr>"
  have add: "ring_ok ?q" "contents_of ?q = contents_of q @ [b]" "queue_len ?q = queue_len q + 1"
    using contents_add [OF r] room by simp_all
  have "\<not> intq_empty ?q" using queue_empty [OF add(1)] add(3) by simp
  moreover have "\<not> intq_full q" using queue_full [OF r] room by simp
  moreover have "not_full q = None" using ok room by (auto simp: intq_ok_ring)
  ultimately show ?thesis using add r
    by (auto simp: intq_putc_def signal_not_empty_def intq_ok_ring ring_ok_def)
qed

lemma getc_empty: "intq_ok q \<Longrightarrow> contents_of q = [] \<Longrightarrow> intq_getc intr t q = sleep_not_empty intr t q"
  by (simp add: intq_getc_def queue_empty contents_Nil)

lemma putc_full: "intq_ok q \<Longrightarrow> length (contents_of q) = 63 \<Longrightarrow> intq_putc intr t b q = sleep_not_full intr t q"
  by (simp add: intq_putc_def queue_full)

lemma contents_le: "intq_ok q \<Longrightarrow> length (contents_of q) \<le> 63"
  using queue_len_lt [of q] by simp

section \<open>Sequences of operations\<close>

text \<open>The steps of the threads and handlers that share a queue, in any order.  A step gives the bytes that it put
  into the queue, the bytes that it returned, and the new state.\<close>

datatype intq_op =
    Getc bool nat | Putc bool nat u8
  | Locked_getc nat | Locked_putc nat
  | Woken_getc nat | Woken_putc nat u8

fun got :: "(u8 \<times> nat option) outcome \<Rightarrow> u8 list" where
  "got (Done (b, w)) = [b]"
| "got Wait_lock = []"
| "got Wait_cond = []"

fun put :: "u8 \<Rightarrow> nat option outcome \<Rightarrow> u8 list" where
  "put b (Done w) = [b]"
| "put b Wait_lock = []"
| "put b Wait_cond = []"

fun intq_step :: "intq_op \<Rightarrow> intq \<Rightarrow> (u8 list \<times> u8 list \<times> intq) option" where
  "intq_step (Getc intr t) q = do { (r, q) \<leftarrow> intq_getc intr t q; Some ([], got r, q) }"
| "intq_step (Putc intr t b) q = do { (r, q) \<leftarrow> intq_putc intr t b q; Some (put b r, [], q) }"
| "intq_step (Locked_getc t) q = do { (r, q) \<leftarrow> locked_getc t q; Some ([], got r, q) }"
| "intq_step (Locked_putc t) q = do { (r, q) \<leftarrow> locked_putc t q; Some (put 0 r, [], q) }"
| "intq_step (Woken_getc t) q = do { (r, q) \<leftarrow> woken_getc t q; Some ([], got r, q) }"
| "intq_step (Woken_putc t b) q = do { (r, q) \<leftarrow> woken_putc t b q; Some (put b r, [], q) }"

fun intq_run :: "intq_op list \<Rightarrow> intq \<Rightarrow> (u8 list \<times> u8 list \<times> intq) option" where
  "intq_run [] q = Some ([], [], q)"
| "intq_run (x # xs) q = do {
     (a, b, q) \<leftarrow> intq_step x q;
     (c, d, q) \<leftarrow> intq_run xs q;
     Some (a @ c, b @ d, q) }"

lemma getc_fifo:
  assumes ok: "intq_ok q" and some: "intq_getc intr t q = Some (r, q')"
  shows "intq_ok q' \<and> contents_of q = got r @ contents_of q'"
proof (cases "contents_of q")
  case Nil
  have "sleep_not_empty intr t q = Some (r, q')" using some getc_empty [OF ok Nil] by simp
  from sleep_not_empty_cases [OF ok Nil this] show ?thesis using Nil by (elim conjE disjE) simp_all
next
  case (Cons b bs)
  then show ?thesis using getc_some [OF ok Cons, of intr t] some by auto
qed

lemma putc_fifo:
  assumes ok: "intq_ok q" and some: "intq_putc intr t b q = Some (r, q')"
  shows "intq_ok q' \<and> contents_of q' = contents_of q @ put b r"
proof (cases "length (contents_of q) = 63")
  case True
  have "sleep_not_full intr t q = Some (r, q')" using some putc_full [OF ok True] by simp
  from sleep_not_full_cases [OF ok True this] show ?thesis by (elim conjE disjE) simp_all
next
  case False
  then have "length (contents_of q) < 63" using contents_le [OF ok] by simp
  then show ?thesis using putc_some [OF ok, of intr t b] some by auto
qed

lemma step_fifo:
  assumes ok: "intq_ok q" and some: "intq_step x q = Some (a, b, q')"
  shows "intq_ok q' \<and> contents_of q @ a = b @ contents_of q'"
proof (cases x)
  case (Locked_getc t)
  then show ?thesis using ok some
    by (auto simp: locked_getc_def wait_not_empty_def intq_ok_ring queue_empty contents_Nil split: if_splits)
next
  case (Locked_putc t)
  then show ?thesis using ok some
    by (auto simp: locked_putc_def wait_not_full_def intq_ok_ring queue_full split: if_splits)
next
  case (Woken_getc t)
  then show ?thesis using ok some getc_fifo [of "q\<lparr>q_lock := None\<rparr>"]
    by (auto simp: woken_getc_def bind_eq_Some_conv split: if_splits)
next
  case (Woken_putc t c)
  then show ?thesis using ok some putc_fifo [of "q\<lparr>q_lock := None\<rparr>"]
    by (auto simp: woken_putc_def bind_eq_Some_conv split: if_splits)
next
  case (Getc intr t)
  then show ?thesis using some getc_fifo [OF ok] by (auto simp: bind_eq_Some_conv)
next
  case (Putc intr t c)
  then show ?thesis using some putc_fifo [OF ok] by (auto simp: bind_eq_Some_conv)
qed

lemma run_fifo:
  "intq_ok q \<Longrightarrow> intq_run xs q = Some (a, b, q') \<Longrightarrow> intq_ok q' \<and> contents_of q @ a = b @ contents_of q'"
proof (induction xs arbitrary: q a b)
  case (Cons x xs)
  from Cons.prems(2) obtain a1 b1 q1 a2 b2 where s: "intq_step x q = Some (a1, b1, q1)"
    and r: "intq_run xs q1 = Some (a2, b2, q')" and ab: "a = a1 @ a2" "b = b1 @ b2"
    by (auto simp: bind_eq_Some_conv)
  note one = step_fifo [OF Cons.prems(1) s]
  have "contents_of q1 @ a2 = b2 @ contents_of q'" using Cons.IH [OF _ r] one by simp
  then show ?case using Cons.IH [OF _ r] one ab by (metis append_assoc)
qed simp


section \<open>Properties\<close>

text \<open>C27: An interrupt queue is a first-in first-out queue of at most 63 bytes.  A getc of a queue that holds
  bytes returns the first, leaves the others, and wakes the thread that waits for room; a putc into a queue with
  room appends the byte and wakes the thread that waits for one; neither blocks or panics.  The threads and the
  handlers may take their steps in any order, blocked ones included: the bytes that were held and put are, in this
  order, the bytes that were returned and are held, and a thread is registered as waiting only while its condition
  is false.\<close>

theorem intq_fifo:
  assumes ok: "intq_ok q"
  shows "length (contents_of q) \<le> 63 \<and>
    (\<forall>b bs intr t. contents_of q = b # bs \<longrightarrow>
      (\<exists>q'. intq_getc intr t q = Some (Done (b, not_full q), q') \<and> intq_ok q' \<and> contents_of q' = bs)) \<and>
    (\<forall>b intr t. length (contents_of q) < 63 \<longrightarrow>
      (\<exists>q'. intq_putc intr t b q = Some (Done (not_empty q), q') \<and> intq_ok q' \<and> contents_of q' = contents_of q @ [b])) \<and>
    (\<forall>xs ins outs q2. intq_run xs q = Some (ins, outs, q2) \<longrightarrow> intq_ok q2 \<and> contents_of q @ ins = outs @ contents_of q2)"
  using contents_le [OF ok] getc_some [OF ok] putc_some [OF ok] run_fifo [OF ok] by blast

lemma intq_init_ok: "length junk = 64 \<Longrightarrow> intq_ok (intq_init junk) \<and> contents_of (intq_init junk) = []"
  by (simp add: intq_ok_def intq_init_def contents_of_def queue_len_def)

theorem intq_fifo_witness:
  "\<exists>q2. intq_run [Putc True 0 65, Getc False 1, Getc False 1, Putc True 0 66, Woken_getc 1] (intq_init (replicate 64 0))
     = Some ([65, 66], [65, 66], q2) \<and> intq_ok q2 \<and> contents_of q2 = []"
proof -
  let ?xs = "[Putc True 0 65, Getc False 1, Getc False 1, Putc True 0 66, Woken_getc 1]"
  let ?q = "intq_init (replicate 64 0)"
  obtain q2 where run: "intq_run ?xs ?q = Some ([65, 66], [65, 66], q2)"
    by (simp add: intq_init_def intq_putc_def intq_getc_def woken_getc_def intq_full_def intq_empty_def next_pos_def
      INTQ_BUFSIZE_def signal_not_empty_def signal_not_full_def sleep_not_empty_def wait_not_empty_def)
  have ok: "intq_ok ?q" and nil: "contents_of ?q = []" using intq_init_ok [of "replicate 64 0"] by simp_all
  show ?thesis using intq_fifo [OF ok] nil run by fastforce
qed


end
