(* ===== verification/Partition.thy ===== *)
theory Partition
  imports Block_Device
begin

text \<open>
  Partitions of a disk, \<^verbatim>\<open>devices/partition.c\<close>: the scan of the partition tables of a device, the check of each
  entry, and the sector input and output of a partition.  What \<^verbatim>\<open>block_register\<close> is called with is collected in a
  list; the name of a partition, which \<^verbatim>\<open>snprintf\<close> makes from the name of the device and the number of the
  partition, is given by these two.  Messages are left out.  \<open>alloc_ok k\<close> tells whether the \<open>k\<close>-th call of
  \<^verbatim>\<open>malloc\<close> succeeds.
\<close>

section \<open>Operations\<close>

record partition_entry =
  bootable :: u8
  start_chs :: "u8 list"
  e_type :: u8
  end_chs :: "u8 list"
  e_offset :: u32
  e_size :: u32

record partition =
  p_device :: "u8 list"
  p_nr :: int
  p_role :: block_type
  p_label :: string
  p_start :: u32
  p_sectors :: u32

record scan =
  device :: block
  part_nr :: int
  found :: "partition list"
  allocs :: nat
  alloc_ok :: "nat \<Rightarrow> bool"

text \<open>The layout of a partition table.\<close>

definition entry_at :: "u8 list \<Rightarrow> nat \<Rightarrow> partition_entry" where
  "entry_at pt i = (let e = slice (446 + 16 * i) 16 pt in
     \<lparr>bootable = e ! 0, start_chs = slice 1 3 e, e_type = e ! 4, end_chs = slice 5 3 e,
      e_offset = le_word (slice 8 4 e), e_size = le_word (slice 12 4 e)\<rparr>)"

definition table_entries :: "u8 list \<Rightarrow> partition_entry list" where
  "table_entries pt = map (entry_at pt) [0..<4]"

definition table_signature :: "u8 list \<Rightarrow> u16" where
  "table_signature pt = ucast (pt ! 510) OR push_bit 8 (ucast (pt ! 511))"

definition type_names :: "(u8 \<times> string) list" where
  "type_names =
    [(0x00, ''Empty''), (0x01, ''FAT12''), (0x02, ''XENIX root''), (0x03, ''XENIX usr''),
     (0x04, ''FAT16 <32M''), (0x05, ''Extended''), (0x06, ''FAT16''), (0x07, ''HPFS/NTFS''), (0x08, ''AIX''),
     (0x09, ''AIX bootable''), (0x0a, ''OS/2 Boot Manager''), (0x0b, ''W95 FAT32''),
     (0x0c, ''W95 FAT32 (LBA)''), (0x0e, ''W95 FAT16 (LBA)''), (0x0f, ''W95 Ext'' @ CHR 0x27 # ''d (LBA)''),
     (0x10, ''OPUS''), (0x11, ''Hidden FAT12''), (0x12, ''Compaq diagnostics''), (0x14, ''Hidden FAT16 <32M''),
     (0x16, ''Hidden FAT16''), (0x17, ''Hidden HPFS/NTFS''), (0x18, ''AST SmartSleep''),
     (0x1b, ''Hidden W95 FAT32''), (0x1c, ''Hidden W95 FAT32 (LBA)''), (0x1e, ''Hidden W95 FAT16 (LBA)''),
     (0x20, ''Pintos OS kernel''), (0x21, ''Pintos file system''), (0x22, ''Pintos scratch''),
     (0x23, ''Pintos swap''), (0x24, ''NEC DOS''), (0x39, ''Plan 9''), (0x3c, ''PartitionMagic recovery''),
     (0x40, ''Venix 80286''), (0x41, ''PPC PReP Boot''), (0x42, ''SFS''), (0x4d, ''QNX4.x''),
     (0x4e, ''QNX4.x 2nd part''), (0x4f, ''QNX4.x 3rd part''), (0x50, ''OnTrack DM''),
     (0x51, ''OnTrack DM6 Aux1''), (0x52, ''CP/M''), (0x53, ''OnTrack DM6 Aux3''), (0x54, ''OnTrackDM6''),
     (0x55, ''EZ-Drive''), (0x56, ''Golden Bow''), (0x5c, ''Priam Edisk''), (0x61, ''SpeedStor''),
     (0x63, ''GNU HURD or SysV''), (0x64, ''Novell Netware 286''), (0x65, ''Novell Netware 386''),
     (0x70, ''DiskSecure Multi-Boot''), (0x75, ''PC/IX''), (0x80, ''Old Minix''),
     (0x81, ''Minix / old Linux''), (0x82, ''Linux swap / Solaris''), (0x83, ''Linux''),
     (0x84, ''OS/2 hidden C: drive''), (0x85, ''Linux extended''), (0x86, ''NTFS volume set''),
     (0x87, ''NTFS volume set''), (0x88, ''Linux plaintext''), (0x8e, ''Linux LVM''), (0x93, ''Amoeba''),
     (0x94, ''Amoeba BBT''), (0x9f, ''BSD/OS''), (0xa0, ''IBM Thinkpad hibernation''), (0xa5, ''FreeBSD''),
     (0xa6, ''OpenBSD''), (0xa7, ''NeXTSTEP''), (0xa8, ''Darwin UFS''), (0xa9, ''NetBSD''),
     (0xab, ''Darwin boot''), (0xb7, ''BSDI fs''), (0xb8, ''BSDI swap''), (0xbb, ''Boot Wizard hidden''),
     (0xbe, ''Solaris boot''), (0xbf, ''Solaris''), (0xc1, ''DRDOS/sec (FAT-12)''),
     (0xc4, ''DRDOS/sec (FAT-16 < 32M)''), (0xc6, ''DRDOS/sec (FAT-16)''), (0xc7, ''Syrinx''),
     (0xda, ''Non-FS data''), (0xdb, ''CP/M / CTOS / ...''), (0xde, ''Dell Utility''), (0xdf, ''BootIt''),
     (0xe1, ''DOS access''), (0xe3, ''DOS R/O''), (0xe4, ''SpeedStor''), (0xeb, ''BeOS fs''),
     (0xee, ''EFI GPT''), (0xef, ''EFI (FAT-12/16/32)''), (0xf0, ''Linux/PA-RISC boot''),
     (0xf1, ''SpeedStor''), (0xf4, ''SpeedStor''), (0xf2, ''DOS secondary''),
     (0xfd, ''Linux raid autodetect''), (0xfe, ''LANstep''), (0xff, ''BBT'')]"

definition partition_type_name :: "u8 \<Rightarrow> string" where
  "partition_type_name t = (case map_of type_names t of Some n \<Rightarrow> n | None \<Rightarrow> ''Unknown'')"

definition partition_malloc :: "scan \<Rightarrow> scan option" where
  "partition_malloc st = do { chk (alloc_ok st (allocs st)); Some (st\<lparr>allocs := Suc (allocs st)\<rparr>) }"

definition found_partition :: "u8 \<Rightarrow> u32 \<Rightarrow> u32 \<Rightarrow> int \<Rightarrow> scan \<Rightarrow> scan option" where
  "found_partition part_type start sz nr st =
     (if start \<ge> block_size (device st) then Some st
      else if start + sz < start \<or> start + sz > block_size (device st) then Some st
      else do {
        let type = (if part_type = 0x20 then BLOCK_KERNEL
          else if part_type = 0x21 then BLOCK_FILESYS
          else if part_type = 0x22 then BLOCK_SCRATCH
          else if part_type = 0x23 then BLOCK_SWAP
          else BLOCK_FOREIGN);
        st \<leftarrow> partition_malloc st;
        let p = \<lparr>p_device = block_name (device st), p_nr = nr, p_role = type, p_label = partition_type_name part_type,
          p_start = start, p_sectors = sz\<rparr>;
        Some (st\<lparr>found := found st @ [p]\<rparr>) })"

text \<open>The first half of \<^verbatim>\<open>read_partition_table\<close>: no table, or its entries.  It reads sector 0, whatever
  \<open>sector\<close> is.\<close>

definition read_table :: "u32 \<Rightarrow> scan \<Rightarrow> (partition_entry list option \<times> scan) option" where
  "read_table sector st =
     (if sector \<ge> block_size (device st) then Some (None, st)
      else do {
        st \<leftarrow> partition_malloc st;
        (pt, d) \<leftarrow> block_read (device st) 0;
        let st = st\<lparr>device := d\<rparr>;
        if table_signature pt \<noteq> 0xaa55 then Some (None, st)
        else Some (Some (table_entries pt), st) })"

definition is_empty_entry :: "partition_entry \<Rightarrow> bool" where
  "is_empty_entry e \<longleftrightarrow> e_size e = 0 \<or> e_type e = 0"

definition is_extended :: "partition_entry \<Rightarrow> bool" where
  "is_extended e \<longleftrightarrow> e_type e = 0x05 \<or> e_type e = 0x0f \<or> e_type e = 0x85 \<or> e_type e = 0xc5"

text \<open>The loop over the entries; \<open>None\<close> is also the value of a recursion that does not end.\<close>

partial_function (option) read_entries :: "u32 \<Rightarrow> u32 \<Rightarrow> partition_entry list \<Rightarrow> scan \<Rightarrow> scan option" where
  "read_entries sector primary entries st =
     (case entries of
        [] \<Rightarrow> Some st
      | e # es \<Rightarrow> do {
          st \<leftarrow> (if is_empty_entry e then Some st
            else if is_extended e
            then do {
              let s = (if sector = 0 then e_offset e else e_offset e + primary);
              let p = (if sector = 0 then e_offset e else primary);
              (table, st) \<leftarrow> read_table s st;
              (case table of None \<Rightarrow> Some st | Some t \<Rightarrow> read_entries s p t st) }
            else do {
              n \<leftarrow> s32 (part_nr st + 1);
              found_partition (e_type e) (e_offset e + sector) (e_size e) n (st\<lparr>part_nr := n\<rparr>) });
          read_entries sector primary es st })"

definition read_partition_table :: "u32 \<Rightarrow> u32 \<Rightarrow> scan \<Rightarrow> scan option" where
  "read_partition_table sector primary st = do {
     (table, st) \<leftarrow> read_table sector st;
     case table of None \<Rightarrow> Some st | Some es \<Rightarrow> read_entries sector primary es st }"

definition partition_scan :: "scan \<Rightarrow> scan option" where
  "partition_scan st = read_partition_table 0 0 (st\<lparr>part_nr := 0\<rparr>)"

text \<open>The driver of a partition, on the device that it is a part of.\<close>

definition partition_read :: "partition \<Rightarrow> u32 \<Rightarrow> block \<Rightarrow> (u8 list \<times> block) option" where
  "partition_read p sector d = block_read d (p_start p + sector)"

definition partition_write :: "partition \<Rightarrow> u32 \<Rightarrow> u8 list \<Rightarrow> block \<Rightarrow> block option" where
  "partition_write p sector buffer d = block_write d (p_start p + sector) buffer"

section \<open>Partitions within their device\<close>

text \<open>A partition has a sector, ends within the device, and its end does not wrap.\<close>

definition fits_disk :: "u32 \<Rightarrow> u32 \<Rightarrow> u32 \<Rightarrow> bool" where
  "fits_disk n start sz \<longleftrightarrow> unat start < unat n \<and> unat start + unat sz \<le> unat n"

lemma fits_disk_iff: "\<not> start \<ge> n \<and> \<not> (start + sz < start \<or> start + sz > n) \<longleftrightarrow> fits_disk n start sz"
proof -
  have "unat (start + sz) = (if unat start + unat sz < 2 ^ 32 then unat start + unat sz else unat start + unat sz - 2 ^ 32)"
    using unsigned_less [of start, where 'a = nat] unsigned_less [of sz, where 'a = nat] by (simp add: unat_word_ariths mod_if)
  then show ?thesis
    using unsigned_less [of start, where 'a = nat] unsigned_less [of sz, where 'a = nat] unsigned_less [of n, where 'a = nat]
    by (auto simp: fits_disk_def word_le_nat_alt word_less_nat_alt not_le not_less split: if_splits)
qed

definition same_disk :: "block \<Rightarrow> block \<Rightarrow> bool" where
  "same_disk d d' \<longleftrightarrow> b_size d' = b_size d \<and> medium d' = medium d \<and> b_name d' = b_name d \<and> b_type d' = b_type d"

lemma same_disk_trans: "same_disk a b \<Longrightarrow> same_disk b c \<Longrightarrow> same_disk a c"
  by (simp add: same_disk_def)

lemma same_disk_refl [simp]: "same_disk a a"
  by (simp add: same_disk_def)

text \<open>A step of the scan keeps the disk and only adds partitions that fit.\<close>

definition adds :: "scan \<Rightarrow> scan \<Rightarrow> bool" where
  "adds st st' \<longleftrightarrow> same_disk (device st) (device st') \<and> alloc_ok st' = alloc_ok st \<and>
     (\<exists>ps. found st' = found st @ ps \<and> (\<forall>p \<in> set ps. p_sectors p \<noteq> 0 \<and> fits_disk (b_size (device st)) (p_start p) (p_sectors p)))"

lemma adds_refl: "adds st st"
  by (simp add: adds_def)

lemma adds_trans: "adds a b \<Longrightarrow> adds b c \<Longrightarrow> adds a c"
  by (auto simp: adds_def same_disk_def)

lemma found_partition_adds: "found_partition t start sz nr st = Some st' \<Longrightarrow> sz \<noteq> 0 \<Longrightarrow> adds st st'"
  using fits_disk_iff [of "b_size (device st)" start sz]
  by (auto simp: found_partition_def adds_def block_size_def partition_malloc_def Let_def split: if_splits)

lemma read_table_adds: "read_table s st = Some (t, st') \<Longrightarrow> adds st st' \<and> found st' = found st \<and> part_nr st' = part_nr st"
  by (auto simp: read_table_def partition_malloc_def block_read_def check_sector_def adds_def same_disk_def Let_def
    split: if_splits)

text \<open>One turn of the loop, with the recursion in place of \<open>rec\<close>.\<close>

lemma entries_step:
  assumes "(case entries of
        [] \<Rightarrow> Some st
      | e # es \<Rightarrow> do {
          st \<leftarrow> (if is_empty_entry e then Some st
            else if is_extended e
            then do {
              let s = (if sector = 0 then e_offset e else e_offset e + primary);
              let p = (if sector = 0 then e_offset e else primary);
              (table, st) \<leftarrow> read_table s st;
              (case table of None \<Rightarrow> Some st | Some t \<Rightarrow> rec s p t st) }
            else do {
              n \<leftarrow> s32 (part_nr st + 1);
              found_partition (e_type e) (e_offset e + sector) (e_size e) n (st\<lparr>part_nr := n\<rparr>) });
          rec sector primary es st }) = Some st'"
    and e: "entries = e # es" and rec: "\<And>s p t st st'. rec s p t st = Some st' \<Longrightarrow> adds st st'"
  shows "\<exists>s1. adds st s1 \<and> rec sector primary es s1 = Some st'"
proof (cases "is_empty_entry e")
  case True
  then show ?thesis using assms(1) e adds_refl by auto
next
  case False
  show ?thesis
  proof (cases "is_extended e")
    case True
    from assms(1) e False True obtain s p t s0 s1 where r: "read_table s st = Some (t, s0)"
      "(case t of None \<Rightarrow> Some s0 | Some u \<Rightarrow> rec s p u s0) = Some s1" "rec sector primary es s1 = Some st'"
      by (auto simp: bind_eq_Some_conv Let_def split: if_splits)
    have "adds s0 s1" using r(2) rec adds_refl by (cases t) auto
    moreover have "adds st s0" using read_table_adds [OF r(1)] by blast
    ultimately show ?thesis using r(3) adds_trans by blast
  next
    case ext: False
    from assms(1) e False ext obtain n s1 where
      f: "found_partition (e_type e) (e_offset e + sector) (e_size e) n (st\<lparr>part_nr := n\<rparr>) = Some s1" "rec sector primary es s1 = Some st'"
      by (auto simp: bind_eq_Some_conv)
    have "e_size e \<noteq> 0" using False by (simp add: is_empty_entry_def)
    from found_partition_adds [OF f(1) this] have "adds st s1" by (simp add: adds_def)
    then show ?thesis using f(2) by blast
  qed
qed

lemma read_entries_adds: "read_entries sector primary es st = Some st' \<Longrightarrow> adds st st'"
proof (induction rule: read_entries.raw_induct [rotated, consumes 1, case_names step])
  case (step rec sector primary es st st')
  show ?case
  proof (cases es)
    case Nil
    then show ?thesis using step(2) by (simp add: adds_refl)
  next
    case (Cons e es1)
    have "\<exists>s1. adds st s1 \<and> rec sector primary es1 s1 = Some st'"
      by (rule entries_step [OF step(2) Cons]) (rule step(1))
    then show ?thesis using step(1) adds_trans by blast
  qed
qed

text \<open>A numbering of the entries that are not empty, from the number \<open>n\<close> on.\<close>

fun numbered :: "int \<Rightarrow> partition_entry list \<Rightarrow> (int \<times> partition_entry) list" where
  "numbered n [] = []"
| "numbered n (e # es) = (if is_empty_entry e then numbered n es else (n + 1, e) # numbered (n + 1) es)"

definition the_partition :: "block \<Rightarrow> int \<times> partition_entry \<Rightarrow> partition" where
  "the_partition d x = (let t = e_type (snd x) in
     \<lparr>p_device = b_name d, p_nr = fst x,
      p_role = (if t = 0x20 then BLOCK_KERNEL else if t = 0x21 then BLOCK_FILESYS else if t = 0x22 then BLOCK_SCRATCH
        else if t = 0x23 then BLOCK_SWAP else BLOCK_FOREIGN),
      p_label = partition_type_name t, p_start = e_offset (snd x), p_sectors = e_size (snd x)\<rparr>)"

definition partitions_of :: "block \<Rightarrow> int \<Rightarrow> partition_entry list \<Rightarrow> partition list" where
  "partitions_of d n es =
     map (the_partition d) (filter (\<lambda>x. fits_disk (b_size d) (e_offset (snd x)) (e_size (snd x))) (numbered n es))"

lemma read_primary:
  assumes "\<forall>e \<in> set es. \<not> is_extended e" "0 \<le> part_nr st" "part_nr st + int (length es) < 2 ^ 31" "\<forall>k. alloc_ok st k"
  shows "\<exists>k. read_entries 0 primary es st = Some (st\<lparr>part_nr := part_nr st + int (length (numbered (part_nr st) es)),
    found := found st @ partitions_of (device st) (part_nr st) es, allocs := k\<rparr>)"
  using assms
proof (induction es arbitrary: st)
  case Nil
  then show ?case by (subst read_entries.simps) (auto simp: partitions_of_def intro!: exI [of _ "allocs st"])
next
  case (Cons e es)
  show ?case
  proof (cases "is_empty_entry e")
    case True
    then show ?thesis using Cons by (subst read_entries.simps) (simp add: partitions_of_def)
  next
    case False
    let ?n = "part_nr st + 1"
    have n: "s32 ?n = Some ?n" using Cons.prems by (simp add: s32_ok_def)
    define s1 where "s1 = (let s = st\<lparr>part_nr := ?n\<rparr> in
      if fits_disk (b_size (device st)) (e_offset e) (e_size e)
      then s\<lparr>found := found st @ [the_partition (device st) (?n, e)], allocs := Suc (allocs st)\<rparr> else s)"
    have f: "found_partition (e_type e) (e_offset e) (e_size e) ?n (st\<lparr>part_nr := ?n\<rparr>) = Some s1"
      using fits_disk_iff [of "b_size (device st)" "e_offset e" "e_size e"] Cons.prems(4)
      by (auto simp: found_partition_def s1_def partition_malloc_def the_partition_def block_size_def block_name_def Let_def)
    have s1: "part_nr s1 = ?n" "device s1 = device st" "alloc_ok s1 = alloc_ok st"
      by (simp_all add: s1_def Let_def)
    have "\<exists>k. read_entries 0 primary es s1 = Some (s1\<lparr>part_nr := part_nr s1 + int (length (numbered (part_nr s1) es)),
      found := found s1 @ partitions_of (device s1) (part_nr s1) es, allocs := k\<rparr>)"
      using Cons.prems s1 by (intro Cons.IH) auto
    then obtain k where k: "read_entries 0 primary es s1 = Some (s1\<lparr>part_nr := part_nr s1 + int (length (numbered (part_nr s1) es)),
      found := found s1 @ partitions_of (device s1) (part_nr s1) es, allocs := k\<rparr>)" by blast
    have "read_entries 0 primary (e # es) st = read_entries 0 primary es s1"
      using Cons.prems(1) False by (subst read_entries.simps) (simp add: n f del: s32_Some)
    also have "\<dots> = Some (st\<lparr>part_nr := part_nr st + int (length (numbered (part_nr st) (e # es))),
      found := found st @ partitions_of (device st) (part_nr st) (e # es), allocs := k\<rparr>)"
      unfolding k s1 using False by (simp add: s1_def partitions_of_def Let_def)
    finally show ?thesis by blast
  qed
qed

section \<open>Extended partitions\<close>

text \<open>The recursion on an extended partition reads sector 0 again, where it finds the same entry.\<close>

definition trapped :: "partition_entry \<Rightarrow> u32 \<Rightarrow> u32 \<Rightarrow> partition_entry list \<Rightarrow> u8 list \<Rightarrow> u32 \<Rightarrow> scan \<Rightarrow> bool" where
  "trapped e sector primary es bs n st \<longleftrightarrow> e \<in> set es \<and> (sector = 0 \<or> primary = e_offset e) \<and>
     medium (device st) 0 = bs \<and> b_size (device st) = n"

lemma extended_loops:
  assumes e: "\<not> is_empty_entry e" "is_extended e" "e_offset e < n" "e_offset e + e_offset e < n"
    and t: "table_signature bs = 0xaa55" "e \<in> set (table_entries bs)"
    and "read_entries sector primary es st = Some st'"
  shows "adds st st' \<and> \<not> trapped e sector primary es bs n st"
  using assms(7)
proof (induction rule: read_entries.raw_induct [rotated, consumes 1, case_names step])
  case (step rec sector primary es st st')
  have rec: "adds s0 s1" if "rec s p u s0 = Some s1" for s p u s0 s1 using step(1) [OF that] by blast
  show ?case
  proof (cases es)
    case Nil
    then show ?thesis using step(2) by (simp add: adds_refl trapped_def)
  next
    case (Cons e1 es1)
    have "\<exists>s1. adds st s1 \<and> rec sector primary es1 s1 = Some st'"
      by (rule entries_step [OF step(2) Cons]) (rule rec)
    then obtain s1 where s1: "adds st s1" "rec sector primary es1 s1 = Some st'" by blast
    have False if trap: "trapped e sector primary es bs n st"
    proof -
      have keep: "medium (device x) 0 = bs \<and> b_size (device x) = n" if "adds st x" for x
        using trap that by (simp add: adds_def same_disk_def trapped_def)
      show False
      proof (cases "e1 = e")
        case True
        let ?s = "if sector = 0 then e_offset e else e_offset e + primary"
        let ?p = "if sector = 0 then e_offset e else primary"
        obtain u s0 s2 where r: "read_table ?s st = Some (u, s0)"
          "(case u of None \<Rightarrow> Some s0 | Some v \<Rightarrow> rec ?s ?p v s0) = Some s2"
          using step(2) Cons True e(1,2) by (auto simp: bind_eq_Some_conv Let_def split: if_splits)
        have "?s < n" using e(3,4) trap by (auto simp: trapped_def)
        then have "u = Some (table_entries bs)" using r(1) trap t(1)
          by (auto simp: read_table_def partition_malloc_def block_read_def check_sector_def block_size_def trapped_def Let_def
            split: if_splits)
        then have "rec ?s ?p (table_entries bs) s0 = Some s2" using r(2) by simp
        moreover have "trapped e ?s ?p (table_entries bs) bs n s0"
          using keep read_table_adds [OF r(1)] trap t(2) by (auto simp: trapped_def)
        ultimately show False using step(1) by blast
      next
        case False
        then have "trapped e sector primary es1 bs n s1" using keep [OF s1(1)] trap Cons by (auto simp: trapped_def)
        then show False using step(1) [OF s1(2)] by blast
      qed
    qed
    then show ?thesis using adds_trans [OF s1(1) rec [OF s1(2)]] by blast
  qed
qed

section \<open>Properties\<close>

text \<open>C28: The scan of a device with a valid table and no extended partition registers, in their order, exactly the
  entries that are not empty and fit into the device, numbered by their position among the entries that are not
  empty; with an extended partition at an offset \<open>o\<close> for which \<open>o\<close> and \<open>2 * o\<close> are sectors of the device, it
  never returns.\<close>

theorem partition_scan_result:
  assumes "table_signature (medium (device st) 0) = 0xaa55" and "0 < b_size (device st)" and "\<forall>k. alloc_ok st k"
  shows "if \<forall>e \<in> set (table_entries (medium (device st) 0)). \<not> is_extended e
    then \<exists>st'. partition_scan st = Some st' \<and>
      found st' = found st @ partitions_of (device st) 0 (table_entries (medium (device st) 0))
    else (\<exists>e \<in> set (table_entries (medium (device st) 0)). is_extended e \<and> \<not> is_empty_entry e \<and>
      e_offset e < b_size (device st) \<and> e_offset e + e_offset e < b_size (device st)) \<longrightarrow> partition_scan st = None"
proof -
  let ?es = "table_entries (medium (device st) 0)"
  let ?d = "(device st)\<lparr>read_cnt := read_cnt (device st) + 1\<rparr>"
  let ?s0 = "st\<lparr>part_nr := 0, allocs := Suc (allocs st), device := ?d\<rparr>"
  have "read_table 0 (st\<lparr>part_nr := 0\<rparr>) = Some (Some ?es, ?s0)"
    using assms by (simp add: read_table_def partition_malloc_def block_read_def check_sector_def block_size_def not_le Let_def)
  then have scan: "partition_scan st = read_entries 0 0 ?es ?s0"
    by (simp add: partition_scan_def read_partition_table_def)
  show ?thesis
  proof (cases "\<forall>e \<in> set ?es. \<not> is_extended e")
    case True
    have "length ?es = 4" by (simp add: table_entries_def)
    then obtain k where "read_entries 0 0 ?es ?s0 = Some (?s0\<lparr>part_nr := part_nr ?s0 + int (length (numbered (part_nr ?s0) ?es)),
      found := found ?s0 @ partitions_of (device ?s0) (part_nr ?s0) ?es, allocs := k\<rparr>)"
      using read_primary [of ?es ?s0 0] True assms(3) by auto
    moreover have "partitions_of ?d 0 ?es = partitions_of (device st) 0 ?es"
      by (simp add: partitions_of_def the_partition_def Let_def)
    ultimately show ?thesis using True scan by simp
  next
    case False
    have "partition_scan st = None" if e: "e \<in> set ?es" "is_extended e" "\<not> is_empty_entry e" "e_offset e < b_size (device st)"
      "e_offset e + e_offset e < b_size (device st)" for e
    proof (rule ccontr)
      assume "partition_scan st \<noteq> None"
      then obtain st' where "read_entries 0 0 ?es ?s0 = Some st'" using scan by auto
      from extended_loops [OF e(3,2,4,5) assms(1) e(1) this] show False using e(1) by (simp add: trapped_def)
    qed
    then show ?thesis using False by auto
  qed
qed

text \<open>A device of 100 sectors whose table has one entry, of the given type, at sector 10.\<close>

definition demo_disk :: "u8 \<Rightarrow> scan" where
  "demo_disk t = \<lparr>device = \<lparr>b_name = [104], b_type = BLOCK_RAW, b_size = 100,
     medium = (\<lambda>_. replicate 446 0 @ [0, 0, 0, 0, t, 0, 0, 0, 10, 0, 0, 0, 20, 0, 0, 0] @ replicate 48 0 @ [0x55, 0xaa]),
     read_cnt = 0, write_cnt = 0\<rparr>, part_nr = 0, found = [], allocs = 0, alloc_ok = (\<lambda>_. True)\<rparr>"

lemma demo_table:
  "table_signature (medium (device (demo_disk t)) 0) = 0xaa55"
  "table_entries (medium (device (demo_disk t)) 0) =
    \<lparr>bootable = 0, start_chs = [0, 0, 0], e_type = t, end_chs = [0, 0, 0], e_offset = 10, e_size = 20\<rparr> #
    (let z = \<lparr>bootable = 0, start_chs = [0, 0, 0], e_type = 0, end_chs = [0, 0, 0], e_offset = 0, e_size = 0\<rparr> in [z, z, z])"
  by (simp_all add: demo_disk_def table_signature_def table_entries_def entry_at_def slice_def le_word_def
    nth_append upt_rec Let_def) (simp add: eval_nat_numeral)

lemma demo_disk_simps:
  "alloc_ok (demo_disk t) k" "b_size (device (demo_disk t)) = 100" "found (demo_disk t) = []"
  by (simp_all add: demo_disk_def)

lemma demo_partitions:
  "map (\<lambda>p. (p_nr p, p_role p, p_start p, p_sectors p))
    (partitions_of (device (demo_disk 0x21)) 0 (table_entries (medium (device (demo_disk 0x21)) 0))) = [(1, BLOCK_FILESYS, 10, 20)]"
  unfolding demo_table(2) by (simp add: demo_disk_simps Let_def is_empty_entry_def partitions_of_def the_partition_def fits_disk_def)

theorem partition_scan_result_witness:
  "partition_scan (demo_disk 0x05) = None \<and>
   (\<exists>st'. partition_scan (demo_disk 0x21) = Some st' \<and> map (\<lambda>p. (p_nr p, p_role p, p_start p, p_sectors p)) (found st') =
     [(1, BLOCK_FILESYS, 10, 20)])"
proof
  note R = partition_scan_result [OF demo_table(1)]
  show "partition_scan (demo_disk 0x05) = None"
    using R [of "0x05"] unfolding demo_table(2)
    by (simp add: demo_disk_simps Let_def is_extended_def is_empty_entry_def)
  have "\<forall>e \<in> set (table_entries (medium (device (demo_disk 0x21)) 0)). \<not> is_extended e"
    unfolding demo_table(2) by (simp add: Let_def is_extended_def)
  then show "\<exists>st'. partition_scan (demo_disk 0x21) = Some st' \<and> map (\<lambda>p. (p_nr p, p_role p, p_start p, p_sectors p)) (found st') =
     [(1, BLOCK_FILESYS, 10, 20)]"
    using R [of "0x21"] demo_partitions by (auto simp: demo_disk_simps)
qed

text \<open>C29: Whatever the partition tables contain, if the scan of a device returns, every partition that it registers
  has a sector and lies within the device, so that the driver of the partition never reads or writes a sector
  beyond the end of the device as long as the sector is one of the partition.\<close>

theorem partition_within:
  assumes "partition_scan st = Some st'" and "found st = []"
  shows "b_size (device st') = b_size (device st) \<and> (\<forall>p \<in> set (found st'). p_sectors p \<noteq> 0 \<and>
    unat (p_start p) + unat (p_sectors p) \<le> unat (b_size (device st)) \<and>
    (\<forall>s < p_sectors p. \<exists>d. partition_read p s (device st') = Some (medium (device st) (p_start p + s), d)))"
proof -
  obtain t s0 where r: "read_table 0 (st\<lparr>part_nr := 0\<rparr>) = Some (t, s0)"
    "(case t of None \<Rightarrow> Some s0 | Some es \<Rightarrow> read_entries 0 0 es s0) = Some st'"
    using assms(1) by (auto simp: partition_scan_def read_partition_table_def bind_eq_Some_conv)
  have "adds s0 st'" using r(2) adds_refl read_entries_adds by (cases t) auto
  then have a: "adds (st\<lparr>part_nr := 0\<rparr>) st'" using read_table_adds [OF r(1)] adds_trans by blast
  have sz: "b_size (device st') = b_size (device st)" and md: "medium (device st') = medium (device st)"
    using a by (simp_all add: adds_def same_disk_def)
  have "\<exists>d. partition_read p s (device st') = Some (medium (device st) (p_start p + s), d)"
    if p: "p \<in> set (found st')" "s < p_sectors p" for p s
  proof -
    have f: "fits_disk (b_size (device st)) (p_start p) (p_sectors p)" using a p(1) assms(2) by (auto simp: adds_def)
    then have "unat (p_start p) + unat s < unat (b_size (device st))" using p(2) by (simp add: fits_disk_def word_less_nat_alt)
    moreover then have "unat (p_start p + s) = unat (p_start p) + unat s"
      using unsigned_less [of "b_size (device st)", where 'a = nat] by (simp add: unat_word_ariths)
    ultimately have "\<not> p_start p + s \<ge> b_size (device st')" using sz by (simp add: word_le_nat_alt)
    then show ?thesis by (simp add: partition_read_def block_read_def check_sector_def md)
  qed
  then show ?thesis using a assms(2) sz by (auto simp: adds_def fits_disk_def)
qed

lemma demo_scan: "\<exists>st'. partition_scan (demo_disk 0x21) = Some st' \<and> found st' \<noteq> []"
proof -
  let ?e = "\<lparr>bootable = 0, start_chs = [0, 0, 0], e_type = 0x21, end_chs = [0, 0, 0], e_offset = 10, e_size = 20\<rparr>"
  let ?d = "(device (demo_disk 0x21))\<lparr>read_cnt := 1\<rparr>"
  have t: "read_table 0 ((demo_disk 0x21)\<lparr>part_nr := 0\<rparr>) =
    Some (Some (table_entries (medium (device (demo_disk 0x21)) 0)), (demo_disk 0x21)\<lparr>allocs := 1, device := ?d\<rparr>)"
    using demo_table(1) [of "0x21"]
    by (simp add: read_table_def partition_malloc_def block_read_def check_sector_def block_size_def demo_disk_def Let_def)
  let ?s = "(demo_disk 0x21)\<lparr>allocs := 1, device := ?d\<rparr>"
  have "\<exists>k. read_entries 0 0 (table_entries (medium (device (demo_disk 0x21)) 0)) ?s = Some (?s\<lparr>
    part_nr := part_nr ?s + int (length (numbered (part_nr ?s) (table_entries (medium (device (demo_disk 0x21)) 0)))),
    found := found ?s @ partitions_of (device ?s) (part_nr ?s) (table_entries (medium (device (demo_disk 0x21)) 0)), allocs := k\<rparr>)"
    unfolding demo_table(2) by (rule read_primary) (simp_all add: demo_disk_def Let_def is_extended_def)
  then show ?thesis using t demo_partitions
    by (auto simp: partition_scan_def read_partition_table_def partitions_of_def demo_disk_def)
qed

theorem partition_within_witness:
  "\<exists>st'. partition_scan (demo_disk 0x21) = Some st' \<and> found st' \<noteq> [] \<and>
    (\<forall>p \<in> set (found st'). unat (p_start p) + unat (p_sectors p) \<le> 100)"
proof -
  obtain st' where s: "partition_scan (demo_disk 0x21) = Some st'" "found st' \<noteq> []" using demo_scan by blast
  from partition_within [OF s(1) demo_disk_simps(3)] show ?thesis using s by (auto simp: demo_disk_simps)
qed

end
