(* ===== verification/Host_Library.thy ===== *)
theory Host_Library
  imports List_Heap Bitmap
begin

text \<open>
  What \<^verbatim>\<open>pintos0-2\<close> adds to its copies of the list, bitmap and hash table libraries: exchanging and shuffling
  the data of list items, growing a bitmap, and a second hash function.  The data of the item at an address is a
  map beside the heap of links; \<open>rnd k\<close> is what the \<open>k\<close>-th call of \<^verbatim>\<open>rand\<close> returns, which is never negative.
\<close>

section \<open>Shuffling a list\<close>

type_synonym items = "ptr \<Rightarrow> int"

definition list_swap :: "lheap \<Rightarrow> ptr \<Rightarrow> ptr \<Rightarrow> items \<Rightarrow> items option" where
  "list_swap h a b d = do {
     chk (is_interior h a \<and> is_interior h b);
     let temp_data = d a;
     let d = d(a := d b);
     Some (d(b := temp_data)) }"

text \<open>The inner loop after \<open>cnt\<close> turns.\<close>

primrec walk_to :: "nat \<Rightarrow> nat \<Rightarrow> lheap \<Rightarrow> ptr \<Rightarrow> ptr \<Rightarrow> items \<Rightarrow> (ptr \<times> items) option" where
  "walk_to 0 random_index h l e d = do { ee \<leftarrow> list_begin h l; Some (ee, d) }"
| "walk_to (Suc cnt) random_index h l e d = do {
     (ee, d) \<leftarrow> walk_to cnt random_index h l e d;
     ee \<leftarrow> list_next h ee;
     d \<leftarrow> (if int cnt = int random_index - 1 then list_swap h e ee d else Some d);
     Some (ee, d) }"

partial_function (option) shuffle_loop :: "(nat \<Rightarrow> nat) \<Rightarrow> nat \<Rightarrow> nat \<Rightarrow> lheap \<Rightarrow> ptr \<Rightarrow> ptr \<Rightarrow> items \<Rightarrow> items option" where
  "shuffle_loop rnd k size_of_list h l e d = do {
     en \<leftarrow> list_end l;
     if e = en then Some d
     else do {
       let random_index = rnd k mod size_of_list;
       (ee, d) \<leftarrow> walk_to random_index random_index h l e d;
       e \<leftarrow> list_next h e;
       shuffle_loop rnd (Suc k) size_of_list h l e d } }"

definition list_shuffle :: "(nat \<Rightarrow> nat) \<Rightarrow> lheap \<Rightarrow> ptr \<Rightarrow> items \<Rightarrow> items option" where
  "list_shuffle rnd h l d = do {
     chk (l \<noteq> NULL);
     starting_pointer \<leftarrow> list_begin h l;
     en \<leftarrow> list_end l;
     if starting_pointer \<noteq> en
     then do {
       n \<leftarrow> list_size h l;
       let size_of_list = nat (sint n);
       shuffle_loop rnd 0 size_of_list h l starting_pointer d }
     else Some d }"

definition my_list_less_func :: "items \<Rightarrow> ptr \<Rightarrow> ptr \<Rightarrow> bool" where
  "my_list_less_func d a b \<longleftrightarrow> d a < d b"

lemma interior_member: "lrep h l xs \<Longrightarrow> x \<in> set xs \<Longrightarrow> is_interior h x"
  using lrep_kinds(3) [of h l] split_list [of x xs] by fastforce

lemma cursor_nth: "n < length xs \<Longrightarrow> cursor l (drop n xs) = xs ! n"
  by (metis Cons_nth_drop_Suc cursor.simps(2))

lemma next_nth: "lrep h l xs \<Longrightarrow> n < length xs \<Longrightarrow> list_next h (xs ! n) = Some (cursor l (drop (Suc n) xs))"
  by (metis id_take_nth_drop list_next_rep)

lemma walk_to_ok:
  assumes r: "lrep h l xs" and e: "e \<in> set xs" and i: "i < length xs"
  shows "n \<le> i \<Longrightarrow> walk_to n i h l e d = Some (xs ! n, if n = i \<and> 0 < i then d(e := d (xs ! i), xs ! i := d e) else d)"
proof (induction n)
  case 0
  have "cursor l xs = xs ! 0" using i by (cases xs) auto
  then show ?case using list_begin_rep [OF r] by auto
next
  case (Suc n)
  have "list_next h (xs ! n) = Some (xs ! Suc n)" using next_nth [OF r, of n] cursor_nth [of "Suc n" xs] Suc.prems i by simp
  moreover have "is_interior h e" "is_interior h (xs ! Suc n)" using interior_member [OF r] e Suc.prems i by simp_all
  moreover have "int n = int i - 1 \<longleftrightarrow> Suc n = i" by linarith
  ultimately show ?case using Suc by (auto simp: list_swap_def)
qed

definition permuted :: "ptr list \<Rightarrow> items \<Rightarrow> items \<Rightarrow> bool" where
  "permuted xs d d' \<longleftrightarrow> mset (map d' xs) = mset (map d xs) \<and> (\<forall>p. p \<notin> set xs \<longrightarrow> d' p = d p)"

lemma permuted_swap:
  assumes "distinct xs" "a \<in> set xs" "b \<in> set xs"
  shows "permuted xs d (d(a := d b, b := d a))"
proof -
  obtain i j where i: "i < length xs" "a = xs ! i" and j: "j < length xs" "b = xs ! j"
    using assms(2,3) by (auto simp: in_set_conv_nth)
  have "map (d(a := d b, b := d a)) xs = (map d xs)[j := map d xs ! i, i := map d xs ! j]"
    by (rule nth_equalityI) (use i j assms(1) in \<open>auto simp: nth_list_update nth_eq_iff_index_eq\<close>)
  then have "mset (map (d(a := d b, b := d a)) xs) = mset (map d xs)" using i(1) j(1) by (simp only: mset_swap length_map)
  then show ?thesis using assms(2,3) by (auto simp: permuted_def)
qed

lemma permuted_trans: "permuted xs a b \<Longrightarrow> permuted xs b c \<Longrightarrow> permuted xs a c"
  by (simp add: permuted_def)

lemma shuffle_loop_ok:
  assumes r: "lrep h l xs"
  shows "xs = as @ bs \<Longrightarrow> \<exists>d'. shuffle_loop rnd k (length xs) h l (cursor l bs) d = Some d' \<and> permuted xs d d'"
proof (induction bs arbitrary: as k d)
  case Nil
  then show ?case using list_end_rep [OF r] by (subst shuffle_loop.simps) (simp add: permuted_def)
next
  case (Cons b bs)
  let ?i = "rnd k mod length xs"
  have D: "distinct xs" using r by (simp add: lrep_def nodes_def)
  have b: "b \<in> set xs" "?i < length xs" using Cons.prems by simp_all
  let ?d = "if 0 < ?i then d(b := d (xs ! ?i), xs ! ?i := d b) else d"
  have w: "walk_to ?i ?i h l b d = Some (xs ! ?i, ?d)" using walk_to_ok [OF r b, of ?i d] by simp
  have p: "permuted xs d ?d" using permuted_swap [OF D b(1), of "xs ! ?i" d] b by (auto simp: permuted_def)
  have nx: "list_next h b = Some (cursor l bs)" using list_next_rep [of h l as b bs] r Cons.prems by simp
  have ne: "b \<noteq> list_tail_addr l" using r b(1) by (auto simp: lrep_def nodes_def)
  obtain d' where "shuffle_loop rnd (Suc k) (length xs) h l (cursor l bs) ?d = Some d'" "permuted xs ?d d'"
    using Cons.IH [of "as @ [b]" "Suc k" ?d] Cons.prems by auto
  then have "shuffle_loop rnd k (length xs) h l b d = Some d' \<and> permuted xs d d'"
    using list_end_rep [OF r] ne w nx permuted_trans [OF p] by (subst shuffle_loop.simps) (simp add: Let_def)
  then show ?case by auto
qed

section \<open>Growing a bitmap\<close>

text \<open>\<^verbatim>\<open>for (i = 0; i < default_size; i++)\<close>; \<open>n\<close> turns are left.\<close>

primrec copy_bits :: "nat \<Rightarrow> u32 \<Rightarrow> bitmap \<Rightarrow> bitmap option \<Rightarrow> bitmap option option" where
  "copy_bits 0 i old new = Some new"
| "copy_bits (Suc n) i old new = do {
     t \<leftarrow> bitmap_test old i;
     new \<leftarrow> (if t then do { c \<leftarrow> new; c \<leftarrow> bitmap_mark c i; Some (Some c) } else Some new);
     copy_bits n (i + 1) old new }"

text \<open>\<open>hdr\<close> and \<open>alloc\<close> are the outcomes of \<^verbatim>\<open>malloc\<close> in \<^verbatim>\<open>bitmap_create\<close>, whose result is not tested:
  marking a bit of a null bitmap is a fault.\<close>

definition bitmap_expand :: "bool \<Rightarrow> (u32 \<Rightarrow> u32 list option) \<Rightarrow> bitmap \<Rightarrow> u32 \<Rightarrow> bitmap option option" where
  "bitmap_expand hdr alloc b n = do {
     let default_size = bit_cnt b;
     creation_bitmap \<leftarrow> bitmap_create hdr alloc (n + default_size);
     copy_bits (nat (sint default_size)) 0 b creation_bitmap }"

lemma copy_bits_null:
  assumes old: "bm_ok old"
  shows "unat i + n = unat (bit_cnt old) \<Longrightarrow>
    copy_bits n i old None = (if True \<in> set (drop (unat i) (bm_abs old)) then None else Some None)"
proof (induction n arbitrary: i)
  case (Suc n)
  have i: "unat i < unat (bit_cnt old)" using Suc.prems by simp
  have "drop (unat i) (bm_abs old) = bm_abs old ! unat i # drop (unat (i + 1)) (bm_abs old)"
    using i unfolding unat_inc [OF i] by (metis Cons_nth_drop_Suc length_bm_abs)
  moreover have "bitmap_test old i = Some (bm_abs old ! unat i)" using bitmap_test_ok [OF old, of i] i by simp
  ultimately show ?case using Suc.IH [of "i + 1"] Suc.prems unat_inc [OF i] by (auto simp del: nth_bm_abs)
qed simp

lemma copy_bits_ok:
  assumes old: "bm_ok old" "unat (bit_cnt old) < 2 ^ 31"
  shows "bm_ok new \<Longrightarrow> unat i + n = unat (bit_cnt old) \<Longrightarrow> unat (bit_cnt old) \<le> unat (bit_cnt new) \<Longrightarrow>
    bm_abs new = take (unat i) (bm_abs old) @ replicate (unat (bit_cnt new) - unat i) False \<Longrightarrow>
    \<exists>new'. copy_bits n i old (Some new) = Some (Some new') \<and> bm_ok new' \<and>
      bm_abs new' = bm_abs old @ replicate (unat (bit_cnt new) - unat (bit_cnt old)) False"
proof (induction n arbitrary: i new)
  case 0
  then show ?case by simp
next
  case (Suc n)
  have i: "unat i < unat (bit_cnt old)" "unat i < unat (bit_cnt new)" using Suc.prems by simp_all
  have i1: "unat (i + 1) = Suc (unat i)" by (rule unat_inc [OF i(1)])
  have t: "bitmap_test old i = Some (bm_abs old ! unat i)" using bitmap_test_ok [OF old(1), of i] i by simp
  obtain c where c: "(if bm_abs old ! unat i then do { c \<leftarrow> bitmap_mark new i; Some (Some c) } else Some (Some new)) = Some (Some c)" "bm_ok c" "bit_cnt c = bit_cnt new"
    "bm_abs c = (bm_abs new)[unat i := bm_abs old ! unat i]"
  proof (cases "bm_abs old ! unat i")
    case True
    then show ?thesis using bitmap_mark_ok [OF Suc.prems(1) i(2)] that by (auto simp: same_frame_def)
  next
    case False
    have "(bm_abs new)[unat i := False] = bm_abs new"
      unfolding Suc.prems(4) using i by (intro list_update_same_conv [THEN iffD2]) (auto simp: nth_append)
    then show ?thesis using False Suc.prems(1) that [of new] by simp
  qed
  have "bm_abs c = take (unat (i + 1)) (bm_abs old) @ replicate (unat (bit_cnt c) - unat (i + 1)) False"
  proof -
    have "unat (bit_cnt new) - unat i = Suc (unat (bit_cnt new) - Suc (unat i))" using i by simp
    then show ?thesis unfolding c(3,4) Suc.prems(4) i1 using i
      by (simp add: list_update_append take_Suc_conv_app_nth del: nth_bm_abs)
  qed
  then obtain new' where "copy_bits n (i + 1) old (Some c) = Some (Some new')" "bm_ok new'"
    "bm_abs new' = bm_abs old @ replicate (unat (bit_cnt c) - unat (bit_cnt old)) False"
    using Suc.IH [OF c(2), of "i + 1"] Suc.prems c(3) i1 by auto
  then show ?case using t c by (cases "bm_abs old ! unat i") (auto simp: bind_eq_Some_conv simp del: nth_bm_abs)
qed

section \<open>A second hash function\<close>

text \<open>\<open>hash\<close> is the value of the variable before its first assignment, which a negative argument reads.\<close>

definition hash_int_2 :: "u32 \<Rightarrow> int \<Rightarrow> u32" where
  "hash_int_2 hash i = (let hash = (if i \<ge> 0 then of_int i else hash * -1);
     div2_hash = drop_bit 1 hash;
     xor_hash = of_int i XOR div2_hash in xor_hash div 4)"

lemma hash_int_2_unset: "hash_int_2 0 (-1) \<noteq> hash_int_2 64 (-1)"
  by (simp add: hash_int_2_def Let_def)

section \<open>Properties\<close>

text \<open>C40: list_shuffle of a list of fewer than \<open>2 ^ 31\<close> items returns, whatever the random numbers are, fails no
  assertion, and permutes the data of the items: the items themselves stay in their order, and no other item
  changes.\<close>

theorem list_shuffle_permutes:
  assumes "lrep h l xs" and "length xs < 2 ^ 31"
  shows "\<exists>d'. list_shuffle rnd h l d = Some d' \<and> mset (map d' xs) = mset (map d xs) \<and> (\<forall>p. p \<notin> set xs \<longrightarrow> d' p = d p)"
proof -
  have l: "l \<noteq> NULL" using assms(1) by (auto simp: lrep_def nodes_def)
  have "nat (sint (of_nat (length xs) :: u32)) = length xs"
    using assms(2) unat_of_nat_small [of "length xs"] sint_small [of "of_nat (length xs)"] by simp
  then have "\<exists>d'. list_shuffle rnd h l d = Some d' \<and> permuted xs d d'"
    using shuffle_loop_ok [OF assms(1), of "[]" xs rnd 0 d] list_begin_rep [OF assms(1)] list_end_rep [OF assms(1)] l
      list_size_rep [OF assms(1)] by (auto simp: list_shuffle_def permuted_def)
  then show ?thesis by (simp add: permuted_def)
qed

text \<open>bitmap_expand keeps the bits and appends zeros; when memory runs out it returns a null pointer
  if no bit is set, and marks a bit of the null bitmap otherwise.\<close>

theorem bitmap_expand_appends:
  assumes "bm_ok b" and "unat (bit_cnt b) < 2 ^ 31" and "unat n + unat (bit_cnt b) + 31 < 2 ^ 32"
    and "\<forall>k e. alloc k = Some e \<longrightarrow> unat k \<le> 4 * length e"
  shows "if hdr \<and> (alloc (byte_cnt (n + bit_cnt b)) \<noteq> None \<or> n + bit_cnt b = 0)
    then \<exists>c. bitmap_expand hdr alloc b n = Some (Some c) \<and> bm_ok c \<and> bm_abs c = bm_abs b @ replicate (unat n) False
    else bitmap_expand hdr alloc b n = (if True \<in> set (bm_abs b) then None else Some None)"
proof -
  let ?n = "n + bit_cnt b"
  have un: "unat ?n = unat n + unat (bit_cnt b)" using assms(3) by (simp add: unat_word_ariths)
  have s: "nat (sint (bit_cnt b)) = unat (bit_cnt b)" using sint_small [OF assms(2)] by simp
  have lim: "unat ?n + 31 < 2 ^ 32" using assms(3) un by simp
  from bitmap_create_ok [where hdr = hdr, OF lim assms(4) [rule_format]] obtain r where r: "bitmap_create hdr alloc ?n = Some r"
    "r = None \<longleftrightarrow> \<not> hdr \<or> alloc (byte_cnt ?n) = None \<and> ?n \<noteq> 0"
    "\<And>c. r = Some c \<Longrightarrow> bm_ok c \<and> bm_abs c = replicate (unat ?n) False" by blast
  show ?thesis
  proof (cases r)
    case None
    have "copy_bits (unat (bit_cnt b)) 0 b None = (if True \<in> set (bm_abs b) then None else Some None)"
      using copy_bits_null [OF assms(1), of 0 "unat (bit_cnt b)"] by simp
    then show ?thesis using None r(1,2) s by (auto simp: bitmap_expand_def Let_def)
  next
    case (Some c)
    have c: "bm_ok c" "bm_abs c = replicate (unat ?n) False" using r(3) [OF Some] by simp_all
    have cnt: "unat (bit_cnt c) = unat ?n" using arg_cong [OF c(2), of length] by simp
    obtain c' where "copy_bits (unat (bit_cnt b)) 0 b (Some c) = Some (Some c')" "bm_ok c'"
      "bm_abs c' = bm_abs b @ replicate (unat (bit_cnt c) - unat (bit_cnt b)) False"
      using copy_bits_ok [OF assms(1,2) c(1), of 0 "unat (bit_cnt b)"] cnt un c(2) by auto
    then show ?thesis using Some r(1,2) s cnt un by (auto simp: bitmap_expand_def Let_def)
  qed
qed


text \<open>A list with two items, at 8 and 24, and a bitmap of three bits.\<close>

definition demo_items :: lheap where
  "demo_items = \<lparr>prev_of = (\<lambda>a. if a = 8 then 100 else if a = 24 then 8 else if a = 108 then 24 else 0),
     next_of = (\<lambda>a. if a = 100 then 8 else if a = 8 then 24 else if a = 24 then 108 else 0)\<rparr>"

theorem list_shuffle_permutes_witness:
  "\<exists>d'. list_shuffle (\<lambda>k. k + 1) demo_items 100 (\<lambda>p. if p = 8 then 1 else 2) = Some d' \<and> {#d' 8, d' 24#} = {#1, 2#}"
proof -
  have "lrep demo_items 100 [8, 24]"
    by (simp add: lrep_def nodes_def demo_items_def list_tail_addr_def)
  from list_shuffle_permutes [OF this, of "\<lambda>k. k + 1" "\<lambda>p. if p = 8 then 1 else 2"] show ?thesis by auto
qed

theorem bitmap_expand_appends_witness:
  "\<exists>c. bitmap_expand True (\<lambda>k. if k = 4 then Some [0] else None) \<lparr>bit_cnt = 3, bits = [5]\<rparr> 2 = Some (Some c) \<and> bm_abs c = [True, False, True, False, False]"
proof -
  have e: "byte_cnt 5 = 4" by (simp add: byte_cnt_def elem_cnt_def DIV_ROUND_UP_def ELEM_BITS_def)
  have r: "replicate 2 False = [False, False]" by (simp add: numeral_2_eq_2)
  have b: "bm_ok \<lparr>bit_cnt = 3, bits = [5]\<rparr>" "unat (bit_cnt \<lparr>bit_cnt = 3, bits = [5]\<rparr>) < 2 ^ 31"
    "unat (2 :: u32) + unat (bit_cnt \<lparr>bit_cnt = 3, bits = [5]\<rparr>) + 31 < 2 ^ 32" by (simp_all add: bm_ok_def)
  have a: "bm_abs \<lparr>bit_cnt = 3, bits = [5]\<rparr> = [True, False, True]"
    by (simp add: bm_abs_def bit_at_def upt_rec bit_numeral_rec)
  have al: "\<forall>k e. (if k = 4 then Some [0 :: u32] else None) = Some e \<longrightarrow> unat (k :: u32) \<le> 4 * length e"
    by (auto split: if_splits)
  from bitmap_expand_appends [where hdr = True, OF b al] show ?thesis by (auto simp: a e r)
qed

end
