(* ===== verification/Spec2Isabelle.thy ===== *)
theory Spec2Isabelle
  imports List_Sort Kernel_Props Arithmetic64 Bitmap Hash Vm_Page Stdio Palloc Rc4_Random Descriptors Process_Load Malloc Intq Partition Host_Library
begin

text \<open>
  The Pintos kernel of this repository (\<^verbatim>\<open>src/pintos/src\<close>): threads and their
  synchronisation, memory, the file system, user processes, and the C library below them. A file of the kernel
  is modelled by the theory named below; a C function is a definition of the same name, with a suffix or prefix
  where the name is taken (\<^verbatim>\<open>read\<close> is \<open>sys_read\<close>,
  \<^verbatim>\<open>lookup\<close> is \<open>dir_search\<close>).

  Conventions, in \<open>Prelude\<close>. A machine word is a \<^verbatim>\<open>32 word\<close> or
  \<^verbatim>\<open>64 word\<close> and wraps; an \<^verbatim>\<open>int\<close> is an integer whose overflow
  is a fault (\<open>s32\<close>). A failing \<^verbatim>\<open>ASSERT\<close>, a panic, an access outside an
  array or through a null or freed pointer, and signed overflow are the result \<open>None\<close>; a function
  that the C code lets return has the result \<open>Some\<close>. A loop whose end is not evident is a
  \<^verbatim>\<open>partial_function (option)\<close>, so that \<open>None\<close> is also the value of a loop
  that never ends, and the theorems state that the result is \<open>Some\<close>. There is no fuel. State is
  passed explicitly, in a record per component.

  Library. \<open>List_Heap\<close>, \<open>Ordered\<close> and \<open>List_Sort\<close> are
  \<^verbatim>\<open>lib/kernel/list.c\<close> on an explicit heap of links, with the merge sort;
  \<open>Hash\<close> is \<^verbatim>\<open>lib/kernel/hash.c\<close>, \<open>Bitmap\<close>
  \<^verbatim>\<open>lib/kernel/bitmap.c\<close>, \<open>Arithmetic64\<close>
  \<^verbatim>\<open>lib/arithmetic.c\<close>, \<open>Stdlib\<close> \<^verbatim>\<open>lib/stdlib.c\<close>,
  \<open>Strings\<close> \<^verbatim>\<open>lib/string.c\<close> on the bytes of memory, \<open>Stdio\<close>
  \<^verbatim>\<open>lib/stdio.c\<close> with its format interpreter, and \<open>Rc4_Random\<close>
  \<^verbatim>\<open>lib/random.c\<close>. Their theorems relate each operation to a function on lists, sets,
  maps or integers.

  Threads. \<open>Fixed_Point\<close>, \<open>Kernel_State\<close>, \<open>Scheduler\<close>,
  \<open>Synch\<close> and \<open>Threads\<close> are \<^verbatim>\<open>threads/fixed-point.h\<close>,
  \<^verbatim>\<open>threads/thread.c\<close>, \<^verbatim>\<open>threads/synch.c\<close> and the parts of
  \<^verbatim>\<open>devices/timer.c\<close> and \<^verbatim>\<open>threads/interrupt.c\<close> that they use.
  Threads are records known by their address, a thread that is switched out keeps the rest of its kernel call as
  a continuation, and the kernel is a transition system of commands of the running thread and clock ticks.
  \<open>Kernel_Inv\<close>, \<open>Kernel_Preserve\<close>, \<open>Kernel_Safe\<close> and
  \<open>Kernel_Reach\<close> prove an invariant of every reachable state; \<open>Kernel_Props\<close> derives
  the properties of scheduling, mutual exclusion, priority donation and the 4.4BSD scheduler.

  Memory. \<open>Palloc\<close> is \<^verbatim>\<open>threads/vaddr.h\<close> and
  \<^verbatim>\<open>threads/palloc.c\<close>, on the bytes of the machine; \<open>Pagedir\<close> is
  \<^verbatim>\<open>threads/pte.h\<close> and \<^verbatim>\<open>userprog/pagedir.c\<close> above it;
  \<open>Malloc\<close> is \<^verbatim>\<open>threads/malloc.c\<close> on the page allocator, with the free
  lists as lists of addresses and the headers of arenas as a map; \<open>Vm_Page\<close> is
  \<^verbatim>\<open>vm/page.c\<close> over \<open>Hash\<close>. \<open>Slots\<close> is the interface of an
  allocator of numbered slots, interpreted by the page pools (\<open>Palloc\<close>) and the free map of the
  disk (\<open>Free_Map\<close>): requests and releases in any order never give two clients the same slot.

  File system. \<open>Block_Device\<close> is \<^verbatim>\<open>devices/block.c\<close> with a medium of
  sectors behind each device; \<open>Inode\<close>, \<open>Free_Map\<close>, \<open>Files\<close>,
  \<open>Directory\<close> and \<open>Filesys\<close> are \<^verbatim>\<open>filesys/inode.c\<close>,
  \<^verbatim>\<open>free-map.c\<close>, \<^verbatim>\<open>file.c\<close>,
  \<^verbatim>\<open>directory.c\<close> and \<^verbatim>\<open>filesys.c\<close>. Open inodes, files and
  directories are objects known by their address in one state record, and a closed object is gone from it. The
  theorems relate files to the bytes on the device, the free map to the sets of sectors in use, and a directory
  to a map from names.

  Processes. \<open>Process_Wait\<close> cuts \<^verbatim>\<open>process_execute\<close>,
  \<^verbatim>\<open>start_process\<close>, \<^verbatim>\<open>process_wait\<close> and
  \<^verbatim>\<open>process_exit\<close> of \<^verbatim>\<open>userprog/process.c\<close> into the steps
  between which the scheduler can switch, with any number of children. \<open>Syscall\<close> is
  \<^verbatim>\<open>userprog/syscall.c\<close> and \<^verbatim>\<open>userprog/exception.c\<close> over the
  file system, with the user's memory as a partial map; \<open>Descriptors\<close> proves the invariant of the
  descriptor table through every call.

  \<open>Process_Load\<close> is \<^verbatim>\<open>load\<close> of \<^verbatim>\<open>process.c\<close>: the
  words of the command line, the ELF headers, the segments as entries of the supplemental page table, and the
  initial stack.

  Devices. \<open>Intq\<close> is the ring buffer \<^verbatim>\<open>devices/intq.c\<close> and the keyboard
  buffer \<^verbatim>\<open>devices/input.c\<close> above it. \<open>Partition\<close> is
  \<^verbatim>\<open>devices/partition.c\<close>, on \<open>Block_Device\<close>: the recursive scan of
  partition tables, with \<open>None\<close> for a scan that does not return.

  Host programs. \<open>Host_Library\<close> holds what \<^verbatim>\<open>src/pintos0-2\<close> adds to its
  copies of the library: \<^verbatim>\<open>list_shuffle\<close>, \<^verbatim>\<open>bitmap_expand\<close> and
  \<^verbatim>\<open>hash_int_2\<close>.

  Parameters. The outcome of \<^verbatim>\<open>malloc\<close> in the file system, the hash table and the
  partition scan, the random seed and the outcome of \<^verbatim>\<open>thread_create\<close> in a system call
  are arguments or fields of the state, and the theorems hold for every outcome. The bytes behind a device are
  its medium.

  Not modelled: the drivers of the hardware (\<^verbatim>\<open>devices/ide.c\<close>,
  \<^verbatim>\<open>kbd.c\<close>, \<^verbatim>\<open>serial.c\<close>, \<^verbatim>\<open>vga.c\<close>,
  \<^verbatim>\<open>pit.c\<close>, \<^verbatim>\<open>rtc.c\<close>, \<^verbatim>\<open>speaker.c\<close>), the
  interrupt controller, the segments, start-up and the context switch in assembly, which act on ports and
  registers; the console, back traces and the printed diagnostics; the registration of handlers; the user
  library's stubs, \<^verbatim>\<open>lib/ustar.c\<close> (archives of the command line actions), the command
  interpreter \<^verbatim>\<open>pintos0-2/main.c\<close>, the tests, the examples and the host's utilities.
\<close>

end
